(* ===== verification/Prelude.thy ===== *)
theory Prelude
  imports Main "HOL-Library.Word" "HOL-Library.Monad_Syntax"
begin

text \<open>
  The shared vocabulary of the development: the C integer types, the memory accesses of the
  code as partial operations, and the generic lemmas on lists, options, words and circular
  distances that the component theories use.

  A C function that may run into undefined behaviour or fail an \<open>assert\<close> is a function
  into \<open>'a option\<close>: \<open>None\<close> is the fault, and a theorem that an operation is
  \<open>Some r\<close> says both that it runs without a fault and that it returns \<open>r\<close>.
  C arrays are lists, read and written by \<open>arr_get\<close> and \<open>arr_set\<close>, which fault
  outside the bounds. \<open>unsigned\<close> and the fixed width unsigned types are words;
  \<open>int\<close> and \<open>int64_t\<close> are \<open>int\<close>, with their range checked or their
  wrap-around written out where the code can leave it.
\<close>

section \<open>Types and memory accesses\<close>

type_synonym u8 = "8 word"
type_synonym u16 = "16 word"
type_synonym u32 = "32 word"
type_synonym u64 = "64 word"
type_synonym vigor_time = int

named_theorems run_simps "rules that execute the model's memory accesses"
named_theorems cdist_simps "rules for circular distances"

definition arr_get :: "'a list \<Rightarrow> int \<Rightarrow> 'a option" where
  "arr_get xs i = (if 0 \<le> i \<and> i < int (length xs) then Some (xs ! nat i) else None)"

definition arr_set :: "'a list \<Rightarrow> int \<Rightarrow> 'a \<Rightarrow> 'a list option" where
  "arr_set xs i v = (if 0 \<le> i \<and> i < int (length xs) then Some (xs[nat i := v]) else None)"

text \<open>\<open>assert\<close>: the run stops when the condition is false.\<close>

definition cassert :: "bool \<Rightarrow> unit option" where
  "cassert b = (if b then Some () else None)"

text \<open>Signed 32 bit arithmetic, where leaving the range is undefined behaviour.\<close>

definition s32 :: "int \<Rightarrow> int option" where
  "s32 x = (if - (2 ^ 31) \<le> x \<and> x < 2 ^ 31 then Some x else None)"

text \<open>Signed 64 bit arithmetic.\<close>

definition s64 :: "int \<Rightarrow> int option" where
  "s64 x = (if - (2 ^ 63) \<le> x \<and> x < 2 ^ 63 then Some x else None)"

text \<open>Conversion of a mathematical value to \<open>int64_t\<close>, which wraps around.\<close>

definition s64_wrap :: "int \<Rightarrow> int" where
  "s64_wrap x = sint (word_of_int x :: u64)"

section \<open>Executing the accesses\<close>

lemma arr_get_nth [run_simps]: "i < length xs \<Longrightarrow> arr_get xs (int i) = Some (xs ! i)"
  by (simp add: arr_get_def)

lemma arr_set_nth [run_simps]: "i < length xs \<Longrightarrow> arr_set xs (int i) v = Some (xs[i := v])"
  by (simp add: arr_set_def)

lemma arr_get_uint [run_simps]: "unat i < length xs \<Longrightarrow> arr_get xs (uint i) = Some (xs ! unat i)"
  by (metis arr_get_nth of_nat_unat)

lemma arr_set_uint [run_simps]:
  "unat i < length xs \<Longrightarrow> arr_set xs (uint i) v = Some (xs[unat i := v])"
  by (metis arr_set_nth of_nat_unat)

lemma arr_get_Some_iff: "arr_get xs i = Some x \<longleftrightarrow> 0 \<le> i \<and> nat i < length xs \<and> x = xs ! nat i"
  by (auto simp: arr_get_def)

lemma arr_get_None_iff: "arr_get xs i = None \<longleftrightarrow> i < 0 \<or> int (length xs) \<le> i"
  by (auto simp: arr_get_def)

lemma arr_set_Some_iff:
  "arr_set xs i v = Some ys \<longleftrightarrow> 0 \<le> i \<and> nat i < length xs \<and> ys = xs[nat i := v]"
  by (auto simp: arr_set_def)

lemma arr_get_set:
  "arr_set xs i v = Some ys \<Longrightarrow> arr_get ys j = (if i = j then Some v else arr_get xs j)"
  by (auto simp: arr_set_def arr_get_def nth_list_update split: if_splits)

lemma cassert_True [run_simps]: "b \<Longrightarrow> cassert b = Some ()"
  by (simp add: cassert_def)

lemma s32_in_range [run_simps]: "- (2 ^ 31) \<le> x \<Longrightarrow> x < 2 ^ 31 \<Longrightarrow> s32 x = Some x"
  by (simp add: s32_def)

lemma s32_Some_iff: "s32 x = Some y \<longleftrightarrow> y = x \<and> - (2 ^ 31) \<le> x \<and> x < 2 ^ 31"
  by (auto simp: s32_def)

lemma s64_wrap_id: "- (2 ^ 63) \<le> x \<Longrightarrow> x < 2 ^ 63 \<Longrightarrow> s64_wrap x = x"
  by (simp add: s64_wrap_def sint_sbintrunc' signed_take_bit_int_eq_self)

section \<open>Words\<close>

lemma unat_Suc_less: "i < n \<Longrightarrow> unat (i + 1) = Suc (unat (i :: 'a::len word))"
  by unat_arith

lemma unat_of_nat_small: "n < 2 ^ LENGTH('a) \<Longrightarrow> unat (of_nat n :: 'a::len word) = n"
  by (simp add: unat_of_nat)

lemma word_of_nat_unat: "(of_nat (unat w) :: 'a::len word) = w"
  by (simp add: of_nat_unat ucast_id)

lemma uint_eq_int_unat: "uint w = int (unat w)"
  by simp

lemma sint_eq_unat_small:
  assumes "unat (w :: u32) < 2 ^ 31"
  shows "sint w = int (unat w)"
proof -
  have "uint w < 2 ^ 31"
    using assms by (metis of_nat_unat of_nat_less_iff of_nat_numeral of_nat_power)
  moreover have "- (2 ^ 31) \<le> uint w"
    by (rule order_trans [OF _ uint_ge_0]) simp
  ultimately have "signed_take_bit 31 (uint w) = uint w"
    by (intro signed_take_bit_int_eq_self)
  then show ?thesis by (simp add: sint_uint)
qed

section \<open>Circular distance\<close>

lemma mod_less_bound: "0 < c \<Longrightarrow> c \<le> b \<Longrightarrow> a mod c < (b :: nat)"
  by (rule less_le_trans [OF mod_less_divisor])

text \<open>
  \<open>cdist c s j\<close> is how many steps a probe that starts at slot \<open>s\<close> of a ring of
  \<open>c\<close> slots makes before it stands on slot \<open>j\<close>.
\<close>

definition cdist :: "nat \<Rightarrow> nat \<Rightarrow> nat \<Rightarrow> nat" where
  "cdist c s j = (if s \<le> j then j - s else j + c - s)"

lemma cdist_less: "s < c \<Longrightarrow> j < c \<Longrightarrow> cdist c s j < c"
  by (auto simp: cdist_def)

lemma cdist_slot [cdist_simps]:
  assumes "s < c" "d < c"
  shows "cdist c s ((s + d) mod c) = d"
proof (cases "s + d < c")
  case True
  then show ?thesis by (simp add: cdist_def)
next
  case False
  then have "(s + d) mod c = s + d - c"
    using assms by (simp add: mod_if)
  then show ?thesis
    using assms False by (simp add: cdist_def)
qed

lemma slot_cdist [cdist_simps]:
  assumes "s < c" "j < c"
  shows "(s + cdist c s j) mod c = j"
  using assms by (auto simp: cdist_def)

lemma cdist_inj: "s < c \<Longrightarrow> i < c \<Longrightarrow> j < c \<Longrightarrow> cdist c s i = cdist c s j \<longleftrightarrow> i = j"
  by (metis slot_cdist)

section \<open>Options and lists\<close>

lemma bind_Some_conv: "Option.bind m f = Some y \<longleftrightarrow> (\<exists>x. m = Some x \<and> f x = Some y)"
  by (cases m) auto

lemma map_upd_list_nth:
  "i < length xs \<Longrightarrow> map f (xs[i := v]) = (map f xs)[i := f v]"
  by (simp add: map_update)

end
