(* ===== verification/Map_Impl.thy ===== *)
theory Map_Impl
  imports Prelude
begin

text \<open>
  The open addressing hash table of \<open>libvig/verified/map-impl.c\<close>. The five arrays the
  functions are called with are the record \<open>htab\<close>; keys are pointers of an arbitrary type
  \<open>'p\<close>, compared by the function \<open>eq\<close> that the caller passes. Every function takes
  the probe reduction \<open>loop\<close> as its first argument, because \<open>map-impl-pow2.c\<close> is the
  same code over another \<open>loop\<close> (see the theory \<open>Map_Impl_Pow2\<close>).

  A slot is busy when its \<open>busybits\<close> entry is not 0. \<open>chns\<close> counts, for every slot,
  the busy keys whose probe path walks over that slot: a lookup stops at a slot with count 0.
  \<open>htab_wf\<close> states that, and the lemmas show that the lookups, insertions and removals of
  the code, run on a table that satisfies it, stay inside the arrays, never overflow an
  \<open>int\<close>, keep it, and act on the contents as the operations of a finite map.
\<close>

unbundle bit_operations_syntax

section \<open>The code\<close>

record 'p htab =
  busybits :: "int list"
  keyps :: "'p list"
  k_hashes :: "u32 list"
  chns :: "int list"
  vals :: "int list"

type_synonym probe = "u32 \<Rightarrow> u32 \<Rightarrow> u32 option"

definition loop :: probe where
  "loop k capacity =
     (if capacity = 0 then None
      else let g = k mod capacity in Some ((g + capacity) mod capacity))"

function find_key_loop ::
  "probe \<Rightarrow> 'p htab \<Rightarrow> 'p \<Rightarrow> ('p \<Rightarrow> 'p \<Rightarrow> bool) \<Rightarrow> u32 \<Rightarrow> u32 \<Rightarrow> u32 \<Rightarrow> u32 \<Rightarrow> int option" where
  "find_key_loop lp t keyp eq key_hash capacity start i =
     (if i < capacity then do {
        index \<leftarrow> lp (start + i) capacity;
        bb \<leftarrow> arr_get (busybits t) (uint index);
        kh \<leftarrow> arr_get (k_hashes t) (uint index);
        chn \<leftarrow> arr_get (chns t) (uint index);
        kp \<leftarrow> arr_get (keyps t) (uint index);
        if bb \<noteq> 0 \<and> kh = key_hash then
          (if eq kp keyp then Some (sint index)
           else find_key_loop lp t keyp eq key_hash capacity start (i + 1))
        else if chn = 0 then Some (- 1)
        else find_key_loop lp t keyp eq key_hash capacity start (i + 1)
      } else Some (- 1))"
  by pat_completeness auto
termination
  by (relation "measure (\<lambda>(lp, t, keyp, eq, key_hash, capacity, start, i). unat capacity - unat i)")
    (auto simp: unat_Suc_less word_less_nat_alt intro!: diff_less_mono2)

definition find_key ::
  "probe \<Rightarrow> 'p htab \<Rightarrow> 'p \<Rightarrow> ('p \<Rightarrow> 'p \<Rightarrow> bool) \<Rightarrow> u32 \<Rightarrow> u32 \<Rightarrow> int option" where
  "find_key lp t keyp eq key_hash capacity = do {
     start \<leftarrow> lp key_hash capacity;
     find_key_loop lp t keyp eq key_hash capacity start 0
   }"

function find_key_remove_chain_loop ::
  "probe \<Rightarrow> 'p htab \<Rightarrow> 'p \<Rightarrow> ('p \<Rightarrow> 'p \<Rightarrow> bool) \<Rightarrow> u32 \<Rightarrow> u32 \<Rightarrow> 'p \<Rightarrow> u32 \<Rightarrow> u32
   \<Rightarrow> (u32 \<times> 'p \<times> 'p htab) option" where
  "find_key_remove_chain_loop lp t keyp eq key_hash capacity keyp_out start i =
     (if i < capacity then do {
        index \<leftarrow> lp (start + i) capacity;
        bb \<leftarrow> arr_get (busybits t) (uint index);
        kh \<leftarrow> arr_get (k_hashes t) (uint index);
        chn \<leftarrow> arr_get (chns t) (uint index);
        kp \<leftarrow> arr_get (keyps t) (uint index);
        if bb \<noteq> 0 \<and> kh = key_hash \<and> eq kp keyp then do {
          bbs \<leftarrow> arr_set (busybits t) (uint index) 0;
          Some (index, kp, t\<lparr>busybits := bbs\<rparr>)
        } else do {
          chn' \<leftarrow> s32 (chn - 1);
          cs \<leftarrow> arr_set (chns t) (uint index) chn';
          find_key_remove_chain_loop lp (t\<lparr>chns := cs\<rparr>) keyp eq key_hash capacity keyp_out start (i + 1)
        }
      } else Some (- 1, keyp_out, t))"
  by pat_completeness auto
termination
  by (relation "measure (\<lambda>(lp, t, keyp, eq, key_hash, capacity, keyp_out, start, i).
        unat capacity - unat i)")
    (auto simp: unat_Suc_less word_less_nat_alt intro!: diff_less_mono2)

definition find_key_remove_chain ::
  "probe \<Rightarrow> 'p htab \<Rightarrow> 'p \<Rightarrow> ('p \<Rightarrow> 'p \<Rightarrow> bool) \<Rightarrow> u32 \<Rightarrow> u32 \<Rightarrow> 'p
   \<Rightarrow> (u32 \<times> 'p \<times> 'p htab) option" where
  "find_key_remove_chain lp t keyp eq key_hash capacity keyp_out = do {
     start \<leftarrow> lp key_hash capacity;
     find_key_remove_chain_loop lp t keyp eq key_hash capacity keyp_out start 0
   }"

function find_empty_loop ::
  "probe \<Rightarrow> 'p htab \<Rightarrow> u32 \<Rightarrow> u32 \<Rightarrow> u32 \<Rightarrow> (u32 \<times> 'p htab) option" where
  "find_empty_loop lp t start capacity i =
     (if i < capacity then do {
        index \<leftarrow> lp (start + i) capacity;
        bb \<leftarrow> arr_get (busybits t) (uint index);
        if 0 = bb then Some (index, t)
        else do {
          chn \<leftarrow> arr_get (chns t) (uint index);
          chn' \<leftarrow> s32 (chn + 1);
          cs \<leftarrow> arr_set (chns t) (uint index) chn';
          find_empty_loop lp (t\<lparr>chns := cs\<rparr>) start capacity (i + 1)
        }
      } else Some (- 1, t))"
  by pat_completeness auto
termination
  by (relation "measure (\<lambda>(lp, t, start, capacity, i). unat capacity - unat i)")
    (auto simp: unat_Suc_less word_less_nat_alt intro!: diff_less_mono2)

definition find_empty :: "probe \<Rightarrow> 'p htab \<Rightarrow> u32 \<Rightarrow> u32 \<Rightarrow> (u32 \<times> 'p htab) option" where
  "find_empty lp t start capacity = find_empty_loop lp t start capacity 0"

function map_impl_init_loop :: "'p htab \<Rightarrow> u32 \<Rightarrow> u32 \<Rightarrow> 'p htab option" where
  "map_impl_init_loop t capacity i =
     (if i < capacity then do {
        bbs \<leftarrow> arr_set (busybits t) (uint i) 0;
        cs \<leftarrow> arr_set (chns t) (uint i) 0;
        map_impl_init_loop (t\<lparr>busybits := bbs, chns := cs\<rparr>) capacity (i + 1)
      } else Some t)"
  by pat_completeness auto
termination
  by (relation "measure (\<lambda>(t, capacity, i). unat capacity - unat i)")
    (auto simp: unat_Suc_less word_less_nat_alt intro!: diff_less_mono2)

definition map_impl_init :: "'p htab \<Rightarrow> u32 \<Rightarrow> 'p htab option" where
  "map_impl_init t capacity = map_impl_init_loop t capacity 0"

definition map_impl_get ::
  "probe \<Rightarrow> 'p htab \<Rightarrow> 'p \<Rightarrow> ('p \<Rightarrow> 'p \<Rightarrow> bool) \<Rightarrow> u32 \<Rightarrow> int \<Rightarrow> u32 \<Rightarrow> (int \<times> int) option" where
  "map_impl_get lp t keyp eq hash value_out capacity = do {
     index \<leftarrow> find_key lp t keyp eq hash capacity;
     if - 1 = index then Some (0, value_out)
     else do {
       v \<leftarrow> arr_get (vals t) index;
       Some (1, v)
     }
   }"

definition map_impl_put ::
  "probe \<Rightarrow> 'p htab \<Rightarrow> 'p \<Rightarrow> u32 \<Rightarrow> int \<Rightarrow> u32 \<Rightarrow> 'p htab option" where
  "map_impl_put lp t keyp hash v capacity = do {
     start \<leftarrow> lp hash capacity;
     (index, t) \<leftarrow> find_empty lp t start capacity;
     bbs \<leftarrow> arr_set (busybits t) (uint index) 1;
     kps \<leftarrow> arr_set (keyps t) (uint index) keyp;
     khs \<leftarrow> arr_set (k_hashes t) (uint index) hash;
     vs \<leftarrow> arr_set (vals t) (uint index) v;
     Some (t\<lparr>busybits := bbs, keyps := kps, k_hashes := khs, vals := vs\<rparr>)
   }"

definition map_impl_erase ::
  "probe \<Rightarrow> 'p htab \<Rightarrow> 'p \<Rightarrow> ('p \<Rightarrow> 'p \<Rightarrow> bool) \<Rightarrow> u32 \<Rightarrow> u32 \<Rightarrow> 'p \<Rightarrow> ('p \<times> 'p htab) option" where
  "map_impl_erase lp t keyp eq hash capacity keyp_out = do {
     (index, keyp_out, t) \<leftarrow> find_key_remove_chain lp t keyp eq hash capacity keyp_out;
     Some (keyp_out, t)
   }"

function map_impl_size_loop :: "int list \<Rightarrow> u32 \<Rightarrow> u32 \<Rightarrow> u32 \<Rightarrow> u32 option" where
  "map_impl_size_loop bbs capacity i s =
     (if i < capacity then do {
        bb \<leftarrow> arr_get bbs (uint i);
        map_impl_size_loop bbs capacity (i + 1) (if bb \<noteq> 0 then s + 1 else s)
      } else Some s)"
  by pat_completeness auto
termination
  by (relation "measure (\<lambda>(bbs, capacity, i, s). unat capacity - unat i)")
    (auto simp: unat_Suc_less word_less_nat_alt intro!: diff_less_mono2)

definition map_impl_size :: "int list \<Rightarrow> u32 \<Rightarrow> u32 option" where
  "map_impl_size bbs capacity = map_impl_size_loop bbs capacity 0 0"

lemmas map_impl_loops =
  find_key_loop.simps find_key_remove_chain_loop.simps find_empty_loop.simps
  map_impl_init_loop.simps map_impl_size_loop.simps

declare map_impl_loops [simp del]


section \<open>Contents and well-formedness\<close>

definition busy_slots :: "'p htab \<Rightarrow> nat list" where
  "busy_slots t = filter (\<lambda>j. busybits t ! j \<noteq> 0) [0..<length (busybits t)]"

text \<open>
  The key in slot \<open>j\<close> crosses slot \<open>i\<close> when a probe that starts where the key's
  hash points stands on \<open>i\<close> before it stands on \<open>j\<close>.
\<close>

definition crosses :: "nat \<Rightarrow> 'p htab \<Rightarrow> nat \<Rightarrow> nat \<Rightarrow> bool" where
  "crosses c t j i \<longleftrightarrow>
     cdist c (unat (k_hashes t ! j) mod c) i < cdist c (unat (k_hashes t ! j) mod c) j"

text \<open>
  The memory \<open>kv\<close> gives the key a pointer stands for, and \<open>hsh\<close> the hash of a key.
\<close>

definition htab_wf :: "('p \<Rightarrow> 'k) \<Rightarrow> ('k \<Rightarrow> u32) \<Rightarrow> nat \<Rightarrow> 'p htab \<Rightarrow> bool" where
  "htab_wf kv hsh c t \<longleftrightarrow>
     0 < c \<and> 2 * c < 2 ^ 31 \<and>
     length (busybits t) = c \<and> length (keyps t) = c \<and> length (k_hashes t) = c \<and>
     length (chns t) = c \<and> length (vals t) = c \<and>
     (\<forall>j \<in> set (busy_slots t). k_hashes t ! j = hsh (kv (keyps t ! j))) \<and>
     distinct (map (\<lambda>j. kv (keyps t ! j)) (busy_slots t)) \<and>
     (\<forall>i \<in> set [0..<c]. chns t ! i = int (length (filter (\<lambda>j. crosses c t j i) (busy_slots t))))"

definition slot_of :: "('p \<Rightarrow> 'k) \<Rightarrow> 'p htab \<Rightarrow> 'k \<Rightarrow> nat option" where
  "slot_of kv t k = find (\<lambda>j. kv (keyps t ! j) = k) (busy_slots t)"

definition htab_map :: "('p \<Rightarrow> 'k) \<Rightarrow> 'p htab \<Rightarrow> 'k \<Rightarrow> int option" where
  "htab_map kv t = map_of (map (\<lambda>j. (kv (keyps t ! j), vals t ! j)) (busy_slots t))"

definition htab_addrs :: "('p \<Rightarrow> 'k) \<Rightarrow> 'p htab \<Rightarrow> 'k \<Rightarrow> 'p option" where
  "htab_addrs kv t = map_of (map (\<lambda>j. (kv (keyps t ! j), keyps t ! j)) (busy_slots t))"

lemma set_busy_slots: "set (busy_slots t) = {j. j < length (busybits t) \<and> busybits t ! j \<noteq> 0}"
  by (auto simp: busy_slots_def)

lemma distinct_busy_slots [simp]: "distinct (busy_slots t)"
  by (simp add: busy_slots_def)

lemma length_busy_slots: "length (busy_slots t) \<le> length (busybits t)"
  unfolding busy_slots_def by (metis length_filter_le length_upt diff_zero)

lemma map_of_map_find: "map_of (map (\<lambda>j. (f j, g j)) js) k = map_option g (find (\<lambda>j. f j = k) js)"
  by (induction js) auto

lemma htab_map_slot: "htab_map kv t k = map_option (\<lambda>j. vals t ! j) (slot_of kv t k)"
  by (simp add: htab_map_def slot_of_def map_of_map_find)

lemma htab_addrs_slot: "htab_addrs kv t k = map_option (\<lambda>j. keyps t ! j) (slot_of kv t k)"
  by (simp add: htab_addrs_def slot_of_def map_of_map_find)

lemma slot_of_None: "slot_of kv t k = None \<longleftrightarrow> (\<forall>j \<in> set (busy_slots t). kv (keyps t ! j) \<noteq> k)"
  by (auto simp: slot_of_def find_None_iff)

lemma find_Some_distinct:
  "distinct (map f js) \<Longrightarrow> find (\<lambda>j. f j = k) js = Some j \<longleftrightarrow> j \<in> set js \<and> f j = k"
  by (induction js) auto

lemma slot_of_Some:
  "distinct (map (\<lambda>j. kv (keyps t ! j)) (busy_slots t)) \<Longrightarrow>
   slot_of kv t k = Some j \<longleftrightarrow> j \<in> set (busy_slots t) \<and> kv (keyps t ! j) = k"
  unfolding slot_of_def by (rule find_Some_distinct)

lemma slot_of_less:
  assumes "htab_wf kv hsh c t" "slot_of kv t k = Some j"
  shows "j < c"
  using assms by (auto simp: htab_wf_def slot_of_Some set_busy_slots)

lemma slot_of_cdist_less:
  assumes "htab_wf kv hsh c t" "slot_of kv t k = Some j"
  shows "cdist c (unat (hsh k) mod c) j < c"
  using assms slot_of_less [OF assms] by (intro cdist_less) (auto simp: htab_wf_def)

text \<open>
  Where the count is 0, no key lies further along its probe path: the probe may stop.
\<close>

lemma chn_zero_no_key:
  assumes wf: "htab_wf kv hsh c t" and i: "i < c"
    and past: "\<And>j. slot_of kv t k = Some j \<Longrightarrow> i < cdist c (unat (hsh k) mod c) j"
    and chn: "chns t ! ((unat (hsh k) mod c + i) mod c) = 0"
  shows "slot_of kv t k = None"
proof (cases "slot_of kv t k")
  case (Some l)
  let ?s = "unat (hsh k) mod c"
  let ?j = "(?s + i) mod c"
  have c: "?s < c" "?j < c" using wf by (auto simp: htab_wf_def)
  have l: "l \<in> set (busy_slots t)" "k_hashes t ! l = hsh k"
    using Some wf by (auto simp: htab_wf_def slot_of_Some)
  have "crosses c t l ?j"
    using past [OF Some] l c i by (simp add: crosses_def cdist_slot)
  then have "filter (\<lambda>l. crosses c t l ?j) (busy_slots t) \<noteq> []"
    using l by (auto simp: filter_empty_conv)
  moreover have "chns t ! ?j = int (length (filter (\<lambda>l. crosses c t l ?j) (busy_slots t)))"
    using wf c by (simp add: htab_wf_def)
  ultimately show ?thesis using chn by simp
qed simp

section \<open>Lookup\<close>

text \<open>
  What the code needs of \<open>loop\<close>: on the capacities it is used with it is the remainder.
\<close>

locale probe_loop =
  fixes lp :: probe and okc :: "u32 \<Rightarrow> bool"
  assumes lp_mod: "okc capacity \<Longrightarrow> lp k capacity = Some (of_nat (unat k mod unat capacity))"
    and okc_small: "okc capacity \<Longrightarrow> 0 < unat capacity \<and> 2 * unat capacity < 2 ^ 31"
begin

lemma lp_start:
  assumes "okc capacity"
  obtains start where "lp k capacity = Some start" "unat start = unat k mod unat capacity"
proof
  show "lp k capacity = Some (of_nat (unat k mod unat capacity))"
    using assms by (rule lp_mod)
  have "unat k mod unat capacity < 2 ^ 32"
    using okc_small [OF assms] by (intro mod_less_bound) auto
  then show "unat (of_nat (unat k mod unat capacity) :: u32) = unat k mod unat capacity"
    by (simp add: unat_of_nat_small)
qed

lemma lp_slot:
  assumes "okc capacity" "unat start < unat capacity" "i < capacity"
  obtains index where "lp (start + i) capacity = Some index"
    "unat index = (unat start + unat i) mod unat capacity"
proof -
  have "unat start + unat i < 2 ^ 32"
    using assms okc_small [OF assms(1)] by (simp add: word_less_nat_alt)
  then have "unat (start + i) = unat start + unat i"
    by (simp add: unat_word_ariths)
  with lp_start [OF assms(1), of "start + i"] that show thesis by metis
qed

lemma find_key_loop_step:
  assumes okc: "okc capacity" and wf: "htab_wf kv hsh (unat capacity) t"
    and s: "unat start < unat capacity" and i: "i < capacity"
  defines "j \<equiv> (unat start + unat i) mod unat capacity"
  shows "find_key_loop lp t keyp eq h capacity start i =
     (if busybits t ! j \<noteq> 0 \<and> k_hashes t ! j = h then
        (if eq (keyps t ! j) keyp then Some (int j)
         else find_key_loop lp t keyp eq h capacity start (i + 1))
      else if chns t ! j = 0 then Some (- 1)
      else find_key_loop lp t keyp eq h capacity start (i + 1))"
proof -
  obtain index where index: "lp (start + i) capacity = Some index" "unat index = j"
    using lp_slot [OF okc s i] j_def by metis
  have "j < unat capacity" "j < 2 ^ 31"
    using okc_small [OF okc] unfolding j_def by (intro mod_less_bound; simp)+
  moreover from this have "sint index = int j"
    using index sint_eq_unat_small [of index] by simp
  ultimately show ?thesis
    using index i wf
    by (subst find_key_loop.simps) (auto simp: run_simps htab_wf_def)
qed

lemma find_key_loop_spec:
  assumes okc: "okc capacity" and wf: "htab_wf kv hsh (unat capacity) t"
    and eq: "\<And>p q. eq p q \<longleftrightarrow> kv p = kv q"
    and start: "unat start = unat (hsh (kv keyp)) mod unat capacity"
    and i: "unat i \<le> unat capacity"
    and past: "\<And>j. slot_of kv t (kv keyp) = Some j \<Longrightarrow> unat i \<le> cdist (unat capacity) (unat start) j"
  shows "find_key_loop lp t keyp eq (hsh (kv keyp)) capacity start i =
           Some (case slot_of kv t (kv keyp) of None \<Rightarrow> - 1 | Some j \<Rightarrow> int j)"
  using i past
proof (induction "unat capacity - unat i" arbitrary: i)
  case 0
  have "slot_of kv t (kv keyp) = None"
    using 0 slot_of_cdist_less [OF wf, of "kv keyp"] start by (cases "slot_of kv t (kv keyp)") force+
  moreover have "\<not> i < capacity" using 0 by (simp add: word_less_nat_alt)
  ultimately show ?case by (simp add: find_key_loop.simps)
next
  case (Suc n)
  let ?c = "unat capacity" and ?k = "kv keyp" and ?s = "unat start"
  let ?j = "(?s + unat i) mod ?c"
  have less: "i < capacity" using Suc.hyps(2) by (simp add: word_less_nat_alt)
  have s: "?s < ?c" using start okc_small [OF okc] by simp
  have some: "slot_of kv t ?k = Some ?j \<longleftrightarrow> busybits t ! ?j \<noteq> 0 \<and> kv (keyps t ! ?j) = ?k"
    using wf by (auto simp: htab_wf_def slot_of_Some set_busy_slots)
  show ?case
  proof (cases "slot_of kv t ?k = Some ?j")
    case True
    with some wf show ?thesis
      by (auto simp: find_key_loop_step [OF okc wf s less] eq htab_wf_def set_busy_slots)
  next
    case False
    then have past': "unat i < cdist ?c ?s j" if "slot_of kv t ?k = Some j" for j
      using that Suc.prems(2) [OF that] slot_of_less [OF wf that] s
      by (metis le_neq_implies_less slot_cdist)
    have "find_key_loop lp t keyp eq (hsh ?k) capacity start (i + 1) =
        Some (case slot_of kv t ?k of None \<Rightarrow> - 1 | Some j \<Rightarrow> int j)"
      using Suc.hyps(2) less past' by (intro Suc.hyps(1)) (auto simp: unat_Suc_less Suc_le_eq)
    moreover have "chns t ! ?j = 0 \<Longrightarrow> slot_of kv t ?k = None"
      using chn_zero_no_key [OF wf _ past' [unfolded start]] start less by (simp add: word_less_nat_alt)
    ultimately show ?thesis
      using False some by (auto simp: find_key_loop_step [OF okc wf s less] eq)
  qed
qed

lemma find_key_spec:
  assumes "okc capacity" "htab_wf kv hsh (unat capacity) t" "\<And>p q. eq p q \<longleftrightarrow> kv p = kv q"
  shows "find_key lp t keyp eq (hsh (kv keyp)) capacity =
           Some (case slot_of kv t (kv keyp) of None \<Rightarrow> - 1 | Some j \<Rightarrow> int j)"
proof -
  obtain start where start: "lp (hsh (kv keyp)) capacity = Some start"
    "unat start = unat (hsh (kv keyp)) mod unat capacity"
    using lp_start [OF assms(1)] .
  then show ?thesis
    using find_key_loop_spec [OF assms start(2), of 0] by (simp add: find_key_def)
qed

lemma map_impl_get_spec:
  assumes "okc capacity" "htab_wf kv hsh (unat capacity) t" "\<And>p q. eq p q \<longleftrightarrow> kv p = kv q"
  shows "map_impl_get lp t keyp eq (hsh (kv keyp)) v capacity =
           Some (case htab_map kv t (kv keyp) of None \<Rightarrow> (0, v) | Some w \<Rightarrow> (1, w))"
proof (cases "slot_of kv t (kv keyp)")
  case (Some j)
  then have "j < length (vals t)"
    using assms(2) by (auto simp: slot_of_Some htab_wf_def set_busy_slots)
  with Some show ?thesis
    using find_key_spec [OF assms] by (simp add: map_impl_get_def htab_map_slot run_simps)
qed (use find_key_spec [OF assms] in \<open>simp add: map_impl_get_def htab_map_slot\<close>)

end

section \<open>Insertion and removal on tables\<close>

text \<open>
  The counts after a probe that starts at \<open>s\<close> and adds \<open>\<delta>\<close> to the counts of the slots
  at the distances from \<open>lo\<close> up to \<open>hi\<close>.
\<close>

definition shift_chns :: "nat \<Rightarrow> nat \<Rightarrow> nat \<Rightarrow> nat \<Rightarrow> int \<Rightarrow> int list \<Rightarrow> int list" where
  "shift_chns c s lo hi \<delta> cs =
     map (\<lambda>x. cs ! x + (if lo \<le> cdist c s x \<and> cdist c s x < hi then \<delta> else 0)) [0..<c]"

lemma length_shift_chns [simp]: "length (shift_chns c s lo hi \<delta> cs) = c"
  by (simp add: shift_chns_def)

lemma nth_shift_chns [simp]:
  "x < c \<Longrightarrow> shift_chns c s lo hi \<delta> cs ! x =
     cs ! x + (if lo \<le> cdist c s x \<and> cdist c s x < hi then \<delta> else 0)"
  by (simp add: shift_chns_def)

lemma shift_chns_empty: "length cs = c \<Longrightarrow> shift_chns c s lo lo \<delta> cs = cs"
  by (auto intro!: nth_equalityI)

lemma shift_chns_step:
  assumes "s < c" "lo < hi" "hi \<le> c" "length cs = c"
  shows "shift_chns c s (Suc lo) hi \<delta> (cs[(s + lo) mod c := cs ! ((s + lo) mod c) + \<delta>]) =
         shift_chns c s lo hi \<delta> cs"
proof (rule nth_equalityI)
  fix x assume "x < length (shift_chns c s (Suc lo) hi \<delta> (cs[(s + lo) mod c := cs ! ((s + lo) mod c) + \<delta>]))"
  then have x: "x < c" by simp
  have "x = (s + lo) mod c \<longleftrightarrow> cdist c s x = lo"
    using assms x cdist_slot [of s c lo] slot_cdist [of s c x] by auto
  with assms x show "shift_chns c s (Suc lo) hi \<delta> (cs[(s + lo) mod c := cs ! ((s + lo) mod c) + \<delta>]) ! x =
      shift_chns c s lo hi \<delta> cs ! x"
    by (auto simp: nth_list_update)
qed simp

definition htab_insert :: "nat \<Rightarrow> nat \<Rightarrow> nat \<Rightarrow> 'p \<Rightarrow> u32 \<Rightarrow> int \<Rightarrow> 'p htab \<Rightarrow> 'p htab" where
  "htab_insert c s d keyp h v t = (let j = (s + d) mod c in
     t\<lparr>busybits := (busybits t)[j := 1], keyps := (keyps t)[j := keyp],
       k_hashes := (k_hashes t)[j := h], vals := (vals t)[j := v],
       chns := shift_chns c s 0 d 1 (chns t)\<rparr>)"

definition htab_remove :: "nat \<Rightarrow> nat \<Rightarrow> nat \<Rightarrow> 'p htab \<Rightarrow> 'p htab" where
  "htab_remove c s d t =
     t\<lparr>busybits := (busybits t)[(s + d) mod c := 0], chns := shift_chns c s 0 d (- 1) (chns t)\<rparr>"

lemma htab_wf_card:
  "htab_wf kv hsh c t \<longleftrightarrow>
     0 < c \<and> 2 * c < 2 ^ 31 \<and>
     length (busybits t) = c \<and> length (keyps t) = c \<and> length (k_hashes t) = c \<and>
     length (chns t) = c \<and> length (vals t) = c \<and>
     (\<forall>j \<in> set (busy_slots t). k_hashes t ! j = hsh (kv (keyps t ! j))) \<and>
     inj_on (\<lambda>j. kv (keyps t ! j)) (set (busy_slots t)) \<and>
     (\<forall>i < c. chns t ! i = int (card {j \<in> set (busy_slots t). crosses c t j i}))"
proof -
  have "length (filter P (busy_slots t)) = card {j \<in> set (busy_slots t). P j}" for P
    by (simp add: distinct_length_filter Int_def conj_commute)
  then show ?thesis by (auto simp: htab_wf_def distinct_map)
qed

lemma htab_wf_chns_bound:
  assumes "htab_wf kv hsh c t" "x < c"
  shows "0 \<le> chns t ! x \<and> chns t ! x \<le> int c"
proof -
  have "length (busybits t) = c"
    and chn: "chns t ! x = int (length (filter (\<lambda>j. crosses c t j x) (busy_slots t)))"
    using assms by (simp_all add: htab_wf_def)
  then have "length (filter (\<lambda>j. crosses c t j x) (busy_slots t)) \<le> c"
    using length_filter_le [of "\<lambda>j. crosses c t j x" "busy_slots t"] length_busy_slots [of t] by linarith
  with chn show ?thesis by simp
qed

lemma htab_insert_sel [simp]:
  "busybits (htab_insert c s d p h v t) = (busybits t)[(s + d) mod c := 1]"
  "keyps (htab_insert c s d p h v t) = (keyps t)[(s + d) mod c := p]"
  "k_hashes (htab_insert c s d p h v t) = (k_hashes t)[(s + d) mod c := h]"
  "vals (htab_insert c s d p h v t) = (vals t)[(s + d) mod c := v]"
  "chns (htab_insert c s d p h v t) = shift_chns c s 0 d 1 (chns t)"
  by (simp_all add: htab_insert_def Let_def)

lemma htab_remove_sel [simp]:
  "busybits (htab_remove c s d t) = (busybits t)[(s + d) mod c := 0]"
  "keyps (htab_remove c s d t) = keyps t"
  "k_hashes (htab_remove c s d t) = k_hashes t"
  "vals (htab_remove c s d t) = vals t"
  "chns (htab_remove c s d t) = shift_chns c s 0 d (- 1) (chns t)"
  by (simp_all add: htab_remove_def)

lemma busy_slots_insert:
  "0 < c \<Longrightarrow> length (busybits t) = c \<Longrightarrow>
   set (busy_slots (htab_insert c s d p h v t)) = insert ((s + d) mod c) (set (busy_slots t))"
  by (auto simp: set_busy_slots nth_list_update)

lemma busy_slots_remove:
  "0 < c \<Longrightarrow> length (busybits t) = c \<Longrightarrow>
   set (busy_slots (htab_remove c s d t)) = set (busy_slots t) - {(s + d) mod c}"
  by (auto simp: set_busy_slots nth_list_update)

lemma crosses_insert_other:
  "l \<noteq> (s + d) mod c \<Longrightarrow> crosses c (htab_insert c s d p h v t) l i = crosses c t l i"
  by (simp add: crosses_def)

lemma crosses_insert_new:
  "s < c \<Longrightarrow> d < c \<Longrightarrow> length (k_hashes t) = c \<Longrightarrow> unat h mod c = s \<Longrightarrow>
   crosses c (htab_insert c s d p h v t) ((s + d) mod c) i \<longleftrightarrow> cdist c s i < d"
  by (simp add: crosses_def cdist_slot)

lemma crosses_remove [simp]: "crosses c (htab_remove c s d t) l i = crosses c t l i"
  by (simp add: crosses_def)

lemma card_crosses_insert:
  assumes "s < c" "d < c" "length (busybits t) = c" "length (k_hashes t) = c" "unat h mod c = s"
    and free: "(s + d) mod c \<notin> set (busy_slots t)"
  shows "card {l \<in> set (busy_slots (htab_insert c s d p h v t)). crosses c (htab_insert c s d p h v t) l i} =
      card {l \<in> set (busy_slots t). crosses c t l i} + (if cdist c s i < d then 1 else 0)"
proof -
  let ?t = "htab_insert c s d p h v t" and ?j = "(s + d) mod c"
  have "x \<in> set (busy_slots ?t) \<and> crosses c ?t x i \<longleftrightarrow>
      x \<in> set (busy_slots t) \<and> crosses c t x i \<or> x = ?j \<and> cdist c s i < d" for x
    using assms by (cases "x = ?j") (simp_all add: busy_slots_insert crosses_insert_new crosses_insert_other)
  then have "{l \<in> set (busy_slots ?t). crosses c ?t l i} =
      {l \<in> set (busy_slots t). crosses c t l i} \<union> (if cdist c s i < d then {?j} else {})"
    by auto
  with free show ?thesis by simp
qed

lemma card_crosses_remove:
  assumes "s < c" "d < c" "length (busybits t) = c" "unat (k_hashes t ! ((s + d) mod c)) mod c = s"
    and busy: "(s + d) mod c \<in> set (busy_slots t)"
  shows "card {l \<in> set (busy_slots t). crosses c t l i} =
      card {l \<in> set (busy_slots (htab_remove c s d t)). crosses c (htab_remove c s d t) l i}
      + (if cdist c s i < d then 1 else 0)"
proof -
  let ?t = "htab_remove c s d t" and ?j = "(s + d) mod c"
  have "crosses c t ?j i \<longleftrightarrow> cdist c s i < d"
    using assms by (simp add: crosses_def cdist_slot)
  then have "{l \<in> set (busy_slots t). crosses c t l i} =
      {l \<in> set (busy_slots ?t). crosses c ?t l i} \<union> (if cdist c s i < d then {?j} else {})"
    using assms by (auto simp: busy_slots_remove)
  moreover have "?j \<notin> set (busy_slots ?t)"
    using assms by (simp add: busy_slots_remove)
  ultimately show ?thesis by simp
qed

text \<open>An insertion at the end of a probe keeps the table well-formed and adds the key.\<close>

lemma htab_insert_wf:
  assumes wf: "htab_wf kv hsh c t" and new: "slot_of kv t (kv p) = None"
    and s: "unat (hsh (kv p)) mod c = s" and d: "d < c"
    and free: "(s + d) mod c \<notin> set (busy_slots t)"
  shows "htab_wf kv hsh c (htab_insert c s d p (hsh (kv p)) v t)" (is "htab_wf kv hsh c ?t")
proof -
  let ?B = "set (busy_slots t)"
  have c: "0 < c" "s < c" "length (busybits t) = c" "length (keyps t) = c" "length (k_hashes t) = c"
    using wf s by (auto simp: htab_wf_def)
  have keys: "keyps ?t ! l = keyps t ! l \<and> k_hashes ?t ! l = k_hashes t ! l" if "l \<in> ?B" for l
    using that free by (cases "l = (s + d) mod c") auto
  have "inj_on (\<lambda>l. kv (keyps ?t ! l)) ?B"
    using wf keys by (simp add: htab_wf_card inj_on_def del: htab_insert_sel)
  moreover have "kv (keyps ?t ! ((s + d) mod c)) \<notin> (\<lambda>l. kv (keyps ?t ! l)) ` ?B"
    using new keys c by (auto simp: slot_of_None simp del: htab_insert_sel(3))
  ultimately have inj: "inj_on (\<lambda>l. kv (keyps ?t ! l)) (set (busy_slots ?t))"
    using c free by (simp add: busy_slots_insert del: htab_insert_sel)
  have hash: "k_hashes ?t ! l = hsh (kv (keyps ?t ! l))" if "l \<in> set (busy_slots ?t)" for l
  proof (cases "l = (s + d) mod c")
    case False
    with that have "l \<in> ?B" using c by (simp add: busy_slots_insert)
    with keys wf show ?thesis by (simp add: htab_wf_def)
  qed (use c in simp)
  have chn: "chns ?t ! i = int (card {l \<in> set (busy_slots ?t). crosses c ?t l i})" if "i < c" for i
    using wf that by (simp add: card_crosses_insert [OF c(2) d c(3,5) s free] htab_wf_card)
  from inj hash chn wf show ?thesis
    unfolding htab_wf_card by simp
qed

lemma htab_insert_slot:
  assumes wf: "htab_wf kv hsh c t" and new: "slot_of kv t (kv p) = None"
    and s: "unat (hsh (kv p)) mod c = s" and d: "d < c"
    and free: "(s + d) mod c \<notin> set (busy_slots t)"
  shows "slot_of kv (htab_insert c s d p (hsh (kv p)) v t) = (slot_of kv t)(kv p \<mapsto> (s + d) mod c)"
    (is "slot_of kv ?t = _")
proof
  fix k
  have c: "0 < c" "length (busybits t) = c" "length (keyps t) = c"
    using wf by (auto simp: htab_wf_def)
  have some: "slot_of kv ?t k = Some l \<longleftrightarrow> l \<in> set (busy_slots ?t) \<and> kv (keyps ?t ! l) = k"
    "slot_of kv t k = Some l \<longleftrightarrow> l \<in> set (busy_slots t) \<and> kv (keyps t ! l) = k" for l
    using wf htab_insert_wf [OF assms] by (auto simp: htab_wf_def slot_of_Some)
  have "slot_of kv ?t k = Some l \<longleftrightarrow> ((slot_of kv t)(kv p \<mapsto> (s + d) mod c)) k = Some l" for l
    using c new free unfolding some slot_of_None
    by (cases "l = (s + d) mod c") (auto simp: busy_slots_insert some)
  then show "slot_of kv ?t k = ((slot_of kv t)(kv p \<mapsto> (s + d) mod c)) k"
    by (metis not_Some_eq)
qed

text \<open>A removal of a key, with the counts on its probe path lowered, undoes it.\<close>

lemma htab_remove_wf:
  assumes wf: "htab_wf kv hsh c t" and j: "slot_of kv t k = Some ((s + d) mod c)"
    and s: "unat (hsh k) mod c = s" and d: "d < c"
  shows "htab_wf kv hsh c (htab_remove c s d t)" (is "htab_wf kv hsh c ?t")
proof -
  have c: "0 < c" "s < c" "length (busybits t) = c" "(s + d) mod c \<in> set (busy_slots t)"
    "unat (k_hashes t ! ((s + d) mod c)) mod c = s"
    using wf j s by (auto simp: htab_wf_def slot_of_Some)
  have sub: "set (busy_slots ?t) \<subseteq> set (busy_slots t)"
    using c by (auto simp: busy_slots_remove)
  have chn: "chns ?t ! i = int (card {l \<in> set (busy_slots ?t). crosses c ?t l i})" if "i < c" for i
  proof -
    have "chns t ! i = int (card {l \<in> set (busy_slots t). crosses c t l i})"
      using wf that by (simp add: htab_wf_card)
    then show ?thesis
      unfolding card_crosses_remove [OF c(2) d c(3,5,4)] using that by simp
  qed
  have "inj_on (\<lambda>l. kv (keyps t ! l)) (set (busy_slots t))"
    using wf by (simp add: htab_wf_card)
  then have "inj_on (\<lambda>l. kv (keyps ?t ! l)) (set (busy_slots ?t))"
    using inj_on_subset [OF _ sub] by simp
  moreover have "\<forall>l \<in> set (busy_slots ?t). k_hashes ?t ! l = hsh (kv (keyps ?t ! l))"
    using wf sub by (auto simp: htab_wf_def)
  ultimately show ?thesis
    using wf chn unfolding htab_wf_card by simp
qed

lemma htab_remove_slot:
  assumes wf: "htab_wf kv hsh c t" and j: "slot_of kv t k = Some ((s + d) mod c)"
    and s: "unat (hsh k) mod c = s" and d: "d < c"
  shows "slot_of kv (htab_remove c s d t) = (slot_of kv t)(k := None)" (is "slot_of kv ?t = _")
proof
  fix k'
  have c: "0 < c" "length (busybits t) = c"
    using wf by (auto simp: htab_wf_def)
  have some: "slot_of kv ?t k = Some l \<longleftrightarrow> l \<in> set (busy_slots ?t) \<and> kv (keyps ?t ! l) = k"
    "slot_of kv t k = Some l \<longleftrightarrow> l \<in> set (busy_slots t) \<and> kv (keyps t ! l) = k" for l k
    using wf htab_remove_wf [OF assms] by (auto simp: htab_wf_def slot_of_Some)
  have "slot_of kv ?t k' = Some l \<longleftrightarrow> ((slot_of kv t)(k := None)) k' = Some l" for l
  proof (cases "l = (s + d) mod c")
    case True
    with c j some(2) show ?thesis unfolding some(1) by (auto simp: busy_slots_remove)
  next
    case False
    then have "slot_of kv t k \<noteq> Some l" using j by simp
    with False c show ?thesis unfolding some(1) by (auto simp: busy_slots_remove some(2))
  qed
  then show "slot_of kv ?t k' = ((slot_of kv t)(k := None)) k'"
    by (metis not_Some_eq)
qed

section \<open>The probes that insert and remove\<close>

lemma slot_neq: "(s :: nat) < c \<Longrightarrow> d < c \<Longrightarrow> e < c \<Longrightarrow> d \<noteq> e \<Longrightarrow> (s + d) mod c \<noteq> (s + e) mod c"
  using cdist_slot [of s c d] cdist_slot [of s c e] by auto

context probe_loop
begin

lemma htab_wf_chns_small:
  assumes "okc capacity" "htab_wf kv hsh (unat capacity) t" "x < unat capacity"
  shows "0 \<le> chns t ! x \<and> chns t ! x < 2 ^ 30"
proof -
  have "int (unat capacity) < 2 ^ 30" using okc_small [OF assms(1)] by (simp del: of_nat_unat)
  with htab_wf_chns_bound [OF assms(2,3)] show ?thesis by linarith
qed

lemma find_empty_loop_spec:
  assumes okc: "okc capacity" and s: "unat start < unat capacity" and d: "d < unat capacity"
    and "length (busybits t) = unat capacity" "length (chns t) = unat capacity" "unat i \<le> d"
    and "busybits t ! ((unat start + d) mod unat capacity) = 0"
    and "\<And>e. unat i \<le> e \<Longrightarrow> e < d \<Longrightarrow> busybits t ! ((unat start + e) mod unat capacity) \<noteq> 0"
    and "\<And>e. unat i \<le> e \<Longrightarrow> e < d \<Longrightarrow>
           0 \<le> chns t ! ((unat start + e) mod unat capacity) \<and>
           chns t ! ((unat start + e) mod unat capacity) < 2 ^ 30"
  shows "find_empty_loop lp t start capacity i =
     Some (of_nat ((unat start + d) mod unat capacity),
           t\<lparr>chns := shift_chns (unat capacity) (unat start) (unat i) d 1 (chns t)\<rparr>)"
  using assms(4-)
proof (induction "d - unat i" arbitrary: i t)
  let ?c = "unat capacity" and ?s = "unat start"
  case 0
  then have i: "unat i = d" "i < capacity" using d by (auto simp: word_less_nat_alt)
  obtain index where "lp (start + i) capacity = Some index" "unat index = (?s + d) mod ?c"
    using lp_slot [OF okc s i(2)] i(1) by metis
  moreover have "of_nat (unat index) = index" by simp
  ultimately show ?case
    using 0 i okc_small [OF okc] shift_chns_empty [of "chns t" ?c]
    by (subst find_empty_loop.simps) (auto simp: run_simps)
next
  let ?c = "unat capacity" and ?s = "unat start"
  case (Suc n)
  let ?j = "(?s + unat i) mod ?c"
  let ?t = "t\<lparr>chns := (chns t)[?j := chns t ! ?j + 1]\<rparr>"
  have i: "unat i < d" "i < capacity" "unat (i + 1) = Suc (unat i)"
    using Suc.hyps(2) d unat_Suc_less [of i capacity] by (auto simp: word_less_nat_alt)
  obtain index where index: "lp (start + i) capacity = Some index" "unat index = ?j"
    using lp_slot [OF okc s i(2)] by metis
  have neq: "?j \<noteq> (?s + e) mod ?c" if "unat i < e" "e \<le> d" for e
    using slot_neq [of ?s ?c "unat i" e] that i s d by simp
  have range: "0 \<le> chns t ! ?j" "chns t ! ?j < 2 ^ 30" "busybits t ! ?j \<noteq> 0"
    using Suc.prems(5,6) [of "unat i"] i by auto
  have "find_empty_loop lp t start capacity i = find_empty_loop lp ?t start capacity (i + 1)"
    using index i Suc.prems(1,2) okc_small [OF okc] range
    by (subst find_empty_loop.simps) (simp add: run_simps)
  also have "\<dots> = Some (of_nat ((?s + d) mod ?c),
      ?t\<lparr>chns := shift_chns ?c ?s (unat (i + 1)) d 1 (chns ?t)\<rparr>)"
    using Suc.hyps(2) Suc.prems i neq by (intro Suc.hyps(1)) auto
  finally show ?case
    using i s d Suc.prems(2) by (simp add: shift_chns_step)
qed

lemma map_impl_put_run:
  assumes okc: "okc capacity" and wf: "htab_wf kv hsh (unat capacity) t"
    and room: "length (busy_slots t) < unat capacity"
  obtains d where "d < unat capacity"
    "(unat h mod unat capacity + d) mod unat capacity \<notin> set (busy_slots t)"
    "map_impl_put lp t p h v capacity =
       Some (htab_insert (unat capacity) (unat h mod unat capacity) d p h v t)"
proof -
  let ?c = "unat capacity" and ?s = "unat h mod unat capacity"
  have c: "0 < ?c" "?s < ?c" "length (busybits t) = ?c" "length (chns t) = ?c"
    "length (keyps t) = ?c" "length (k_hashes t) = ?c" "length (vals t) = ?c"
    using wf by (auto simp: htab_wf_def)
  let ?P = "\<lambda>d. d < ?c \<and> busybits t ! ((?s + d) mod ?c) = 0"
  have "\<exists>j < ?c. busybits t ! j = 0"
  proof (rule ccontr)
    assume "\<not> ?thesis"
    then have "busy_slots t = [0..<?c]" by (simp add: busy_slots_def c filter_id_conv)
    with room show False by simp
  qed
  then obtain j where "j < ?c" "busybits t ! j = 0" by blast
  then have "?P (cdist ?c ?s j)" using c by (simp add: cdist_less slot_cdist)
  then have P: "?P (LEAST d. ?P d)" by (rule LeastI)
  define d where "d = (LEAST d. ?P d)"
  have d: "d < ?c" "busybits t ! ((?s + d) mod ?c) = 0" using P by (simp_all add: d_def)
  have least: "busybits t ! ((?s + e) mod ?c) \<noteq> 0" if "e < d" for e
    using not_less_Least [of e ?P] that d(1) by (simp add: d_def)
  obtain start where start: "lp h capacity = Some start" "unat start = ?s"
    using lp_start [OF okc] .
  have "find_empty lp t start capacity =
      Some (of_nat ((?s + d) mod ?c), t\<lparr>chns := shift_chns ?c ?s 0 d 1 (chns t)\<rparr>)"
  proof -
    have "0 \<le> chns t ! ((?s + e) mod ?c) \<and> chns t ! ((?s + e) mod ?c) < 2 ^ 30" for e
      using htab_wf_chns_small [OF okc wf, of "(?s + e) mod ?c"] c by simp
    with find_empty_loop_spec [OF okc, of start d t 0] start c d least show ?thesis
      by (simp add: find_empty_def)
  qed
  moreover have "unat (of_nat ((?s + d) mod ?c) :: u32) = (?s + d) mod ?c"
    using c okc_small [OF okc] by (intro unat_of_nat_small mod_less_bound) auto
  ultimately have "map_impl_put lp t p h v capacity = Some (htab_insert ?c ?s d p h v t)"
    using start c by (simp add: map_impl_put_def run_simps htab_insert_def Let_def)
  with d c that show thesis by (simp add: set_busy_slots)
qed

lemma map_impl_put_spec:
  assumes okc: "okc capacity" and wf: "htab_wf kv hsh (unat capacity) t"
    and room: "length (busy_slots t) < unat capacity"
    and new: "htab_map kv t (kv p) = None"
  shows "\<exists>t'. map_impl_put lp t p (hsh (kv p)) v capacity = Some t' \<and>
     htab_wf kv hsh (unat capacity) t' \<and>
     htab_map kv t' = (htab_map kv t)(kv p \<mapsto> v) \<and>
     htab_addrs kv t' = (htab_addrs kv t)(kv p \<mapsto> p) \<and>
     length (busy_slots t') = Suc (length (busy_slots t))"
proof -
  let ?c = "unat capacity" and ?s = "unat (hsh (kv p)) mod unat capacity"
  have none: "slot_of kv t (kv p) = None" using new by (simp add: htab_map_slot)
  obtain d where d: "d < ?c" "(?s + d) mod ?c \<notin> set (busy_slots t)"
    "map_impl_put lp t p (hsh (kv p)) v capacity = Some (htab_insert ?c ?s d p (hsh (kv p)) v t)"
    (is "_ = Some ?t")
    using map_impl_put_run [OF okc wf room] .
  have slots: "slot_of kv ?t = (slot_of kv t)(kv p \<mapsto> (?s + d) mod ?c)"
    using wf none d by (intro htab_insert_slot) auto
  have c: "0 < ?c" "length (busybits t) = ?c" "length (keyps t) = ?c" "length (vals t) = ?c"
    using wf by (auto simp: htab_wf_def)
  have old: "(?s + d) mod ?c \<noteq> j" if "slot_of kv t k = Some j" for k j
    using that wf d(2) by (auto simp: htab_wf_def slot_of_Some)
  have "htab_map kv ?t = (htab_map kv t)(kv p \<mapsto> v)"
    using c old by (auto simp: fun_eq_iff htab_map_slot slots intro!: map_option_cong)
  moreover have "htab_addrs kv ?t = (htab_addrs kv t)(kv p \<mapsto> p)"
    using c old by (auto simp: fun_eq_iff htab_addrs_slot slots intro!: map_option_cong)
  moreover have "length (busy_slots ?t) = Suc (length (busy_slots t))"
    using c d(2) busy_slots_insert [of ?c t ?s d p "hsh (kv p)" v]
    by (simp add: distinct_card [symmetric] del: distinct_card)
  moreover have "htab_wf kv hsh ?c ?t"
    using wf none d by (intro htab_insert_wf) auto
  ultimately show ?thesis using d(3) by blast
qed

lemma find_key_remove_chain_loop_spec:
  assumes okc: "okc capacity" and s: "unat start < unat capacity" and d: "d < unat capacity"
    and "length (busybits t) = unat capacity" "length (keyps t) = unat capacity"
        "length (k_hashes t) = unat capacity" "length (chns t) = unat capacity" "unat i \<le> d"
    and "busybits t ! ((unat start + d) mod unat capacity) \<noteq> 0"
        "k_hashes t ! ((unat start + d) mod unat capacity) = h"
        "eq (keyps t ! ((unat start + d) mod unat capacity)) keyp"
    and "\<And>e. unat i \<le> e \<Longrightarrow> e < d \<Longrightarrow>
           \<not> (busybits t ! ((unat start + e) mod unat capacity) \<noteq> 0 \<and>
              k_hashes t ! ((unat start + e) mod unat capacity) = h \<and>
              eq (keyps t ! ((unat start + e) mod unat capacity)) keyp)"
    and "\<And>e. unat i \<le> e \<Longrightarrow> e < d \<Longrightarrow>
           0 \<le> chns t ! ((unat start + e) mod unat capacity) \<and>
           chns t ! ((unat start + e) mod unat capacity) < 2 ^ 30"
  shows "find_key_remove_chain_loop lp t keyp eq h capacity out start i =
     Some (of_nat ((unat start + d) mod unat capacity),
           keyps t ! ((unat start + d) mod unat capacity),
           t\<lparr>chns := shift_chns (unat capacity) (unat start) (unat i) d (- 1) (chns t),
             busybits := (busybits t)[(unat start + d) mod unat capacity := 0]\<rparr>)"
  using assms(4-)
proof (induction "d - unat i" arbitrary: i t)
  let ?c = "unat capacity" and ?s = "unat start"
  case 0
  then have i: "unat i = d" "i < capacity" using d by (auto simp: word_less_nat_alt)
  obtain index where "lp (start + i) capacity = Some index" "unat index = (?s + d) mod ?c"
    using lp_slot [OF okc s i(2)] i(1) by metis
  moreover have "of_nat (unat index) = index" by simp
  ultimately show ?case
    using 0 i okc_small [OF okc] shift_chns_empty [of "chns t" ?c]
    by (subst find_key_remove_chain_loop.simps) (auto simp: run_simps)
next
  let ?c = "unat capacity" and ?s = "unat start"
  case (Suc n)
  let ?j = "(?s + unat i) mod ?c"
  let ?t = "t\<lparr>chns := (chns t)[?j := chns t ! ?j - 1]\<rparr>"
  have i: "unat i < d" "i < capacity" "unat (i + 1) = Suc (unat i)"
    using Suc.hyps(2) d unat_Suc_less [of i capacity] by (auto simp: word_less_nat_alt)
  obtain index where index: "lp (start + i) capacity = Some index" "unat index = ?j"
    using lp_slot [OF okc s i(2)] by metis
  have neq: "?j \<noteq> (?s + e) mod ?c" if "unat i < e" "e \<le> d" for e
    using slot_neq [of ?s ?c "unat i" e] that i s d by simp
  have range: "0 \<le> chns t ! ?j" "chns t ! ?j < 2 ^ 30"
    "\<not> (busybits t ! ?j \<noteq> 0 \<and> k_hashes t ! ?j = h \<and> eq (keyps t ! ?j) keyp)"
    using Suc.prems(9,10) [of "unat i"] i by auto
  have "find_key_remove_chain_loop lp t keyp eq h capacity out start i =
      find_key_remove_chain_loop lp ?t keyp eq h capacity out start (i + 1)"
    using index i Suc.prems(1-4) okc_small [OF okc] range
    by (subst find_key_remove_chain_loop.simps) (auto simp add: run_simps)
  also have "\<dots> = Some (of_nat ((?s + d) mod ?c), keyps t ! ((?s + d) mod ?c),
      ?t\<lparr>chns := shift_chns ?c ?s (unat (i + 1)) d (- 1) (chns ?t),
         busybits := (busybits ?t)[(?s + d) mod ?c := 0]\<rparr>)"
    using Suc.hyps(2) Suc.prems i neq by (subst Suc.hyps(1)) auto
  finally show ?case
    using i s d Suc.prems(4) shift_chns_step [of ?s ?c "unat i" d "chns t" "- 1"] by simp
qed

lemma map_impl_erase_run:
  assumes okc: "okc capacity" and wf: "htab_wf kv hsh (unat capacity) t"
    and eq: "\<And>p q. eq p q \<longleftrightarrow> kv p = kv q" and j: "slot_of kv t (kv keyp) = Some j"
  shows "map_impl_erase lp t keyp eq (hsh (kv keyp)) capacity keyp_out =
     Some (keyps t ! j, htab_remove (unat capacity) (unat (hsh (kv keyp)) mod unat capacity)
       (cdist (unat capacity) (unat (hsh (kv keyp)) mod unat capacity) j) t)"
proof -
  let ?c = "unat capacity" and ?s = "unat (hsh (kv keyp)) mod unat capacity"
  let ?d = "cdist ?c ?s j"
  have c: "0 < ?c" "?s < ?c" "length (busybits t) = ?c" "length (chns t) = ?c"
    "length (keyps t) = ?c" "length (k_hashes t) = ?c"
    using wf by (auto simp: htab_wf_def)
  have dj: "?d < ?c" "(?s + ?d) mod ?c = j" "j < ?c"
    using slot_of_cdist_less [OF wf j] slot_of_less [OF wf j] c by (simp_all add: slot_cdist)
  have at_j: "busybits t ! j \<noteq> 0" "k_hashes t ! j = hsh (kv keyp)" "eq (keyps t ! j) keyp"
    using wf j eq by (auto simp: htab_wf_def slot_of_Some set_busy_slots)
  have before: "\<not> (busybits t ! ((?s + e) mod ?c) \<noteq> 0 \<and>
      k_hashes t ! ((?s + e) mod ?c) = hsh (kv keyp) \<and> eq (keyps t ! ((?s + e) mod ?c)) keyp)"
    if "e < ?d" for e
  proof
    assume "busybits t ! ((?s + e) mod ?c) \<noteq> 0 \<and>
      k_hashes t ! ((?s + e) mod ?c) = hsh (kv keyp) \<and> eq (keyps t ! ((?s + e) mod ?c)) keyp"
    then have "slot_of kv t (kv keyp) = Some ((?s + e) mod ?c)"
      using wf eq c by (subst slot_of_Some) (auto simp: htab_wf_def set_busy_slots)
    with j that dj c cdist_slot [of ?s ?c e] show False by simp
  qed
  have range: "0 \<le> chns t ! ((?s + e) mod ?c) \<and> chns t ! ((?s + e) mod ?c) < 2 ^ 30" for e
    using htab_wf_chns_small [OF okc wf, of "(?s + e) mod ?c"] c by simp
  obtain start where start: "lp (hsh (kv keyp)) capacity = Some start" "unat start = ?s"
    using lp_start [OF okc] .
  have "find_key_remove_chain_loop lp t keyp eq (hsh (kv keyp)) capacity keyp_out start 0 =
      Some (of_nat j, keyps t ! j, htab_remove ?c ?s ?d t)"
    using find_key_remove_chain_loop_spec [OF okc, of start ?d t 0 "hsh (kv keyp)" eq keyp keyp_out]
      start c dj at_j before range
    by (simp add: htab_remove_def)
  then show ?thesis
    using start by (simp add: map_impl_erase_def find_key_remove_chain_def)
qed

lemma map_impl_erase_spec:
  assumes okc: "okc capacity" and wf: "htab_wf kv hsh (unat capacity) t"
    and eq: "\<And>p q. eq p q \<longleftrightarrow> kv p = kv q" and present: "htab_map kv t (kv keyp) \<noteq> None"
  shows "\<exists>p t'. map_impl_erase lp t keyp eq (hsh (kv keyp)) capacity keyp_out = Some (p, t') \<and>
     htab_addrs kv t (kv keyp) = Some p \<and>
     htab_wf kv hsh (unat capacity) t' \<and>
     htab_map kv t' = (htab_map kv t)(kv keyp := None) \<and>
     htab_addrs kv t' = (htab_addrs kv t)(kv keyp := None) \<and>
     Suc (length (busy_slots t')) = length (busy_slots t)"
proof -
  let ?c = "unat capacity" and ?s = "unat (hsh (kv keyp)) mod unat capacity"
  obtain j where j: "slot_of kv t (kv keyp) = Some j"
    using present by (auto simp: htab_map_slot)
  let ?t = "htab_remove ?c ?s (cdist ?c ?s j) t"
  have c: "0 < ?c" "?s < ?c" "length (busybits t) = ?c" using wf by (auto simp: htab_wf_def)
  have dj: "cdist ?c ?s j < ?c" "(?s + cdist ?c ?s j) mod ?c = j"
    using slot_of_cdist_less [OF wf j] slot_of_less [OF wf j] c by (simp_all add: slot_cdist)
  have slots: "slot_of kv ?t = (slot_of kv t)(kv keyp := None)"
    using wf j dj by (intro htab_remove_slot) auto
  have "j \<in> set (busy_slots t)" using wf j by (auto simp: htab_wf_def slot_of_Some)
  moreover have "set (busy_slots ?t) = set (busy_slots t) - {j}"
    using c dj busy_slots_remove [of ?c t ?s "cdist ?c ?s j"] by simp
  ultimately have "Suc (length (busy_slots ?t)) = length (busy_slots t)"
    by (metis card_Suc_Diff1 distinct_busy_slots distinct_card finite_set)
  moreover have "htab_wf kv hsh ?c ?t"
    using wf j dj by (intro htab_remove_wf) auto
  moreover have "htab_map kv ?t = (htab_map kv t)(kv keyp := None)"
    "htab_addrs kv ?t = (htab_addrs kv t)(kv keyp := None)"
    by (simp_all add: fun_eq_iff htab_map_slot htab_addrs_slot slots)
  moreover have "htab_addrs kv t (kv keyp) = Some (keyps t ! j)"
    using j by (simp add: htab_addrs_slot)
  ultimately show ?thesis using map_impl_erase_run [OF okc wf eq j] by blast
qed

end

section \<open>Initialisation and size\<close>

lemma map_impl_init_loop_spec:
  assumes "length (busybits t) = unat capacity" "length (chns t) = unat capacity" "i \<le> capacity"
    and "\<And>j. j < unat i \<Longrightarrow> busybits t ! j = 0 \<and> chns t ! j = 0"
  shows "map_impl_init_loop t capacity i =
     Some (t\<lparr>busybits := replicate (unat capacity) 0, chns := replicate (unat capacity) 0\<rparr>)"
  using assms
proof (induction t capacity i rule: map_impl_init_loop.induct)
  case (1 t capacity i)
  show ?case
  proof (cases "i < capacity")
    case True
    then have i: "unat i < unat capacity" "unat (i + 1) = Suc (unat i)" "i + 1 \<le> capacity"
      by (auto simp: word_less_nat_alt word_le_nat_alt unat_Suc_less)
    let ?t = "t\<lparr>busybits := (busybits t)[unat i := 0], chns := (chns t)[unat i := 0]\<rparr>"
    have "map_impl_init_loop ?t capacity (i + 1) =
        Some (?t\<lparr>busybits := replicate (unat capacity) 0, chns := replicate (unat capacity) 0\<rparr>)"
      using True 1(2,3,5) i by (intro 1(1)) (auto simp: run_simps nth_list_update)
    with True i 1(2,3) show ?thesis
      by (subst map_impl_init_loop.simps) (simp add: run_simps)
  next
    case False
    with 1(4) have "i = capacity" by simp
    with 1(2,3,5) have "busybits t = replicate (unat capacity) 0"
      "chns t = replicate (unat capacity) 0"
      by (auto intro!: nth_equalityI)
    then have "t = t\<lparr>busybits := replicate (unat capacity) 0, chns := replicate (unat capacity) 0\<rparr>"
      by (cases t) simp
    with False show ?thesis by (subst map_impl_init_loop.simps) simp
  qed
qed

lemma map_impl_init_spec:
  assumes "0 < unat capacity" "2 * unat capacity < 2 ^ 31"
    and "length (busybits t) = unat capacity" "length (keyps t) = unat capacity"
        "length (k_hashes t) = unat capacity" "length (chns t) = unat capacity"
        "length (vals t) = unat capacity"
  shows "\<exists>t'. map_impl_init t capacity = Some t' \<and> htab_wf kv hsh (unat capacity) t' \<and>
     htab_map kv t' = Map.empty \<and> htab_addrs kv t' = Map.empty \<and> busy_slots t' = []"
proof -
  let ?t = "t\<lparr>busybits := replicate (unat capacity) 0, chns := replicate (unat capacity) 0\<rparr>"
  have "map_impl_init t capacity = Some ?t"
    using assms map_impl_init_loop_spec [of t capacity 0] by (simp add: map_impl_init_def)
  moreover have "busy_slots ?t = []" by (auto simp: busy_slots_def filter_empty_conv)
  ultimately show ?thesis using assms by (auto simp: htab_wf_def htab_map_def htab_addrs_def)
qed

lemma map_impl_size_loop_spec:
  assumes "unat capacity \<le> length bbs" "i \<le> capacity"
  shows "map_impl_size_loop bbs capacity i s =
     Some (s + of_nat (length (filter (\<lambda>j. bbs ! j \<noteq> 0) [unat i..<unat capacity])))"
  using assms
proof (induction bbs capacity i s rule: map_impl_size_loop.induct)
  case (1 bbs capacity i s)
  show ?case
  proof (cases "i < capacity")
    case True
    then have i: "unat i < unat capacity" "unat (i + 1) = Suc (unat i)" "i + 1 \<le> capacity"
      by (auto simp: word_less_nat_alt word_le_nat_alt unat_Suc_less)
    have get: "arr_get bbs (uint i) = Some (bbs ! unat i)" using i 1(2) by (simp add: run_simps)
    have "map_impl_size_loop bbs capacity i s =
        map_impl_size_loop bbs capacity (i + 1) (if bbs ! unat i \<noteq> 0 then s + 1 else s)"
      using True get by (subst map_impl_size_loop.simps) simp
    also have "\<dots> = Some ((if bbs ! unat i \<noteq> 0 then s + 1 else s) +
        of_nat (length (filter (\<lambda>j. bbs ! j \<noteq> 0) [unat (i + 1)..<unat capacity])))"
      using True get 1(2) i by (intro 1(1)) auto
    finally show ?thesis
      using i by (simp add: upt_conv_Cons algebra_simps del: upt_Suc)
  next
    case False
    with 1(3) have "i = capacity" by simp
    then show ?thesis by (subst map_impl_size_loop.simps) simp
  qed
qed

lemma map_impl_size_spec:
  assumes "htab_wf kv hsh (unat capacity) t"
  shows "map_impl_size (busybits t) capacity = Some (of_nat (length (busy_slots t)))"
  using map_impl_size_loop_spec [of capacity "busybits t" 0 0] assms
  by (simp add: map_impl_size_def busy_slots_def htab_wf_def)

section \<open>A change of the memory behind the keys\<close>

lemma htab_memory_cong:
  assumes "\<And>j. j \<in> set (busy_slots t) \<Longrightarrow> kv (keyps t ! j) = kv' (keyps t ! j)"
  shows "htab_wf kv hsh c t = htab_wf kv' hsh c t" "htab_map kv t = htab_map kv' t"
    "htab_addrs kv t = htab_addrs kv' t"
proof -
  have "map (\<lambda>j. kv (keyps t ! j)) (busy_slots t) = map (\<lambda>j. kv' (keyps t ! j)) (busy_slots t)"
    "(\<forall>j \<in> set (busy_slots t). k_hashes t ! j = hsh (kv (keyps t ! j))) =
     (\<forall>j \<in> set (busy_slots t). k_hashes t ! j = hsh (kv' (keyps t ! j)))"
    using assms by auto
  then show "htab_wf kv hsh c t = htab_wf kv' hsh c t" unfolding htab_wf_def by (simp only:)
  show "htab_map kv t = htab_map kv' t" "htab_addrs kv t = htab_addrs kv' t"
    unfolding htab_map_def htab_addrs_def using assms by (simp_all cong: map_cong)
qed

section \<open>The division based probe\<close>

lemma loop_mod:
  assumes "0 < unat capacity" "2 * unat capacity < 2 ^ 31"
  shows "loop k capacity = Some (of_nat (unat k mod unat capacity))"
proof -
  let ?g = "k mod capacity"
  have g: "unat ?g = unat k mod unat capacity" by (simp add: unat_mod)
  have less: "unat ?g < unat capacity" using assms g by simp
  then have "unat (?g + capacity) = unat ?g + unat capacity"
    using assms by (intro unat_add_lem [THEN iffD1]) simp
  then have "unat ((?g + capacity) mod capacity) = unat k mod unat capacity"
    using less by (simp add: unat_mod g)
  moreover have "of_nat (unat ((?g + capacity) mod capacity)) = (?g + capacity) mod capacity" by simp
  moreover have "capacity \<noteq> 0" using assms by auto
  ultimately show ?thesis by (simp add: loop_def Let_def)
qed

interpretation mod_probe: probe_loop loop "\<lambda>c. 0 < unat c \<and> 2 * unat c < 2 ^ 31"
  by unfold_locales (auto intro: loop_mod)

end
