(* ===== verification/Map_Impl_Pow2.thy ===== *)
theory Map_Impl_Pow2
  imports Map_Impl
begin

text \<open>
  \<open>libvig/verified/map-impl-pow2.c\<close>, the variant of the hash table that is built when
  \<open>CAPACITY_POW2\<close> is defined. Its functions are those of \<open>map-impl.c\<close> over a
  \<open>loop\<close> that masks the hash with \<open>capacity - 1\<close> instead of dividing by the capacity.
  For a capacity that is a power of two the two reductions agree, so that the two files
  compute the same results, and every specification of \<open>probe_loop\<close> holds here too.
\<close>

unbundle bit_operations_syntax

section \<open>The code\<close>

definition loop_pow2 :: probe where
  "loop_pow2 k capacity = Some (k AND (capacity - 1))"

definition find_key_pow2 ::
  "'p htab \<Rightarrow> 'p \<Rightarrow> ('p \<Rightarrow> 'p \<Rightarrow> bool) \<Rightarrow> u32 \<Rightarrow> u32 \<Rightarrow> int option" where
  "find_key_pow2 = find_key loop_pow2"

definition find_key_remove_chain_pow2 ::
  "'p htab \<Rightarrow> 'p \<Rightarrow> ('p \<Rightarrow> 'p \<Rightarrow> bool) \<Rightarrow> u32 \<Rightarrow> u32 \<Rightarrow> 'p \<Rightarrow> (u32 \<times> 'p \<times> 'p htab) option" where
  "find_key_remove_chain_pow2 = find_key_remove_chain loop_pow2"

definition find_empty_pow2 :: "'p htab \<Rightarrow> u32 \<Rightarrow> u32 \<Rightarrow> (u32 \<times> 'p htab) option" where
  "find_empty_pow2 = find_empty loop_pow2"

definition map_impl_init_pow2 :: "'p htab \<Rightarrow> u32 \<Rightarrow> 'p htab option" where
  "map_impl_init_pow2 = map_impl_init"

definition map_impl_get_pow2 ::
  "'p htab \<Rightarrow> 'p \<Rightarrow> ('p \<Rightarrow> 'p \<Rightarrow> bool) \<Rightarrow> u32 \<Rightarrow> int \<Rightarrow> u32 \<Rightarrow> (int \<times> int) option" where
  "map_impl_get_pow2 = map_impl_get loop_pow2"

definition map_impl_put_pow2 :: "'p htab \<Rightarrow> 'p \<Rightarrow> u32 \<Rightarrow> int \<Rightarrow> u32 \<Rightarrow> 'p htab option" where
  "map_impl_put_pow2 = map_impl_put loop_pow2"

definition map_impl_erase_pow2 ::
  "'p htab \<Rightarrow> 'p \<Rightarrow> ('p \<Rightarrow> 'p \<Rightarrow> bool) \<Rightarrow> u32 \<Rightarrow> u32 \<Rightarrow> 'p \<Rightarrow> ('p \<times> 'p htab) option" where
  "map_impl_erase_pow2 = map_impl_erase loop_pow2"

definition map_impl_size_pow2 :: "int list \<Rightarrow> u32 \<Rightarrow> u32 option" where
  "map_impl_size_pow2 = map_impl_size"

lemmas map_impl_pow2_defs =
  find_key_pow2_def find_key_remove_chain_pow2_def find_empty_pow2_def map_impl_init_pow2_def
  map_impl_get_pow2_def map_impl_put_pow2_def map_impl_erase_pow2_def map_impl_size_pow2_def

section \<open>Masking is reduction modulo a power of two\<close>

lemma loop_pow2_mod:
  fixes capacity :: u32
  assumes "unat capacity = 2 ^ n" "n < 32"
  shows "loop_pow2 k capacity = Some (of_nat (unat k mod unat capacity))"
proof -
  have "capacity = 2 ^ n"
  proof -
    have "of_nat (unat capacity) = (of_nat (2 ^ n) :: u32)" using assms(1) by (rule arg_cong)
    then show ?thesis by simp
  qed
  then have "k AND (capacity - 1) = k mod capacity"
    by (simp add: take_bit_eq_mask mask_eq_exp_minus_1 flip: take_bit_eq_mod)
  then have "unat (k AND (capacity - 1)) = unat k mod unat capacity"
    by (simp add: unat_mod)
  moreover have "of_nat (unat (k AND (capacity - 1))) = k AND (capacity - 1)" by simp
  ultimately show ?thesis by (simp add: loop_pow2_def)
qed

interpretation pow2_probe: probe_loop loop_pow2 "\<lambda>c. \<exists>n < 30. unat c = 2 ^ n"
proof
  fix k capacity :: u32
  assume "\<exists>n < 30. unat capacity = 2 ^ n"
  then obtain n where n: "n < 30" "unat capacity = 2 ^ n" by blast
  show "loop_pow2 k capacity = Some (of_nat (unat k mod unat capacity))"
    using n by (intro loop_pow2_mod) auto
next
  fix capacity :: u32
  assume "\<exists>n < 30. unat capacity = 2 ^ n"
  then obtain n where n: "n < 30" "unat capacity = 2 ^ n" by blast
  then have "(2::nat) ^ n < 2 ^ 30" by (intro power_strict_increasing) auto
  with n show "0 < unat capacity \<and> 2 * unat capacity < 2 ^ 31" by simp
qed

section \<open>The two files agree\<close>

text \<open>
  Two probe reductions that agree at a capacity make the functions of the table agree there.
\<close>

lemma find_key_loop_cong:
  assumes "\<And>k. lp k capacity = lp' k capacity"
  shows "find_key_loop lp t keyp eq h capacity start i = find_key_loop lp' t keyp eq h capacity start i"
  using assms
proof (induction lp t keyp eq h capacity start i rule: find_key_loop.induct)
  case (1 lp t keyp eq h capacity start i)
  show ?case
    by (subst (1 2) find_key_loop.simps)
      (auto simp: 1(3) [symmetric] 1(1,2) [OF _ _ _ _ _ _ _ _ 1(3)] split: bind_splits)
qed

lemma find_key_remove_chain_loop_cong:
  assumes "\<And>k. lp k capacity = lp' k capacity"
  shows "find_key_remove_chain_loop lp t keyp eq h capacity out start i =
         find_key_remove_chain_loop lp' t keyp eq h capacity out start i"
  using assms
proof (induction lp t keyp eq h capacity out start i rule: find_key_remove_chain_loop.induct)
  case (1 lp t keyp eq h capacity out start i)
  show ?case
    by (subst (1 2) find_key_remove_chain_loop.simps)
      (auto simp: 1(2) [symmetric] 1(1) [OF _ _ _ _ _ _ _ _ _ 1(2)] split: bind_splits)
qed

lemma find_empty_loop_cong:
  assumes "\<And>k. lp k capacity = lp' k capacity"
  shows "find_empty_loop lp t start capacity i = find_empty_loop lp' t start capacity i"
  using assms
proof (induction lp t start capacity i rule: find_empty_loop.induct)
  case (1 lp t start capacity i)
  show ?case
    by (subst (1 2) find_empty_loop.simps)
      (auto simp: 1(2) [symmetric] 1(1) [OF _ _ _ _ _ _ _ 1(2)] split: bind_splits)
qed

lemma pow2_capacity:
  fixes capacity :: u32
  assumes "unat capacity = 2 ^ n" "n < 30"
  shows "0 < unat capacity" "2 * unat capacity < 2 ^ 31"
proof -
  have "(2::nat) ^ n < 2 ^ 30" using assms(2) by (intro power_strict_increasing) auto
  with assms(1) show "0 < unat capacity" "2 * unat capacity < 2 ^ 31" by auto
qed

lemma pow2_loop_eq: "unat capacity = 2 ^ n \<Longrightarrow> n < 30 \<Longrightarrow> loop_pow2 k capacity = loop k capacity"
  using loop_pow2_mod [of capacity n k] loop_mod [of capacity k] pow2_capacity [of capacity n] by simp

lemmas pow2_loops_eq =
  find_key_loop_cong [of loop_pow2 _ loop, OF pow2_loop_eq]
  find_key_remove_chain_loop_cong [of loop_pow2 _ loop, OF pow2_loop_eq]
  find_empty_loop_cong [of loop_pow2 _ loop, OF pow2_loop_eq]

text \<open>
  C40. On a capacity that is a power of two below \<open>2 ^ 30\<close>, the lookup, the insertion and
  the removal of \<open>map-impl-pow2.c\<close> return what those of \<open>map-impl.c\<close> return, on every
  table: the masking build can replace the dividing build.
\<close>

theorem map_impl_pow2_agrees:
  assumes "unat capacity = 2 ^ n" "n < 30"
  shows "map_impl_get_pow2 t keyp eq h v capacity = map_impl_get loop t keyp eq h v capacity \<and>
     map_impl_put_pow2 t keyp h v capacity = map_impl_put loop t keyp h v capacity \<and>
     map_impl_erase_pow2 t keyp eq h capacity out = map_impl_erase loop t keyp eq h capacity out"
  using assms
  by (simp add: map_impl_pow2_defs map_impl_get_def map_impl_put_def map_impl_erase_def
      find_key_def find_empty_def find_key_remove_chain_def pow2_loop_eq pow2_loops_eq)

theorem map_impl_pow2_agrees_witness:
  "map_impl_put_pow2 \<lparr>busybits = [0, 1], keyps = [''a'', ''b''], k_hashes = [0, 3], chns = [0, 0],
       vals = [0, 7]\<rparr> ''c'' 5 9 2 =
     Some \<lparr>busybits = [1, 1], keyps = [''c'', ''b''], k_hashes = [5, 3], chns = [0, 1], vals = [9, 7]\<rparr>"
proof -
  let ?t = "\<lparr>busybits = [0, 1], keyps = [''a'', ''b''], k_hashes = [0, 3], chns = [0, 0],
       vals = [0, 7]\<rparr>"
  have "map_impl_put loop ?t ''c'' 5 9 2 =
     Some \<lparr>busybits = [1, 1], keyps = [''c'', ''b''], k_hashes = [5, 3], chns = [0, 1], vals = [9, 7]\<rparr>"
    by code_simp
  then show ?thesis
    using map_impl_pow2_agrees [of 2 1 ?t "''c''" _ 5 9] by simp
qed

end
