(* ===== verification/Dchain_Impl.thy ===== *)
theory Dchain_Impl
  imports Prelude
begin

text \<open>
  The index allocator of \<open>libvig/verified/double-chain-impl.c\<close>: an array of cells that
  holds two circular lists, the doubly linked list of the allocated indexes, oldest first,
  through cell 0, and the list of the free indexes through cell 1. Index \<open>i\<close> is cell
  \<open>i + 2\<close>. The cells are a list, an access outside it is a fault, and so is an \<open>int\<close>
  addition that overflows.

  \<open>dchain_links\<close> relates an array to the two lists it holds. The abstract states and
  operations are those of \<open>double-chain-impl.h\<close> (\<open>dchaini\<close> and the \<open>dchaini_*_fp\<close>
  functions), and the last section shows that every function of the code runs without a
  fault and refines its abstract operation.
\<close>

section \<open>The code\<close>

record dchain_cell =
  cell_prev :: int
  cell_next :: int

definition ALLOC_LIST_HEAD :: int where "ALLOC_LIST_HEAD = 0"
definition FREE_LIST_HEAD :: int where "FREE_LIST_HEAD = 1"
definition INDEX_SHIFT :: int where "INDEX_SHIFT = 2"

definition get_prev :: "dchain_cell list \<Rightarrow> int \<Rightarrow> int option" where
  "get_prev cells p = do { c \<leftarrow> arr_get cells p; Some (cell_prev c) }"

definition get_next :: "dchain_cell list \<Rightarrow> int \<Rightarrow> int option" where
  "get_next cells p = do { c \<leftarrow> arr_get cells p; Some (cell_next c) }"

definition set_prev :: "dchain_cell list \<Rightarrow> int \<Rightarrow> int \<Rightarrow> dchain_cell list option" where
  "set_prev cells p v = do { c \<leftarrow> arr_get cells p; arr_set cells p (c\<lparr>cell_prev := v\<rparr>) }"

definition set_next :: "dchain_cell list \<Rightarrow> int \<Rightarrow> int \<Rightarrow> dchain_cell list option" where
  "set_next cells p v = do { c \<leftarrow> arr_get cells p; arr_set cells p (c\<lparr>cell_next := v\<rparr>) }"

function dchain_impl_init_loop :: "dchain_cell list \<Rightarrow> int \<Rightarrow> int \<Rightarrow> (int \<times> dchain_cell list) option" where
  "dchain_impl_init_loop cells sz i =
     (if i < sz + INDEX_SHIFT - 1 then do {
        cells \<leftarrow> set_next cells i (i + 1);
        n \<leftarrow> get_next cells i;
        cells \<leftarrow> set_prev cells i n;
        dchain_impl_init_loop cells sz (i + 1)
      } else Some (i, cells))"
  by pat_completeness auto
termination
  by (relation "measure (\<lambda>(cells, sz, i). nat (sz + INDEX_SHIFT - 1 - i))") auto

declare dchain_impl_init_loop.simps [simp del]

definition dchain_impl_init :: "dchain_cell list \<Rightarrow> int \<Rightarrow> dchain_cell list option" where
  "dchain_impl_init cells sz = do {
     cells \<leftarrow> set_prev cells ALLOC_LIST_HEAD 0;
     cells \<leftarrow> set_next cells ALLOC_LIST_HEAD 0;
     let i = INDEX_SHIFT;
     cells \<leftarrow> set_next cells FREE_LIST_HEAD i;
     n \<leftarrow> get_next cells FREE_LIST_HEAD;
     cells \<leftarrow> set_prev cells FREE_LIST_HEAD n;
     _ \<leftarrow> s32 (sz + INDEX_SHIFT - 1);
     (i, cells) \<leftarrow> dchain_impl_init_loop cells sz i;
     cells \<leftarrow> set_next cells i FREE_LIST_HEAD;
     n \<leftarrow> get_next cells i;
     set_prev cells i n
   }"

definition dchain_impl_allocate_new_index ::
  "dchain_cell list \<Rightarrow> int \<Rightarrow> (int \<times> int \<times> dchain_cell list) option" where
  "dchain_impl_allocate_new_index cells index = do {
     allocated \<leftarrow> get_next cells FREE_LIST_HEAD;
     if allocated = FREE_LIST_HEAD then Some (0, index, cells)
     else do {
       n \<leftarrow> get_next cells allocated;
       cells \<leftarrow> set_next cells FREE_LIST_HEAD n;
       n \<leftarrow> get_next cells FREE_LIST_HEAD;
       cells \<leftarrow> set_prev cells FREE_LIST_HEAD n;
       cells \<leftarrow> set_next cells allocated ALLOC_LIST_HEAD;
       p \<leftarrow> get_prev cells ALLOC_LIST_HEAD;
       cells \<leftarrow> set_prev cells allocated p;
       p \<leftarrow> get_prev cells ALLOC_LIST_HEAD;
       cells \<leftarrow> set_next cells p allocated;
       cells \<leftarrow> set_prev cells ALLOC_LIST_HEAD allocated;
       index \<leftarrow> s32 (allocated - INDEX_SHIFT);
       Some (1, index, cells)
     }
   }"

definition dchain_impl_free_index :: "dchain_cell list \<Rightarrow> int \<Rightarrow> (int \<times> dchain_cell list) option" where
  "dchain_impl_free_index cells index = do {
     freed \<leftarrow> s32 (index + INDEX_SHIFT);
     freed_prev \<leftarrow> get_prev cells freed;
     freed_next \<leftarrow> get_next cells freed;
     if freed_next = freed_prev \<and> freed_prev \<noteq> ALLOC_LIST_HEAD then Some (0, cells)
     else do {
       cells \<leftarrow> set_next cells freed_prev freed_next;
       cells \<leftarrow> set_prev cells freed_next freed_prev;
       n \<leftarrow> get_next cells FREE_LIST_HEAD;
       cells \<leftarrow> set_next cells freed n;
       n \<leftarrow> get_next cells freed;
       cells \<leftarrow> set_prev cells freed n;
       cells \<leftarrow> set_next cells FREE_LIST_HEAD freed;
       n \<leftarrow> get_next cells FREE_LIST_HEAD;
       cells \<leftarrow> set_prev cells FREE_LIST_HEAD n;
       Some (1, cells)
     }
   }"

definition dchain_impl_get_oldest_index :: "dchain_cell list \<Rightarrow> int \<Rightarrow> (int \<times> int) option" where
  "dchain_impl_get_oldest_index cells index = do {
     n \<leftarrow> get_next cells ALLOC_LIST_HEAD;
     if n = ALLOC_LIST_HEAD then Some (0, index)
     else do {
       index \<leftarrow> s32 (n - INDEX_SHIFT);
       Some (1, index)
     }
   }"

definition dchain_impl_rejuvenate_index ::
  "dchain_cell list \<Rightarrow> int \<Rightarrow> (int \<times> dchain_cell list) option" where
  "dchain_impl_rejuvenate_index cells index = do {
     lifted \<leftarrow> s32 (index + INDEX_SHIFT);
     lifted_next \<leftarrow> get_next cells lifted;
     lifted_prev \<leftarrow> get_prev cells lifted;
     if lifted_next = lifted_prev then
       (if lifted_next \<noteq> ALLOC_LIST_HEAD then Some (0, cells) else Some (1, cells))
     else do {
       cells \<leftarrow> set_next cells lifted_prev lifted_next;
       cells \<leftarrow> set_prev cells lifted_next lifted_prev;
       al_head_prev \<leftarrow> get_prev cells ALLOC_LIST_HEAD;
       cells \<leftarrow> set_next cells lifted ALLOC_LIST_HEAD;
       cells \<leftarrow> set_prev cells lifted al_head_prev;
       cells \<leftarrow> set_next cells al_head_prev lifted;
       cells \<leftarrow> set_prev cells ALLOC_LIST_HEAD lifted;
       Some (1, cells)
     }
   }"

definition dchain_impl_is_index_allocated :: "dchain_cell list \<Rightarrow> int \<Rightarrow> int option" where
  "dchain_impl_is_index_allocated cells index = do {
     lifted \<leftarrow> s32 (index + INDEX_SHIFT);
     lifted_next \<leftarrow> get_next cells lifted;
     lifted_prev \<leftarrow> get_prev cells lifted;
     if lifted_next = lifted_prev then
       (if lifted_next \<noteq> ALLOC_LIST_HEAD then Some 0 else Some 1)
     else Some 1
   }"

section \<open>The abstract allocator\<close>

text \<open>The allocated indexes, oldest first, and the number of indexes.\<close>

datatype dchaini = dchaini "int list" int

fun empty_dchaini_fp :: "int \<Rightarrow> dchaini" where
  "empty_dchaini_fp index_range = dchaini [] index_range"

fun dchaini_out_of_space_fp :: "dchaini \<Rightarrow> bool" where
  "dchaini_out_of_space_fp (dchaini alist sz) \<longleftrightarrow> sz \<le> int (length alist)"

fun dchaini_allocated_fp :: "dchaini \<Rightarrow> int \<Rightarrow> bool" where
  "dchaini_allocated_fp (dchaini alist sz) idx \<longleftrightarrow> idx \<in> set alist"

fun dchaini_allocate_fp :: "dchaini \<Rightarrow> int \<Rightarrow> dchaini" where
  "dchaini_allocate_fp (dchaini alist sz) idx = dchaini (alist @ [idx]) sz"

fun dchaini_rejuvenate_fp :: "dchaini \<Rightarrow> int \<Rightarrow> dchaini" where
  "dchaini_rejuvenate_fp (dchaini alist sz) index = dchaini (remove1 index alist @ [index]) sz"

fun dchaini_is_empty_fp :: "dchaini \<Rightarrow> bool" where
  "dchaini_is_empty_fp (dchaini alist sz) \<longleftrightarrow> alist = []"

fun dchaini_get_oldest_index_fp :: "dchaini \<Rightarrow> int" where
  "dchaini_get_oldest_index_fp (dchaini alist sz) = hd alist"

fun dchaini_remove_fp :: "dchaini \<Rightarrow> int \<Rightarrow> dchaini" where
  "dchaini_remove_fp (dchaini alist sz) index = dchaini (remove1 index alist) sz"

fun dchaini_irange_fp :: "dchaini \<Rightarrow> int" where
  "dchaini_irange_fp (dchaini alist sz) = sz"

fun dchaini_alist_fp :: "dchaini \<Rightarrow> int list" where
  "dchaini_alist_fp (dchaini alist sz) = alist"

section \<open>Paths through a field\<close>

text \<open>\<open>path f xs\<close>: following \<open>f\<close> from the first element of \<open>xs\<close> visits \<open>xs\<close> in order.\<close>

fun path :: "('a \<Rightarrow> 'a) \<Rightarrow> 'a list \<Rightarrow> bool" where
  "path f (x # y # zs) \<longleftrightarrow> f x = y \<and> path f (y # zs)"
| "path f _ \<longleftrightarrow> True"

lemma path_append: "path f (xs @ y # zs) \<longleftrightarrow> path f (xs @ [y]) \<and> path f (y # zs)"
  by (induction f xs rule: path.induct) (auto simp: neq_Nil_conv Cons_eq_append_conv elim: path.elims)

lemma path_upd [simp]: "x \<notin> set (butlast xs) \<Longrightarrow> path (f(x := v)) xs \<longleftrightarrow> path f xs"
  by (induction f xs rule: path.induct) auto

lemma path_Cons: "path f (x # xs) \<longleftrightarrow> (xs \<noteq> [] \<longrightarrow> f x = hd xs) \<and> path f xs"
  by (cases xs) auto

lemma path_snoc: "path f (xs @ [x, y]) \<longleftrightarrow> path f (xs @ [x]) \<and> f x = y"
  using path_append [of f xs x "[y]"] by simp

text \<open>Taking an element out of a path, and appending one before the last.\<close>

lemma path_unlink:
  assumes "path f (h # us @ x # ws @ [e])" "distinct (h # us @ x # ws)"
  shows "path (f(last (h # us) := hd (ws @ [e]))) (h # us @ ws @ [e])"
proof -
  obtain vs l where vs: "h # us = vs @ [l]" by (metis append_butlast_last_id list.distinct(1))
  obtain z zs where zs: "ws @ [e] = z # zs" by (cases ws) auto
  have l: "l \<in> set (h # us)" "l \<notin> set vs"
    using vs assms(2) by (auto simp: Cons_eq_append_conv)
  have "l \<notin> set (butlast (z # zs))"
    unfolding zs [symmetric] using l(1) assms(2) by (auto simp: butlast_append)
  moreover have "path f (vs @ l # x # z # zs)"
    using assms(1) vs zs by (metis append_Cons append_assoc append_Nil)
  ultimately have "path (f(l := z)) (vs @ l # z # zs)"
    using l path_append [of f vs l "x # z # zs"] path_append [of "f(l := z)" vs l "z # zs"] by simp
  then show ?thesis using vs zs by (metis append_Cons append_assoc append_Nil last_snoc list.sel(1))
qed

lemma path_snoc_link:
  assumes "path f (h # us @ [e])" "distinct (h # us)" "a \<notin> set (h # us)"
  shows "path (f(a := e, last (h # us) := a)) (h # us @ [a, e])"
proof -
  obtain vs l where vs: "h # us = vs @ [l]" by (metis append_butlast_last_id list.distinct(1))
  have l: "l \<notin> set vs" "a \<noteq> l" "a \<notin> set vs"
    using arg_cong [OF vs, of distinct] arg_cong [OF vs, of set] assms(2,3) by auto
  have "path f (vs @ [l])"
    using assms(1) vs path_snoc [of f vs l e] by (metis append_Cons append_assoc append_Nil)
  then have "path (f(a := e, l := a)) (vs @ [l])" using l by simp
  then have "path (f(a := e, l := a)) (vs @ l # [a, e])"
    using l path_append [of "f(a := e, l := a)" vs l "[a, e]"] by simp
  then show ?thesis using vs by (metis append_Cons append_assoc append_Nil last_snoc)
qed

section \<open>The lists an array holds\<close>

definition nx :: "dchain_cell list \<Rightarrow> int \<Rightarrow> int" where
  "nx cells i = (case arr_get cells i of None \<Rightarrow> - 1 | Some c \<Rightarrow> cell_next c)"

definition pv :: "dchain_cell list \<Rightarrow> int \<Rightarrow> int" where
  "pv cells i = (case arr_get cells i of None \<Rightarrow> - 1 | Some c \<Rightarrow> cell_prev c)"

definition upd_next :: "dchain_cell list \<Rightarrow> int \<Rightarrow> int \<Rightarrow> dchain_cell list" where
  "upd_next cells i v = cells[nat i := (cells ! nat i)\<lparr>cell_next := v\<rparr>]"

definition upd_prev :: "dchain_cell list \<Rightarrow> int \<Rightarrow> int \<Rightarrow> dchain_cell list" where
  "upd_prev cells i v = cells[nat i := (cells ! nat i)\<lparr>cell_prev := v\<rparr>]"

definition dchain_links :: "dchain_cell list \<Rightarrow> int list \<Rightarrow> int list \<Rightarrow> int \<Rightarrow> bool" where
  "dchain_links cells al fl n \<longleftrightarrow>
     0 < n \<and> n + 2 < 2 ^ 31 \<and> int (length cells) = n + 2 \<and>
     distinct (al @ fl) \<and> set (al @ fl) = {2..n + 1} \<and>
     path (nx cells) (0 # al @ [0]) \<and> path (pv cells) (0 # rev al @ [0]) \<and>
     path (nx cells) (1 # fl @ [1]) \<and> path (pv cells) (1 # fl @ [1])"

definition dchainip :: "dchaini \<Rightarrow> dchain_cell list \<Rightarrow> bool" where
  "dchainip ch cells \<longleftrightarrow>
     (\<exists>fl. dchain_links cells (map (\<lambda>i. i + 2) (dchaini_alist_fp ch)) fl (dchaini_irange_fp ch))"

lemma length_upd [simp]:
  "length (upd_next cells i v) = length cells" "length (upd_prev cells i v) = length cells"
  by (simp_all add: upd_next_def upd_prev_def)

lemma nx_upd [simp]:
  "0 \<le> i \<Longrightarrow> i < int (length cells) \<Longrightarrow> nx (upd_next cells i v) = (nx cells)(i := v)"
  "0 \<le> i \<Longrightarrow> i < int (length cells) \<Longrightarrow> nx (upd_prev cells i v) = nx cells"
  "0 \<le> i \<Longrightarrow> i < int (length cells) \<Longrightarrow> pv (upd_prev cells i v) = (pv cells)(i := v)"
  "0 \<le> i \<Longrightarrow> i < int (length cells) \<Longrightarrow> pv (upd_next cells i v) = pv cells"
  by (auto simp: fun_eq_iff nx_def pv_def upd_next_def upd_prev_def arr_get_def nth_list_update
      split: option.splits)

lemma cell_run [run_simps]:
  assumes "0 \<le> i" "i < int (length cells)"
  shows "get_next cells i = Some (nx cells i)" "get_prev cells i = Some (pv cells i)"
    "set_next cells i v = Some (upd_next cells i v)" "set_prev cells i v = Some (upd_prev cells i v)"
  using assms by (simp_all add: get_next_def get_prev_def set_next_def set_prev_def nx_def pv_def
      upd_next_def upd_prev_def arr_get_def arr_set_def)

lemmas dchain_consts [run_simps] = ALLOC_LIST_HEAD_def FREE_LIST_HEAD_def INDEX_SHIFT_def

lemma dchain_links_range:
  assumes "dchain_links cells al fl n" "c \<in> set al \<union> set fl \<union> {0, 1}"
  shows "0 \<le> c" "c < int (length cells)"
proof -
  have "set al \<union> set fl = {2..n + 1}" using assms(1) by (simp add: dchain_links_def)
  then have "c \<in> {2..n + 1} \<union> {0, 1}" using assms(2) by (metis (no_types))
  then show "0 \<le> c" "c < int (length cells)" using assms(1) by (auto simp: dchain_links_def)
qed

lemma dchain_links_member:
  assumes "dchain_links cells al fl n" "c \<in> set al \<union> set fl"
  shows "2 \<le> c" "c < n + 2"
proof -
  have "c \<in> {2..n + 1}" using assms by (simp add: dchain_links_def)
  then show "2 \<le> c" "c < n + 2" by simp_all
qed

lemma dchain_links_read:
  assumes "dchain_links cells (us @ x # ws) fl n"
  shows "nx cells x = hd (ws @ [0])" "pv cells x = last (0 # us)"
proof -
  have "path (nx cells) ((0 # us) @ x # ws @ [0])" "path (pv cells) ((0 # rev ws) @ x # rev us @ [0])"
    using assms by (simp_all add: dchain_links_def)
  then have "path (nx cells) (x # ws @ [0])" "path (pv cells) (x # rev us @ [0])"
    by (metis path_append)+
  then show "nx cells x = hd (ws @ [0])" "pv cells x = last (0 # us)"
    by (cases ws; cases us rule: rev_cases; simp)+
qed

text \<open>
  The updates an operation makes, on the fields: an appended cell, a cell taken out of the
  allocated list, a cell put in front of the free list.
\<close>

lemma ends_notin:
  assumes "(insert 0 (set us \<union> set ws)) \<inter> X = {}"
  shows "last (0 # us) \<notin> X" "hd (ws @ [0]) \<notin> X" "last (0 # us @ ws) \<notin> X"
proof -
  have "last (0 # us) \<in> set (0 # us)" "hd (ws @ [0]) \<in> set (ws @ [0])"
    "last (0 # us @ ws) \<in> set (0 # us @ ws)"
    by (rule last_in_set, simp, rule hd_in_set, simp, rule last_in_set, simp)
  with assms show "last (0 # us) \<notin> X" "hd (ws @ [0]) \<notin> X" "last (0 # us @ ws) \<notin> X"
    by (auto simp del: last.simps)
qed

lemma dchain_links_take_free:
  assumes "dchain_links cells al (a # fl) n" "length cells' = length cells"
    and "nx cells' = (nx cells)(1 := hd (fl @ [1]), a := 0, last (0 # al) := a)"
    and "pv cells' = (pv cells)(1 := hd (fl @ [1]), a := last (0 # al), 0 := a)"
  shows "dchain_links cells' (al @ [a]) fl n"
proof -
  have inv: "distinct (al @ a # fl)" "set (al @ a # fl) = {2..n + 1}"
    "path (nx cells) (0 # al @ [0])" "path (pv cells) (0 # rev al @ [0])"
    "path (nx cells) (a # fl @ [1])" "path (pv cells) (a # fl @ [1])"
    using assms(1) by (auto simp: dchain_links_def)
  have low: "0 \<notin> set (al @ a # fl)" "1 \<notin> set (al @ a # fl)"
    unfolding inv(2) by simp_all
  have "insert 0 (set al \<union> set []) \<inter> (set fl \<union> {1, a}) = {}" using inv(1) low by auto
  from ends_notin(1) [OF this] have l: "last (0 # al) \<notin> set fl \<union> {1, a}" .
  have fl: "path (nx cells) (fl @ [1])" "path (pv cells) (fl @ [1])"
    using inv(5,6) by (auto simp: path_Cons)
  have "path (nx cells') (0 # al @ [a, 0])"
    unfolding assms(3)
    using path_snoc_link [of "(nx cells)(1 := hd (fl @ [1]))" 0 al 0 a] inv(1,3) low
    by (simp add: butlast_append del: last.simps)
  moreover have "path (pv cells') (0 # a # rev al @ [0])"
    unfolding assms(4) using inv(1,4) low by (cases al rule: rev_cases) (auto simp: path_Cons butlast_append)
  moreover have "path (nx cells') (1 # fl @ [1])" "path (pv cells') (1 # fl @ [1])"
    unfolding assms(3,4) using fl inv(1) low l
    by (simp_all add: path_Cons butlast_append del: last.simps)
  moreover have "distinct ((al @ [a]) @ fl)" "set ((al @ [a]) @ fl) = {2..n + 1}"
    unfolding inv(2) [symmetric] using inv(1) by auto
  ultimately show ?thesis using assms(1,2) by (simp add: dchain_links_def)
qed

lemma dchain_links_release:
  assumes "dchain_links cells (us @ x # ws) fl n" "length cells' = length cells"
    and "nx cells' = (nx cells)(last (0 # us) := hd (ws @ [0]), x := hd (fl @ [1]), 1 := x)"
    and "pv cells' = (pv cells)(hd (ws @ [0]) := last (0 # us), x := hd (fl @ [1]), 1 := x)"
  shows "dchain_links cells' (us @ ws) (x # fl) n"
proof -
  have inv: "distinct (us @ x # ws @ fl)" "set (us @ x # ws @ fl) = {2..n + 1}"
    "path (nx cells) (0 # us @ x # ws @ [0])" "path (pv cells) (0 # rev ws @ x # rev us @ [0])"
    "path (nx cells) (fl @ [1])" "path (pv cells) (fl @ [1])"
    using assms(1) by (auto simp: dchain_links_def path_Cons)
  have low: "0 \<notin> set (us @ x # ws @ fl)" "1 \<notin> set (us @ x # ws @ fl)"
    unfolding inv(2) by simp_all
  have "insert 0 (set us \<union> set ws) \<inter> (set fl \<union> {1, x}) = {}" using inv(1) low by auto
  note l = ends_notin [OF this]
  have rev: "last (0 # rev ws) = hd (ws @ [0])" "hd (rev us @ [0]) = last (0 # us)"
    by (cases ws; cases us rule: rev_cases; simp)+
  have "path (nx cells') (0 # us @ ws @ [0])"
    unfolding assms(3) using path_unlink [OF inv(3)] inv(1) low
    by (simp add: butlast_append Int_Un_distrib del: last.simps)
  moreover have "path (pv cells') (0 # rev ws @ rev us @ [0])"
    unfolding assms(4) using path_unlink [OF inv(4)] inv(1) low
    by (simp add: rev butlast_append Int_commute Int_Un_distrib del: last.simps)
  moreover have "path (nx cells') (1 # x # fl @ [1])" "path (pv cells') (1 # x # fl @ [1])"
    unfolding assms(3,4) using inv(1,5,6) low l
    by (simp_all add: path_Cons butlast_append del: last.simps)
  moreover have "distinct ((us @ ws) @ x # fl)" "set ((us @ ws) @ x # fl) = {2..n + 1}"
    unfolding inv(2) [symmetric] using inv(1) by auto
  ultimately show ?thesis using assms(1,2) by (simp add: dchain_links_def)
qed

lemma dchain_links_lift:
  assumes "dchain_links cells (us @ x # ws) fl n" "length cells' = length cells"
    and "nx cells' = (nx cells)(last (0 # us) := hd (ws @ [0]), x := 0, last (0 # us @ ws) := x)"
    and "pv cells' = (pv cells)(hd (ws @ [0]) := last (0 # us), x := last (0 # us @ ws), 0 := x)"
  shows "dchain_links cells' (us @ ws @ [x]) fl n"
proof -
  have inv: "distinct (us @ x # ws @ fl)" "set (us @ x # ws @ fl) = {2..n + 1}"
    "path (nx cells) (0 # us @ x # ws @ [0])" "path (pv cells) (0 # rev ws @ x # rev us @ [0])"
    "path (nx cells) (1 # fl @ [1])" "path (pv cells) (1 # fl @ [1])"
    using assms(1) by (auto simp: dchain_links_def)
  have low: "0 \<notin> set (us @ x # ws @ fl)" "1 \<notin> set (us @ x # ws @ fl)"
    unfolding inv(2) by simp_all
  have "insert 0 (set us \<union> set ws) \<inter> (set fl \<union> {1, x}) = {}" using inv(1) low by auto
  note l = ends_notin [OF this]
  have rev: "last (0 # rev ws) = hd (ws @ [0])" "hd (rev us @ [0]) = last (0 # us)"
    by (cases ws; cases us rule: rev_cases; simp)+
  have "path ((nx cells)(last (0 # us) := hd (ws @ [0]))) (0 # (us @ ws) @ [0])"
    using path_unlink [OF inv(3)] inv(1) low by (simp add: Int_Un_distrib del: last.simps)
  from path_snoc_link [OF this, of x] have nx': "path (nx cells') (0 # us @ ws @ [x, 0])"
    unfolding assms(3) using inv(1) low by (simp add: Int_Un_distrib del: last.simps)
  have "path ((pv cells)(hd (ws @ [0]) := last (0 # us))) (0 # rev ws @ rev us @ [0])"
    using path_unlink [OF inv(4)] inv(1) low
    by (simp add: rev Int_commute Int_Un_distrib del: last.simps)
  moreover have "hd (rev ws @ rev us @ [0]) = last (0 # us @ ws)"
    by (cases ws rule: rev_cases; cases us rule: rev_cases; simp)
  ultimately have "path (pv cells') (0 # x # rev ws @ rev us @ [0])"
    unfolding assms(4) using inv(1) low
    by (simp add: path_Cons butlast_append del: last.simps)
  moreover have "path (nx cells') (1 # fl @ [1])" "path (pv cells') (1 # fl @ [1])"
    unfolding assms(3,4) using inv(1,5,6) low l by (simp_all add: butlast_append del: last.simps)
  moreover have "distinct ((us @ ws @ [x]) @ fl)" "set ((us @ ws @ [x]) @ fl) = {2..n + 1}"
    unfolding inv(2) [symmetric] using inv(1) by auto
  ultimately show ?thesis using assms(1,2) using nx' by (simp add: dchain_links_def)
qed

section \<open>Running the code\<close>

lemma dchain_links_free_read:
  assumes "dchain_links cells al (us @ x # ws) n"
  shows "nx cells x = hd (ws @ [1])" "pv cells x = hd (ws @ [1])" "hd (ws @ [1]) \<noteq> 0"
proof -
  have "path (nx cells) ((1 # us) @ x # ws @ [1])" "path (pv cells) ((1 # us) @ x # ws @ [1])"
    using assms by (simp_all add: dchain_links_def)
  then have "path (nx cells) (x # ws @ [1])" "path (pv cells) (x # ws @ [1])"
    by (metis path_append)+
  then show "nx cells x = hd (ws @ [1])" "pv cells x = hd (ws @ [1])" by (simp_all add: path_Cons)
  show "hd (ws @ [1]) \<noteq> 0"
    using dchain_links_member(1) [OF assms, of "hd ws"] by (cases ws) auto
qed

lemma dchain_links_heads:
  assumes "dchain_links cells al fl n"
  shows "nx cells 0 = hd (al @ [0])" "pv cells 0 = last (0 # al)" "nx cells 1 = hd (fl @ [1])"
proof -
  have "path (nx cells) (0 # al @ [0])" "path (pv cells) (0 # rev al @ [0])"
    "path (nx cells) (1 # fl @ [1])"
    using assms by (auto simp: dchain_links_def)
  then show "nx cells 0 = hd (al @ [0])" "pv cells 0 = last (0 # al)" "nx cells 1 = hd (fl @ [1])"
    by (cases al rule: rev_cases; simp add: path_Cons)+
qed

text \<open>A cell of the allocated list is recognised by its two links.\<close>

lemma dchain_links_alloc_read:
  assumes "dchain_links cells (us @ x # ws) fl n"
  shows "hd (ws @ [0]) = last (0 # us) \<longleftrightarrow> us = [] \<and> ws = []"
proof (cases "us = [] \<or> ws = []")
  case True
  have "0 \<notin> set (us @ x # ws)" using dchain_links_member(1) [OF assms, of 0] by auto
  then show ?thesis using True by (cases ws; cases us rule: rev_cases) auto
next
  case False
  then have "hd ws \<in> set ws" "last us \<in> set us" by auto
  then have "hd ws \<noteq> last us" using assms by (auto simp: dchain_links_def)
  then show ?thesis using False by auto
qed

lemma dchain_links_size:
  assumes "dchain_links cells al fl n"
  shows "int (length al + length fl) = n" "0 < n" "n + 2 < 2 ^ 31" "int (length cells) = n + 2"
proof -
  have "distinct (al @ fl)" "set (al @ fl) = {2..n + 1}"
    using assms unfolding dchain_links_def by blast+
  then have "length (al @ fl) = card {2..n + 1}" using distinct_card [of "al @ fl"] by metis
  then show "int (length al + length fl) = n" using assms by (simp add: dchain_links_def)
qed (use assms in \<open>simp_all add: dchain_links_def\<close>)

lemma allocate_new_index_run:
  assumes links: "dchain_links cells al fl n"
  shows "fl = [] \<Longrightarrow> dchain_impl_allocate_new_index cells index = Some (0, index, cells)"
    "fl = a # fl' \<Longrightarrow> \<exists>cells'. dchain_impl_allocate_new_index cells index = Some (1, a - 2, cells') \<and>
       dchain_links cells' (al @ [a]) fl' n"
proof -
  note sz = dchain_links_size [OF links]
  show "dchain_impl_allocate_new_index cells index = Some (0, index, cells)" if "fl = []"
    using that sz dchain_links_heads [OF links]
    by (simp add: dchain_impl_allocate_new_index_def run_simps)
  show "\<exists>cells'. dchain_impl_allocate_new_index cells index = Some (1, a - 2, cells') \<and>
       dchain_links cells' (al @ [a]) fl' n" if "fl = a # fl'"
  proof -
    define l z where "l = last (0 # al)" and "z = hd (fl' @ [1])"
    have reads: "nx cells 1 = a" "pv cells 0 = l" "nx cells a = z"
      using dchain_links_heads [OF links] dchain_links_free_read(1) [of cells al "[]" a fl' n] links
      by (simp_all add: that l_def z_def del: last.simps)
    have a: "2 \<le> a" "a < n + 2" using dchain_links_member [OF links, of a] that by auto
    have "l \<in> set (0 # al)" unfolding l_def by (rule last_in_set) simp
    then have l: "0 \<le> l" "l < n + 2" using dchain_links_range [OF links, of l] sz by auto
    let ?c = "upd_prev (upd_next (upd_prev (upd_next (upd_prev (upd_next cells 1 z) 1 z) a 0) a l) l a) 0 a"
    have "dchain_impl_allocate_new_index cells index = Some (1, a - 2, ?c)"
      using reads a l sz by (simp add: dchain_impl_allocate_new_index_def run_simps)
    moreover have "dchain_links ?c (al @ [a]) fl' n"
      using links a l sz unfolding that
      by (intro dchain_links_take_free [of cells al a fl' n]) (simp_all add: l_def [symmetric] z_def [symmetric] del: last.simps)
    ultimately show ?thesis by blast
  qed
qed

lemma free_index_run:
  assumes links: "dchain_links cells (us @ x # ws) fl n"
  shows "\<exists>cells'. dchain_impl_free_index cells (x - 2) = Some (1, cells') \<and>
     dchain_links cells' (us @ ws) (x # fl) n"
proof -
  note sz = dchain_links_size [OF links]
  define l r z where "l = last (0 # us)" and "r = hd (ws @ [0])" and "z = hd (fl @ [1])"
  have reads: "nx cells 1 = z" "pv cells x = l" "nx cells x = r"
    using dchain_links_heads [OF links] dchain_links_read [OF links]
    by (simp_all add: l_def z_def r_def del: last.simps)
  have x: "2 \<le> x" "x < n + 2" using dchain_links_member [OF links, of x] by auto
  have "l \<in> set (0 # us)" "r \<in> set (ws @ [0])"
    unfolding l_def r_def by (rule last_in_set, simp, rule hd_in_set, simp)
  then have lr: "0 \<le> l" "l < n + 2" "0 \<le> r" "r < n + 2"
    using dchain_links_range [OF links, of l] dchain_links_range [OF links, of r] sz by auto
  have neq: "l \<noteq> 1" "r = l \<longrightarrow> l = 0"
  proof -
    show "l \<noteq> 1" using \<open>l \<in> set (0 # us)\<close> dchain_links_member(1) [OF links, of l] by auto
    show "r = l \<longrightarrow> l = 0"
      using dchain_links_alloc_read [OF links] unfolding l_def [symmetric] r_def [symmetric]
      by (auto simp: l_def)
  qed
  let ?c = "upd_prev (upd_next (upd_prev (upd_next (upd_prev (upd_next cells l r) r l) x z) x z) 1 x) 1 x"
  have "dchain_impl_free_index cells (x - 2) = Some (1, ?c)"
    using reads x lr sz neq by (auto simp: dchain_impl_free_index_def run_simps)
  moreover have "dchain_links ?c (us @ ws) (x # fl) n"
    using links x lr sz
    by (intro dchain_links_release [of cells us x ws fl n])
      (simp_all add: l_def [symmetric] z_def [symmetric] r_def [symmetric] del: last.simps)
  ultimately show ?thesis by blast
qed

lemma free_index_free:
  assumes links: "dchain_links cells al fl n" and x: "x \<in> set fl"
  shows "dchain_impl_free_index cells (x - 2) = Some (0, cells)"
    "dchain_impl_rejuvenate_index cells (x - 2) = Some (0, cells)"
    "dchain_impl_is_index_allocated cells (x - 2) = Some 0"
proof -
  obtain us ws where fl: "fl = us @ x # ws" using x by (metis split_list)
  note reads = dchain_links_free_read [OF links [unfolded fl]]
  have "2 \<le> x" "x < n + 2" using dchain_links_member [OF links, of x] x by auto
  with reads dchain_links_size [OF links]
  show "dchain_impl_free_index cells (x - 2) = Some (0, cells)"
    "dchain_impl_rejuvenate_index cells (x - 2) = Some (0, cells)"
    "dchain_impl_is_index_allocated cells (x - 2) = Some 0"
    by (simp_all add: dchain_impl_free_index_def dchain_impl_rejuvenate_index_def
        dchain_impl_is_index_allocated_def run_simps)
qed

lemma is_index_allocated_run:
  assumes links: "dchain_links cells al fl n" and x: "x \<in> set al"
  shows "dchain_impl_is_index_allocated cells (x - 2) = Some 1"
proof -
  obtain us ws where al: "al = us @ x # ws" using x by (metis split_list)
  have "2 \<le> x" "x < n + 2" using dchain_links_member [OF links, of x] x by auto
  then show ?thesis
    using dchain_links_size [OF links] dchain_links_read [OF links [unfolded al]]
      dchain_links_alloc_read [OF links [unfolded al]]
    by (auto simp: dchain_impl_is_index_allocated_def run_simps simp del: last.simps)
qed

lemma get_oldest_index_run:
  assumes links: "dchain_links cells al fl n"
  shows "dchain_impl_get_oldest_index cells index =
     Some (if al = [] then (0, index) else (1, hd al - 2))"
proof (cases al)
  case Nil
  then show ?thesis using dchain_links_heads [OF links] dchain_links_size [OF links]
    by (simp add: dchain_impl_get_oldest_index_def run_simps)
next
  case (Cons x xs)
  then have "2 \<le> x" "x < n + 2" using dchain_links_member [OF links, of x] by auto
  with Cons show ?thesis using dchain_links_heads [OF links] dchain_links_size [OF links]
    by (simp add: dchain_impl_get_oldest_index_def run_simps)
qed

lemma rejuvenate_index_run:
  assumes links: "dchain_links cells (us @ x # ws) fl n"
  shows "\<exists>cells'. dchain_impl_rejuvenate_index cells (x - 2) = Some (1, cells') \<and>
     dchain_links cells' (us @ ws @ [x]) fl n"
proof -
  note sz = dchain_links_size [OF links]
  define l r e where "l = last (0 # us)" and "r = hd (ws @ [0])" and "e = last (0 # us @ ws)"
  have reads: "pv cells x = l" "nx cells x = r" "pv cells 0 = last (0 # us @ x # ws)"
    using dchain_links_heads [OF links] dchain_links_read [OF links]
    by (simp_all add: l_def r_def del: last.simps)
  have x: "2 \<le> x" "x < n + 2" using dchain_links_member [OF links, of x] by auto
  have mem: "l \<in> set (0 # us)" "r \<in> set (ws @ [0])" "e \<in> set (0 # us @ ws)"
    unfolding l_def r_def e_def by (rule last_in_set, simp, rule hd_in_set, simp, rule last_in_set, simp)
  then have lr: "0 \<le> l" "l < n + 2" "0 \<le> r" "r < n + 2" "0 \<le> e" "e < n + 2"
    using dchain_links_range [OF links, of l] dchain_links_range [OF links, of r]
      dchain_links_range [OF links, of e] sz by auto
  show ?thesis
  proof (cases "r = l")
    case True
    then have "us = [] \<and> ws = []"
      using dchain_links_alloc_read [OF links] by (simp add: l_def r_def del: last.simps)
    then have "dchain_impl_rejuvenate_index cells (x - 2) = Some (1, cells)"
      using reads x sz by (simp add: dchain_impl_rejuvenate_index_def run_simps l_def r_def)
    with \<open>us = [] \<and> ws = []\<close> links show ?thesis by simp
  next
    case False
    have head: "((pv cells)(r := l)) 0 = e"
    proof (cases ws rule: rev_cases)
      case Nil
      then show ?thesis by (simp add: r_def l_def e_def)
    next
      case (snoc vs w)
      have "0 \<notin> set ws" using dchain_links_member(1) [OF links, of 0] by auto
      then have "r \<noteq> 0" using snoc mem(2) by (cases vs) (auto simp: r_def)
      then show ?thesis using snoc reads(3) by (simp add: e_def)
    qed
    let ?c = "upd_prev (upd_next (upd_prev (upd_next (upd_prev (upd_next cells l r) r l) x 0) x e) e x) 0 x"
    have "dchain_impl_rejuvenate_index cells (x - 2) = Some (1, ?c)"
      using reads(1,2) x lr sz False head
      by (simp add: dchain_impl_rejuvenate_index_def run_simps del: fun_upd_apply)
    moreover have "dchain_links ?c (us @ ws @ [x]) fl n"
      using links x lr sz
      by (intro dchain_links_lift [of cells us x ws fl n])
        (simp_all add: l_def [symmetric] e_def [symmetric] r_def [symmetric] del: last.simps)
    ultimately show ?thesis by blast
  qed
qed

lemma dchain_impl_init_loop_run:
  assumes "0 \<le> i" "i \<le> sz + 1" "int (length cells) = sz + 2"
  shows "\<exists>cells'. dchain_impl_init_loop cells sz i = Some (sz + 1, cells') \<and>
     length cells' = length cells \<and>
     nx cells' = (\<lambda>j. if i \<le> j \<and> j < sz + 1 then j + 1 else nx cells j) \<and>
     pv cells' = (\<lambda>j. if i \<le> j \<and> j < sz + 1 then j + 1 else pv cells j)"
  using assms
proof (induction "nat (sz + 1 - i)" arbitrary: i cells)
  case 0
  then have "i = sz + 1" by simp
  then show ?case
    by (intro exI [of _ cells]) (subst dchain_impl_init_loop.simps, auto simp: run_simps fun_eq_iff)
next
  case (Suc k)
  let ?c = "upd_prev (upd_next cells i (i + 1)) i (i + 1)"
  have i: "0 \<le> i" "i < sz + 1" using Suc by auto
  have "k = nat (sz + 1 - (i + 1))" using Suc by simp
  from Suc.hyps(1) [OF this, of ?c] obtain cells' where
    "dchain_impl_init_loop ?c sz (i + 1) = Some (sz + 1, cells')" "length cells' = length cells"
    "nx cells' = (\<lambda>j. if i + 1 \<le> j \<and> j < sz + 1 then j + 1 else nx ?c j)"
    "pv cells' = (\<lambda>j. if i + 1 \<le> j \<and> j < sz + 1 then j + 1 else pv ?c j)"
    using i Suc.prems(3) by auto
  moreover have "dchain_impl_init_loop cells sz i = dchain_impl_init_loop ?c sz (i + 1)"
    using i Suc.prems(3) by (subst dchain_impl_init_loop.simps) (simp add: run_simps)
  ultimately show ?case
    using i Suc.prems(3) by (intro exI [of _ cells']) (auto simp: fun_eq_iff)
qed

lemma path_upto:
  assumes "a \<le> b" "\<And>j. a \<le> j \<Longrightarrow> j < b \<Longrightarrow> f j = j + 1" "f b = e"
  shows "path f ([a..b] @ [e])"
  using assms
proof (induction "nat (b - a)" arbitrary: a)
  case 0
  then show ?case by simp
next
  case (Suc k)
  then have "a < b" by simp
  have "path f ([a + 1..b] @ [e])" using Suc by (intro Suc.hyps) auto
  moreover have "[a..b] = a # [a + 1..b]" "[a + 1..b] = (a + 1) # [2 + a..b]"
    using \<open>a < b\<close> upto_rec1 [of a b] upto_rec1 [of "a + 1" b] by simp_all
  ultimately show ?case using Suc.prems(2) [of a] \<open>a < b\<close> by simp
qed

lemma dchain_impl_init_run:
  assumes "0 < sz" "sz + 2 < 2 ^ 31" "int (length cells) = sz + 2"
  shows "\<exists>cells'. dchain_impl_init cells sz = Some cells' \<and> dchain_links cells' [] [2..sz + 1] sz"
proof -
  let ?a = "upd_prev (upd_next (upd_next (upd_prev cells 0 0) 0 0) 1 2) 1 2"
  obtain b where b: "dchain_impl_init_loop ?a sz 2 = Some (sz + 1, b)" "length b = length cells"
    "nx b = (\<lambda>j. if 2 \<le> j \<and> j < sz + 1 then j + 1 else nx ?a j)"
    "pv b = (\<lambda>j. if 2 \<le> j \<and> j < sz + 1 then j + 1 else pv ?a j)"
    using dchain_impl_init_loop_run [of 2 sz ?a] assms by auto
  let ?c = "upd_prev (upd_next b (sz + 1) 1) (sz + 1) 1"
  have "dchain_impl_init cells sz = Some ?c"
    using assms b by (simp add: dchain_impl_init_def run_simps)
  moreover have "dchain_links ?c [] [2..sz + 1] sz"
  proof -
    have "path (nx ?c) ([1..sz + 1] @ [1])" "path (pv ?c) ([1..sz + 1] @ [1])"
      using assms b by (intro path_upto; auto)+
    moreover have "[1..sz + 1] = 1 # [2..sz + 1]" using upto_rec1 [of 1 "sz + 1"] assms by simp
    ultimately show ?thesis using assms b by (simp add: dchain_links_def)
  qed
  ultimately show ?thesis by blast
qed

section \<open>Refinement of the abstract allocator\<close>

lemma dchainip_index:
  assumes "dchainip ch cells" "dchaini_allocated_fp ch i"
  shows "0 \<le> i" "i < dchaini_irange_fp ch"
proof -
  obtain fl where links: "dchain_links cells (map (\<lambda>i. i + 2) (dchaini_alist_fp ch)) fl (dchaini_irange_fp ch)"
    using assms(1) by (auto simp: dchainip_def)
  have "i + 2 \<in> set (map (\<lambda>i. i + 2) (dchaini_alist_fp ch))" using assms(2) by (cases ch) auto
  with dchain_links_member [OF links, of "i + 2"] show "0 \<le> i" "i < dchaini_irange_fp ch" by auto
qed

lemma dchainip_irange:
  assumes "dchainip ch cells"
  shows "0 < dchaini_irange_fp ch" "int (length cells) = dchaini_irange_fp ch + 2"
    "distinct (dchaini_alist_fp ch)" "int (length (dchaini_alist_fp ch)) \<le> dchaini_irange_fp ch"
proof -
  obtain fl where links: "dchain_links cells (map (\<lambda>i. i + 2) (dchaini_alist_fp ch)) fl (dchaini_irange_fp ch)"
    using assms(1) by (auto simp: dchainip_def)
  from dchain_links_size [OF links] show "0 < dchaini_irange_fp ch"
    "int (length cells) = dchaini_irange_fp ch + 2"
    "int (length (dchaini_alist_fp ch)) \<le> dchaini_irange_fp ch"
    by auto
  show "distinct (dchaini_alist_fp ch)" using links by (auto simp: dchain_links_def distinct_map)
qed

lemma dchain_impl_init_refines:
  assumes "0 < sz" "sz + 2 < 2 ^ 31" "int (length cells) = sz + 2"
  shows "\<exists>cells'. dchain_impl_init cells sz = Some cells' \<and> dchainip (empty_dchaini_fp sz) cells'"
  using dchain_impl_init_run [OF assms] by (auto simp: dchainip_def)

lemma dchain_impl_allocate_refines:
  assumes "dchainip ch cells"
  shows "dchaini_out_of_space_fp ch \<Longrightarrow>
      dchain_impl_allocate_new_index cells index = Some (0, index, cells)"
    "\<not> dchaini_out_of_space_fp ch \<Longrightarrow>
      \<exists>i cells'. dchain_impl_allocate_new_index cells index = Some (1, i, cells') \<and>
        \<not> dchaini_allocated_fp ch i \<and> 0 \<le> i \<and> i < dchaini_irange_fp ch \<and>
        dchainip (dchaini_allocate_fp ch i) cells'"
proof -
  obtain al sz where ch: "ch = dchaini al sz" by (cases ch)
  obtain fl where links: "dchain_links cells (map (\<lambda>i. i + 2) al) fl sz"
    using assms by (auto simp: dchainip_def ch)
  note len = dchain_links_size(1) [OF links]
  show "dchain_impl_allocate_new_index cells index = Some (0, index, cells)"
    if "dchaini_out_of_space_fp ch"
  proof -
    have "fl = []" using that len by (cases fl) (auto simp: ch)
    then show ?thesis by (rule allocate_new_index_run(1) [OF links])
  qed
  show "\<exists>i cells'. dchain_impl_allocate_new_index cells index = Some (1, i, cells') \<and>
        \<not> dchaini_allocated_fp ch i \<and> 0 \<le> i \<and> i < dchaini_irange_fp ch \<and>
        dchainip (dchaini_allocate_fp ch i) cells'" if room: "\<not> dchaini_out_of_space_fp ch"
  proof -
    obtain a fl' where fl: "fl = a # fl'" using room len by (cases fl) (auto simp: ch)
    obtain cells' where run: "dchain_impl_allocate_new_index cells index = Some (1, a - 2, cells')"
      "dchain_links cells' (map (\<lambda>i. i + 2) al @ [a]) fl' sz"
      using allocate_new_index_run(2) [OF links fl] by blast
    have "a \<notin> set (map (\<lambda>i. i + 2) al)" using links fl by (auto simp: dchain_links_def)
    then have "a - 2 \<notin> set al" by force
    moreover have "2 \<le> a" "a < sz + 2" using dchain_links_member [OF links, of a] fl by auto
    ultimately show ?thesis using run by (auto simp: ch dchainip_def)
  qed
qed

lemma map_shift_remove1:
  "distinct al \<Longrightarrow> map (\<lambda>i. i + (2::int)) al = us @ (i + 2) # ws \<Longrightarrow>
   map (\<lambda>i. i + 2) (remove1 i al) = us @ ws"
proof (induction al arbitrary: us)
  case (Cons a al)
  show ?case
  proof (cases us)
    case (Cons u us')
    have "a \<noteq> i"
    proof
      assume "a = i"
      then have "i + 2 \<in> set (map (\<lambda>i. i + 2) al)" using Cons Cons.prems(2) by auto
      then show False using Cons.prems(1) \<open>a = i\<close> by auto
    qed
    then show ?thesis using Cons Cons.prems Cons.IH [of us'] by auto
  qed (use Cons.prems in auto)
qed simp

lemma dchainip_split:
  assumes "dchainip (dchaini al sz) cells" "i \<in> set al"
  obtains us ws fl where "dchain_links cells (us @ (i + 2) # ws) fl sz"
    "map (\<lambda>i. i + 2) (remove1 i al) = us @ ws"
proof -
  obtain fl where links: "dchain_links cells (map (\<lambda>i. i + 2) al) fl sz"
    using assms by (auto simp: dchainip_def)
  have "i + 2 \<in> set (map (\<lambda>i. i + 2) al)" using assms(2) by simp
  then obtain us ws where split: "map (\<lambda>i. i + 2) al = us @ (i + 2) # ws" by (metis split_list)
  moreover have "distinct al" using dchainip_irange(3) [OF assms(1)] by simp
  ultimately show thesis using that links map_shift_remove1 [of al us i ws] by simp
qed

lemma dchain_impl_allocated_refines:
  assumes "dchainip ch cells" "dchaini_allocated_fp ch i"
  shows "\<exists>cells'. dchain_impl_free_index cells i = Some (1, cells') \<and>
      dchainip (dchaini_remove_fp ch i) cells'"
    "\<exists>cells'. dchain_impl_rejuvenate_index cells i = Some (1, cells') \<and>
      dchainip (dchaini_rejuvenate_fp ch i) cells'"
    "dchain_impl_is_index_allocated cells i = Some 1"
proof -
  obtain al sz where ch: "ch = dchaini al sz" by (cases ch)
  then have "i \<in> set al" using assms(2) by simp
  then obtain us ws fl where links: "dchain_links cells (us @ (i + 2) # ws) fl sz"
    and rem: "map (\<lambda>i. i + 2) (remove1 i al) = us @ ws"
    using dchainip_split assms(1) unfolding ch by metis
  show "\<exists>cells'. dchain_impl_free_index cells i = Some (1, cells') \<and>
      dchainip (dchaini_remove_fp ch i) cells'"
    using free_index_run [OF links] rem by (auto simp: ch dchainip_def)
  show "\<exists>cells'. dchain_impl_rejuvenate_index cells i = Some (1, cells') \<and>
      dchainip (dchaini_rejuvenate_fp ch i) cells'"
    using rejuvenate_index_run [OF links] rem by (auto simp: ch dchainip_def)
  show "dchain_impl_is_index_allocated cells i = Some 1"
    using is_index_allocated_run [OF links, of "i + 2"] by simp
qed

lemma dchain_impl_free_refines:
  assumes "dchainip ch cells" "\<not> dchaini_allocated_fp ch i" "0 \<le> i" "i < dchaini_irange_fp ch"
  shows "dchain_impl_free_index cells i = Some (0, cells)"
    "dchain_impl_rejuvenate_index cells i = Some (0, cells)"
    "dchain_impl_is_index_allocated cells i = Some 0"
proof -
  obtain al sz where ch: "ch = dchaini al sz" by (cases ch)
  obtain fl where links: "dchain_links cells (map (\<lambda>i. i + 2) al) fl sz"
    using assms by (auto simp: dchainip_def ch)
  have "i + 2 \<in> {2..sz + 1}" using assms(3,4) by (simp add: ch)
  also have "{2..sz + 1} = set (map (\<lambda>i. i + 2) al @ fl)"
    using links unfolding dchain_links_def by blast
  finally have "i + 2 \<in> set fl" using assms(2) by (auto simp: ch)
  from free_index_free [OF links this] show "dchain_impl_free_index cells i = Some (0, cells)"
    "dchain_impl_rejuvenate_index cells i = Some (0, cells)"
    "dchain_impl_is_index_allocated cells i = Some 0" by simp_all
qed

lemma dchain_impl_oldest_refines:
  assumes "dchainip ch cells"
  shows "dchain_impl_get_oldest_index cells index =
     Some (if dchaini_is_empty_fp ch then (0, index) else (1, dchaini_get_oldest_index_fp ch))"
proof -
  obtain al sz where ch: "ch = dchaini al sz" by (cases ch)
  obtain fl where links: "dchain_links cells (map (\<lambda>i. i + 2) al) fl sz"
    using assms by (auto simp: dchainip_def ch)
  show ?thesis using get_oldest_index_run [OF links] by (cases al) (auto simp: ch)
qed

end
