(* ===== verification/Heap_Alloc.thy ===== *)
theory Heap_Alloc
  imports Prelude
begin

text \<open>
  \<open>malloc\<close> and \<open>free\<close> as the allocation functions of the library use them. A heap is
  the sizes of the live blocks by block number, the next unused block number, and the answers
  of the allocator to come: \<open>malloc\<close> returns no block when the answer is false or when no
  answer is left. Freeing a block that is not live is a fault, so that a run that returns has
  freed no block twice. The contents of a new block are arbitrary: the allocating functions
  take them as an argument.
\<close>

record heap =
  live :: "nat \<rightharpoonup> nat"
  fresh :: nat
  answers :: "bool list"

definition malloc :: "nat \<Rightarrow> heap \<Rightarrow> nat option \<times> heap" where
  "malloc sz h =
     (case answers h of
        True # bs \<Rightarrow>
          (Some (fresh h), h\<lparr>live := (live h)(fresh h \<mapsto> sz), fresh := Suc (fresh h), answers := bs\<rparr>)
      | False # bs \<Rightarrow> (None, h\<lparr>answers := bs\<rparr>)
      | [] \<Rightarrow> (None, h))"

definition free :: "nat \<Rightarrow> heap \<Rightarrow> heap option" where
  "free b h = (if live h b = None then None else Some (h\<lparr>live := (live h)(b := None)\<rparr>))"

text \<open>A size computed in \<open>size_t\<close>, 64 bits wide.\<close>

definition size_t :: "int \<Rightarrow> nat" where
  "size_t x = nat (x mod 2 ^ 64)"

text \<open>Every block number from \<open>fresh\<close> on is unused.\<close>

definition heap_ok :: "heap \<Rightarrow> bool" where
  "heap_ok h \<longleftrightarrow> (\<forall>b. fresh h \<le> b \<longrightarrow> live h b = None)"

lemma size_t_nonneg [simp]: "0 \<le> x \<Longrightarrow> x < 2 ^ 64 \<Longrightarrow> size_t x = nat x"
  by (simp add: size_t_def)

lemma malloc_Some:
  assumes "malloc sz h = (Some b, h')" "heap_ok h"
  shows "live h b = None" "live h' = (live h)(b \<mapsto> sz)" "heap_ok h'" "b = fresh h" "fresh h' = Suc b"
  using assms by (auto simp: malloc_def heap_ok_def split: list.splits bool.splits)

lemma malloc_None:
  assumes "malloc sz h = (None, h')"
  shows "live h' = live h" "heap_ok h \<Longrightarrow> heap_ok h'" "fresh h' = fresh h"
  using assms by (auto simp: malloc_def heap_ok_def split: list.splits bool.splits)

lemma free_live [run_simps]: "live h b = Some s \<Longrightarrow> free b h = Some (h\<lparr>live := (live h)(b := None)\<rparr>)"
  by (simp add: free_def)

lemma heap_live_id [simp]: "h\<lparr>live := live h\<rparr> = h"
  by (cases h) simp

lemma heap_ok_free [simp]: "heap_ok (h\<lparr>live := m\<rparr>) \<Longrightarrow> heap_ok (h\<lparr>live := m(b := None)\<rparr>)"
  by (auto simp: heap_ok_def)

lemma heap_ok_restore: "heap_ok h \<Longrightarrow> fresh h \<le> fresh h' \<Longrightarrow> heap_ok (h'\<lparr>live := live h\<rparr>)"
  by (auto simp: heap_ok_def)

lemma heap_ok_fresh: "heap_ok h \<Longrightarrow> live h (fresh h + n) = None" "heap_ok h \<Longrightarrow> live h (fresh h) = None"
  by (simp_all add: heap_ok_def)

text \<open>The two outcomes of an allocation, on an ordinary heap.\<close>

lemma malloc_cases [consumes 1, case_names fail ok]:
  assumes "heap_ok h"
  obtains (fail) h' where "malloc sz h = (None, h')" "live h' = live h" "fresh h' = fresh h" "heap_ok h'"
  | (ok) h' where "malloc sz h = (Some (fresh h), h')" "live h' = (live h)(fresh h \<mapsto> sz)"
      "fresh h' = Suc (fresh h)" "heap_ok h'"
proof (cases "malloc sz h")
  case (Pair r h')
  then show thesis
    using malloc_Some [of sz h _ h'] malloc_None [of sz h h'] assms that by (cases r) auto
qed

section \<open>All or nothing\<close>

text \<open>
  How the allocating functions of the library end. They return 0, leave the output parameter
  as it was and every block they allocated freed again, or they return 1 with a result that
  satisfies \<open>good\<close>.
\<close>

definition alloc_outcome ::
  "heap \<Rightarrow> 'o \<Rightarrow> ('o \<Rightarrow> heap \<Rightarrow> bool) \<Rightarrow> (int \<times> 'o \<times> heap) option \<Rightarrow> bool" where
  "alloc_outcome h old good r \<longleftrightarrow>
     (\<exists>ret out h'. r = Some (ret, out, h') \<and> heap_ok h' \<and>
        (ret = 0 \<and> out = old \<and> live h' = live h \<or> ret = 1 \<and> good out h'))"

lemma alloc_outcome_malloc:
  assumes "heap_ok h"
    and "\<And>h'. live h' = live h \<Longrightarrow> fresh h' = fresh h \<Longrightarrow> heap_ok h' \<Longrightarrow> alloc_outcome h0 old good (f h')"
    and "\<And>h'. live h' = (live h)(fresh h \<mapsto> sz) \<Longrightarrow> fresh h' = Suc (fresh h) \<Longrightarrow> heap_ok h' \<Longrightarrow>
           alloc_outcome h0 old good (g (fresh h) h')"
  shows "alloc_outcome h0 old good
     (case malloc sz h of (None, h') \<Rightarrow> f h' | (Some b, h') \<Rightarrow> g b h')"
  using assms(1) by (cases rule: malloc_cases [where sz = sz]) (auto intro: assms(2,3))

lemma alloc_outcome_fail:
  "live h' = live h0 \<Longrightarrow> heap_ok h' \<Longrightarrow> alloc_outcome h0 old good (Some (0, old, h'))"
  by (simp add: alloc_outcome_def)

end
