(* ===== verification/Dchain.thy ===== *)
theory Dchain
  imports Dchain_Impl Heap_Alloc
begin

text \<open>
  The index allocator with time stamps, \<open>libvig/verified/double-chain.c\<close>. A chain is the
  cells of \<open>Dchain_Impl\<close> and one time per index. The abstract states and operations are
  those of \<open>double-chain.h\<close>: the allocated indexes with the time of their last use, oldest
  first, the number of indexes, and two bounds of the times. \<open>double_chainp\<close> relates a chain
  to its abstract state, and the lemmas show that every function refines its abstract
  operation, keeps the times sorted, and never faults.
\<close>

section \<open>The code\<close>

record DoubleChain =
  ch_cells :: "dchain_cell list"
  ch_times :: "vigor_time list"

text \<open>
  \<open>raw_cells\<close> and \<open>raw_times\<close> are what the new blocks hold before they are written.
\<close>

definition dchain_allocate ::
  "int \<Rightarrow> (nat \<Rightarrow> dchain_cell) \<Rightarrow> (nat \<Rightarrow> vigor_time) \<Rightarrow> DoubleChain option \<Rightarrow> heap
   \<Rightarrow> (int \<times> DoubleChain option \<times> heap) option" where
  "dchain_allocate index_range raw_cells raw_times chain_out h =
     (case malloc (size_t 16) h of
        (None, h) \<Rightarrow> Some (0, chain_out, h)
      | (Some chain_alloc, h) \<Rightarrow> do {
          n \<leftarrow> s32 (index_range + INDEX_SHIFT);
          case malloc (size_t (8 * n)) h of
            (None, h) \<Rightarrow> do {
              h \<leftarrow> free chain_alloc h;
              Some (0, chain_out, h)
            }
          | (Some cells_alloc, h) \<Rightarrow>
              (case malloc (size_t (8 * index_range)) h of
                 (None, h) \<Rightarrow> do {
                   h \<leftarrow> free cells_alloc h;
                   h \<leftarrow> free chain_alloc h;
                   Some (0, chain_out, h)
                 }
               | (Some timestamps_alloc, h) \<Rightarrow> do {
                   let cells = map raw_cells [0..<size_t (8 * n) div 8];
                   let timestamps = map raw_times [0..<size_t (8 * index_range) div 8];
                   cells \<leftarrow> dchain_impl_init cells index_range;
                   Some (1, Some \<lparr>ch_cells = cells, ch_times = timestamps\<rparr>, h)
                 })
        })"

definition dchain_allocate_new_index ::
  "DoubleChain \<Rightarrow> int \<Rightarrow> vigor_time \<Rightarrow> (int \<times> int \<times> DoubleChain) option" where
  "dchain_allocate_new_index chain index_out time = do {
     (ret, index_out, cells) \<leftarrow> dchain_impl_allocate_new_index (ch_cells chain) index_out;
     let chain = chain\<lparr>ch_cells := cells\<rparr>;
     if ret \<noteq> 0 then do {
       ts \<leftarrow> arr_set (ch_times chain) index_out time;
       Some (ret, index_out, chain\<lparr>ch_times := ts\<rparr>)
     } else Some (ret, index_out, chain)
   }"

definition dchain_rejuvenate_index ::
  "DoubleChain \<Rightarrow> int \<Rightarrow> vigor_time \<Rightarrow> (int \<times> DoubleChain) option" where
  "dchain_rejuvenate_index chain index time = do {
     (ret, cells) \<leftarrow> dchain_impl_rejuvenate_index (ch_cells chain) index;
     let chain = chain\<lparr>ch_cells := cells\<rparr>;
     if ret \<noteq> 0 then do {
       ts \<leftarrow> arr_set (ch_times chain) index time;
       Some (ret, chain\<lparr>ch_times := ts\<rparr>)
     } else Some (ret, chain)
   }"

definition dchain_expire_one_index ::
  "DoubleChain \<Rightarrow> int \<Rightarrow> vigor_time \<Rightarrow> (int \<times> int \<times> DoubleChain) option" where
  "dchain_expire_one_index chain index_out time = do {
     (has_ind, index_out) \<leftarrow> dchain_impl_get_oldest_index (ch_cells chain) index_out;
     if has_ind \<noteq> 0 then do {
       t \<leftarrow> arr_get (ch_times chain) index_out;
       if t < time then do {
         (rez, cells) \<leftarrow> dchain_impl_free_index (ch_cells chain) index_out;
         Some (rez, index_out, chain\<lparr>ch_cells := cells\<rparr>)
       } else Some (0, index_out, chain)
     } else Some (0, index_out, chain)
   }"

definition dchain_is_index_allocated :: "DoubleChain \<Rightarrow> int \<Rightarrow> int option" where
  "dchain_is_index_allocated chain index = dchain_impl_is_index_allocated (ch_cells chain) index"

definition dchain_free_index :: "DoubleChain \<Rightarrow> int \<Rightarrow> (int \<times> DoubleChain) option" where
  "dchain_free_index chain index = do {
     (ret, cells) \<leftarrow> dchain_impl_free_index (ch_cells chain) index;
     Some (ret, chain\<lparr>ch_cells := cells\<rparr>)
   }"

section \<open>The abstract allocator\<close>

datatype dchain = dchain "(int \<times> vigor_time) list" int vigor_time vigor_time

fun empty_dchain_fp :: "int \<Rightarrow> vigor_time \<Rightarrow> dchain" where
  "empty_dchain_fp index_range low = dchain [] index_range low low"

fun dchain_out_of_space_fp :: "dchain \<Rightarrow> bool" where
  "dchain_out_of_space_fp (dchain alist sz low high) \<longleftrightarrow> sz \<le> int (length alist)"

fun dchain_index_range_fp :: "dchain \<Rightarrow> int" where
  "dchain_index_range_fp (dchain alist sz low high) = sz"

fun dchain_indexes_fp :: "dchain \<Rightarrow> int list" where
  "dchain_indexes_fp (dchain alist sz low high) = map fst alist"

fun dchain_high_fp :: "dchain \<Rightarrow> vigor_time" where
  "dchain_high_fp (dchain alist sz low high) = high"

fun dchain_low_fp :: "dchain \<Rightarrow> vigor_time" where
  "dchain_low_fp (dchain alist sz low high) = low"

fun dchain_allocated_fp :: "dchain \<Rightarrow> int \<Rightarrow> bool" where
  "dchain_allocated_fp (dchain alist sz low high) index \<longleftrightarrow> (\<exists>b \<in> set alist. index = fst b)"

fun dchain_allocate_fp :: "dchain \<Rightarrow> int \<Rightarrow> vigor_time \<Rightarrow> dchain" where
  "dchain_allocate_fp (dchain alist sz low high) index t = dchain (alist @ [(index, t)]) sz low t"

fun remove_by_index_fp :: "(int \<times> vigor_time) list \<Rightarrow> int \<Rightarrow> (int \<times> vigor_time) list" where
  "remove_by_index_fp [] i = []"
| "remove_by_index_fp (h # t) i = (if fst h = i then t else h # remove_by_index_fp t i)"

fun dchain_rejuvenate_fp :: "dchain \<Rightarrow> int \<Rightarrow> vigor_time \<Rightarrow> dchain" where
  "dchain_rejuvenate_fp (dchain alist sz low high) index time =
     dchain (remove_by_index_fp alist index @ [(index, time)]) sz low time"

fun alist_get_fp :: "(int \<times> vigor_time) list \<Rightarrow> int \<Rightarrow> vigor_time option" where
  "alist_get_fp [] i = None"
| "alist_get_fp (h # t) i = (if fst h = i then Some (snd h) else alist_get_fp t i)"

fun dchain_get_time_fp :: "dchain \<Rightarrow> int \<Rightarrow> vigor_time option" where
  "dchain_get_time_fp (dchain alist sz low high) index = alist_get_fp alist index"

fun dchain_is_empty_fp :: "dchain \<Rightarrow> bool" where
  "dchain_is_empty_fp (dchain alist sz low high) \<longleftrightarrow> alist = []"

fun dchain_get_oldest_index_fp :: "dchain \<Rightarrow> int" where
  "dchain_get_oldest_index_fp (dchain alist sz low high) = fst (hd alist)"

fun dchain_get_oldest_time_fp :: "dchain \<Rightarrow> vigor_time" where
  "dchain_get_oldest_time_fp (dchain alist sz low high) = snd (hd alist)"

fun dchain_remove_index_fp :: "dchain \<Rightarrow> int \<Rightarrow> dchain" where
  "dchain_remove_index_fp (dchain alist sz low high) index =
     dchain (remove_by_index_fp alist index) sz low high"

fun is_cell_expired :: "vigor_time \<Rightarrow> int \<times> vigor_time \<Rightarrow> bool" where
  "is_cell_expired time cell \<longleftrightarrow> snd cell < time"

fun get_expired_indexes_fp :: "vigor_time \<Rightarrow> (int \<times> vigor_time) list \<Rightarrow> int list" where
  "get_expired_indexes_fp time lst = map fst (filter (is_cell_expired time) lst)"

fun dchain_get_expired_indexes_fp :: "dchain \<Rightarrow> vigor_time \<Rightarrow> int list" where
  "dchain_get_expired_indexes_fp (dchain alist sz low high) time = get_expired_indexes_fp time alist"

fun dchain_expire_old_indexes_fp :: "dchain \<Rightarrow> vigor_time \<Rightarrow> dchain" where
  "dchain_expire_old_indexes_fp (dchain alist sz low high) time =
     dchain (foldl remove_by_index_fp alist (get_expired_indexes_fp time alist)) sz low high"

fun bnd_sorted_fp :: "vigor_time list \<Rightarrow> vigor_time \<Rightarrow> vigor_time \<Rightarrow> bool" where
  "bnd_sorted_fp [] low high \<longleftrightarrow> True"
| "bnd_sorted_fp (h # t) low high \<longleftrightarrow> low \<le> h \<and> h \<le> high \<and> bnd_sorted_fp t h high"

fun dchain_sorted_fp :: "dchain \<Rightarrow> bool" where
  "dchain_sorted_fp (dchain alist sz low high) \<longleftrightarrow> bnd_sorted_fp (map snd alist) low high"

section \<open>Chains and their abstract states\<close>

fun dchaini_of :: "dchain \<Rightarrow> dchaini" where
  "dchaini_of (dchain alist sz low high) = dchaini (map fst alist) sz"

fun times_agree :: "vigor_time list \<Rightarrow> dchain \<Rightarrow> bool" where
  "times_agree ts (dchain alist sz low high) \<longleftrightarrow>
     int (length ts) = sz \<and> (\<forall>(i, t) \<in> set alist. ts ! nat i = t)"

definition double_chainp :: "dchain \<Rightarrow> DoubleChain \<Rightarrow> bool" where
  "double_chainp ch chain \<longleftrightarrow>
     dchainip (dchaini_of ch) (ch_cells chain) \<and> times_agree (ch_times chain) ch \<and>
     dchain_sorted_fp ch \<and> dchain_low_fp ch \<le> dchain_high_fp ch"

lemma bnd_sorted_append:
  "bnd_sorted_fp (xs @ ys) low high \<longleftrightarrow>
     bnd_sorted_fp xs low high \<and> bnd_sorted_fp ys (if xs = [] then low else last xs) high"
  by (induction xs arbitrary: low) auto

lemma bnd_sorted_mono: "bnd_sorted_fp xs low high \<Longrightarrow> low' \<le> low \<Longrightarrow> high \<le> high' \<Longrightarrow> bnd_sorted_fp xs low' high'"
  by (induction xs arbitrary: low low') auto

lemma bnd_sorted_bounds: "bnd_sorted_fp xs low high \<Longrightarrow> x \<in> set xs \<Longrightarrow> low \<le> x \<and> x \<le> high"
  by (induction xs arbitrary: low) fastforce+

lemma bnd_sorted_remove:
  "bnd_sorted_fp (map snd al) low high \<Longrightarrow> bnd_sorted_fp (map snd (remove_by_index_fp al i)) low high"
  by (induction al arbitrary: low) (auto intro: bnd_sorted_mono)

lemma map_fst_remove: "map fst (remove_by_index_fp al i) = remove1 i (map fst al)"
  by (induction al) auto

lemma set_remove_by_index: "set (remove_by_index_fp al i) \<subseteq> set al"
  by (induction al) auto

lemma remove_by_index_notin:
  assumes "distinct (map fst al)"
  shows "(i, t) \<notin> set (remove_by_index_fp al i)"
proof
  assume "(i, t) \<in> set (remove_by_index_fp al i)"
  then have "i \<in> set (map fst (remove_by_index_fp al i))" by force
  with assms show False by (simp add: map_fst_remove)
qed

lemma dchaini_of_simps [simp]:
  "dchaini_irange_fp (dchaini_of ch) = dchain_index_range_fp ch"
  "dchaini_alist_fp (dchaini_of ch) = dchain_indexes_fp ch"
  "dchaini_out_of_space_fp (dchaini_of ch) = dchain_out_of_space_fp ch"
  "dchaini_is_empty_fp (dchaini_of ch) = dchain_is_empty_fp ch"
  "dchaini_allocate_fp (dchaini_of ch) i = dchaini_of (dchain_allocate_fp ch i t)"
  "dchaini_rejuvenate_fp (dchaini_of ch) i = dchaini_of (dchain_rejuvenate_fp ch i t)"
  "dchaini_remove_fp (dchaini_of ch) i = dchaini_of (dchain_remove_index_fp ch i)"
  by (cases ch; simp add: map_fst_remove)+

lemma dchaini_of_allocated [simp]:
  "dchaini_allocated_fp (dchaini_of ch) i = dchain_allocated_fp ch i"
  by (cases ch) (auto simp: image_iff)

lemma foldl_remove_Cons:
  "fst a \<notin> set is \<Longrightarrow> foldl remove_by_index_fp (a # al) is = a # foldl remove_by_index_fp al is"
  by (induction "is" arbitrary: al) auto

text \<open>Expiry keeps the entries that are not expired, in their order.\<close>

lemma foldl_remove_filter:
  "distinct (map fst al) \<Longrightarrow>
   foldl remove_by_index_fp al (map fst (filter P al)) = filter (\<lambda>c. \<not> P c) al"
proof (induction al)
  case (Cons a al)
  then have "fst a \<notin> set (map fst (filter P al))" by auto
  with Cons show ?case using foldl_remove_Cons [of a "map fst (filter P al)" al] by simp
qed simp

lemma alist_get_None: "alist_get_fp al i = None \<longleftrightarrow> i \<notin> set (map fst al)"
  by (induction al) auto

lemma alist_get_notin: "i \<notin> fst ` set al \<Longrightarrow> alist_get_fp al i = None"
  by (simp add: alist_get_None)

lemma alist_get_Some: "distinct (map fst al) \<Longrightarrow> alist_get_fp al i = Some t \<longleftrightarrow> (i, t) \<in> set al"
  by (induction al) force+

section \<open>Refinement\<close>

lemma double_chainp_range:
  assumes "double_chainp ch chain"
  shows "0 < dchain_index_range_fp ch" "distinct (dchain_indexes_fp ch)"
    "int (length (ch_times chain)) = dchain_index_range_fp ch"
    "int (length (dchain_indexes_fp ch)) \<le> dchain_index_range_fp ch"
    "dchain_allocated_fp ch i \<Longrightarrow> 0 \<le> i \<and> i < dchain_index_range_fp ch"
proof -
  have rep: "dchainip (dchaini_of ch) (ch_cells chain)" using assms by (simp add: double_chainp_def)
  from dchainip_irange [OF rep] show "0 < dchain_index_range_fp ch" "distinct (dchain_indexes_fp ch)"
    "int (length (dchain_indexes_fp ch)) \<le> dchain_index_range_fp ch" by simp_all
  show "int (length (ch_times chain)) = dchain_index_range_fp ch"
    using assms by (cases ch) (simp add: double_chainp_def)
  show "0 \<le> i \<and> i < dchain_index_range_fp ch" if "dchain_allocated_fp ch i"
    using dchainip_index [OF rep, of i] that by simp
qed

lemma times_agree_append:
  assumes "times_agree ts (dchain alist sz low high)" "0 \<le> i" "i < sz"
    "\<And>j t. (j, t) \<in> set alist' \<Longrightarrow> (j, t) \<in> set alist \<and> 0 \<le> j \<and> j \<noteq> i"
  shows "times_agree (ts[nat i := t]) (dchain (alist' @ [(i, t)]) sz low' t)"
proof -
  have "ts[nat i := t] ! nat j = t'" if "(j, t') \<in> set alist'" for j t'
  proof -
    have "nat i \<noteq> nat j" using assms(4) [OF that] assms(2) by auto
    then show ?thesis using assms(1) assms(4) [OF that] by auto
  qed
  then show ?thesis using assms(1-3) by auto
qed

lemma bnd_sorted_snoc:
  "bnd_sorted_fp xs low high \<Longrightarrow> low \<le> high \<Longrightarrow> high \<le> t \<Longrightarrow> bnd_sorted_fp (xs @ [t]) low t"
  using bnd_sorted_bounds [of xs low high "last xs"] bnd_sorted_mono [of xs low high low t]
  by (auto simp: bnd_sorted_append)

lemma dchain_allocate_new_index_full:
  assumes "double_chainp ch chain" "dchain_out_of_space_fp ch"
  shows "dchain_allocate_new_index chain index time = Some (0, index, chain)"
  using assms dchain_impl_allocate_refines(1) [of "dchaini_of ch" "ch_cells chain" index]
  by (simp add: double_chainp_def dchain_allocate_new_index_def)

lemma dchain_allocate_new_index_refines:
  assumes rep: "double_chainp ch chain" and room: "\<not> dchain_out_of_space_fp ch"
    and time: "dchain_high_fp ch \<le> time"
  shows "\<exists>i chain'. dchain_allocate_new_index chain index time = Some (1, i, chain') \<and>
     \<not> dchain_allocated_fp ch i \<and> 0 \<le> i \<and> i < dchain_index_range_fp ch \<and>
     double_chainp (dchain_allocate_fp ch i time) chain'"
proof -
  obtain alist sz low high where ch: "ch = dchain alist sz low high" by (cases ch)
  obtain i cells where run: "dchain_impl_allocate_new_index (ch_cells chain) index = Some (1, i, cells)"
    "\<not> dchain_allocated_fp ch i" "0 \<le> i" "i < sz"
    "dchainip (dchaini_of (dchain_allocate_fp ch i time)) cells"
    using dchain_impl_allocate_refines(2) [of "dchaini_of ch" "ch_cells chain" index] rep room
    by (auto simp: double_chainp_def ch)
  have len: "int (length (ch_times chain)) = sz" using double_chainp_range(3) [OF rep] by (simp add: ch)
  have "times_agree ((ch_times chain)[nat i := time]) (dchain (alist @ [(i, time)]) sz low time)"
    using rep run(2-4) double_chainp_range(5) [OF rep]
    by (intro times_agree_append [of _ alist _ low high]) (force simp: ch double_chainp_def)+
  then have "double_chainp (dchain_allocate_fp ch i time)
      \<lparr>ch_cells = cells, ch_times = (ch_times chain)[nat i := time]\<rparr>"
    using rep run time by (auto simp: double_chainp_def ch intro: bnd_sorted_snoc)
  moreover have "dchain_allocate_new_index chain index time =
      Some (1, i, \<lparr>ch_cells = cells, ch_times = (ch_times chain)[nat i := time]\<rparr>)"
    using run len by (cases chain) (simp add: dchain_allocate_new_index_def arr_set_def)
  ultimately show ?thesis using run by (auto simp: ch)
qed

lemma dchain_rejuvenate_index_refines:
  assumes rep: "double_chainp ch chain" and i: "dchain_allocated_fp ch i"
    and time: "dchain_high_fp ch \<le> time"
  shows "\<exists>chain'. dchain_rejuvenate_index chain i time = Some (1, chain') \<and>
     double_chainp (dchain_rejuvenate_fp ch i time) chain'"
proof -
  obtain alist sz low high where ch: "ch = dchain alist sz low high" by (cases ch)
  obtain cells where run: "dchain_impl_rejuvenate_index (ch_cells chain) i = Some (1, cells)"
    "dchainip (dchaini_of (dchain_rejuvenate_fp ch i time)) cells"
    using dchain_impl_allocated_refines(2) [of "dchaini_of ch" "ch_cells chain" i] rep i
    unfolding double_chainp_def dchaini_of_simps(6) [of ch i time] by auto
  have range: "0 \<le> i" "i < sz" "int (length (ch_times chain)) = sz"
    using double_chainp_range(3,5) [OF rep] i by (auto simp: ch)
  have sub: "(j, t) \<in> set alist \<and> 0 \<le> j \<and> j \<noteq> i" if j: "(j, t) \<in> set (remove_by_index_fp alist i)" for j t
  proof -
    have mem: "(j, t) \<in> set alist" using j set_remove_by_index by blast
    then have "0 \<le> j" using double_chainp_range(5) [OF rep, of j] by (force simp: ch)
    moreover have "j \<noteq> i"
      using remove_by_index_notin [of alist i t] double_chainp_range(2) [OF rep] j by (auto simp: ch)
    ultimately show ?thesis using mem by blast
  qed
  have "times_agree ((ch_times chain)[nat i := time])
      (dchain (remove_by_index_fp alist i @ [(i, time)]) sz low time)"
    using rep range sub by (intro times_agree_append [of _ alist _ low high]) (auto simp: ch double_chainp_def)
  then have "double_chainp (dchain_rejuvenate_fp ch i time)
      \<lparr>ch_cells = cells, ch_times = (ch_times chain)[nat i := time]\<rparr>"
    using rep run time 
    by (auto simp: double_chainp_def ch intro: bnd_sorted_snoc bnd_sorted_remove)
  moreover have "dchain_rejuvenate_index chain i time =
      Some (1, \<lparr>ch_cells = cells, ch_times = (ch_times chain)[nat i := time]\<rparr>)"
    using run range by (cases chain) (simp add: dchain_rejuvenate_index_def arr_set_def)
  ultimately show ?thesis by blast
qed

lemma double_chainp_remove:
  assumes "double_chainp ch chain" "dchainip (dchaini_of (dchain_remove_index_fp ch i)) cells"
  shows "double_chainp (dchain_remove_index_fp ch i) (chain\<lparr>ch_cells := cells\<rparr>)"
  using assms set_remove_by_index
  by (cases ch) (fastforce simp: double_chainp_def bnd_sorted_remove)

lemma dchain_free_index_refines:
  assumes rep: "double_chainp ch chain" and i: "dchain_allocated_fp ch i"
  shows "\<exists>chain'. dchain_free_index chain i = Some (1, chain') \<and>
     double_chainp (dchain_remove_index_fp ch i) chain'"
proof -
  obtain cells where "dchain_impl_free_index (ch_cells chain) i = Some (1, cells)"
    "dchainip (dchaini_of (dchain_remove_index_fp ch i)) cells"
    using dchain_impl_allocated_refines(1) [of "dchaini_of ch" "ch_cells chain" i] rep i
    by (auto simp: double_chainp_def)
  then show ?thesis
    using double_chainp_remove [OF rep] by (auto simp: dchain_free_index_def)
qed

lemma dchain_index_free:
  assumes "double_chainp ch chain" "\<not> dchain_allocated_fp ch i" "0 \<le> i" "i < dchain_index_range_fp ch"
  shows "dchain_free_index chain i = Some (0, chain)"
    "dchain_rejuvenate_index chain i time = Some (0, chain)"
    "dchain_is_index_allocated chain i = Some 0"
  using assms dchain_impl_free_refines [of "dchaini_of ch" "ch_cells chain" i]
  by (auto simp: double_chainp_def dchain_free_index_def dchain_rejuvenate_index_def
      dchain_is_index_allocated_def)

lemma dchain_is_index_allocated_refines:
  assumes "double_chainp ch chain" "0 \<le> i" "i < dchain_index_range_fp ch"
  shows "dchain_is_index_allocated chain i = Some (if dchain_allocated_fp ch i then 1 else 0)"
  using assms dchain_impl_allocated_refines(3) [of "dchaini_of ch" "ch_cells chain" i]
    dchain_index_free(3) [of ch chain i]
  by (auto simp: double_chainp_def dchain_is_index_allocated_def)

text \<open>What the operations do to the times of the indexes.\<close>

lemma alist_get_append: "alist_get_fp (al @ [(i, t)]) j =
    (if j \<in> set (map fst al) then alist_get_fp al j else if j = i then Some t else None)"
  by (induction al) auto

lemma alist_get_remove: "distinct (map fst al) \<Longrightarrow>
    alist_get_fp (remove_by_index_fp al i) j = (if j = i then None else alist_get_fp al j)"
proof (cases "j = i")
  assume "distinct (map fst al)" "j = i"
  then have "j \<notin> set (map fst (remove_by_index_fp al i))" by (simp add: map_fst_remove)
  then show ?thesis using \<open>j = i\<close> alist_get_None by simp
next
  assume "j \<noteq> i"
  then show ?thesis by (induction al) auto
qed

lemma dchain_time_expire:
  assumes "double_chainp ch chain"
  shows "dchain_get_time_fp (dchain_expire_old_indexes_fp ch time) i =
     (case dchain_get_time_fp ch i of None \<Rightarrow> None | Some t \<Rightarrow> if t < time then None else Some t)"
proof -
  obtain al sz low high where ch: "ch = dchain al sz low high" by (cases ch)
  have d: "distinct (map fst al)" using double_chainp_range(2) [OF assms] by (simp add: ch)
  have "alist_get_fp (filter (\<lambda>c. \<not> is_cell_expired time c) al) i =
      (case alist_get_fp al i of None \<Rightarrow> None | Some t \<Rightarrow> if t < time then None else Some t)"
    using d by (induction al) (auto simp: alist_get_notin split: option.split)
  then show ?thesis by (simp add: ch foldl_remove_filter [OF d])
qed

lemma dchain_time_ops:
  assumes "double_chainp ch chain"
  shows "\<not> dchain_allocated_fp ch i \<Longrightarrow> dchain_get_time_fp (dchain_allocate_fp ch i t) =
      (dchain_get_time_fp ch)(i \<mapsto> t)"
    "dchain_get_time_fp (dchain_rejuvenate_fp ch i t) = (dchain_get_time_fp ch)(i \<mapsto> t)"
    "dchain_get_time_fp ch i = None \<longleftrightarrow> i \<notin> set (dchain_indexes_fp ch)"
proof -
  obtain al sz low high where ch: "ch = dchain al sz low high" by (cases ch)
  have d: "distinct (map fst al)" using double_chainp_range(2) [OF assms] by (simp add: ch)
  show "dchain_get_time_fp (dchain_rejuvenate_fp ch i t) = (dchain_get_time_fp ch)(i \<mapsto> t)"
  proof
    fix j
    show "dchain_get_time_fp (dchain_rejuvenate_fp ch i t) j = ((dchain_get_time_fp ch)(i \<mapsto> t)) j"
      using d alist_get_None [of al j] alist_get_remove [OF d, of i j]
      by (auto simp: ch alist_get_append map_fst_remove simp del: set_map)
  qed
  show "dchain_get_time_fp (dchain_allocate_fp ch i t) = (dchain_get_time_fp ch)(i \<mapsto> t)"
    if "\<not> dchain_allocated_fp ch i"
    using d that by (auto simp: ch fun_eq_iff alist_get_append alist_get_notin)
  show "dchain_get_time_fp ch i = None \<longleftrightarrow> i \<notin> set (dchain_indexes_fp ch)"
    by (simp add: ch alist_get_None)
qed

lemma dchain_oldest_allocated: "\<not> dchain_is_empty_fp ch \<Longrightarrow> dchain_allocated_fp ch (dchain_get_oldest_index_fp ch)"
  by (cases ch) (auto simp: neq_Nil_conv)

lemma dchain_expire_one_index_refines:
  assumes rep: "double_chainp ch chain"
  shows "\<not> dchain_is_empty_fp ch \<Longrightarrow> dchain_get_oldest_time_fp ch < time \<Longrightarrow>
      \<exists>chain'. dchain_expire_one_index chain index time = Some (1, dchain_get_oldest_index_fp ch, chain') \<and>
        double_chainp (dchain_remove_index_fp ch (dchain_get_oldest_index_fp ch)) chain'"
    "dchain_is_empty_fp ch \<or> time \<le> dchain_get_oldest_time_fp ch \<Longrightarrow>
      \<exists>index'. dchain_expire_one_index chain index time = Some (0, index', chain)"
proof -
  obtain alist sz low high where ch: "ch = dchain alist sz low high" by (cases ch)
  have oldest: "dchain_impl_get_oldest_index (ch_cells chain) index =
     Some (if alist = [] then (0, index) else (1, fst (hd alist)))"
    using dchain_impl_oldest_refines [of "dchaini_of ch" "ch_cells chain" index] rep
    by (auto simp: ch double_chainp_def hd_map)
  have time_of: "arr_get (ch_times chain) (fst (hd alist)) = Some (snd (hd alist))" if "alist \<noteq> []"
  proof -
    have "(fst (hd alist), snd (hd alist)) \<in> set alist" using that by simp
    moreover from this have "dchain_allocated_fp ch (fst (hd alist))" by (force simp: ch)
    ultimately show ?thesis
      using rep double_chainp_range(3,5) [OF rep] by (fastforce simp: ch double_chainp_def arr_get_def)
  qed
  show "\<exists>index'. dchain_expire_one_index chain index time = Some (0, index', chain)"
    if "dchain_is_empty_fp ch \<or> time \<le> dchain_get_oldest_time_fp ch"
    using that oldest time_of by (auto simp: dchain_expire_one_index_def ch)
  show "\<exists>chain'. dchain_expire_one_index chain index time = Some (1, dchain_get_oldest_index_fp ch, chain') \<and>
        double_chainp (dchain_remove_index_fp ch (dchain_get_oldest_index_fp ch)) chain'"
    if "\<not> dchain_is_empty_fp ch" "dchain_get_oldest_time_fp ch < time"
    using dchain_free_index_refines [OF rep dchain_oldest_allocated [OF that(1)]] that oldest time_of
    by (auto simp: dchain_expire_one_index_def dchain_free_index_def ch split: bind_splits)
qed

section \<open>Allocation of a chain\<close>

lemma dchain_allocate_refines:
  assumes ok: "heap_ok h" and n: "0 < n" "n \<le> 1048576"
  shows "alloc_outcome h chain_out
     (\<lambda>out h'. (\<exists>chain. out = Some chain \<and> double_chainp (empty_dchain_fp n low) chain) \<and>
        live h' = (live h)(fresh h \<mapsto> 16, fresh h + 1 \<mapsto> nat (8 * (n + 2)), fresh h + 2 \<mapsto> nat (8 * n)))
     (dchain_allocate n raw_cells raw_times chain_out h)"
proof -
  have sizes: "size_t (8 * (n + 2)) = nat (8 * (n + 2))" "size_t (8 * n) = nat (8 * n)" "size_t 16 = 16"
    "s32 (n + INDEX_SHIFT) = Some (n + 2)"
    using n by (simp_all add: INDEX_SHIFT_def s32_def)
  note fr = heap_ok_fresh(2) [OF ok] heap_ok_fresh(1) [OF ok, of 1] heap_ok_fresh(1) [OF ok, of 2]
  let ?cells = "map raw_cells [0..<nat (8 * (n + 2)) div 8]"
  let ?times = "map raw_times [0..<nat (8 * n) div 8]"
  have len: "int (length ?cells) = n + 2" "int (length ?times) = n" using n by simp_all
  obtain cells where cells: "dchain_impl_init ?cells n = Some cells" "dchainip (empty_dchaini_fp n) cells"
    using dchain_impl_init_refines [of n ?cells] len n by auto
  then have "double_chainp (empty_dchain_fp n low) \<lparr>ch_cells = cells, ch_times = ?times\<rparr>"
    using len by (simp add: double_chainp_def)
  with cells show ?thesis
    unfolding dchain_allocate_def sizes bind.bind_lunit
    by (intro alloc_outcome_malloc [OF ok] alloc_outcome_malloc; (assumption | simp add: run_simps)?)
      (use fr in \<open>auto simp: alloc_outcome_def fun_upd_twist fun_upd_idem intro!: heap_ok_restore [OF ok]\<close>)
qed

section \<open>Properties\<close>

text \<open>A chain of three indexes, of which 0 and 1 are in use since the times 5 and 7.\<close>

definition ex_chain :: DoubleChain where
  "ex_chain =
     \<lparr>ch_cells = [\<lparr>cell_prev = 3, cell_next = 2\<rparr>, \<lparr>cell_prev = 4, cell_next = 4\<rparr>,
                  \<lparr>cell_prev = 0, cell_next = 3\<rparr>, \<lparr>cell_prev = 2, cell_next = 0\<rparr>,
                  \<lparr>cell_prev = 1, cell_next = 1\<rparr>],
      ch_times = [5, 7, 0]\<rparr>"

lemma ex_chain_ok: "double_chainp (dchain [(0, 5), (1, 7)] 3 0 7) ex_chain"
proof -
  have "{2..4 :: int} = {2, 3, 4}" by auto
  then have "dchain_links (ch_cells ex_chain) [2, 3] [4] 3"
    by (auto simp: dchain_links_def ex_chain_def nx_def pv_def arr_get_def)
  then show ?thesis by (auto simp: double_chainp_def dchainip_def ex_chain_def)
qed

text \<open>
  C39. \<open>dchain_allocate_new_index\<close> on a chain that represents \<open>ch\<close>, at a time not before
  the last one: when every index is in use it returns 0 and changes nothing; otherwise it
  returns 1 with an index inside the range that was not in use, and the chain then represents
  \<open>ch\<close> with that index added as the most recent one.
\<close>

theorem dchain_allocate_new_index_correct:
  assumes "double_chainp ch chain" "dchain_high_fp ch \<le> time"
  shows "if dchain_out_of_space_fp ch
     then dchain_allocate_new_index chain index_out time = Some (0, index_out, chain)
     else \<exists>i chain'. dchain_allocate_new_index chain index_out time = Some (1, i, chain') \<and>
       \<not> dchain_allocated_fp ch i \<and> 0 \<le> i \<and> i < dchain_index_range_fp ch \<and>
       double_chainp (dchain_allocate_fp ch i time) chain'"
  using assms dchain_allocate_new_index_full dchain_allocate_new_index_refines by simp

theorem dchain_allocate_new_index_correct_witness:
  "\<exists>i chain'. dchain_allocate_new_index ex_chain 0 9 = Some (1, i, chain') \<and> 0 \<le> i \<and> i < 3 \<and>
     double_chainp (dchain [(0, 5), (1, 7), (i, 9)] 3 0 9) chain'"
  using dchain_allocate_new_index_correct [OF ex_chain_ok, of 9 0] by auto

end
