(* ===== verification/Map_Api.thy ===== *)
theory Map_Api
  imports Map_Impl_Pow2 Heap_Alloc
begin

text \<open>
  The hash map of \<open>libvig/verified/map.c\<close>: the table of \<open>Map_Impl\<close> with its
  capacity, a count of the keys, and the equality and the hash of the keys, which come from
  the caller. \<open>pow2\<close> says whether \<open>CAPACITY_POW2\<close> is defined in the build.

  The table holds pointers to keys: an operation takes the memory as a function \<open>kv\<close> from
  pointers to the keys they point at. \<open>map_wf\<close> is the invariant and \<open>map_contents\<close>
  the finite map from keys to integers that a map represents. The locale \<open>int_map\<close> is
  the contract the clients use, and the interpretation at the end shows that the code meets it.
\<close>

unbundle bit_operations_syntax

section \<open>The code\<close>

record ('p, 'k) vmap =
  m_tab :: "'p htab"
  m_capacity :: u32
  m_size :: u32
  m_keys_eq :: "'k \<Rightarrow> 'k \<Rightarrow> bool"
  m_khash :: "'k \<Rightarrow> u32"

definition map_probe :: "bool \<Rightarrow> probe" where
  "map_probe pow2 = (if pow2 then loop_pow2 else loop)"

text \<open>\<open>raw\<close> is what the five new arrays hold before they are written.\<close>

record 'p raw_arrays =
  raw_int :: "nat \<Rightarrow> int"
  raw_ptr :: "nat \<Rightarrow> 'p"
  raw_word :: "nat \<Rightarrow> u32"

definition map_allocate ::
  "bool \<Rightarrow> ('k \<Rightarrow> 'k \<Rightarrow> bool) \<Rightarrow> ('k \<Rightarrow> u32) \<Rightarrow> u32 \<Rightarrow> 'p raw_arrays \<Rightarrow> ('p, 'k) vmap option \<Rightarrow> heap
   \<Rightarrow> (int \<times> ('p, 'k) vmap option \<times> heap) option" where
  "map_allocate pow2 keq khash capacity raw map_out h =
     (if pow2 \<and> (capacity = 0 \<or> capacity AND (capacity - 1) \<noteq> 0) then Some (0, map_out, h)
      else
      let ints = size_t (4 * sint capacity); ptrs = size_t (8 * sint capacity) in
      case malloc 64 h of
        (None, h) \<Rightarrow> Some (0, map_out, h)
      | (Some map_alloc, h) \<Rightarrow>
      (case malloc ints h of
        (None, h) \<Rightarrow> do {
          h \<leftarrow> free map_alloc h;
          Some (0, map_out, h) }
      | (Some bbs_alloc, h) \<Rightarrow>
      (case malloc ptrs h of
        (None, h) \<Rightarrow> do {
          h \<leftarrow> free bbs_alloc h;
          h \<leftarrow> free map_alloc h;
          Some (0, map_out, h) }
      | (Some keyps_alloc, h) \<Rightarrow>
      (case malloc ints h of
        (None, h) \<Rightarrow> do {
          h \<leftarrow> free keyps_alloc h;
          h \<leftarrow> free bbs_alloc h;
          h \<leftarrow> free map_alloc h;
          Some (0, map_out, h) }
      | (Some khs_alloc, h) \<Rightarrow>
      (case malloc ints h of
        (None, h) \<Rightarrow> do {
          h \<leftarrow> free khs_alloc h;
          h \<leftarrow> free keyps_alloc h;
          h \<leftarrow> free bbs_alloc h;
          h \<leftarrow> free map_alloc h;
          Some (0, map_out, h) }
      | (Some chns_alloc, h) \<Rightarrow>
      (case malloc ints h of
        (None, h) \<Rightarrow> do {
          h \<leftarrow> free chns_alloc h;
          h \<leftarrow> free khs_alloc h;
          h \<leftarrow> free keyps_alloc h;
          h \<leftarrow> free bbs_alloc h;
          h \<leftarrow> free map_alloc h;
          Some (0, map_out, h) }
      | (Some vals_alloc, h) \<Rightarrow> do {
          let t = \<lparr>busybits = map (raw_int raw) [0..<ints div 4],
                   keyps = map (raw_ptr raw) [0..<ptrs div 8],
                   k_hashes = map (raw_word raw) [0..<ints div 4],
                   chns = map (raw_int raw) [0..<ints div 4],
                   vals = map (raw_int raw) [0..<ints div 4]\<rparr>;
          t \<leftarrow> map_impl_init t capacity;
          Some (1, Some \<lparr>m_tab = t, m_capacity = capacity, m_size = 0,
                         m_keys_eq = keq, m_khash = khash\<rparr>, h) }))))))"

definition map_get ::
  "bool \<Rightarrow> ('p \<Rightarrow> 'k) \<Rightarrow> ('p, 'k) vmap \<Rightarrow> 'p \<Rightarrow> int \<Rightarrow> (int \<times> int) option" where
  "map_get pow2 kv m key value_out =
     (let hash = m_khash m (kv key)
      in map_impl_get (map_probe pow2) (m_tab m) key (\<lambda>a b. m_keys_eq m (kv a) (kv b)) hash
           value_out (m_capacity m))"

definition map_put ::
  "bool \<Rightarrow> ('p \<Rightarrow> 'k) \<Rightarrow> ('p, 'k) vmap \<Rightarrow> 'p \<Rightarrow> int \<Rightarrow> ('p, 'k) vmap option" where
  "map_put pow2 kv m key v = do {
     let hash = m_khash m (kv key);
     t \<leftarrow> map_impl_put (map_probe pow2) (m_tab m) key hash v (m_capacity m);
     Some (m\<lparr>m_tab := t, m_size := m_size m + 1\<rparr>)
   }"

definition map_erase ::
  "bool \<Rightarrow> ('p \<Rightarrow> 'k) \<Rightarrow> ('p, 'k) vmap \<Rightarrow> 'p \<Rightarrow> 'p \<Rightarrow> ('p \<times> ('p, 'k) vmap) option" where
  "map_erase pow2 kv m key trash = do {
     let hash = m_khash m (kv key);
     (trash, t) \<leftarrow> map_impl_erase (map_probe pow2) (m_tab m) key
                      (\<lambda>a b. m_keys_eq m (kv a) (kv b)) hash (m_capacity m) trash;
     Some (trash, m\<lparr>m_tab := t, m_size := m_size m - 1\<rparr>)
   }"

definition map_size :: "('p, 'k) vmap \<Rightarrow> u32" where
  "map_size m = m_size m"

section \<open>The contract of a map\<close>

text \<open>
  \<open>wf\<close> is the invariant, \<open>cont\<close> the contents, \<open>addr\<close> the pointer a key was put
  with, \<open>room\<close> whether another key fits; \<open>kv\<close> reads the key behind a pointer.
\<close>

locale int_map =
  fixes wf :: "'m \<Rightarrow> bool" and cont :: "'m \<Rightarrow> 'k \<Rightarrow> int option" and addr :: "'m \<Rightarrow> 'k \<Rightarrow> 'p option"
    and room :: "'m \<Rightarrow> bool" and kv :: "'p \<Rightarrow> 'k"
    and get :: "'m \<Rightarrow> 'p \<Rightarrow> int \<Rightarrow> (int \<times> int) option"
    and put :: "'m \<Rightarrow> 'p \<Rightarrow> int \<Rightarrow> 'm option"
    and erase :: "'m \<Rightarrow> 'p \<Rightarrow> 'p \<Rightarrow> ('p \<times> 'm) option"
  assumes get_law: "wf m \<Longrightarrow> get m p v =
      Some (case cont m (kv p) of None \<Rightarrow> (0, v) | Some w \<Rightarrow> (1, w))"
    and put_law: "wf m \<Longrightarrow> room m \<Longrightarrow> cont m (kv p) = None \<Longrightarrow>
      \<exists>m'. put m p v = Some m' \<and> wf m' \<and> cont m' = (cont m)(kv p \<mapsto> v) \<and>
        addr m' = (addr m)(kv p \<mapsto> p)"
    and erase_law: "wf m \<Longrightarrow> cont m (kv p) \<noteq> None \<Longrightarrow>
      \<exists>q m'. erase m p trash = Some (q, m') \<and> addr m (kv p) = Some q \<and> wf m' \<and>
        cont m' = (cont m)(kv p := None) \<and> addr m' = (addr m)(kv p := None) \<and> room m'"
begin

lemma get_put:
  assumes "wf m" "room m" "cont m (kv p) = None"
  shows "\<exists>m'. put m p v = Some m' \<and> wf m' \<and>
     get m' q w = (if kv q = kv p then Some (1, v) else get m q w)"
proof -
  obtain m' where "put m p v = Some m'" "wf m'" "cont m' = (cont m)(kv p \<mapsto> v)"
    using put_law [OF assms] by blast
  with assms(1) show ?thesis by (auto simp: get_law)
qed

lemma erase_put:
  assumes "wf m" "room m" "cont m (kv p) = None" "kv q = kv p"
  shows "\<exists>m' m''. put m p v = Some m' \<and> erase m' q trash = Some (p, m'') \<and> wf m'' \<and>
     cont m'' = cont m \<and> (\<forall>r w. get m'' r w = get m r w)"
proof -
  obtain m' where m': "put m p v = Some m'" "wf m'" "cont m' = (cont m)(kv p \<mapsto> v)"
    "addr m' = (addr m)(kv p \<mapsto> p)"
    using put_law [OF assms(1-3)] by blast
  moreover obtain m'' where m'': "erase m' q trash = Some (p, m'')" "wf m''"
    "cont m'' = (cont m')(kv p := None)"
    using erase_law [OF m'(2), of q trash] m' assms(4) by auto
  moreover have "cont m'' = cont m" using m' m'' assms(3) by (auto simp: fun_eq_iff)
  ultimately show ?thesis using assms(1) by (auto simp: get_law)
qed

end

section \<open>The invariant\<close>

definition map_cap_ok :: "bool \<Rightarrow> u32 \<Rightarrow> bool" where
  "map_cap_ok pow2 c \<longleftrightarrow> 0 < unat c \<and> 2 * unat c < 2 ^ 31 \<and> (pow2 \<longrightarrow> c AND (c - 1) = 0)"

definition map_wf :: "bool \<Rightarrow> ('p \<Rightarrow> 'k) \<Rightarrow> ('p, 'k) vmap \<Rightarrow> bool" where
  "map_wf pow2 kv m \<longleftrightarrow>
     map_cap_ok pow2 (m_capacity m) \<and> m_keys_eq m = (=) \<and>
     htab_wf kv (m_khash m) (unat (m_capacity m)) (m_tab m) \<and>
     m_size m = of_nat (length (busy_slots (m_tab m)))"

definition map_contents :: "('p \<Rightarrow> 'k) \<Rightarrow> ('p, 'k) vmap \<Rightarrow> 'k \<Rightarrow> int option" where
  "map_contents kv m = htab_map kv (m_tab m)"

definition map_addrs :: "('p \<Rightarrow> 'k) \<Rightarrow> ('p, 'k) vmap \<Rightarrow> 'k \<Rightarrow> 'p option" where
  "map_addrs kv m = htab_addrs kv (m_tab m)"

definition map_room :: "('p, 'k) vmap \<Rightarrow> bool" where
  "map_room m \<longleftrightarrow> length (busy_slots (m_tab m)) < unat (m_capacity m)"

text \<open>A word that has no bit in common with its predecessor is a power of two.\<close>

lemma nat_and_pred_pow2: "0 < (x :: nat) \<Longrightarrow> x AND (x - 1) = 0 \<Longrightarrow> \<exists>n. x = 2 ^ n"
proof (induction x rule: less_induct)
  case (less x)
  show ?case
  proof (cases "even x")
    case True
    then obtain y where y: "x = 2 * y" by blast
    then have "0 < y" "y < x" using less.prems by auto
    then have "x - 1 = 2 * (y - 1) + 1" using y by simp
    then have "x AND (x - 1) = 2 * (y AND (y - 1))" using y by (simp add: and_nat_rec [of "2 * y"])
    then have "y AND (y - 1) = 0" using less.prems by simp
    then obtain n where "y = 2 ^ n" using less.IH \<open>0 < y\<close> \<open>y < x\<close> by blast
    then have "x = 2 ^ Suc n" using y by simp
    then show ?thesis ..
  next
    case False
    then obtain y where y: "x = 2 * y + 1" using oddE by blast
    then have "x AND (x - 1) = 2 * y" by (simp add: and_nat_rec [of "Suc (2 * y)"])
    then have "x = 2 ^ 0" using less.prems y by simp
    then show ?thesis ..
  qed
qed

lemma word_and_pred_pow2:
  fixes c :: u32
  assumes "c \<noteq> 0" "c AND (c - 1) = 0"
  shows "\<exists>n. unat c = 2 ^ n"
proof -
  have "unat (c - 1) = unat c - 1" using assms(1) by (simp add: unat_minus_one)
  moreover have "unat (c AND (c - 1)) = unat c AND unat (c - 1)" by (simp add: unsigned_and_eq)
  ultimately have "unat c AND (unat c - 1) = 0" using assms(2) by simp
  then show ?thesis using assms(1) by (intro nat_and_pred_pow2) (simp_all add: unat_gt_0)
qed

lemma map_cap_ok_pow2:
  assumes "map_cap_ok True c"
  shows "\<exists>n < 30. unat c = 2 ^ n"
proof -
  have "c \<noteq> 0" using assms by (auto simp: map_cap_ok_def)
  then obtain n where n: "unat c = 2 ^ n"
    using assms word_and_pred_pow2 [of c] by (auto simp: map_cap_ok_def)
  then have "(2 :: nat) ^ n < 2 ^ 30" using assms by (simp add: map_cap_ok_def)
  then have "n < 30" by (rule power_less_imp_less_exp [rotated]) simp
  with n show ?thesis by blast
qed

interpretation map_probes: probe_loop "map_probe pow2" "map_cap_ok pow2" for pow2
proof
  fix k c
  assume ok: "map_cap_ok pow2 c"
  show "map_probe pow2 k c = Some (of_nat (unat k mod unat c))"
  proof (cases pow2)
    case True
    with ok have "map_cap_ok True c" by simp
    then obtain n where "n < 30" "unat c = 2 ^ n" using map_cap_ok_pow2 by blast
    then show ?thesis using True loop_pow2_mod [of c n k] by (simp add: map_probe_def)
  next
    case False
    with ok show ?thesis using loop_mod [of c k] by (simp add: map_probe_def map_cap_ok_def)
  qed
qed (simp add: map_cap_ok_def)

section \<open>The code meets the contract\<close>

lemma map_get_spec:
  assumes "map_wf pow2 kv m"
  shows "map_get pow2 kv m p v =
     Some (case map_contents kv m (kv p) of None \<Rightarrow> (0, v) | Some w \<Rightarrow> (1, w))"
  using assms map_probes.map_impl_get_spec [of pow2 "m_capacity m" kv "m_khash m" "m_tab m"
      "\<lambda>a b. m_keys_eq m (kv a) (kv b)" p v]
  by (simp add: map_get_def map_wf_def map_contents_def)

lemma map_put_spec:
  assumes "map_wf pow2 kv m" "map_room m" "map_contents kv m (kv p) = None"
  shows "\<exists>m'. map_put pow2 kv m p v = Some m' \<and> map_wf pow2 kv m' \<and>
     map_contents kv m' = (map_contents kv m)(kv p \<mapsto> v) \<and>
     map_addrs kv m' = (map_addrs kv m)(kv p \<mapsto> p) \<and>
     m_capacity m' = m_capacity m \<and>
     length (busy_slots (m_tab m')) = Suc (length (busy_slots (m_tab m)))"
proof -
  obtain t where "map_impl_put (map_probe pow2) (m_tab m) p (m_khash m (kv p)) v (m_capacity m) = Some t"
    "htab_wf kv (m_khash m) (unat (m_capacity m)) t"
    "htab_map kv t = (htab_map kv (m_tab m))(kv p \<mapsto> v)"
    "htab_addrs kv t = (htab_addrs kv (m_tab m))(kv p \<mapsto> p)"
    "length (busy_slots t) = Suc (length (busy_slots (m_tab m)))"
    using map_probes.map_impl_put_spec [of pow2 "m_capacity m" kv "m_khash m" "m_tab m" p v] assms
    by (auto simp: map_wf_def map_room_def map_contents_def)
  then show ?thesis
    using assms(1) by (auto simp: map_put_def map_wf_def map_contents_def map_addrs_def add.commute)
qed

lemma map_erase_spec:
  assumes "map_wf pow2 kv m" "map_contents kv m (kv p) \<noteq> None"
  shows "\<exists>q m'. map_erase pow2 kv m p trash = Some (q, m') \<and> map_addrs kv m (kv p) = Some q \<and>
     map_wf pow2 kv m' \<and>
     map_contents kv m' = (map_contents kv m)(kv p := None) \<and>
     map_addrs kv m' = (map_addrs kv m)(kv p := None) \<and>
     m_capacity m' = m_capacity m \<and>
     Suc (length (busy_slots (m_tab m'))) = length (busy_slots (m_tab m))"
proof -
  obtain q t where "map_impl_erase (map_probe pow2) (m_tab m) p (\<lambda>a b. kv a = kv b)
      (m_khash m (kv p)) (m_capacity m) trash = Some (q, t)"
    "htab_addrs kv (m_tab m) (kv p) = Some q"
    "htab_wf kv (m_khash m) (unat (m_capacity m)) t"
    "htab_map kv t = (htab_map kv (m_tab m))(kv p := None)"
    "htab_addrs kv t = (htab_addrs kv (m_tab m))(kv p := None)"
    "Suc (length (busy_slots t)) = length (busy_slots (m_tab m))"
    using map_probes.map_impl_erase_spec [of pow2 "m_capacity m" kv "m_khash m" "m_tab m"
        "\<lambda>a b. kv a = kv b" p trash] assms
    by (auto simp: map_wf_def map_contents_def)
  moreover from this(6) have "of_nat (length (busy_slots (m_tab m))) - 1 = (of_nat (length (busy_slots t)) :: u32)"
    by (metis of_nat_Suc add_diff_cancel_left')
  ultimately show ?thesis
    using assms(1) by (auto simp: map_erase_def map_wf_def map_contents_def map_addrs_def)
qed

lemma map_size_spec:
  assumes "map_wf pow2 kv m"
  shows "unat (map_size m) = card (dom (map_contents kv m))"
proof -
  let ?t = "m_tab m"
  have wf: "htab_wf kv (m_khash m) (unat (m_capacity m)) ?t" using assms by (simp add: map_wf_def)
  have "length (busy_slots ?t) \<le> unat (m_capacity m)"
    using length_busy_slots [of ?t] wf by (simp add: htab_wf_def)
  also have "\<dots> < 2 ^ LENGTH(32)" by (rule unsigned_less)
  finally have "unat (map_size m) = length (busy_slots ?t)"
    using assms by (simp add: map_size_def map_wf_def unat_of_nat_small)
  moreover have "dom (map_contents kv m) = set (map (\<lambda>j. kv (keyps ?t ! j)) (busy_slots ?t))"
    by (simp add: map_contents_def htab_map_def dom_map_of_conv_image_fst image_image)
  moreover have "distinct (map (\<lambda>j. kv (keyps ?t ! j)) (busy_slots ?t))"
    using wf by (simp add: htab_wf_def)
  ultimately show ?thesis by (metis distinct_card length_map)
qed

lemma map_room_erase:
  assumes "map_wf pow2 kv m" "Suc (length (busy_slots (m_tab m'))) = length (busy_slots (m_tab m))"
    "m_capacity m' = m_capacity m"
  shows "map_room m'"
  using assms length_busy_slots [of "m_tab m"] by (auto simp: map_room_def map_wf_def htab_wf_def)

interpretation vm: int_map "map_wf pow2 kv" "map_contents kv" "map_addrs kv" map_room kv
  "map_get pow2 kv" "map_put pow2 kv" "map_erase pow2 kv" for pow2 kv
proof
  fix m :: "('a, 'b) vmap" and p v trash
  assume wf: "map_wf pow2 kv m"
  show "map_get pow2 kv m p v =
      Some (case map_contents kv m (kv p) of None \<Rightarrow> (0, v) | Some w \<Rightarrow> (1, w))"
    by (rule map_get_spec [OF wf])
  show "\<exists>m'. map_put pow2 kv m p v = Some m' \<and> map_wf pow2 kv m' \<and>
      map_contents kv m' = (map_contents kv m)(kv p \<mapsto> v) \<and>
      map_addrs kv m' = (map_addrs kv m)(kv p \<mapsto> p)"
    if "map_room m" "map_contents kv m (kv p) = None"
    using map_put_spec [OF wf that, of v] by blast
  show "\<exists>q m'. map_erase pow2 kv m p trash = Some (q, m') \<and> map_addrs kv m (kv p) = Some q \<and>
      map_wf pow2 kv m' \<and> map_contents kv m' = (map_contents kv m)(kv p := None) \<and>
      map_addrs kv m' = (map_addrs kv m)(kv p := None) \<and> map_room m'"
    if "map_contents kv m (kv p) \<noteq> None"
    using map_erase_spec [OF wf that, of trash] map_room_erase [OF wf] by blast
qed

section \<open>Allocation\<close>

lemma map_allocate_outcome:
  assumes ok: "heap_ok h" and c: "0 < unat capacity" "2 * unat capacity < 2 ^ 31"
  shows "alloc_outcome h map_out
     (\<lambda>out h'. map_cap_ok pow2 capacity \<and>
        (\<exists>m. out = Some m \<and> map_wf pow2 kv m \<and> map_contents kv m = Map.empty \<and>
           map_addrs kv m = Map.empty \<and> m_capacity m = capacity \<and> busy_slots (m_tab m) = []) \<and>
        (\<exists>ints ptrs. ints = 4 * unat capacity \<and> ptrs = 8 * unat capacity \<and>
           live h' = (live h)(fresh h \<mapsto> 64, fresh h + 1 \<mapsto> ints, fresh h + 2 \<mapsto> ptrs,
             fresh h + 3 \<mapsto> ints, fresh h + 4 \<mapsto> ints, fresh h + 5 \<mapsto> ints)))
     (map_allocate pow2 (=) khash capacity raw map_out h)"
proof (cases "pow2 \<and> (capacity = 0 \<or> capacity AND (capacity - 1) \<noteq> 0)")
  case True
  then show ?thesis using ok by (simp add: map_allocate_def alloc_outcome_fail)
next
  case False
  let ?c = "unat capacity"
  have sint: "sint capacity = int ?c" using c by (intro sint_eq_unat_small) simp
  have sizes: "size_t (4 * sint capacity) = 4 * ?c" "size_t (8 * sint capacity) = 8 * ?c"
    using c unfolding sint by (simp_all add: size_t_def nat_mult_distrib del: of_nat_unat)
  let ?t = "\<lparr>busybits = map (raw_int raw) [0..<?c], keyps = map (raw_ptr raw) [0..<?c],
      k_hashes = map (raw_word raw) [0..<?c], chns = map (raw_int raw) [0..<?c],
      vals = map (raw_int raw) [0..<?c]\<rparr>"
  obtain t where t: "map_impl_init ?t capacity = Some t" "htab_wf kv khash ?c t"
    "htab_map kv t = Map.empty" "htab_addrs kv t = Map.empty" "busy_slots t = []"
    using map_impl_init_spec [of capacity ?t kv khash] c by auto
  have cap: "map_cap_ok pow2 capacity" using False c by (auto simp: map_cap_ok_def)
  have nums: "fresh h + 3 = Suc (Suc (Suc (fresh h)))" "fresh h + 4 = Suc (Suc (Suc (Suc (fresh h))))"
    "fresh h + 5 = Suc (Suc (Suc (Suc (Suc (fresh h)))))" by simp_all
  have fr: "live h (fresh h) = None" "live h (Suc (fresh h)) = None"
    "live h (Suc (Suc (fresh h))) = None" "live h (Suc (Suc (Suc (fresh h)))) = None"
    "live h (Suc (Suc (Suc (Suc (fresh h))))) = None"
    using ok by (simp_all add: heap_ok_def)
  show ?thesis
    unfolding map_allocate_def sizes if_not_P [OF False] Let_def
    by (intro alloc_outcome_malloc [OF ok] alloc_outcome_malloc; (assumption | simp add: run_simps)?)
      (use fr t cap in \<open>auto simp: alloc_outcome_def nums fun_upd_twist fun_upd_idem map_wf_def
          map_contents_def map_addrs_def intro!: heap_ok_restore [OF ok]\<close>)
qed

section \<open>A change of the memory behind the keys\<close>

lemma map_memory_cong:
  assumes "\<And>q. q \<in> ran (map_addrs kv m) \<Longrightarrow> kv q = kv' q" "map_wf pow2 kv m"
  shows "map_wf pow2 kv' m" "map_contents kv' m = map_contents kv m" "map_addrs kv' m = map_addrs kv m"
proof -
  let ?t = "m_tab m"
  have "distinct (map (\<lambda>j. kv (keyps ?t ! j)) (busy_slots ?t))"
    using assms(2) by (simp add: map_wf_def htab_wf_def)
  then have "map_addrs kv m (kv (keyps ?t ! j)) = Some (keyps ?t ! j)" if "j \<in> set (busy_slots ?t)" for j
    using that slot_of_Some [of kv ?t "kv (keyps ?t ! j)" j] by (simp add: map_addrs_def htab_addrs_slot)
  then have "kv (keyps ?t ! j) = kv' (keyps ?t ! j)" if "j \<in> set (busy_slots ?t)" for j
    using that assms(1) by (metis ranI)
  from htab_memory_cong [of ?t kv kv', OF this] show "map_wf pow2 kv' m"
    "map_contents kv' m = map_contents kv m" "map_addrs kv' m = map_addrs kv m"
    using assms(2) by (simp_all add: map_wf_def map_contents_def map_addrs_def)
qed

section \<open>Properties\<close>

text \<open>A map of two slots over keys that are their own pointers; it holds the key 3.\<close>

definition ex_map :: "(nat, nat) vmap" where
  "ex_map =
     \<lparr>m_tab = \<lparr>busybits = [0, 1], keyps = [0, 3], k_hashes = [0, 3], chns = [0, 0], vals = [0, 7]\<rparr>,
      m_capacity = 2, m_size = 1, m_keys_eq = (=), m_khash = of_nat\<rparr>"

lemma ex_map_slots: "busy_slots (m_tab ex_map) = [1]"
  by code_simp

lemma ex_map_ok:
  "map_wf True (\<lambda>p. p) ex_map" "map_room ex_map" "map_contents (\<lambda>p. p) ex_map = [3 \<mapsto> 7]"
  "map_addrs (\<lambda>p. p) ex_map = [3 \<mapsto> 3]"
proof -
  let ?t = "m_tab ex_map"
  have "length (busybits ?t) = 2 \<and> length (keyps ?t) = 2 \<and> length (k_hashes ?t) = 2 \<and>
    length (chns ?t) = 2 \<and> length (vals ?t) = 2" by code_simp
  moreover have "\<forall>j \<in> set (busy_slots ?t). k_hashes ?t ! j = of_nat (keyps ?t ! j)" by code_simp
  moreover have "\<forall>i \<in> set [0..<2]. chns ?t ! i = int (length (filter (\<lambda>j. crosses 2 ?t j i) (busy_slots ?t)))"
    by code_simp
  ultimately have "htab_wf (\<lambda>p. p) (of_nat :: nat \<Rightarrow> u32) 2 ?t"
    using ex_map_slots by (simp add: htab_wf_def)
  then show "map_wf True (\<lambda>p. p) ex_map"
    using ex_map_slots by (simp add: map_wf_def map_cap_ok_def) (simp add: ex_map_def)
  show "map_room ex_map" "map_contents (\<lambda>p. p) ex_map = [3 \<mapsto> 7]"
    "map_addrs (\<lambda>p. p) ex_map = [3 \<mapsto> 3]"
    using ex_map_slots
    by (simp_all add: map_room_def map_contents_def map_addrs_def htab_map_def htab_addrs_def)
      (simp_all add: ex_map_def)
qed

text \<open>
  C38. \<open>map_put\<close> of a key the map does not have, when a slot is free, succeeds and keeps
  the invariant; the map then has the old contents and the new entry, remembers the pointer
  it was given, and counts one key more.
\<close>

theorem map_put_correct:
  assumes "map_wf pow2 kv m" "map_room m" "map_contents kv m (kv p) = None"
  shows "\<exists>m'. map_put pow2 kv m p v = Some m' \<and> map_wf pow2 kv m' \<and>
     map_contents kv m' = (map_contents kv m)(kv p \<mapsto> v) \<and>
     map_addrs kv m' = (map_addrs kv m)(kv p \<mapsto> p) \<and> map_size m' = map_size m + 1"
proof -
  obtain m' where "map_put pow2 kv m p v = Some m'" "map_wf pow2 kv m'"
    "map_contents kv m' = (map_contents kv m)(kv p \<mapsto> v)" "map_addrs kv m' = (map_addrs kv m)(kv p \<mapsto> p)"
    using vm.put_law [OF assms] by blast
  then show ?thesis by (auto simp: map_put_def map_size_def Let_def split: bind_splits)
qed

theorem map_put_correct_witness:
  "\<exists>m'. map_put True (\<lambda>p. p) ex_map 5 9 = Some m' \<and> map_contents (\<lambda>p. p) m' = [3 \<mapsto> 7, 5 \<mapsto> 9]"
  using map_put_correct [OF ex_map_ok(1,2), of 5 9] ex_map_ok(3) by auto

end
