(* ===== verification/Vector_Api.thy ===== *)
theory Vector_Api
  imports Heap_Alloc
begin

text \<open>
  The vector of \<open>libvig/verified/vector.c\<close>: a block of \<open>capacity\<close> elements of
  \<open>elem_size\<close> bytes. The model keeps one list entry per element slot of the block, so the
  number of entries follows from the size that was allocated. \<open>vector_borrow\<close> returns the
  slot that the computed address lies in, and faults when the address is outside the block.
\<close>

declare of_nat_unat [simp del]

section \<open>The code\<close>

record 'a Vector =
  v_data :: "'a list"
  v_elem_size :: int
  v_capacity :: u32

function vector_init_loop :: "'a list \<Rightarrow> int \<Rightarrow> u32 \<Rightarrow> ('a \<Rightarrow> 'a) \<Rightarrow> u32 \<Rightarrow> 'a list option" where
  "vector_init_loop data elem_size capacity init_elem i =
     (if i < capacity then do {
        off \<leftarrow> s32 (elem_size * sint i);
        x \<leftarrow> arr_get data (off div elem_size);
        data \<leftarrow> arr_set data (off div elem_size) (init_elem x);
        vector_init_loop data elem_size capacity init_elem (i + 1)
      } else Some data)"
  by pat_completeness auto
termination
  by (relation "measure (\<lambda>(data, elem_size, capacity, init_elem, i). unat capacity - unat i)")
    (auto simp: unat_Suc_less word_less_nat_alt intro!: diff_less_mono2)

declare vector_init_loop.simps [simp del]

text \<open>\<open>raw\<close> is what the new block holds; the size is a product of two 32 bit words.\<close>

definition vector_allocate ::
  "int \<Rightarrow> u32 \<Rightarrow> ('a \<Rightarrow> 'a) \<Rightarrow> (nat \<Rightarrow> 'a) \<Rightarrow> 'a Vector option \<Rightarrow> heap
   \<Rightarrow> (int \<times> 'a Vector option \<times> heap) option" where
  "vector_allocate elem_size capacity init_elem raw vector_out h =
     (case malloc 24 h of
        (None, h) \<Rightarrow> Some (0, vector_out, h)
      | (Some vector_alloc, h) \<Rightarrow>
          (let bytes = unat ((word_of_int elem_size :: u32) * capacity)
           in case malloc bytes h of
                (None, h) \<Rightarrow> do {
                  h \<leftarrow> free vector_alloc h;
                  Some (0, vector_out, h)
                }
              | (Some data_alloc, h) \<Rightarrow> do {
                  data \<leftarrow> vector_init_loop (map raw [0..<bytes div nat elem_size]) elem_size capacity init_elem 0;
                  Some (1, Some \<lparr>v_data = data, v_elem_size = elem_size, v_capacity = capacity\<rparr>, h)
                }))"

definition vector_borrow :: "'a Vector \<Rightarrow> int \<Rightarrow> nat option" where
  "vector_borrow vector index = do {
     off \<leftarrow> s32 (index * v_elem_size vector);
     if 0 \<le> off \<and> off < int (length (v_data vector)) * v_elem_size vector
     then Some (nat (off div v_elem_size vector))
     else None
   }"

definition vector_return :: "'a Vector \<Rightarrow> int \<Rightarrow> nat \<Rightarrow> 'a Vector" where
  "vector_return vector index slot = vector"

text \<open>Writing the element behind a borrowed pointer.\<close>

definition vector_write :: "'a Vector \<Rightarrow> nat \<Rightarrow> 'a \<Rightarrow> 'a Vector" where
  "vector_write vector slot x = vector\<lparr>v_data := (v_data vector)[slot := x]\<rparr>"

section \<open>The invariant\<close>

text \<open>The bounds are the preconditions of \<open>vector.h\<close>.\<close>

definition vector_wf :: "'a Vector \<Rightarrow> bool" where
  "vector_wf v \<longleftrightarrow>
     0 < v_elem_size v \<and> v_elem_size v \<le> 4096 \<and> unat (v_capacity v) \<le> 140000 \<and>
     length (v_data v) = unat (v_capacity v)"

lemma elem_offset:
  assumes "0 < e" "e \<le> 4096" "0 \<le> i" "i < 140000"
  shows "s32 (i * e) = Some (i * e)" "s32 (e * i) = Some (e * i)"
proof -
  have "i * e \<le> 140000 * 4096" using assms by (intro mult_mono) auto
  moreover have "0 \<le> i * e" using assms by simp
  ultimately show "s32 (i * e) = Some (i * e)" "s32 (e * i) = Some (e * i)"
    by (simp_all add: s32_def mult.commute)
qed

lemma vector_borrow_spec:
  assumes "vector_wf v" "0 \<le> i" "i < int (length (v_data v))"
  shows "vector_borrow v i = Some (nat i)"
proof -
  have "i * v_elem_size v < int (length (v_data v)) * v_elem_size v"
    using assms by (intro mult_strict_right_mono) (simp_all add: vector_wf_def)
  moreover have "s32 (i * v_elem_size v) = Some (i * v_elem_size v)"
    using assms by (intro elem_offset(1)) (auto simp: vector_wf_def)
  ultimately show ?thesis using assms by (simp add: vector_borrow_def vector_wf_def)
qed

text \<open>An index outside the vector is never turned into an element.\<close>

lemma vector_borrow_outside:
  assumes "vector_wf v" "i < 0 \<or> int (length (v_data v)) \<le> i"
  shows "vector_borrow v i = None"
proof -
  let ?e = "v_elem_size v" and ?n = "int (length (v_data v))"
  have e: "0 < ?e" using assms by (simp add: vector_wf_def)
  have "\<not> (0 \<le> i * ?e \<and> i * ?e < ?n * ?e)"
    using e assms(2) by (auto simp: zero_le_mult_iff mult_less_cancel_right)
  then show ?thesis by (auto simp: vector_borrow_def s32_def split: bind_splits if_splits)
qed

lemma vector_write_simps [simp]:
  "vector_wf (vector_write v s x) = vector_wf v" "v_capacity (vector_write v s x) = v_capacity v"
  "v_data (vector_write v s x) = (v_data v)[s := x]" "vector_return v i s = v"
  by (simp_all add: vector_write_def vector_wf_def vector_return_def)

lemma vector_init_loop_spec:
  assumes e: "0 < e" "e \<le> 4096" and c: "unat capacity \<le> 140000"
    and "length data = unat capacity" "i \<le> capacity"
  shows "vector_init_loop data e capacity f i =
     Some (take (unat i) data @ map f (drop (unat i) data))"
  using assms(4-)
proof (induction "unat capacity - unat i" arbitrary: data i)
  case 0
  then have "i = capacity" by (simp add: word_le_nat_alt word_unat_eq_iff)
  with 0 show ?case by (subst vector_init_loop.simps) simp
next
  case (Suc n)
  then have i: "i < capacity" "unat i < unat capacity" "unat (i + 1) = Suc (unat i)" "i + 1 \<le> capacity"
    using unat_Suc_less [of i capacity] by (auto simp: word_less_nat_alt word_le_nat_alt)
  have sint: "sint i = int (unat i)" using i c by (intro sint_eq_unat_small) simp
  have off: "s32 (e * int (unat i)) = Some (e * int (unat i))"
    using e i c by (intro elem_offset(2)) simp_all
  let ?d = "data[unat i := f (data ! unat i)]"
  have "vector_init_loop data e capacity f i = vector_init_loop ?d e capacity f (i + 1)"
    using i e off Suc.prems(1)
    by (subst vector_init_loop.simps) (simp add: sint run_simps del: of_nat_unat)
  also have "\<dots> = Some (take (unat (i + 1)) ?d @ map f (drop (unat (i + 1)) ?d))"
    using Suc.hyps(2) Suc.prems i by (intro Suc.hyps(1)) auto
  also have "take (unat (i + 1)) ?d @ map f (drop (unat (i + 1)) ?d) =
      take (unat i) data @ map f (drop (unat i) data)"
    using i Suc.prems(1) by (simp add: take_Suc_conv_app_nth flip: Cons_nth_drop_Suc)
  finally show ?case .
qed

lemma vector_allocate_outcome:
  assumes ok: "heap_ok h" and e: "0 < e" "e \<le> 4096" and c: "unat capacity \<le> 140000"
  shows "alloc_outcome h vector_out
     (\<lambda>out h'. (\<exists>v. out = Some v \<and> vector_wf v \<and> v_capacity v = capacity \<and> v_elem_size v = e \<and>
          v_data v = map (\<lambda>j. init_elem (raw j)) [0..<unat capacity]) \<and>
        live h' = (live h)(fresh h \<mapsto> 24, fresh h + 1 \<mapsto> nat e * unat capacity))
     (vector_allocate e capacity init_elem raw vector_out h)"
proof -
  have "nat e * unat capacity \<le> 4096 * 140000" using e c by (intro mult_mono) auto
  moreover have "unat (word_of_int e :: u32) = nat e"
    using e by (simp add: unat_eq_nat_uint uint_word_of_int)
  ultimately have "unat ((word_of_int e :: u32) * capacity) = nat e * unat capacity"
    by (simp add: unat_word_ariths)
  moreover have "nat e * unat capacity div nat e = unat capacity" using e by simp
  moreover have "vector_init_loop (map raw [0..<unat capacity]) e capacity init_elem 0 =
      Some (map (\<lambda>j. init_elem (raw j)) [0..<unat capacity])"
    using vector_init_loop_spec [OF e c, of "map raw [0..<unat capacity]" 0 init_elem] by (simp add: comp_def)
  ultimately show ?thesis
    unfolding vector_allocate_def Let_def
    by (intro alloc_outcome_malloc [OF ok] alloc_outcome_malloc; (assumption | simp add: run_simps)?)
      (use heap_ok_fresh(2) [OF ok] e c in \<open>auto simp: alloc_outcome_def fun_upd_idem vector_wf_def
          intro!: heap_ok_restore [OF ok]\<close>)
qed

end
