(* ===== verification/Flow_Table.thy ===== *)
theory Flow_Table
  imports Dchain Map_Api Vector_Api
begin

text \<open>
  The triple most of the network functions keep: an index allocator with time stamps, a vector
  with one key per index, and a map from keys to indexes whose keys are pointers into that
  vector. \<open>libvig/verified/expirator.c\<close> is modelled here, together with the invariant that
  keeps the three structures coherent, \<open>flow_table_ok\<close>, and the effect on it of the
  sequences of calls that the network functions make: look up, insert, refresh and expire.
\<close>

declare of_nat_unat [simp del]

section \<open>Pointers to keys\<close>

text \<open>A key is read from the caller's memory or from a slot of the vector.\<close>

datatype 'k kptr = Ext 'k | Slot nat

fun key_at :: "'k Vector \<Rightarrow> 'k kptr \<Rightarrow> 'k" where
  "key_at vector (Ext k) = k"
| "key_at vector (Slot i) = v_data vector ! i"

section \<open>The code\<close>

partial_function (option) expire_items_single_map_loop ::
  "bool \<Rightarrow> DoubleChain \<Rightarrow> 'k Vector \<Rightarrow> ('k kptr, 'k) vmap \<Rightarrow> vigor_time \<Rightarrow> int \<Rightarrow> int
   \<Rightarrow> (int \<times> DoubleChain \<times> ('k kptr, 'k) vmap) option" where
  "expire_items_single_map_loop pow2 chain vector m time index count = do {
     (ret, index, chain) \<leftarrow> dchain_expire_one_index chain index time;
     if ret \<noteq> 0 then do {
       key \<leftarrow> vector_borrow vector index;
       (key, m) \<leftarrow> map_erase pow2 (key_at vector) m (Slot key) (Slot key);
       count \<leftarrow> s32 (count + 1);
       expire_items_single_map_loop pow2 chain vector m time index count
     } else Some (count, chain, m)
   }"

declare expire_items_single_map_loop.simps [code]

definition expire_items_single_map ::
  "bool \<Rightarrow> DoubleChain \<Rightarrow> 'k Vector \<Rightarrow> ('k kptr, 'k) vmap \<Rightarrow> vigor_time
   \<Rightarrow> (int \<times> DoubleChain \<times> ('k kptr, 'k) vmap) option" where
  "expire_items_single_map pow2 chain vector m time =
     expire_items_single_map_loop pow2 chain vector m time (- 1) 0"

section \<open>Coherence\<close>

definition flow_index :: "'k Vector \<Rightarrow> int list \<Rightarrow> 'k \<Rightarrow> int option" where
  "flow_index vector is = map_of (map (\<lambda>i. (v_data vector ! nat i, i)) is)"

definition flow_table_ok ::
  "bool \<Rightarrow> dchain \<Rightarrow> DoubleChain \<Rightarrow> 'k Vector \<Rightarrow> ('k kptr, 'k) vmap \<Rightarrow> bool" where
  "flow_table_ok pow2 ch chain vector m \<longleftrightarrow>
     double_chainp ch chain \<and> vector_wf vector \<and> map_wf pow2 (key_at vector) m \<and>
     dchain_index_range_fp ch \<le> int (length (v_data vector)) \<and>
     dchain_index_range_fp ch \<le> int (unat (m_capacity m)) \<and>
     distinct (map (\<lambda>i. v_data vector ! nat i) (dchain_indexes_fp ch)) \<and>
     map_contents (key_at vector) m = flow_index vector (dchain_indexes_fp ch) \<and>
     map_addrs (key_at vector) m =
       (\<lambda>k. map_option (\<lambda>i. Slot (nat i)) (flow_index vector (dchain_indexes_fp ch) k))"

lemma flow_index_Some:
  "distinct (map (\<lambda>i. v_data vector ! nat i) is) \<Longrightarrow>
   flow_index vector is k = Some i \<longleftrightarrow> i \<in> set is \<and> v_data vector ! nat i = k"
  unfolding flow_index_def
  by (subst map_of_eq_Some_iff) (auto simp: comp_def)

lemma flow_index_None: "flow_index vector is k = None \<longleftrightarrow> (\<forall>i \<in> set is. v_data vector ! nat i \<noteq> k)"
  by (auto simp: flow_index_def map_of_eq_None_iff image_image)

lemma flow_table_indexes:
  assumes "flow_table_ok pow2 ch chain vector m" "i \<in> set (dchain_indexes_fp ch)"
  shows "0 \<le> i" "i < dchain_index_range_fp ch" "nat i < length (v_data vector)"
proof -
  have "dchain_allocated_fp ch i" using assms(2) by (cases ch) auto
  then have "0 \<le> i \<and> i < dchain_index_range_fp ch"
    using double_chainp_range(5) assms(1) unfolding flow_table_ok_def by blast
  then show "0 \<le> i" "i < dchain_index_range_fp ch" "nat i < length (v_data vector)"
    using assms(1) by (auto simp: flow_table_ok_def)
qed

lemma dchain_allocated_indexes: "dchain_allocated_fp ch i \<longleftrightarrow> i \<in> set (dchain_indexes_fp ch)"
  by (cases ch) auto

lemma dchain_indexes_ops [simp]:
  "dchain_indexes_fp (dchain_allocate_fp ch i t) = dchain_indexes_fp ch @ [i]"
  "dchain_indexes_fp (dchain_remove_index_fp ch i) = remove1 i (dchain_indexes_fp ch)"
  "dchain_indexes_fp (dchain_rejuvenate_fp ch i t) = remove1 i (dchain_indexes_fp ch) @ [i]"
  "dchain_index_range_fp (dchain_allocate_fp ch i t) = dchain_index_range_fp ch"
  "dchain_index_range_fp (dchain_remove_index_fp ch i) = dchain_index_range_fp ch"
  "dchain_index_range_fp (dchain_rejuvenate_fp ch i t) = dchain_index_range_fp ch"
  by (cases ch; simp add: map_fst_remove)+

section \<open>Looking up\<close>

lemma flow_table_get:
  assumes "flow_table_ok pow2 ch chain vector m"
  shows "map_get pow2 (key_at vector) m p v =
     Some (case flow_index vector (dchain_indexes_fp ch) (key_at vector p) of
             None \<Rightarrow> (0, v) | Some i \<Rightarrow> (1, i))"
  using assms vm.get_law [of pow2 "key_at vector" m p v] by (simp add: flow_table_ok_def)

section \<open>Refreshing\<close>

lemma flow_table_rejuvenate:
  assumes ok: "flow_table_ok pow2 ch chain vector m" and i: "i \<in> set (dchain_indexes_fp ch)"
    and time: "dchain_high_fp ch \<le> time"
  shows "\<exists>chain'. dchain_rejuvenate_index chain i time = Some (1, chain') \<and>
     flow_table_ok pow2 (dchain_rejuvenate_fp ch i time) chain' vector m"
proof -
  let ?is = "dchain_indexes_fp ch" and ?js = "remove1 i (dchain_indexes_fp ch) @ [i]"
  let ?key = "\<lambda>i. v_data vector ! nat i"
  obtain chain' where run: "dchain_rejuvenate_index chain i time = Some (1, chain')"
    "double_chainp (dchain_rejuvenate_fp ch i time) chain'"
    using dchain_rejuvenate_index_refines [of ch chain i time] ok i time
    by (auto simp: flow_table_ok_def dchain_allocated_indexes)
  have d: "distinct (map ?key ?is)" "distinct ?is" using ok by (auto simp: flow_table_ok_def distinct_map)
  have set: "set ?js = set ?is" using i d(2) by (auto simp: set_remove1_eq)
  have dj: "distinct (map ?key ?js)"
    using d i unfolding distinct_map set by (simp add: set_remove1_eq)
  have "flow_index vector ?js = flow_index vector ?is"
    using flow_index_Some [OF d(1)] flow_index_Some [OF dj] set
    by (intro ext) (metis not_Some_eq)
  then show ?thesis using run ok dj by (simp add: flow_table_ok_def)
qed

section \<open>Inserting\<close>

lemma map_room_card:
  assumes "map_wf pow2 kv m"
  shows "map_room m \<longleftrightarrow> card (dom (map_contents kv m)) < unat (m_capacity m)"
proof -
  have "length (busy_slots (m_tab m)) = unat (map_size m)"
    using assms length_busy_slots [of "m_tab m"] unsigned_less [of "m_capacity m"]
    by (auto simp: map_wf_def htab_wf_def map_size_def unat_of_nat_small)
  then show ?thesis using map_size_spec [OF assms] by (simp add: map_room_def)
qed

lemma flow_table_room:
  assumes ok: "flow_table_ok pow2 ch chain vector m" and "\<not> dchain_out_of_space_fp ch"
  shows "map_room m"
proof -
  have "dom (flow_index vector (dchain_indexes_fp ch)) =
      set (map (\<lambda>i. v_data vector ! nat i) (dchain_indexes_fp ch))"
    by (simp add: flow_index_def dom_map_of_conv_image_fst image_image)
  then have "card (dom (map_contents (key_at vector) m)) = length (dchain_indexes_fp ch)"
    using ok distinct_card [of "map (\<lambda>i. v_data vector ! nat i) (dchain_indexes_fp ch)"]
    by (simp add: flow_table_ok_def)
  moreover have "int (length (dchain_indexes_fp ch)) < dchain_index_range_fp ch"
    using assms(2) by (cases ch) simp
  moreover have "dchain_index_range_fp ch \<le> int (unat (m_capacity m))"
    "map_wf pow2 (key_at vector) m"
    using ok by (simp_all add: flow_table_ok_def)
  ultimately show ?thesis by (simp add: map_room_card)
qed

lemma flow_index_write:
  assumes "i \<notin> set is" "0 \<le> i" "\<And>j. j \<in> set is \<Longrightarrow> 0 \<le> j"
  shows "j \<in> set is \<Longrightarrow> v_data (vector_write vector (nat i) k) ! nat j = v_data vector ! nat j"
    "flow_index (vector_write vector (nat i) k) is = flow_index vector is"
proof -
  show eq: "v_data (vector_write vector (nat i) k) ! nat j = v_data vector ! nat j"
    if "j \<in> set is" for j
  proof -
    have "nat i \<noteq> nat j" using that assms by (metis eq_nat_nat_iff)
    then show ?thesis by simp
  qed
  show "flow_index (vector_write vector (nat i) k) is = flow_index vector is"
    unfolding flow_index_def using eq by (simp cong: map_cong)
qed

lemma flow_index_append: "flow_index vector (is @ [i]) = flow_index vector [i] ++ flow_index vector is"
  by (simp add: flow_index_def)

text \<open>
  A new index is taken, the key is written into its slot of the vector, and the map is told
  about it through a pointer to that slot.
\<close>

lemma flow_table_insert:
  assumes ok: "flow_table_ok pow2 ch chain vector m"
    and i: "\<not> dchain_allocated_fp ch i" "0 \<le> i" "i < dchain_index_range_fp ch"
    and room: "\<not> dchain_out_of_space_fp ch"
    and chain': "double_chainp (dchain_allocate_fp ch i time) chain'"
    and new: "flow_index vector (dchain_indexes_fp ch) k = None"
  shows "vector_borrow vector i = Some (nat i)"
    "\<exists>m'. map_put pow2 (key_at (vector_write vector (nat i) k)) m (Slot (nat i)) i = Some m' \<and>
       flow_table_ok pow2 (dchain_allocate_fp ch i time) chain' (vector_write vector (nat i) k) m'"
proof -
  let ?v = "vector_write vector (nat i) k" and ?is = "dchain_indexes_fp ch"
  have len: "dchain_index_range_fp ch \<le> int (length (v_data vector))" "vector_wf vector"
    "map_wf pow2 (key_at vector) m"
    using ok by (simp_all add: flow_table_ok_def)
  show "vector_borrow vector i = Some (nat i)"
    using vector_borrow_spec [OF len(2)] i len(1) by simp
  have notin: "i \<notin> set ?is" "\<And>j. j \<in> set ?is \<Longrightarrow> 0 \<le> j"
    using i flow_table_indexes(1) [OF ok] by (auto simp: dchain_allocated_indexes)
  note same = flow_index_write [OF notin(1) i(2) notin(2), where vector = vector and k = k]
  have at_i: "v_data ?v ! nat i = k" using i len by simp
  have "key_at vector q = key_at ?v q" if q: "q \<in> ran (map_addrs (key_at vector) m)" for q
  proof -
    obtain k' j where "flow_index vector ?is k' = Some j" "q = Slot (nat j)"
      using q ok by (auto simp: flow_table_ok_def ran_def)
    moreover have "distinct (map (\<lambda>i. v_data vector ! nat i) ?is)" using ok by (simp add: flow_table_ok_def)
    ultimately have "j \<in> set ?is" "q = Slot (nat j)" by (auto simp: flow_index_Some)
    then show ?thesis using same(1) by simp
  qed
  note mem = map_memory_cong [of "key_at vector" m "key_at ?v", OF this len(3)]
  have "map_room m" by (rule flow_table_room [OF ok room])
  moreover have "map_contents (key_at ?v) m (key_at ?v (Slot (nat i))) = None"
    using mem(2) new ok at_i by (simp add: flow_table_ok_def)
  ultimately obtain m' where m': "map_put pow2 (key_at ?v) m (Slot (nat i)) i = Some m'"
    "map_wf pow2 (key_at ?v) m'"
    "map_contents (key_at ?v) m' = (map_contents (key_at ?v) m)(k \<mapsto> i)"
    "map_addrs (key_at ?v) m' = (map_addrs (key_at ?v) m)(k \<mapsto> Slot (nat i))"
    "m_capacity m' = m_capacity m"
    using map_put_spec [OF mem(1), of "Slot (nat i)" i] at_i by auto
  have fi: "flow_index ?v (?is @ [i]) = (flow_index vector ?is)(k \<mapsto> i)"
    using same(2) new at_i by (auto simp: flow_index_append flow_index_def map_add_def fun_eq_iff split: option.split)
  have "\<forall>j \<in> set ?is. v_data vector ! nat j \<noteq> k" using new by (simp add: flow_index_None)
  then have "distinct (map (\<lambda>i. v_data ?v ! nat i) (?is @ [i]))"
    using ok same(1) at_i by (auto simp: flow_table_ok_def distinct_map inj_on_def)
  then have "flow_table_ok pow2 (dchain_allocate_fp ch i time) chain' ?v m'"
    using ok chain' m' mem(2,3) len fi
    by (auto simp: flow_table_ok_def fun_eq_iff)
  with m'(1) show "\<exists>m'. map_put pow2 (key_at ?v) m (Slot (nat i)) i = Some m' \<and>
       flow_table_ok pow2 (dchain_allocate_fp ch i time) chain' ?v m'" by blast
qed

section \<open>Expiring\<close>

lemma dchain_expire_step:
  assumes "\<not> dchain_is_empty_fp ch" "dchain_get_oldest_time_fp ch < time"
  shows "dchain_expire_old_indexes_fp (dchain_remove_index_fp ch (dchain_get_oldest_index_fp ch)) time =
      dchain_expire_old_indexes_fp ch time"
    "dchain_get_expired_indexes_fp ch time = dchain_get_oldest_index_fp ch #
      dchain_get_expired_indexes_fp (dchain_remove_index_fp ch (dchain_get_oldest_index_fp ch)) time"
  using assms by (cases ch; auto simp: neq_Nil_conv)+

lemma dchain_expire_stop:
  assumes "double_chainp ch chain" "dchain_is_empty_fp ch \<or> time \<le> dchain_get_oldest_time_fp ch"
  shows "dchain_expire_old_indexes_fp ch time = ch" "dchain_get_expired_indexes_fp ch time = []"
proof -
  obtain alist sz low high where ch: "ch = dchain alist sz low high" by (cases ch)
  have "bnd_sorted_fp (map snd alist) low high" using assms(1) by (simp add: ch double_chainp_def)
  then have "filter (is_cell_expired time) alist = []"
  proof (cases alist)
    case (Cons a as)
    with assms(2) \<open>bnd_sorted_fp (map snd alist) low high\<close>
    have "time \<le> snd a" "bnd_sorted_fp (map snd as) (snd a) high" by (auto simp: ch)
    then have "time \<le> snd b" if "b \<in> set as" for b
      using bnd_sorted_bounds [of "map snd as" "snd a" high "snd b"] that by auto
    with Cons \<open>time \<le> snd a\<close> show ?thesis by (auto simp: filter_empty_conv not_less)
  qed simp
  then show "dchain_expire_old_indexes_fp ch time = ch" "dchain_get_expired_indexes_fp ch time = []"
    by (simp_all add: ch)
qed

lemma flow_table_erase:
  assumes ok: "flow_table_ok pow2 ch chain vector m" and i: "i \<in> set (dchain_indexes_fp ch)"
    and chain': "double_chainp (dchain_remove_index_fp ch i) chain'" and p: "key_at vector p = v_data vector ! nat i"
  shows "vector_borrow vector i = Some (nat i)"
    "\<exists>m'. map_erase pow2 (key_at vector) m p trash = Some (Slot (nat i), m') \<and>
       flow_table_ok pow2 (dchain_remove_index_fp ch i) chain' vector m'"
proof -
  let ?is = "dchain_indexes_fp ch" and ?js = "remove1 i (dchain_indexes_fp ch)"
  let ?key = "\<lambda>i. v_data vector ! nat i"
  have wf: "vector_wf vector" "map_wf pow2 (key_at vector) m" using ok by (simp_all add: flow_table_ok_def)
  show "vector_borrow vector i = Some (nat i)"
    using vector_borrow_spec [OF wf(1)] flow_table_indexes [OF ok i] by simp
  have d: "distinct (map ?key ?is)" "distinct ?is" using ok by (auto simp: flow_table_ok_def distinct_map)
  have dj: "distinct (map ?key ?js)" using d by (simp add: distinct_map inj_on_def)
  have at: "flow_index vector ?is (?key i) = Some i" using i by (simp add: flow_index_Some [OF d(1)])
  have fi: "flow_index vector ?js = (flow_index vector ?is)(?key i := None)"
  proof
    fix k
    show "flow_index vector ?js k = ((flow_index vector ?is)(?key i := None)) k"
    proof (cases "k = ?key i")
      case True
      have "\<forall>j \<in> set ?js. ?key j \<noteq> ?key i" using d i by (auto simp: distinct_map inj_on_def)
      with True show ?thesis by (simp add: flow_index_None)
    next
      case False
      then have "flow_index vector ?js k = Some j \<longleftrightarrow> flow_index vector ?is k = Some j" for j
        using d(2) by (auto simp: flow_index_Some [OF d(1)] flow_index_Some [OF dj])
      then have "flow_index vector ?js k = flow_index vector ?is k" by (metis not_Some_eq)
      with False show ?thesis by simp
    qed
  qed
  obtain q m' where m': "map_erase pow2 (key_at vector) m p trash = Some (q, m')"
    "map_addrs (key_at vector) m (?key i) = Some q" "map_wf pow2 (key_at vector) m'"
    "map_contents (key_at vector) m' = (map_contents (key_at vector) m)(?key i := None)"
    "map_addrs (key_at vector) m' = (map_addrs (key_at vector) m)(?key i := None)"
    "m_capacity m' = m_capacity m"
    using map_erase_spec [OF wf(2), of p trash, unfolded p] ok at by (auto simp: flow_table_ok_def)
  moreover have "q = Slot (nat i)" using m'(2) ok at by (simp add: flow_table_ok_def)
  moreover have "flow_table_ok pow2 (dchain_remove_index_fp ch i) chain' vector m'"
    using ok chain' m' dj fi by (auto simp: flow_table_ok_def fun_eq_iff)
  ultimately show "\<exists>m'. map_erase pow2 (key_at vector) m p trash = Some (Slot (nat i), m') \<and>
       flow_table_ok pow2 (dchain_remove_index_fp ch i) chain' vector m'" by blast
qed

text \<open>
  A store whose entries are the indexes in use of a chain, and the loop that erases the expired
  ones: \<open>ok\<close> relates the abstract chain, the chain and the store.
\<close>

locale expiration =
  fixes ok :: "dchain \<Rightarrow> DoubleChain \<Rightarrow> 's \<Rightarrow> bool"
    and erase_entry :: "'s \<Rightarrow> int \<Rightarrow> 's option"
    and run :: "DoubleChain \<Rightarrow> 's \<Rightarrow> int \<Rightarrow> int \<Rightarrow> (int \<times> DoubleChain \<times> 's) option"
    and time :: vigor_time
  assumes chain_rep: "ok ch chain s \<Longrightarrow> double_chainp ch chain"
    and erase_oldest: "ok ch chain s \<Longrightarrow> \<not> dchain_is_empty_fp ch \<Longrightarrow> dchain_get_oldest_time_fp ch < time \<Longrightarrow>
      double_chainp (dchain_remove_index_fp ch (dchain_get_oldest_index_fp ch)) chain' \<Longrightarrow>
      \<exists>s'. erase_entry s (dchain_get_oldest_index_fp ch) = Some s' \<and>
        ok (dchain_remove_index_fp ch (dchain_get_oldest_index_fp ch)) chain' s'"
    and run_eq: "run chain s index count = do {
        (ret, index, chain) \<leftarrow> dchain_expire_one_index chain index time;
        if ret \<noteq> 0 then do {
          s \<leftarrow> erase_entry s index;
          count \<leftarrow> s32 (count + 1);
          run chain s index count
        } else Some (count, chain, s)
      }"
begin

lemma run_expires:
  assumes "ok ch chain s" "0 \<le> count" "count + int (length (dchain_indexes_fp ch)) < 2 ^ 31"
  shows "\<exists>chain' s'. run chain s index count =
      Some (count + int (length (dchain_get_expired_indexes_fp ch time)), chain', s') \<and>
    ok (dchain_expire_old_indexes_fp ch time) chain' s'"
  using assms
proof (induction "length (dchain_indexes_fp ch)" arbitrary: ch chain s index count)
  case (0 ch)
  then have "dchain_is_empty_fp ch" by (cases ch) simp
  moreover have rep: "double_chainp ch chain" using 0 chain_rep by blast
  ultimately obtain index' where "dchain_expire_one_index chain index time = Some (0, index', chain)"
    using dchain_expire_one_index_refines(2) by blast
  with 0 dchain_expire_stop [OF rep] \<open>dchain_is_empty_fp ch\<close> show ?case by (subst run_eq) simp
next
  case (Suc n ch)
  have rep: "double_chainp ch chain" using Suc chain_rep by blast
  let ?i = "dchain_get_oldest_index_fp ch" and ?ch = "dchain_remove_index_fp ch (dchain_get_oldest_index_fp ch)"
  have ne: "\<not> dchain_is_empty_fp ch" using Suc(2) by (cases ch) auto
  then have i: "?i \<in> set (dchain_indexes_fp ch)"
    using dchain_oldest_allocated by (simp add: dchain_allocated_indexes)
  show ?case
  proof (cases "dchain_get_oldest_time_fp ch < time")
    case False
    then obtain index' where "dchain_expire_one_index chain index time = Some (0, index', chain)"
      using dchain_expire_one_index_refines(2) [OF rep, of time index] by auto
    with Suc.prems dchain_expire_stop [OF rep, of time] False show ?thesis by (subst run_eq) simp
  next
    case True
    obtain chain1 where c1: "dchain_expire_one_index chain index time = Some (1, ?i, chain1)"
      "double_chainp ?ch chain1"
      using dchain_expire_one_index_refines(1) [OF rep ne True] by blast
    obtain s1 where s1: "erase_entry s ?i = Some s1" "ok ?ch chain1 s1"
      using erase_oldest [OF Suc.prems(1) ne True c1(2)] by blast
    have len: "n = length (dchain_indexes_fp ?ch)" using Suc(2) i by (simp add: length_remove1)
    have "\<exists>chain' s'. run chain1 s1 ?i (count + 1) =
      Some (count + 1 + int (length (dchain_get_expired_indexes_fp ?ch time)), chain', s') \<and>
      ok (dchain_expire_old_indexes_fp ?ch time) chain' s'"
      using Suc.prems Suc.hyps(2) len by (intro Suc.hyps(1) [OF len s1(2)]) auto
    then show ?thesis
      using c1(1) s1(1) Suc.prems(2,3) Suc.hyps(2) dchain_expire_step [OF ne True]
      by (subst run_eq) (auto simp: s32_def)
  qed
qed

end

interpretation single_map: expiration "\<lambda>ch chain m. flow_table_ok pow2 ch chain vector m"
  "\<lambda>m i. do {
     key \<leftarrow> vector_borrow vector i;
     (key, m) \<leftarrow> map_erase pow2 (key_at vector) m (Slot key) (Slot key);
     Some m
   }"
  "\<lambda>chain m. expire_items_single_map_loop pow2 chain vector m time" time for pow2 vector time
proof
  fix ch chain chain' m index count
  show "double_chainp ch chain" if "flow_table_ok pow2 ch chain vector m" using that by (simp add: flow_table_ok_def)
  let ?i = "dchain_get_oldest_index_fp ch"
  show "\<exists>s'. do {
       key \<leftarrow> vector_borrow vector ?i;
       (key, m) \<leftarrow> map_erase pow2 (key_at vector) m (Slot key) (Slot key);
       Some m
     } = Some s' \<and> flow_table_ok pow2 (dchain_remove_index_fp ch ?i) chain' vector s'"
    if ok: "flow_table_ok pow2 ch chain vector m" and "\<not> dchain_is_empty_fp ch" "dchain_get_oldest_time_fp ch < time"
      "double_chainp (dchain_remove_index_fp ch ?i) chain'"
  proof -
    have "?i \<in> set (dchain_indexes_fp ch)" using dchain_oldest_allocated that(2) by (simp add: dchain_allocated_indexes)
    note er = flow_table_erase [OF ok this that(4), of "Slot (nat ?i)"]
    show ?thesis using er(1) er(2) [of "Slot (nat ?i)"] by auto
  qed
  show "expire_items_single_map_loop pow2 chain vector m time index count = do {
      (ret, index, chain) \<leftarrow> dchain_expire_one_index chain index time;
      if ret \<noteq> 0 then do {
        m \<leftarrow> do {
          key \<leftarrow> vector_borrow vector index;
          (key, m) \<leftarrow> map_erase pow2 (key_at vector) m (Slot key) (Slot key);
          Some m
        };
        count \<leftarrow> s32 (count + 1);
        expire_items_single_map_loop pow2 chain vector m time index count
      } else Some (count, chain, m)
    }"
    by (subst expire_items_single_map_loop.simps) (simp add: case_prod_unfold cong: if_cong)
qed

lemma expire_items_single_map_spec:
  assumes ok: "flow_table_ok pow2 ch chain vector m"
  shows "\<exists>chain' m'. expire_items_single_map pow2 chain vector m time =
      Some (int (length (dchain_get_expired_indexes_fp ch time)), chain', m') \<and>
    flow_table_ok pow2 (dchain_expire_old_indexes_fp ch time) chain' vector m'"
proof -
  have "int (length (dchain_indexes_fp ch)) \<le> dchain_index_range_fp ch"
    using double_chainp_range(4) ok unfolding flow_table_ok_def by blast
  moreover have "dchain_index_range_fp ch \<le> 140000"
    using ok by (auto simp: flow_table_ok_def vector_wf_def)
  ultimately show ?thesis
    using single_map.run_expires [OF ok, of 0 time "- 1"] by (simp add: expire_items_single_map_def)
qed

section \<open>The table as flows and times\<close>

text \<open>
  \<open>flow_at vector ch i\<close> is the key at an index in use. Together with the times of the
  abstract chain this is what the network functions see of a table.
\<close>

definition flow_at :: "'k Vector \<Rightarrow> dchain \<Rightarrow> int \<Rightarrow> 'k option" where
  "flow_at vector ch i = (if i \<in> set (dchain_indexes_fp ch) then Some (v_data vector ! nat i) else None)"

lemma flow_at_index:
  assumes "flow_table_ok pow2 ch chain vector m"
  shows "flow_index vector (dchain_indexes_fp ch) k = Some i \<longleftrightarrow> flow_at vector ch i = Some k"
    "flow_index vector (dchain_indexes_fp ch) k = None \<longleftrightarrow> (\<forall>i. flow_at vector ch i \<noteq> Some k)"
proof -
  have d: "distinct (map (\<lambda>i. v_data vector ! nat i) (dchain_indexes_fp ch))"
    using assms by (simp add: flow_table_ok_def)
  show "flow_index vector (dchain_indexes_fp ch) k = Some i \<longleftrightarrow> flow_at vector ch i = Some k"
    by (auto simp: flow_index_Some [OF d] flow_at_def)
  show "flow_index vector (dchain_indexes_fp ch) k = None \<longleftrightarrow> (\<forall>i. flow_at vector ch i \<noteq> Some k)"
    by (auto simp: flow_index_None flow_at_def)
qed

lemma flow_at_inj:
  assumes "flow_table_ok pow2 ch chain vector m" "flow_at vector ch i = Some k" "flow_at vector ch j = Some k"
  shows "i = j"
  using flow_at_index(1) [OF assms(1), of k] assms(2,3) by (metis option.inject)

lemma flow_at_range:
  assumes "flow_table_ok pow2 ch chain vector m" "flow_at vector ch i = Some k"
  shows "i \<in> set (dchain_indexes_fp ch)" "0 \<le> i" "i < dchain_index_range_fp ch" "v_data vector ! nat i = k"
    "vector_borrow vector i = Some (nat i)"
proof -
  show i: "i \<in> set (dchain_indexes_fp ch)" "v_data vector ! nat i = k"
    using assms(2) by (auto simp: flow_at_def split: if_splits)
  note r = flow_table_indexes [OF assms(1) i(1)]
  then show "0 \<le> i" "i < dchain_index_range_fp ch" by simp_all
  show "vector_borrow vector i = Some (nat i)"
    using vector_borrow_spec [of vector i] assms(1) r by (simp add: flow_table_ok_def)
qed

lemma flow_at_rejuvenate:
  assumes "flow_table_ok pow2 ch chain vector m" "i \<in> set (dchain_indexes_fp ch)"
  shows "flow_at vector (dchain_rejuvenate_fp ch i t) = flow_at vector ch"
proof -
  have "distinct (dchain_indexes_fp ch)" using assms(1) by (auto simp: flow_table_ok_def distinct_map)
  then show ?thesis using assms(2) by (auto simp: flow_at_def fun_eq_iff)
qed

lemma flow_at_allocate:
  assumes "flow_table_ok pow2 ch chain vector m" "i \<notin> set (dchain_indexes_fp ch)" "0 \<le> i"
    "i < dchain_index_range_fp ch"
  shows "flow_at (vector_write vector (nat i) k) (dchain_allocate_fp ch i t) = (flow_at vector ch)(i \<mapsto> k)"
proof
  fix j
  have "nat i < length (v_data vector)" using assms by (auto simp: flow_table_ok_def)
  moreover have "v_data (vector_write vector (nat i) k) ! nat j = v_data vector ! nat j"
    if "j \<in> set (dchain_indexes_fp ch)"
    using flow_index_write(1) [OF assms(2,3) flow_table_indexes(1) [OF assms(1)] that] by simp
  ultimately show "flow_at (vector_write vector (nat i) k) (dchain_allocate_fp ch i t) j = ((flow_at vector ch)(i \<mapsto> k)) j"
    using assms(2) by (auto simp: flow_at_def)
qed

lemma flow_at_expire:
  assumes "flow_table_ok pow2 ch chain vector m"
  shows "flow_at vector (dchain_expire_old_indexes_fp ch time) i =
     (case dchain_get_time_fp ch i of None \<Rightarrow> None
      | Some t \<Rightarrow> if t < time then None else flow_at vector ch i)"
proof -
  have rep: "double_chainp ch chain" using assms by (simp add: flow_table_ok_def)
  have "set (dchain_indexes_fp ch') = {i. dchain_get_time_fp ch' i \<noteq> None}" for ch'
    by (cases ch') (auto simp: alist_get_None)
  then have "i \<in> set (dchain_indexes_fp ch') \<longleftrightarrow> dchain_get_time_fp ch' i \<noteq> None" for ch' by simp
  then show ?thesis by (simp add: flow_at_def dchain_time_expire [OF rep] split: option.split)
qed

lemma expire_params [simp]:
  "dchain_index_range_fp (dchain_expire_old_indexes_fp ch t) = dchain_index_range_fp ch"
  "dchain_high_fp (dchain_expire_old_indexes_fp ch t) = dchain_high_fp ch"
  by (cases ch; simp)+

lemma high_ops [simp]:
  "dchain_high_fp (dchain_allocate_fp ch i t) = t" "dchain_high_fp (dchain_rejuvenate_fp ch i t) = t"
  by (cases ch; simp)+

text \<open>
  The time before which entries are expired, computed in 64 bit arithmetic from a time in
  nanoseconds and an age in microseconds.
\<close>

lemma last_time_wrap:
  assumes "0 \<le> now" "now < 2 ^ 63"
  shows "s64_wrap (now - uint (e :: u32) * 1000) = now - uint e * 1000"
proof -
  obtain x where x: "uint e = x" "0 \<le> x" "x < 2 ^ 32" using unsigned_less [of e] uint_ge_0 [of e] by simp
  then show ?thesis using assms by (simp add: s64_wrap_id)
qed

section \<open>Properties\<close>

text \<open>A table of three indexes over the chain \<open>ex_chain\<close>: key 10 at index 0, key 11 at index 1.\<close>

definition ex_vector :: "'k \<Rightarrow> 'k \<Rightarrow> 'k Vector" where
  "ex_vector a b = \<lparr>v_data = [a, b, a], v_elem_size = 4, v_capacity = 3\<rparr>"

definition ex_flows :: "'k \<Rightarrow> 'k \<Rightarrow> ('k kptr, 'k) vmap" where
  "ex_flows a b =
     \<lparr>m_tab = \<lparr>busybits = [0, 0, 1, 1], keyps = [Slot 2, Slot 2, Slot 0, Slot 1],
               k_hashes = [0, 0, 10, 11], chns = [0, 0, 0, 0], vals = [0, 0, 0, 1]\<rparr>,
      m_capacity = 4, m_size = 2, m_keys_eq = (=), m_khash = (\<lambda>k. if k = a then 10 else 11)\<rparr>"

lemma ex_flows_slots: "busy_slots (m_tab (ex_flows a b)) = [2, 3]"
  by (simp add: busy_slots_def ex_flows_def upt_rec)

lemma ex_flows_crosses: "i < 4 \<Longrightarrow> \<not> crosses 4 (m_tab (ex_flows a b)) 2 i \<and> \<not> crosses 4 (m_tab (ex_flows a b)) 3 i"
proof -
  have "\<forall>i \<in> set [0..<4]. \<not> crosses 4 (m_tab (ex_flows 0 (1 :: nat))) 2 i \<and> \<not> crosses 4 (m_tab (ex_flows 0 (1 :: nat))) 3 i"
    by code_simp
  moreover have "crosses 4 (m_tab (ex_flows a b)) j i = crosses 4 (m_tab (ex_flows 0 (1 :: nat))) j i" for j i
    by (simp add: crosses_def ex_flows_def)
  ultimately show "i < 4 \<Longrightarrow> \<not> crosses 4 (m_tab (ex_flows a b)) 2 i \<and> \<not> crosses 4 (m_tab (ex_flows a b)) 3 i" by auto
qed

lemma ex_flows_wf:
  assumes "a \<noteq> b"
  shows "map_wf True (key_at (ex_vector a b)) (ex_flows a b)"
proof -
  have chns: "i < 4 \<Longrightarrow> chns (m_tab (ex_flows a b)) ! i = 0" for i
    by (auto simp: ex_flows_def less_Suc_eq eval_nat_numeral)
  have "htab_wf (key_at (ex_vector a b)) (\<lambda>k. if k = a then 10 else 11) 4 (m_tab (ex_flows a b))"
    using assms ex_flows_crosses [of _ a b]
    by (auto simp: htab_wf_def ex_flows_slots chns) (auto simp: ex_flows_def ex_vector_def)
  then show ?thesis
    using ex_flows_slots [of a b] by (simp add: map_wf_def map_cap_ok_def) (simp add: ex_flows_def)
qed

lemma ex_flow_table_ok:
  assumes "a \<noteq> b"
  shows "flow_table_ok True (dchain [(0, 5), (1, 7)] 3 0 7) ex_chain (ex_vector a b) (ex_flows a b)"
proof -
  have "map_contents (key_at (ex_vector a b)) (ex_flows a b) = flow_index (ex_vector a b) [0, 1]"
    "map_addrs (key_at (ex_vector a b)) (ex_flows a b) =
       (\<lambda>k. map_option (\<lambda>i. Slot (nat i)) (flow_index (ex_vector a b) [0, 1] k))"
    using ex_flows_slots [of a b]
    by (simp_all add: map_contents_def map_addrs_def htab_map_def htab_addrs_def flow_index_def fun_eq_iff)
      (simp_all add: ex_flows_def ex_vector_def)
  then show ?thesis
    using ex_chain_ok ex_flows_wf [OF assms]
    by (simp add: flow_table_ok_def vector_wf_def) (simp add: ex_vector_def ex_flows_def assms)
qed

text \<open>
  C35. \<open>expire_items_single_map\<close> on a coherent table terminates without a fault, returns
  how many entries were older than the given time, and leaves a coherent table in which
  exactly those entries are gone from the allocator and from the map.
\<close>

theorem expire_items_single_map_correct:
  assumes "flow_table_ok pow2 ch chain vector m"
  shows "\<exists>chain' m'. expire_items_single_map pow2 chain vector m time =
      Some (int (length (dchain_get_expired_indexes_fp ch time)), chain', m') \<and>
    flow_table_ok pow2 (dchain_expire_old_indexes_fp ch time) chain' vector m'"
  using assms by (rule expire_items_single_map_spec)

theorem expire_items_single_map_correct_witness:
  "\<exists>chain' m'. expire_items_single_map True ex_chain (ex_vector 10 (11 :: nat)) (ex_flows 10 11) 6 = Some (1, chain', m') \<and>
     flow_table_ok True (dchain [(1, 7)] 3 0 7) chain' (ex_vector 10 11) m'"
  using expire_items_single_map_correct [OF ex_flow_table_ok, of "10 :: nat" 11 6] by simp

end
