(* ===== verification/Emap.thy ===== *)
theory Emap
  imports Flow_Table
begin

text \<open>
  The expiring map of \<open>libvig/verified/emap.h\<close>, in which the specifications of the network
  functions (\<open>spec.py\<close>) are written: a map from keys to indexes, the vector of the keys and
  the allocator of the indexes. The operations are those of the header, without the
  permission fractions of the vector (\<open>vector_erase_all_fp\<close> changes nothing else). \<open>emap_of\<close> is the map that a coherent table in memory stands for; the
  lemmas say that the operations of the code on the table are the operations of the header
  on it.
\<close>

declare of_nat_unat [simp del]

section \<open>The abstract operations\<close>

datatype 'k emap = emap "'k \<Rightarrow> int option" "'k list" dchain

fun emap_chain :: "'k emap \<Rightarrow> dchain" where
  "emap_chain (emap m v ch) = ch"

fun emap_expire_all :: "'k emap \<Rightarrow> vigor_time \<Rightarrow> 'k emap" where
  "emap_expire_all (emap m v ch) t =
     emap (foldl (\<lambda>m i. m(v ! nat i := None)) m (dchain_get_expired_indexes_fp ch t)) v
       (dchain_expire_old_indexes_fp ch t)"

fun emap_has :: "'k emap \<Rightarrow> 'k \<Rightarrow> bool" where
  "emap_has (emap m v ch) k \<longleftrightarrow> m k \<noteq> None"

fun emap_get :: "'k emap \<Rightarrow> 'k \<Rightarrow> int" where
  "emap_get (emap m v ch) k = the (m k)"

fun emap_refresh_idx :: "'k emap \<Rightarrow> int \<Rightarrow> vigor_time \<Rightarrow> 'k emap" where
  "emap_refresh_idx (emap m v ch) i t = emap m v (dchain_rejuvenate_fp ch i t)"

fun emap_has_idx :: "'k emap \<Rightarrow> int \<Rightarrow> bool" where
  "emap_has_idx (emap m v ch) i \<longleftrightarrow> dchain_allocated_fp ch i"

fun emap_get_key :: "'k emap \<Rightarrow> int \<Rightarrow> 'k" where
  "emap_get_key (emap m v ch) i = v ! nat i"

fun emap_add :: "'k emap \<Rightarrow> 'k \<Rightarrow> int \<Rightarrow> vigor_time \<Rightarrow> 'k emap" where
  "emap_add (emap m v ch) k i t = emap (m(k \<mapsto> i)) (v[nat i := k]) (dchain_allocate_fp ch i t)"

fun emap_erase :: "'k emap \<Rightarrow> 'k \<Rightarrow> 'k emap" where
  "emap_erase (emap m v ch) k = emap (m(k := None)) (v[nat (the (m k)) := k]) (dchain_remove_index_fp ch (the (m k)))"

fun emap_full :: "'k emap \<Rightarrow> bool" where
  "emap_full (emap m v ch) \<longleftrightarrow> dchain_out_of_space_fp ch"

section \<open>The map of a table\<close>

definition emap_of :: "'k Vector \<Rightarrow> dchain \<Rightarrow> 'k emap" where
  "emap_of vector ch = emap (flow_index vector (dchain_indexes_fp ch)) (v_data vector) ch"

lemma emap_of_lookup:
  assumes "flow_table_ok pow2 ch chain vector m"
  shows "emap_has (emap_of vector ch) k \<longleftrightarrow> (\<exists>i. flow_at vector ch i = Some k)"
    "flow_at vector ch i = Some k \<Longrightarrow> emap_get (emap_of vector ch) k = i"
    "emap_has_idx (emap_of vector ch) i \<longleftrightarrow> flow_at vector ch i \<noteq> None"
    "flow_at vector ch i = Some k \<Longrightarrow> emap_get_key (emap_of vector ch) i = k"
    "emap_full (emap_of vector ch) \<longleftrightarrow> dchain_out_of_space_fp ch"
  using flow_at_index [OF assms, of k]
  by (auto simp: emap_of_def) (auto simp: flow_at_def dchain_allocated_indexes split: if_splits)

lemma emap_of_refresh:
  assumes ok: "flow_table_ok pow2 ch chain vector m" and i: "i \<in> set (dchain_indexes_fp ch)"
  shows "emap_refresh_idx (emap_of vector ch) i t = emap_of vector (dchain_rejuvenate_fp ch i t)"
proof -
  have d: "distinct (map (\<lambda>i. v_data vector ! nat i) (dchain_indexes_fp ch))"
    using ok by (simp add: flow_table_ok_def)
  then have d': "distinct (map (\<lambda>i. v_data vector ! nat i) (remove1 i (dchain_indexes_fp ch) @ [i]))"
    using i by (auto simp: distinct_map inj_on_def)
  have "set (remove1 i (dchain_indexes_fp ch) @ [i]) = set (dchain_indexes_fp ch)"
    using d i by (auto simp: distinct_map)
  then have "flow_index vector (remove1 i (dchain_indexes_fp ch) @ [i]) k = flow_index vector (dchain_indexes_fp ch) k" for k
    using flow_index_Some [OF d, of k] flow_index_Some [OF d', of k] by (metis not_Some_eq)
  then show ?thesis by (simp add: emap_of_def fun_eq_iff)
qed

lemma emap_of_add:
  assumes ok: "flow_table_ok pow2 ch chain vector m" and i: "i \<notin> set (dchain_indexes_fp ch)" "0 \<le> i"
    "i < dchain_index_range_fp ch" and new: "flow_index vector (dchain_indexes_fp ch) k = None"
  shows "emap_add (emap_of vector ch) k i t = emap_of (vector_write vector (nat i) k) (dchain_allocate_fp ch i t)"
proof -
  have "nat i < length (v_data vector)" using ok i by (auto simp: flow_table_ok_def)
  moreover have "v_data (vector_write vector (nat i) k) ! nat j = v_data vector ! nat j"
    if "j \<in> set (dchain_indexes_fp ch)" for j
    using flow_index_write(1) [OF i(1,2) flow_table_indexes(1) [OF ok] that] by simp
  ultimately have "flow_index (vector_write vector (nat i) k) (dchain_indexes_fp ch @ [i]) =
      (flow_index vector (dchain_indexes_fp ch))(k \<mapsto> i)"
    using new
    by (auto simp: flow_index_def map_add_def vector_write_def fun_eq_iff split: option.split cong: map_cong)
  then show ?thesis by (simp add: emap_of_def vector_write_def)
qed

lemma emap_of_erase:
  assumes ok: "flow_table_ok pow2 ch chain vector m" and i: "flow_at vector ch i = Some k"
  shows "emap_erase (emap_of vector ch) k = emap_of vector (dchain_remove_index_fp ch i)"
proof -
  have d: "distinct (map (\<lambda>i. v_data vector ! nat i) (dchain_indexes_fp ch))"
    using ok by (simp add: flow_table_ok_def)
  then have d': "distinct (map (\<lambda>i. v_data vector ! nat i) (remove1 i (dchain_indexes_fp ch)))"
    by (auto simp: distinct_map inj_on_def)
  have mem: "i \<in> set (dchain_indexes_fp ch)" "v_data vector ! nat i = k" using flow_at_range [OF ok i] by simp_all
  have at: "flow_index vector (dchain_indexes_fp ch) k = Some i" using flow_at_index(1) [OF ok] i by simp
  have "flow_index vector (remove1 i (dchain_indexes_fp ch)) k' =
      ((flow_index vector (dchain_indexes_fp ch))(k := None)) k'" for k'
  proof -
    have "flow_index vector (remove1 i (dchain_indexes_fp ch)) k' = Some j \<longleftrightarrow>
        k' \<noteq> k \<and> flow_index vector (dchain_indexes_fp ch) k' = Some j" for j
      using d mem by (auto simp: flow_index_Some [OF d] flow_index_Some [OF d'] distinct_map inj_on_def)
    then show ?thesis by (metis (full_types) fun_upd_other fun_upd_same not_Some_eq)
  qed
  moreover have "(v_data vector)[nat i := k] = v_data vector" using mem(2) by (metis list_update_id)
  ultimately show ?thesis by (simp add: emap_of_def at fun_eq_iff)
qed

lemma foldl_erase: "foldl (\<lambda>m i. m(f i := None)) m is k = (if k \<in> f ` set is then None else m k)"
  by (induction "is" arbitrary: m) auto

lemma set_expired_indexes:
  assumes "double_chainp ch chain"
  shows "set (dchain_get_expired_indexes_fp ch t) = {i. \<exists>u. dchain_get_time_fp ch i = Some u \<and> u < t}"
proof -
  obtain al sz low high where ch: "ch = dchain al sz low high" by (cases ch)
  have d: "distinct (map fst al)" using double_chainp_range(2) [OF assms] by (simp add: ch)
  then have "alist_get_fp al i = Some u \<longleftrightarrow> (i, u) \<in> set al" for i u
    by (induction al) (auto simp: alist_get_notin rev_image_eqI split: if_splits)
  then show ?thesis by (force simp: ch)
qed

lemma emap_of_expire:
  assumes ok: "flow_table_ok pow2 ch chain vector m"
  shows "emap_expire_all (emap_of vector ch) t = emap_of vector (dchain_expire_old_indexes_fp ch t)"
proof -
  let ?ch = "dchain_expire_old_indexes_fp ch t" and ?old = "dchain_get_expired_indexes_fp ch t"
  have rep: "double_chainp ch chain" using ok by (simp add: flow_table_ok_def)
  obtain chain' m' where ok': "flow_table_ok pow2 ?ch chain' vector m'"
    using expire_items_single_map_spec [OF ok, of t] by blast
  have old: "k \<in> (\<lambda>i. v_data vector ! nat i) ` set ?old \<longleftrightarrow> u < t"
    if i: "flow_at vector ch i = Some k" and u: "dchain_get_time_fp ch i = Some u" for i u k
  proof -
    have "j = i" if j: "j \<in> set ?old" "v_data vector ! nat j = k" for j
    proof -
      have "dchain_get_time_fp ch j \<noteq> None" using j(1) by (auto simp: set_expired_indexes [OF rep])
      then have "flow_at vector ch j = Some k" using j(2) dchain_time_ops(3) [OF rep] by (auto simp: flow_at_def)
      then show ?thesis using flow_at_inj [OF ok _ i] by blast
    qed
    then have "k \<in> (\<lambda>i. v_data vector ! nat i) ` set ?old \<longleftrightarrow> i \<in> set ?old"
      using flow_at_range(4) [OF ok i] by blast
    then show ?thesis using u by (simp add: set_expired_indexes [OF rep])
  qed
  have "flow_index vector (dchain_indexes_fp ?ch) k =
      foldl (\<lambda>m i. m(v_data vector ! nat i := None)) (flow_index vector (dchain_indexes_fp ch)) ?old k" for k
  proof (cases "flow_index vector (dchain_indexes_fp ch) k")
    case None
    then have "\<forall>i. flow_at vector ch i \<noteq> Some k" using flow_at_index(2) [OF ok] by simp
    then have "flow_index vector (dchain_indexes_fp ?ch) k = None"
      unfolding flow_at_index(2) [OF ok'] flow_at_expire [OF ok] by (auto split: option.split)
    then show ?thesis using None by (simp add: foldl_erase)
  next
    case (Some i)
    then have i: "flow_at vector ch i = Some k" using flow_at_index(1) [OF ok] by simp
    then obtain u where u: "dchain_get_time_fp ch i = Some u"
      using flow_at_range(1) [OF ok] dchain_time_ops(3) [OF rep, of i] by fastforce
    show ?thesis
    proof (cases "u < t")
      case True
      have "flow_at vector ?ch j \<noteq> Some k" for j
        using flow_at_inj [OF ok _ i, of j] True u by (auto simp: flow_at_expire [OF ok] split: option.split)
      then show ?thesis using True old [OF i u] flow_at_index(2) [OF ok'] by (simp add: foldl_erase)
    next
      case False
      then have "flow_at vector ?ch i = Some k" using i u by (simp add: flow_at_expire [OF ok])
      then show ?thesis using False old [OF i u] flow_at_index(1) [OF ok'] Some by (simp add: foldl_erase)
    qed
  qed
  then show ?thesis by (simp add: emap_of_def fun_eq_iff)
qed

section \<open>The operations of the code\<close>

text \<open>
  \<open>emap_table pow2 em chain vector m\<close>: the allocator, the vector and the map in memory
  are coherent and stand for \<open>em\<close>.
\<close>

definition emap_table ::
  "bool \<Rightarrow> 'k emap \<Rightarrow> DoubleChain \<Rightarrow> 'k Vector \<Rightarrow> ('k kptr, 'k) vmap \<Rightarrow> bool" where
  "emap_table pow2 em chain vector m \<longleftrightarrow>
     flow_table_ok pow2 (emap_chain em) chain vector m \<and> em = emap_of vector (emap_chain em)"

abbreviation emap_range :: "'k emap \<Rightarrow> int" where
  "emap_range em \<equiv> dchain_index_range_fp (emap_chain em)"

abbreviation emap_now :: "'k emap \<Rightarrow> vigor_time" where
  "emap_now em \<equiv> dchain_high_fp (emap_chain em)"

abbreviation emap_time :: "'k emap \<Rightarrow> int \<Rightarrow> vigor_time option" where
  "emap_time em i \<equiv> dchain_get_time_fp (emap_chain em) i"

lemma emap_chain_ops [simp]:
  "emap_chain (emap_of vector ch) = ch"
  "emap_chain (emap_refresh_idx em i t) = dchain_rejuvenate_fp (emap_chain em) i t"
  "emap_chain (emap_add em k i t) = dchain_allocate_fp (emap_chain em) i t"
  "emap_chain (emap_expire_all em t) = dchain_expire_old_indexes_fp (emap_chain em) t"
  "emap_chain (emap_erase em k) = dchain_remove_index_fp (emap_chain em) (emap_get em k)"
  by (simp add: emap_of_def) (cases em; simp)+

lemma emap_table_of: "flow_table_ok pow2 ch chain vector m \<Longrightarrow> emap_table pow2 (emap_of vector ch) chain vector m"
  by (simp add: emap_table_def)

lemma emap_tableE:
  assumes "emap_table pow2 em chain vector m"
  obtains ch where "em = emap_of vector ch" "emap_chain em = ch" "flow_table_ok pow2 ch chain vector m"
  using assms unfolding emap_table_def by blast

text \<open>What a table guarantees of its abstract map.\<close>

lemma table_facts:
  assumes "emap_table pow2 em chain vector m"
  shows "emap_has em k \<Longrightarrow> emap_has_idx em (emap_get em k)"
    "emap_has em k \<Longrightarrow> emap_get_key em (emap_get em k) = k"
    "emap_has_idx em i \<Longrightarrow> emap_has em (emap_get_key em i)"
    "emap_has_idx em i \<Longrightarrow> emap_get em (emap_get_key em i) = i"
    "emap_has_idx em i \<Longrightarrow> 0 \<le> i \<and> i < emap_range em"
    "emap_has_idx em i \<longleftrightarrow> emap_time em i \<noteq> None"
    "emap_range em \<le> int (length (v_data vector))" "vector_wf vector" "0 < emap_range em"
    "emap_range em < 2 ^ 31"
proof -
  obtain ch where ch: "em = emap_of vector ch" "emap_chain em = ch" and ok: "flow_table_ok pow2 ch chain vector m"
    using assms by (rule emap_tableE)
  note lookup = emap_of_lookup [OF ok]
  show "emap_has_idx em (emap_get em k)" "emap_get_key em (emap_get em k) = k" if "emap_has em k"
    using that lookup by (auto simp: ch)
  show "emap_has em (emap_get_key em i)" "emap_get em (emap_get_key em i) = i" "0 \<le> i \<and> i < emap_range em"
    if "emap_has_idx em i"
    using that lookup flow_at_range(2,3) [OF ok, of i] by (auto simp: ch)
  have rep: "double_chainp ch chain" using ok by (simp add: flow_table_ok_def)
  show "emap_has_idx em i \<longleftrightarrow> emap_time em i \<noteq> None"
    using dchain_time_ops(3) [OF rep, of i] lookup(3) by (simp add: ch flow_at_def)
  show "emap_range em \<le> int (length (v_data vector))" "vector_wf vector" using ok by (simp_all add: ch flow_table_ok_def)
  show "0 < emap_range em" using double_chainp_range(1) [OF rep] by (simp add: ch)
  show "emap_range em < 2 ^ 31"
    using rep by (auto simp: ch double_chainp_def dchainip_def dchain_links_def)
qed

lemma bnd_sorted_le: "bnd_sorted_fp ts low high \<Longrightarrow> \<forall>t \<in> set ts. t \<le> high"
  by (induction ts arbitrary: low) auto

lemma table_time_le:
  assumes "emap_table pow2 em chain vector m" "emap_time em i = Some u"
  shows "u \<le> emap_now em"
proof -
  obtain ch where ch: "emap_chain em = ch" and ok: "flow_table_ok pow2 ch chain vector m"
    using assms(1) by (rule emap_tableE)
  obtain al sz low high where c: "ch = dchain al sz low high" by (cases ch)
  have "bnd_sorted_fp (map snd al) low high" using ok by (simp add: flow_table_ok_def double_chainp_def c)
  then have "\<forall>t \<in> set (map snd al). t \<le> high" by (rule bnd_sorted_le)
  moreover have "u \<in> set (map snd al)" using assms(2) unfolding ch c by (induction al) (auto split: if_splits)
  ultimately show ?thesis by (auto simp: ch c)
qed

lemma table_get:
  assumes "emap_table pow2 em chain vector m"
  shows "map_get pow2 (key_at vector) m (Ext k) v =
     Some (if emap_has em k then (1, emap_get em k) else (0, v))"
proof -
  obtain ch where ch: "em = emap_of vector ch" and ok: "flow_table_ok pow2 ch chain vector m"
    using assms by (rule emap_tableE)
  show ?thesis
    using flow_table_get [OF ok, of "Ext k" v] by (auto simp: ch emap_of_def split: option.split)
qed

lemma table_borrow:
  assumes "emap_table pow2 em chain vector m" "emap_has_idx em i"
  shows "vector_borrow vector i = Some (nat i)" "v_data vector ! nat i = emap_get_key em i"
proof -
  obtain ch where ch: "em = emap_of vector ch" and ok: "flow_table_ok pow2 ch chain vector m"
    using assms(1) by (rule emap_tableE)
  show "vector_borrow vector i = Some (nat i)" "v_data vector ! nat i = emap_get_key em i"
    using assms(2) emap_of_lookup(3,4) [OF ok] flow_at_range(4,5) [OF ok] by (auto simp: ch)
qed

lemma table_allocated:
  assumes "emap_table pow2 em chain vector m" "0 \<le> i" "i < emap_range em"
  shows "dchain_is_index_allocated chain i = Some (if emap_has_idx em i then 1 else 0)"
proof -
  obtain ch where ch: "em = emap_of vector ch" and ok: "flow_table_ok pow2 ch chain vector m"
    using assms(1) by (rule emap_tableE)
  show ?thesis
    using dchain_is_index_allocated_refines [of ch chain i] ok assms(2,3)
    by (simp add: ch emap_of_def flow_table_ok_def)
qed

lemma table_refresh:
  assumes "emap_table pow2 em chain vector m" "emap_has_idx em i" "emap_now em \<le> t"
  shows "\<exists>chain'. dchain_rejuvenate_index chain i t = Some (1, chain') \<and>
     emap_table pow2 (emap_refresh_idx em i t) chain' vector m"
proof -
  obtain ch where ch: "em = emap_of vector ch" "emap_chain em = ch" and ok: "flow_table_ok pow2 ch chain vector m"
    using assms(1) by (rule emap_tableE)
  have i: "i \<in> set (dchain_indexes_fp ch)"
    using assms(2) emap_of_lookup(3) [OF ok] by (simp add: ch flow_at_def split: if_splits)
  have "dchain_high_fp ch \<le> t" using assms(3) ch by simp
  from flow_table_rejuvenate [OF ok i this] show ?thesis
    using emap_table_of by (fastforce simp: ch emap_of_refresh [OF ok i])
qed

lemma table_full:
  assumes "emap_table pow2 em chain vector m" "emap_full em"
  shows "dchain_allocate_new_index chain index t = Some (0, index, chain)"
proof -
  obtain ch where ch: "em = emap_of vector ch" and ok: "flow_table_ok pow2 ch chain vector m"
    using assms(1) by (rule emap_tableE)
  then show ?thesis
    using dchain_allocate_new_index_full [of ch chain index t] assms(2)
    by (simp add: flow_table_ok_def emap_of_def)
qed

lemma table_add:
  assumes "emap_table pow2 em chain vector m" "\<not> emap_full em" "\<not> emap_has em k" "emap_now em \<le> t"
  shows "\<exists>i chain' m'. dchain_allocate_new_index chain index t = Some (1, i, chain') \<and>
     vector_borrow vector i = Some (nat i) \<and>
     map_put pow2 (key_at (vector_write vector (nat i) k)) m (Slot (nat i)) i = Some m' \<and>
     \<not> emap_has_idx em i \<and> 0 \<le> i \<and> i < emap_range em \<and>
     emap_table pow2 (emap_add em k i t) chain' (vector_write vector (nat i) k) m'"
proof -
  obtain ch where ch: "em = emap_of vector ch" "emap_chain em = ch" and ok: "flow_table_ok pow2 ch chain vector m"
    using assms(1) by (rule emap_tableE)
  then have rep: "double_chainp ch chain" by (simp add: flow_table_ok_def)
  have room: "\<not> dchain_out_of_space_fp ch" and none: "flow_index vector (dchain_indexes_fp ch) k = None"
    using assms(2,3) by (simp_all add: ch emap_of_def)
  obtain i chain' where run: "dchain_allocate_new_index chain index t = Some (1, i, chain')"
    "\<not> dchain_allocated_fp ch i" "0 \<le> i" "i < dchain_index_range_fp ch"
    "double_chainp (dchain_allocate_fp ch i t) chain'"
    using dchain_allocate_new_index_refines [OF rep room, of t index] assms(4) ch(2) by auto
  then have notin: "i \<notin> set (dchain_indexes_fp ch)" by (simp add: dchain_allocated_indexes)
  note ins = flow_table_insert [OF ok run(2,3,4) room run(5) none]
  then obtain m' where "map_put pow2 (key_at (vector_write vector (nat i) k)) m (Slot (nat i)) i = Some m'"
    "emap_table pow2 (emap_add em k i t) chain' (vector_write vector (nat i) k) m'"
    using emap_table_of by (fastforce simp: ch emap_of_add [OF ok notin run(3,4) none])
  moreover have "\<not> emap_has_idx em i" using run(2) by (simp add: ch emap_of_def)
  ultimately show ?thesis using run ins(1) ch by auto
qed

lemma table_erase:
  assumes "emap_table pow2 em chain vector m" "emap_has em k"
  shows "\<exists>q chain' m'. map_erase pow2 (key_at vector) m (Ext k) trash = Some (q, m') \<and>
     dchain_free_index chain (emap_get em k) = Some (1, chain') \<and>
     emap_table pow2 (emap_erase em k) chain' vector m'"
proof -
  obtain ch where ch: "em = emap_of vector ch" and ok: "flow_table_ok pow2 ch chain vector m"
    using assms(1) by (rule emap_tableE)
  obtain i where i: "flow_at vector ch i = Some k" using emap_of_lookup(1) [OF ok] assms(2) ch by blast
  have get: "emap_get em k = i" using emap_of_lookup(2) [OF ok i] ch by simp
  have mem: "i \<in> set (dchain_indexes_fp ch)" "v_data vector ! nat i = k" using flow_at_range [OF ok i] by simp_all
  obtain chain' where free: "dchain_free_index chain i = Some (1, chain')" "double_chainp (dchain_remove_index_fp ch i) chain'"
    using dchain_free_index_refines [of ch chain i] ok mem(1) by (auto simp: flow_table_ok_def dchain_allocated_indexes)
  have "key_at vector (Ext k) = v_data vector ! nat i" using mem(2) by simp
  from flow_table_erase(2) [OF ok mem(1) free(2) this, of trash] obtain m' where
    "map_erase pow2 (key_at vector) m (Ext k) trash = Some (Slot (nat i), m')"
    "flow_table_ok pow2 (dchain_remove_index_fp ch i) chain' vector m'" by blast
  then show ?thesis
    using free(1) emap_table_of emap_of_erase [OF ok i] unfolding get unfolding ch by metis
qed

lemma table_expire:
  assumes "emap_table pow2 em chain vector m"
  shows "\<exists>n chain' m'. expire_items_single_map pow2 chain vector m t = Some (n, chain', m') \<and> 0 \<le> n \<and> n \<le> 140000 \<and>
     emap_table pow2 (emap_expire_all em t) chain' vector m'"
proof -
  obtain ch where ch: "em = emap_of vector ch" and ok: "flow_table_ok pow2 ch chain vector m"
    using assms by (rule emap_tableE)
  have "length (dchain_get_expired_indexes_fp ch t) \<le> length (dchain_indexes_fp ch)"
    by (cases ch) (simp add: dchain_indexes_fp.simps)
  moreover have "int (length (dchain_indexes_fp ch)) \<le> dchain_index_range_fp ch" "dchain_index_range_fp ch \<le> 140000"
    using ok double_chainp_range(4) unfolding flow_table_ok_def vector_wf_def by auto
  ultimately have "int (length (dchain_get_expired_indexes_fp ch t)) \<le> 140000" by linarith
  then show ?thesis
    using expire_items_single_map_spec [OF ok, of t] emap_table_of by (fastforce simp: ch emap_of_expire [OF ok])
qed

text \<open>What the abstract operations do, on a map that a table stands for.\<close>

lemma emap_expire_lookup:
  assumes "emap_table pow2 em chain vector m"
  shows "emap_has_idx (emap_expire_all em t) i \<longleftrightarrow> (\<exists>u. emap_time em i = Some u \<and> t \<le> u)"
    "emap_time (emap_expire_all em t) i = (case emap_time em i of None \<Rightarrow> None | Some u \<Rightarrow> if u < t then None else Some u)"
    "emap_get_key (emap_expire_all em t) i = emap_get_key em i"
    "emap_has (emap_expire_all em t) k \<longleftrightarrow> emap_has em k \<and> emap_has_idx (emap_expire_all em t) (emap_get em k)"
    "emap_has (emap_expire_all em t) k \<Longrightarrow> emap_get (emap_expire_all em t) k = emap_get em k"
proof -
  obtain ch where ch: "em = emap_of vector ch" and ok: "flow_table_ok pow2 ch chain vector m"
    using assms by (rule emap_tableE)
  have rep: "double_chainp ch chain" using ok by (simp add: flow_table_ok_def)
  obtain chain' m' where tab: "emap_table pow2 (emap_expire_all em t) chain' vector m'"
    using table_expire [OF assms] by blast
  show time: "emap_time (emap_expire_all em t) i =
      (case emap_time em i of None \<Rightarrow> None | Some u \<Rightarrow> if u < t then None else Some u)" for i
    by (simp add: ch dchain_time_expire [OF rep])
  show idx: "emap_has_idx (emap_expire_all em t) i \<longleftrightarrow> (\<exists>u. emap_time em i = Some u \<and> t \<le> u)" for i
    unfolding table_facts(6) [OF tab] time by (auto split: option.split)
  show key: "emap_get_key (emap_expire_all em t) i = emap_get_key em i" for i
    by (cases em) simp
  have has_old: "emap_has_idx em i" if "emap_has_idx (emap_expire_all em t) i" for i
    using that unfolding idx table_facts(6) [OF assms] by auto
  show "emap_has (emap_expire_all em t) k \<longleftrightarrow> emap_has em k \<and> emap_has_idx (emap_expire_all em t) (emap_get em k)"
    using table_facts(1-4) [OF tab] table_facts(1-4) [OF assms] key has_old by metis
  show "emap_get (emap_expire_all em t) k = emap_get em k" if "emap_has (emap_expire_all em t) k"
    using that table_facts(1-4) [OF tab] table_facts(1-4) [OF assms] key has_old by metis
qed

lemma emap_ops_lookup:
  assumes "emap_table pow2 em chain vector m"
  shows "emap_has (emap_refresh_idx em i t) k \<longleftrightarrow> emap_has em k"
    "emap_get (emap_refresh_idx em i t) k = emap_get em k"
    "emap_time (emap_refresh_idx em i t) j = (if j = i then Some t else emap_time em j)"
    "emap_has (emap_add em k i t) k' \<longleftrightarrow> k' = k \<or> emap_has em k'"
    "emap_get (emap_add em k i t) k' = (if k' = k then i else emap_get em k')"
    "\<not> emap_has_idx em i \<Longrightarrow> emap_time (emap_add em k i t) j = (if j = i then Some t else emap_time em j)"
proof -
  obtain ch where ch: "em = emap_of vector ch" and ok: "flow_table_ok pow2 ch chain vector m"
    using assms by (rule emap_tableE)
  have rep: "double_chainp ch chain" using ok by (simp add: flow_table_ok_def)
  show "emap_has (emap_refresh_idx em i t) k \<longleftrightarrow> emap_has em k"
    "emap_get (emap_refresh_idx em i t) k = emap_get em k"
    "emap_has (emap_add em k i t) k' \<longleftrightarrow> k' = k \<or> emap_has em k'"
    "emap_get (emap_add em k i t) k' = (if k' = k then i else emap_get em k')"
    by (cases em; simp)+
  show "emap_time (emap_refresh_idx em i t) j = (if j = i then Some t else emap_time em j)"
    by (simp add: ch dchain_time_ops(2) [OF rep])
  show "emap_time (emap_add em k i t) j = (if j = i then Some t else emap_time em j)" if "\<not> emap_has_idx em i"
    using that dchain_time_ops(1) [OF rep, of i t] by (simp add: ch emap_of_def)
qed

lemma emap_erase_lookup:
  "emap_has (emap_erase em k) k' \<longleftrightarrow> k' \<noteq> k \<and> emap_has em k'"
  "k' \<noteq> k \<Longrightarrow> emap_get (emap_erase em k) k' = emap_get em k'"
  by (cases em; simp)+

lemma emap_add_fresh:
  assumes "emap_table pow2 (emap_add em k i t) chain vector m"
  shows "\<not> emap_has_idx em i"
proof -
  have "distinct (dchain_indexes_fp (emap_chain em) @ [i])"
    using assms by (auto simp: emap_table_def flow_table_ok_def distinct_map)
  then show ?thesis by (cases em) (simp add: dchain_allocated_indexes)
qed

section \<open>A fresh table\<close>

text \<open>What the allocating functions return is a table with no entries.\<close>

lemma emap_table_empty:
  assumes "double_chainp (empty_dchain_fp n low) chain" "vector_wf vector" "int (length (v_data vector)) = n"
    "map_wf pow2 (key_at vector) m" "map_contents (key_at vector) m = Map.empty" "map_addrs (key_at vector) m = Map.empty"
    "n \<le> int (unat (m_capacity m))"
  shows "emap_table pow2 (emap_of vector (empty_dchain_fp n low)) chain vector m"
  using assms by (intro emap_table_of) (simp add: flow_table_ok_def flow_index_def fun_eq_iff)

lemma map_allocate_result:
  assumes h: "heap_ok h" and c: "0 < unat capacity" "unat capacity < 140000"
  shows "\<exists>ret out h'. map_allocate pow2 (=) khash capacity raw None h = Some (ret, out, h') \<and> heap_ok h' \<and>
     (ret = 0 \<or> ret = 1 \<and> (\<exists>m. out = Some m \<and> m_capacity m = capacity \<and>
        (\<forall>kv. map_wf pow2 kv m \<and> map_contents kv m = Map.empty \<and> map_addrs kv m = Map.empty)))"
proof -
  have "2 * unat capacity < 2 ^ 31" using c by simp
  note out = map_allocate_outcome [OF h c(1) this, where ?pow2.0 = pow2 and khash = khash and raw = raw and map_out = None]
  obtain ret r h' where run: "map_allocate pow2 (=) khash capacity raw None h = Some (ret, r, h')" "heap_ok h'"
    using out [of undefined] by (auto simp: alloc_outcome_def)
  have good: "ret = 0 \<or> ret = 1 \<and> (\<exists>m. r = Some m \<and> m_capacity m = capacity \<and>
      map_wf pow2 kv m \<and> map_contents kv m = Map.empty \<and> map_addrs kv m = Map.empty)" for kv
    using out [of kv] run(1) by (auto simp: alloc_outcome_def)
  show ?thesis
  proof (cases "ret = 0")
    case False
    then obtain m where m: "r = Some m" "ret = 1" "m_capacity m = capacity" using good [of undefined] by auto
    have "map_wf pow2 kv m \<and> map_contents kv m = Map.empty \<and> map_addrs kv m = Map.empty" for kv
      using good [of kv] False m(1) by auto
    then show ?thesis using run m by auto
  qed (use run in auto)
qed

lemma dchain_allocate_result:
  assumes "heap_ok h" and "0 < unat capacity" "unat capacity < 140000"
  shows "\<exists>ret out h'. dchain_allocate (sint (capacity :: u32)) cells tms None h = Some (ret, out, h') \<and> heap_ok h' \<and>
     (ret = 0 \<or> ret = 1 \<and> (\<exists>chain. out = Some chain \<and> double_chainp (empty_dchain_fp (int (unat capacity)) 0) chain))"
proof -
  have n: "sint capacity = int (unat capacity)" using assms(3) by (intro sint_eq_unat_small) simp
  show ?thesis
    unfolding n using dchain_allocate_refines [OF assms(1), of "int (unat capacity)" None 0 cells tms] assms(2,3)
    by (auto simp: alloc_outcome_def)
qed

lemma vector_allocate_result:
  assumes "heap_ok h" "0 < e" "e \<le> 4096" "unat capacity < 140000"
  shows "\<exists>ret out h'. vector_allocate e capacity init raw None h = Some (ret, out, h') \<and> heap_ok h' \<and>
     (ret = 0 \<or> ret = 1 \<and> (\<exists>v. out = Some v \<and> vector_wf v \<and> v_data v = map (\<lambda>j. init (raw j)) [0..<unat capacity]))"
  using vector_allocate_outcome [OF assms(1-3), of capacity None init raw] assms(4) by (auto simp: alloc_outcome_def)

lemma fresh_table:
  assumes "double_chainp (empty_dchain_fp (int (unat capacity)) 0) chain" "vector_wf v"
    "v_data v = map (\<lambda>j. init (raw j)) [0..<unat capacity]" "m_capacity m = capacity"
    "\<And>kv. map_wf pow2 kv m \<and> map_contents kv m = Map.empty \<and> map_addrs kv m = Map.empty"
  shows "emap_table pow2 (emap_of v (empty_dchain_fp (int (unat capacity)) 0)) chain v m"
    "\<not> emap_has (emap_of v (empty_dchain_fp (int (unat capacity)) 0)) k"
proof -
  show "emap_table pow2 (emap_of v (empty_dchain_fp (int (unat capacity)) 0)) chain v m"
    by (rule emap_table_empty) (use assms in simp_all)
qed (simp add: emap_of_def flow_index_def)

end
