(* ===== verification/Packet_Io.thy ===== *)
theory Packet_Io
  imports Prelude
begin

text \<open>
  Reading a packet: \<open>libvig/verified/packet-io.c\<close> and the header functions of
  \<open>nf-util.h\<close> and \<open>nf-util.c\<close>. A packet is the bytes from the start of the data to
  the end of its buffer, which may be longer than the packet, together with the two global
  lengths and the stack of borrowed chunks. A pointer into the packet is the offset from the
  start, and an access outside the buffer is a fault. Multi byte fields are read in the byte
  order of the machine, little endian, as the code does; \<open>rte_be_to_cpu_16\<close> swaps.
\<close>

unbundle bit_operations_syntax

section \<open>Bytes\<close>

definition ld_bytes :: "u8 list \<Rightarrow> int \<Rightarrow> nat \<Rightarrow> u8 list option" where
  "ld_bytes b i n = (if 0 \<le> i \<and> i + int n \<le> int (length b) then Some (take n (drop (nat i) b)) else None)"

definition st_bytes :: "u8 list \<Rightarrow> int \<Rightarrow> u8 list \<Rightarrow> u8 list option" where
  "st_bytes b i ws =
     (if 0 \<le> i \<and> i + int (length ws) \<le> int (length b)
      then Some (take (nat i) b @ ws @ drop (nat i + length ws) b) else None)"

definition le16 :: "u8 list \<Rightarrow> u16" where
  "le16 ws = ucast (ws ! 0) OR push_bit 8 (ucast (ws ! 1))"

definition le32 :: "u8 list \<Rightarrow> u32" where
  "le32 ws = ucast (ws ! 0) OR push_bit 8 (ucast (ws ! 1)) OR
             push_bit 16 (ucast (ws ! 2)) OR push_bit 24 (ucast (ws ! 3))"

definition bytes16 :: "u16 \<Rightarrow> u8 list" where
  "bytes16 w = [ucast w, ucast (drop_bit 8 w)]"

definition bytes32 :: "u32 \<Rightarrow> u8 list" where
  "bytes32 w = [ucast w, ucast (drop_bit 8 w), ucast (drop_bit 16 w), ucast (drop_bit 24 w)]"

definition ld8 :: "u8 list \<Rightarrow> int \<Rightarrow> u8 option" where
  "ld8 b i = do { ws \<leftarrow> ld_bytes b i 1; Some (ws ! 0) }"

definition ld16 :: "u8 list \<Rightarrow> int \<Rightarrow> u16 option" where
  "ld16 b i = do { ws \<leftarrow> ld_bytes b i 2; Some (le16 ws) }"

definition ld32 :: "u8 list \<Rightarrow> int \<Rightarrow> u32 option" where
  "ld32 b i = do { ws \<leftarrow> ld_bytes b i 4; Some (le32 ws) }"

definition st16 :: "u8 list \<Rightarrow> int \<Rightarrow> u16 \<Rightarrow> u8 list option" where
  "st16 b i w = st_bytes b i (bytes16 w)"

definition st32 :: "u8 list \<Rightarrow> int \<Rightarrow> u32 \<Rightarrow> u8 list option" where
  "st32 b i w = st_bytes b i (bytes32 w)"

definition rte_be_to_cpu_16 :: "u16 \<Rightarrow> u16" where
  "rte_be_to_cpu_16 w = push_bit 8 w OR drop_bit 8 w"

section \<open>The code\<close>

record packet_io =
  pkt :: "u8 list"
  global_total_length :: u64
  global_read_length :: u64
  chunks_borrowed :: "int list"

definition MAX_N_CHUNKS :: nat where "MAX_N_CHUNKS = 100"

definition packet_state_total_length :: "u32 \<Rightarrow> packet_io \<Rightarrow> packet_io" where
  "packet_state_total_length len st = st\<lparr>global_total_length := ucast len\<rparr>"

definition packet_borrow_next_chunk :: "u64 \<Rightarrow> packet_io \<Rightarrow> int \<times> packet_io" where
  "packet_borrow_next_chunk len st =
     (uint (global_read_length st), st\<lparr>global_read_length := global_read_length st + len\<rparr>)"

definition packet_return_chunk :: "int \<Rightarrow> packet_io \<Rightarrow> packet_io" where
  "packet_return_chunk chunk st = st\<lparr>global_read_length := ucast (word_of_int chunk :: u32)\<rparr>"

definition packet_get_unread_length :: "packet_io \<Rightarrow> u32" where
  "packet_get_unread_length st = ucast (global_total_length st - global_read_length st)"

definition packet_get_chunk_length :: "int \<Rightarrow> packet_io \<Rightarrow> u64" where
  "packet_get_chunk_length chunk st =
     ucast (word_of_int (uint (global_read_length st) - chunk) :: u32)"

definition nf_borrow_next_chunk :: "u64 \<Rightarrow> packet_io \<Rightarrow> (int \<times> packet_io) option" where
  "nf_borrow_next_chunk len st = do {
     cassert (length (chunks_borrowed st) < MAX_N_CHUNKS);
     let (chunk, st) = packet_borrow_next_chunk len st;
     Some (chunk, st\<lparr>chunks_borrowed := chunks_borrowed st @ [chunk]\<rparr>)
   }"

definition nf_get_borrowed_chunk :: "u32 \<Rightarrow> packet_io \<Rightarrow> int option" where
  "nf_get_borrowed_chunk chunk_i st = do {
     cassert (unat chunk_i < length (chunks_borrowed st));
     Some (chunks_borrowed st ! unat chunk_i)
   }"

function nf_return_all_chunks :: "packet_io \<Rightarrow> packet_io" where
  "nf_return_all_chunks st =
     (if chunks_borrowed st \<noteq> [] then
        nf_return_all_chunks
          ((packet_return_chunk (last (chunks_borrowed st)) st)
             \<lparr>chunks_borrowed := butlast (chunks_borrowed st)\<rparr>)
      else st)"
  by pat_completeness auto
termination
  by (relation "measure (\<lambda>st. length (chunks_borrowed st))") auto

declare nf_return_all_chunks.simps [simp del]

definition nf_return_chunk :: "packet_io \<Rightarrow> packet_io" where
  "nf_return_chunk st =
     (if chunks_borrowed st \<noteq> [] then
        (packet_return_chunk (last (chunks_borrowed st)) st)
          \<lparr>chunks_borrowed := butlast (chunks_borrowed st)\<rparr>
      else st)"

text \<open>The fields of the protocol headers, at their offsets.\<close>

definition ether_d_addr :: "packet_io \<Rightarrow> int \<Rightarrow> u8 list option" where
  "ether_d_addr st h = ld_bytes (pkt st) h 6"

definition ether_s_addr :: "packet_io \<Rightarrow> int \<Rightarrow> u8 list option" where
  "ether_s_addr st h = ld_bytes (pkt st) (h + 6) 6"

definition ether_type :: "packet_io \<Rightarrow> int \<Rightarrow> u16 option" where
  "ether_type st h = ld16 (pkt st) (h + 12)"

definition version_ihl :: "packet_io \<Rightarrow> int \<Rightarrow> u8 option" where
  "version_ihl st h = ld8 (pkt st) h"

definition total_length :: "packet_io \<Rightarrow> int \<Rightarrow> u16 option" where
  "total_length st h = ld16 (pkt st) (h + 2)"

definition next_proto_id :: "packet_io \<Rightarrow> int \<Rightarrow> u8 option" where
  "next_proto_id st h = ld8 (pkt st) (h + 9)"

definition src_addr :: "packet_io \<Rightarrow> int \<Rightarrow> u32 option" where
  "src_addr st h = ld32 (pkt st) (h + 12)"

definition dst_addr :: "packet_io \<Rightarrow> int \<Rightarrow> u32 option" where
  "dst_addr st h = ld32 (pkt st) (h + 16)"

definition src_port :: "packet_io \<Rightarrow> int \<Rightarrow> u16 option" where
  "src_port st h = ld16 (pkt st) h"

definition dst_port :: "packet_io \<Rightarrow> int \<Rightarrow> u16 option" where
  "dst_port st h = ld16 (pkt st) (h + 2)"

definition nf_has_rte_ipv4_header :: "packet_io \<Rightarrow> int \<Rightarrow> bool option" where
  "nf_has_rte_ipv4_header st h = do {
     t \<leftarrow> ether_type st h;
     Some (t = rte_be_to_cpu_16 0x0800)
   }"

definition nf_has_tcpudp_header :: "packet_io \<Rightarrow> int \<Rightarrow> bool option" where
  "nf_has_tcpudp_header st h = do {
     p \<leftarrow> next_proto_id st h;
     Some (p = 6 \<or> p = 17)
   }"

definition nf_then_get_rte_ether_header :: "packet_io \<Rightarrow> (int \<times> packet_io) option" where
  "nf_then_get_rte_ether_header st = nf_borrow_next_chunk 14 st"

text \<open>
  The result is the header, which is absent when the packet is not to be handled, and the
  options, which are absent when there are none or they do not fit.
\<close>

definition nf_then_get_rte_ipv4_header ::
  "int \<Rightarrow> packet_io \<Rightarrow> (int option \<times> int option \<times> packet_io) option" where
  "nf_then_get_rte_ipv4_header ether_header st = do {
     let unread_len = (ucast (packet_get_unread_length st) :: u16);
     is_ipv4 \<leftarrow> nf_has_rte_ipv4_header st ether_header;
     if \<not> is_ipv4 \<or> unread_len < 20 then Some (None, None, st)
     else do {
       (hdr, st) \<leftarrow> nf_borrow_next_chunk 20 st;
       v \<leftarrow> version_ihl st hdr;
       let ihl = v AND 0x0f;
       len \<leftarrow> total_length st hdr;
       if ihl < 5 \<or> unread_len < rte_be_to_cpu_16 len then Some (None, None, st)
       else do {
         let ip_options_length = ((ucast ihl - 5) * 4 :: u16);
         if ip_options_length \<noteq> 0 \<and> unread_len - 20 \<ge> ip_options_length then do {
           (options, st) \<leftarrow> nf_borrow_next_chunk (ucast ip_options_length) st;
           Some (Some hdr, Some options, st)
         } else Some (Some hdr, None, st)
       }
     }
   }"

definition nf_then_get_tcpudp_header :: "int \<Rightarrow> packet_io \<Rightarrow> (int option \<times> packet_io) option" where
  "nf_then_get_tcpudp_header ip_header st = do {
     has \<leftarrow> nf_has_tcpudp_header st ip_header;
     if \<not> has \<or> packet_get_unread_length st < 4 then Some (None, st)
     else do {
       (hdr, st) \<leftarrow> nf_borrow_next_chunk 4 st;
       Some (Some hdr, st)
     }
   }"

text \<open>
  \<open>cks\<close> are the two checksum functions of DPDK: of the bytes and the offsets of the
  headers.
\<close>

record cksums =
  rte_ipv4_udptcp_cksum :: "u8 list \<Rightarrow> int \<Rightarrow> int \<Rightarrow> u16"
  rte_ipv4_cksum :: "u8 list \<Rightarrow> int \<Rightarrow> u16"

definition nf_set_rte_ipv4_udptcp_checksum ::
  "cksums \<Rightarrow> int \<Rightarrow> int \<Rightarrow> u8 list \<Rightarrow> u8 list option" where
  "nf_set_rte_ipv4_udptcp_checksum cks ip l4 b = do {
     b \<leftarrow> st16 b (ip + 10) 0;
     proto \<leftarrow> ld8 b (ip + 9);
     b \<leftarrow> (if proto = 6 then do {
             b \<leftarrow> st16 b (l4 + 16) 0;
             st16 b (l4 + 16) (rte_ipv4_udptcp_cksum cks b ip l4)
           } else if proto = 17 then do {
             b \<leftarrow> st16 b (l4 + 6) 0;
             st16 b (l4 + 6) (rte_ipv4_udptcp_cksum cks b ip l4)
           } else Some b);
     st16 b (ip + 10) (rte_ipv4_cksum cks b ip)
   }"

section \<open>Loads and stores\<close>

lemma length_bytes [simp]: "length (bytes16 w) = 2" "length (bytes32 v) = 4"
  by (simp_all add: bytes16_def bytes32_def)

lemma le16_bytes [simp]: "le16 (bytes16 w) = w"
proof (rule bit_word_eqI)
  fix n assume "n < LENGTH(16)"
  then show "bit (le16 (bytes16 w)) n \<longleftrightarrow> bit w n"
    by (cases "n < 8") (auto simp: le16_def bytes16_def bit_simps)
qed

lemma le32_bytes [simp]: "le32 (bytes32 w) = w"
proof (rule bit_word_eqI)
  fix n assume "n < LENGTH(32)"
  then have "n < 8 \<or> 8 \<le> n \<and> n < 16 \<or> 16 \<le> n \<and> n < 24 \<or> 24 \<le> n \<and> n < 32" by auto
  then show "bit (le32 (bytes32 w)) n \<longleftrightarrow> bit w n"
    by (elim disjE) (auto simp: le32_def bytes32_def bit_simps)
qed

lemma st_bytes_Some:
  "st_bytes b i ws = Some b' \<longleftrightarrow>
     0 \<le> i \<and> i + int (length ws) \<le> int (length b) \<and> b' = take (nat i) b @ ws @ drop (nat i + length ws) b"
  by (auto simp: st_bytes_def)

lemma length_st_bytes: "st_bytes b i ws = Some b' \<Longrightarrow> length b' = length b"
  by (auto simp: st_bytes_Some)

lemma ld_st_same:
  assumes "st_bytes b i ws = Some b'" "n = length ws"
  shows "ld_bytes b' i n = Some ws"
  using assms length_st_bytes [OF assms(1)] by (auto simp: st_bytes_Some ld_bytes_def)

lemma ld_st_other:
  assumes "st_bytes b i ws = Some b'" "j + int n \<le> i \<or> i + int (length ws) \<le> j"
  shows "ld_bytes b' j n = ld_bytes b j n"
proof (cases "0 \<le> j \<and> j + int n \<le> int (length b)")
  case True
  have b': "0 \<le> i" "b' = take (nat i) b @ ws @ drop (nat i + length ws) b" "i + int (length ws) \<le> int (length b)"
    using assms(1) by (auto simp: st_bytes_Some)
  have "take n (drop (nat j) b') = take n (drop (nat j) b)"
  proof (rule nth_equalityI)
    show "length (take n (drop (nat j) b')) = length (take n (drop (nat j) b))"
      using length_st_bytes [OF assms(1)] by simp
    fix k assume "k < length (take n (drop (nat j) b'))"
    then have k: "k < n" "nat j + k < length b" using length_st_bytes [OF assms(1)] by auto
    have "b' ! (nat j + k) = b ! (nat j + k)"
    proof (cases "nat j + k < nat i")
      case True
      then show ?thesis using k by (simp add: b' nth_append)
    next
      case False
      then have ge: "nat i + length ws \<le> nat j + k" using assms(2) True k b'(1) by linarith
      then have "b' ! (nat j + k) = drop (nat i + length ws) b ! (nat j + k - (nat i + length ws))"
        using b'(1,3) by (simp add: b'(2) nth_append) linarith
      then show ?thesis using ge k by simp
    qed
    then show "take n (drop (nat j) b') ! k = take n (drop (nat j) b) ! k"
      using k length_st_bytes [OF assms(1)] by simp
  qed
  then show ?thesis using True length_st_bytes [OF assms(1)] by (simp add: ld_bytes_def)
qed (use length_st_bytes [OF assms(1)] in \<open>auto simp: ld_bytes_def\<close>)

lemma st_bytes_ok:
  "0 \<le> i \<Longrightarrow> i + int (length ws) \<le> int (length b) \<Longrightarrow> \<exists>b'. st_bytes b i ws = Some b' \<and> length b' = length b"
  by (simp add: st_bytes_def)

lemma st16_ok: "0 \<le> i \<Longrightarrow> i + 2 \<le> int (length b) \<Longrightarrow> \<exists>b'. st16 b i w = Some b' \<and> length b' = length b"
  using st_bytes_ok [of i "bytes16 w" b] by (simp add: st16_def)

lemma st32_ok: "0 \<le> i \<Longrightarrow> i + 4 \<le> int (length b) \<Longrightarrow> \<exists>b'. st32 b i w = Some b' \<and> length b' = length b"
  using st_bytes_ok [of i "bytes32 w" b] by (simp add: st32_def)

lemma ld_ok:
  "0 \<le> i \<Longrightarrow> i + int n \<le> int (length b) \<Longrightarrow> \<exists>ws. ld_bytes b i n = Some ws"
  by (simp add: ld_bytes_def)

lemma ld8_ok: "0 \<le> i \<Longrightarrow> i + 1 \<le> int (length b) \<Longrightarrow> \<exists>w. ld8 b i = Some w"
  using ld_ok [of i 1 b] by (auto simp: ld8_def)

lemma ld16_ok: "0 \<le> i \<Longrightarrow> i + 2 \<le> int (length b) \<Longrightarrow> \<exists>w. ld16 b i = Some w"
  using ld_ok [of i 2 b] by (auto simp: ld16_def)

lemma ld32_ok: "0 \<le> i \<Longrightarrow> i + 4 \<le> int (length b) \<Longrightarrow> \<exists>w. ld32 b i = Some w"
  using ld_ok [of i 4 b] by (auto simp: ld32_def)

lemma st16_ld:
  assumes "st16 b i w = Some b'"
  shows "ld16 b' i = Some w" "length b' = length b"
    "j + int n \<le> i \<or> i + 2 \<le> j \<Longrightarrow> ld_bytes b' j n = ld_bytes b j n"
  using assms ld_st_same [of b i "bytes16 w" b' 2] length_st_bytes [of b i "bytes16 w" b']
    ld_st_other [of b i "bytes16 w" b' j n]
  by (auto simp: st16_def ld16_def)

lemma st32_ld:
  assumes "st32 b i w = Some b'"
  shows "ld32 b' i = Some w" "length b' = length b"
    "j + int n \<le> i \<or> i + 4 \<le> j \<Longrightarrow> ld_bytes b' j n = ld_bytes b j n"
  using assms ld_st_same [of b i "bytes32 w" b' 4] length_st_bytes [of b i "bytes32 w" b']
    ld_st_other [of b i "bytes32 w" b' j n]
  by (auto simp: st32_def ld32_def)

section \<open>Reading headers\<close>

text \<open>
  \<open>io_ok n st\<close>: a packet of \<open>n\<close> bytes whose buffer holds it and that has been read no
  further than its end.
\<close>

definition io_ok :: "int \<Rightarrow> packet_io \<Rightarrow> bool" where
  "io_ok n st \<longleftrightarrow>
     uint (global_total_length st) = n \<and> n \<le> int (length (pkt st)) \<and> n < 2 ^ 32 \<and>
     uint (global_read_length st) \<le> n"

lemma unread_length:
  assumes "io_ok n st"
  shows "uint (packet_get_unread_length st) = n - uint (global_read_length st)"
proof -
  let ?t = "global_total_length st" and ?r = "global_read_length st"
  have "uint (?t - ?r) = uint ?t - uint ?r"
    using assms by (intro uint_sub_lem [THEN iffD1]) (simp add: io_ok_def)
  moreover have "uint ?t = n" "uint ?r \<le> n" "n < 2 ^ 32" using assms by (simp_all add: io_ok_def)
  ultimately have "uint (?t - ?r) = n - uint ?r" "0 \<le> n - uint ?r" "n - uint ?r < 2 ^ 32"
    using uint_ge_0 [of ?r] by linarith+
  then show ?thesis
    by (simp add: packet_get_unread_length_def unsigned_ucast_eq take_bit_int_eq_self)
qed

lemma borrow_chunk:
  assumes "io_ok n st" "length (chunks_borrowed st) < 100"
    "uint (global_read_length st) + uint len \<le> n"
  shows "\<exists>st'. nf_borrow_next_chunk len st = Some (uint (global_read_length st), st') \<and> io_ok n st' \<and>
     uint (global_read_length st') = uint (global_read_length st) + uint len \<and> pkt st' = pkt st \<and>
     length (chunks_borrowed st') = Suc (length (chunks_borrowed st))"
proof -
  have "uint (global_read_length st + len) = uint (global_read_length st) + uint len"
    using assms by (intro uint_add_lem [THEN iffD1]) (simp add: io_ok_def)
  then show ?thesis
    using assms by (simp add: nf_borrow_next_chunk_def packet_borrow_next_chunk_def cassert_def
        MAX_N_CHUNKS_def io_ok_def)
qed

lemma ether_header:
  assumes "io_ok n st" "global_read_length st = 0" "chunks_borrowed st = []" "14 \<le> n"
  shows "\<exists>st'. nf_then_get_rte_ether_header st = Some (0, st') \<and> io_ok n st' \<and>
     uint (global_read_length st') = 14 \<and> pkt st' = pkt st \<and> length (chunks_borrowed st') = 1"
  using borrow_chunk [OF assms(1), of 14] assms by (auto simp: nf_then_get_rte_ether_header_def)

text \<open>
  The IPv4 header, when there is one, starts behind the Ethernet header and lies inside the
  packet, and so does everything read so far.
\<close>

lemma uint_u16_le: "uint (ucast (w :: u32) :: u16) \<le> uint w"
  by (simp add: unsigned_ucast_eq take_bit_int_less_eq_self_iff)

lemma uint_u16_u64: "uint (ucast (w :: u16) :: u64) = uint w"
  by (rule uint_up_ucast) (simp add: is_up)

lemma ipv4_header:
  assumes "io_ok n st" "uint (global_read_length st) = 14" "length (chunks_borrowed st) = 1" "14 \<le> n"
  shows "\<exists>h opts st'. nf_then_get_rte_ipv4_header 0 st = Some (h, opts, st') \<and> pkt st' = pkt st \<and>
     (h = None \<or> h = Some 14 \<and> io_ok n st' \<and> 34 \<le> uint (global_read_length st') \<and>
        length (chunks_borrowed st') \<le> 3)"
proof -
  define unread where "unread = (ucast (packet_get_unread_length st) :: u16)"
  have unread: "uint unread \<le> n - 14"
    using unread_length [OF assms(1)] assms(2) uint_u16_le [of "packet_get_unread_length st"]
    by (simp add: unread_def)
  have len: "n \<le> int (length (pkt st))" using assms(1) by (simp add: io_ok_def)
  obtain t where t: "ether_type st 0 = Some t" using ld16_ok [of 12 "pkt st"] len assms(4) by (auto simp: ether_type_def)
  show ?thesis
  proof (cases "t = rte_be_to_cpu_16 0x0800 \<and> \<not> unread < 20")
    case False
    then show ?thesis
      using t by (auto simp: nf_then_get_rte_ipv4_header_def nf_has_rte_ipv4_header_def Let_def unread_def)
  next
    case True
    then have "20 \<le> uint unread" by (simp add: word_less_alt)
    then have "34 \<le> n" using unread by simp
    obtain st1 where st1: "nf_borrow_next_chunk 20 st = Some (14, st1)" "io_ok n st1"
      "uint (global_read_length st1) = 34" "pkt st1 = pkt st" "length (chunks_borrowed st1) = 2"
      using borrow_chunk [OF assms(1), of 20] assms \<open>34 \<le> n\<close> by auto
    obtain v l where v: "version_ihl st1 14 = Some v" "total_length st1 14 = Some l"
      using ld8_ok [of 14 "pkt st"] ld16_ok [of 16 "pkt st"] len \<open>34 \<le> n\<close> st1(4)
      by (auto simp: version_ihl_def total_length_def)
    let ?o = "(ucast (v AND 15) - 5) * 4 :: u16"
    have opt: "\<exists>st2. nf_borrow_next_chunk (ucast ?o) st1 = Some (34, st2) \<and> io_ok n st2 \<and>
        34 \<le> uint (global_read_length st2) \<and> pkt st2 = pkt st \<and> length (chunks_borrowed st2) = 3"
      if fits: "?o \<le> unread - 20"
    proof -
      have "uint (unread - 20) = uint unread - 20"
        using \<open>20 \<le> uint unread\<close> by (subst uint_sub_lem [THEN iffD1]) auto
      moreover have "uint (ucast ?o :: u64) = uint ?o" by (rule uint_u16_u64)
      ultimately have "34 + uint (ucast ?o :: u64) \<le> n" using fits unread by (simp add: word_le_def)
      then obtain st2 where "nf_borrow_next_chunk (ucast ?o) st1 = Some (34, st2)" "io_ok n st2"
        "uint (global_read_length st2) = 34 + uint (ucast ?o :: u64)" "pkt st2 = pkt st1"
        "length (chunks_borrowed st2) = 3"
        using borrow_chunk [OF st1(2), of "ucast ?o"] st1 by auto
      then show ?thesis using st1(4) uint_ge_0 [of "ucast ?o :: u64"] by auto
    qed
    show ?thesis
      using t True st1 v opt
      by (auto simp: nf_then_get_rte_ipv4_header_def nf_has_rte_ipv4_header_def Let_def unread_def [symmetric]
          split: if_splits)
  qed
qed

lemma tcpudp_header:
  assumes "io_ok n st" "34 \<le> uint (global_read_length st)" "length (chunks_borrowed st) \<le> 3"
  shows "\<exists>h st'. nf_then_get_tcpudp_header 14 st = Some (h, st') \<and> pkt st' = pkt st \<and>
     (h = None \<or> h = Some (uint (global_read_length st)) \<and> uint (global_read_length st) + 4 \<le> n \<and>
       (\<exists>p. ld8 (pkt st) 23 = Some p \<and> (p = 6 \<or> p = 17)))"
proof -
  have len: "n \<le> int (length (pkt st))" "uint (global_read_length st) \<le> n" using assms(1) by (simp_all add: io_ok_def)
  then obtain p where p: "ld8 (pkt st) 23 = Some p" using ld8_ok [of 23 "pkt st"] assms(2) by auto
  have unread: "packet_get_unread_length st < 4 \<longleftrightarrow> n - uint (global_read_length st) < 4"
    using unread_length [OF assms(1)] by (simp add: word_less_alt)
  show ?thesis
  proof (cases "(p = 6 \<or> p = 17) \<and> \<not> packet_get_unread_length st < 4")
    case False
    then show ?thesis
      using p by (auto simp: nf_then_get_tcpudp_header_def nf_has_tcpudp_header_def next_proto_id_def)
  next
    case True
    then have room: "uint (global_read_length st) + 4 \<le> n" using unread by simp
    obtain st' where "nf_borrow_next_chunk 4 st = Some (uint (global_read_length st), st')" "pkt st' = pkt st"
      using borrow_chunk [OF assms(1), of 4] assms(3) room by auto
    then show ?thesis
      using p True room
      by (auto simp: nf_then_get_tcpudp_header_def nf_has_tcpudp_header_def next_proto_id_def)
  qed
qed

section \<open>Checksums\<close>

text \<open>
  Setting the checksums needs room for the checksum of a TCP header behind the ports, and
  changes nothing in front of the L4 checksum but the checksum of the IPv4 header.
\<close>

lemma set_checksum:
  assumes "0 \<le> ip" "ip + 20 \<le> l4" "l4 + 18 \<le> int (length b)"
  shows "\<exists>b'. nf_set_rte_ipv4_udptcp_checksum cks ip l4 b = Some b' \<and> length b' = length b \<and>
     (\<forall>j n. (j + int n \<le> ip + 10 \<or> ip + 12 \<le> j) \<longrightarrow> j + int n \<le> l4 + 6 \<longrightarrow>
        ld_bytes b' j n = ld_bytes b j n)"
proof -
  obtain b1 where b1: "st16 b (ip + 10) 0 = Some b1" "length b1 = length b"
    using st16_ok [of "ip + 10" b 0] assms by auto
  obtain p where p: "ld8 b1 (ip + 9) = Some p" using ld8_ok [of "ip + 9" b1] assms b1 by auto
  let ?off = "if p = 6 then l4 + 16 else l4 + 6"
  obtain b2 where b2: "st16 b1 ?off 0 = Some b2" "length b2 = length b"
    using st16_ok [of ?off b1 0] assms b1 by (cases "p = 6") auto
  let ?c = "rte_ipv4_udptcp_cksum cks b2 ip l4"
  obtain b3 where b3: "st16 b2 ?off ?c = Some b3" "length b3 = length b"
    using st16_ok [of ?off b2 ?c] assms b2 by (cases "p = 6") auto
  define b4 where "b4 = (if p = 6 \<or> p = 17 then b3 else b1)"
  have "length b4 = length b" using b1 b3 by (simp add: b4_def)
  then obtain b5 where b5: "st16 b4 (ip + 10) (rte_ipv4_cksum cks b4 ip) = Some b5" "length b5 = length b"
    using st16_ok [of "ip + 10" b4 "rte_ipv4_cksum cks b4 ip"] assms by auto
  have "nf_set_rte_ipv4_udptcp_checksum cks ip l4 b = Some b5"
    using b1 p b2 b3 b5 by (auto simp: nf_set_rte_ipv4_udptcp_checksum_def b4_def)
  moreover have "ld_bytes b5 j n = ld_bytes b j n"
    if j: "j + int n \<le> ip + 10 \<or> ip + 12 \<le> j" "j + int n \<le> l4 + 6" for j n
  proof -
    have "ld_bytes b2 j n = ld_bytes b1 j n" "ld_bytes b3 j n = ld_bytes b2 j n"
      using st16_ld(3) [OF b2(1), of j n] st16_ld(3) [OF b3(1), of j n] j(2) by auto
    then have "ld_bytes b4 j n = ld_bytes b1 j n" by (simp add: b4_def)
    then show ?thesis
      using st16_ld(3) [OF b1(1), of j n] st16_ld(3) [OF b5(1), of j n] j(1) by auto
  qed
  ultimately show ?thesis using b5(2) by blast
qed

section \<open>The headers of a packet\<close>

text \<open>
  The part that the packet handlers have in common: the Ethernet header, the IPv4 header and
  the ports.
\<close>

definition nf_headers :: "packet_io \<Rightarrow> (int option \<times> packet_io) option" where
  "nf_headers st = do {
     (eth, st) \<leftarrow> nf_then_get_rte_ether_header st;
     (ip_hdr, _, st) \<leftarrow> nf_then_get_rte_ipv4_header eth st;
     case ip_hdr of None \<Rightarrow> Some (None, st) | Some ip \<Rightarrow> nf_then_get_tcpudp_header ip st
   }"

definition fresh_packet :: "int \<Rightarrow> packet_io \<Rightarrow> bool" where
  "fresh_packet n st \<longleftrightarrow> io_ok n st \<and> global_read_length st = 0 \<and> chunks_borrowed st = [] \<and> 14 \<le> n"

text \<open>
  What the functions compute for a packet of \<open>n\<close> bytes: the offset of the ports, when the
  packet is IPv4 with a complete header and carries TCP or UDP. The length behind the Ethernet
  header is kept in 16 bits, and options that do not fit are ignored.
\<close>

definition l4_offset :: "int \<Rightarrow> u8 list \<Rightarrow> int option" where
  "l4_offset n b = (
     let rest = (n - 14) mod 65536; hlen = 4 * (uint (b ! 14) mod 16);
         off = (if hlen \<le> rest then 14 + hlen else 34) in
     if b ! 12 = 8 \<and> b ! 13 = 0 \<and> 20 \<le> rest \<and> 20 \<le> hlen \<and>
        256 * uint (b ! 16) + uint (b ! 17) \<le> rest \<and> (b ! 23 = 6 \<or> b ! 23 = 17) \<and> off + 4 \<le> n
     then Some off else None)"

lemma ld16_nth: "0 \<le> i \<Longrightarrow> i + 2 \<le> int (length b) \<Longrightarrow> ld16 b i = Some (le16 [b ! nat i, b ! Suc (nat i)])"
  by (simp add: ld16_def ld_bytes_def le16_def nth_drop)

lemma ld8_nth: "0 \<le> i \<Longrightarrow> i + 1 \<le> int (length b) \<Longrightarrow> ld8 b i = Some (b ! nat i)"
  by (simp add: ld8_def ld_bytes_def nth_drop)

lemma uint_swap: "uint (rte_be_to_cpu_16 (le16 [x, y])) = 256 * uint x + uint y"
proof -
  have "rte_be_to_cpu_16 (le16 [x, y]) = push_bit 8 (ucast x) OR ucast y"
  proof (rule bit_word_eqI)
    fix n assume "n < LENGTH(16)"
    then show "bit (rte_be_to_cpu_16 (le16 [x, y])) n \<longleftrightarrow> bit (push_bit 8 (ucast x) OR ucast y :: u16) n"
      by (cases "n < 8") (auto simp: rte_be_to_cpu_16_def le16_def bit_simps dest: bit_imp_le_length)
  qed
  also have "\<dots> = push_bit 8 (ucast x) + ucast y"
    by (rule disjunctive_add [symmetric]) (auto simp: bit_simps dest: bit_imp_le_length)
  also have "\<dots> = word_of_int (256 * uint x + uint y)"
    unfolding push_bit_eq_mult ucast_eq by simp
  finally have w: "rte_be_to_cpu_16 (le16 [x, y]) = word_of_int (256 * uint x + uint y)" .
  have "uint x < 256" "uint y < 256" using uint_bounded [of x] uint_bounded [of y] by simp_all
  then show ?thesis
    unfolding w uint_word_of_int by simp
qed

lemma swap_ipv4: "le16 [x, y] = rte_be_to_cpu_16 0x0800 \<longleftrightarrow> x = 8 \<and> y = 0"
proof
  assume "le16 [x, y] = rte_be_to_cpu_16 0x0800"
  then have "rte_be_to_cpu_16 (le16 [x, y]) = 0x0800"
    by (simp add: rte_be_to_cpu_16_def)
  then have "256 * uint x + uint y = 256 * 8" using uint_swap [of x y] by simp
  moreover have "uint x < 256" "uint y < 256" "0 \<le> uint x" "0 \<le> uint y"
    using uint_bounded [of x] uint_bounded [of y] by simp_all
  ultimately have "uint x = 8" by linarith
  then have "uint y = 0" using \<open>256 * uint x + uint y = 256 * 8\<close> by linarith
  then show "x = 8 \<and> y = 0" using \<open>uint x = 8\<close> by (simp add: word_uint_eq_iff)
qed (simp add: rte_be_to_cpu_16_def le16_def)

lemma unread_u16:
  assumes "io_ok n st"
  shows "uint (ucast (packet_get_unread_length st) :: u16) = (n - uint (global_read_length st)) mod 65536"
  by (simp add: unsigned_ucast_eq unread_length [OF assms] take_bit_eq_mod)

lemma ihl_hlen:
  fixes v :: u8
  shows "v AND 0x0f < 5 \<longleftrightarrow> 4 * (uint v mod 16) < 20"
    "5 \<le> uint v mod 16 \<Longrightarrow> uint ((ucast (v AND 0x0f) - 5) * 4 :: u16) = 4 * (uint v mod 16) - 20"
proof -
  have i: "uint (v AND 0x0f) = uint v mod 16"
  proof -
    have "v AND 0x0f = take_bit 4 v" by (simp add: take_bit_eq_mask mask_eq_exp_minus_1)
    then show ?thesis by (simp only: unsigned_take_bit_eq) (simp add: take_bit_eq_mod)
  qed
  then show "v AND 0x0f < 5 \<longleftrightarrow> 4 * (uint v mod 16) < 20" by (simp add: word_less_alt)
  show "uint ((ucast (v AND 0x0f) - 5) * 4 :: u16) = 4 * (uint v mod 16) - 20" if "5 \<le> uint v mod 16"
  proof -
    have "(ucast (v AND 0x0f) - 5) * 4 = (word_of_int ((uint v mod 16 - 5) * 4) :: u16)"
      unfolding ucast_eq i by simp
    moreover have "0 \<le> (uint v mod 16 - 5) * 4" "(uint v mod 16 - 5) * 4 < 65536"
      using that pos_mod_bound [of 16 "uint v"] by auto
    ultimately show ?thesis by (simp only: uint_word_of_int) simp
  qed
qed

text \<open>The options are skipped when they fit.\<close>

lemma ipv4_options:
  fixes v :: u8
  assumes "io_ok n st" "uint (global_read_length st) = 34" "length (chunks_borrowed st) = 2"
    "uint unread = rest" "20 \<le> rest" "rest \<le> n - 14" "hlen = 4 * (uint v mod 16)" "20 \<le> hlen"
    "o4 = ((ucast (v AND 0x0f) - 5) * 4 :: u16)"
  shows "\<exists>opts st'. (if o4 \<noteq> 0 \<and> unread - 20 \<ge> o4 then do {
         (options, st) \<leftarrow> nf_borrow_next_chunk (ucast o4) st;
         Some (Some (14 :: int), Some options, st)
       } else Some (Some 14, None, st)) = Some (Some 14, opts, st') \<and> pkt st' = pkt st \<and> io_ok n st' \<and>
     length (chunks_borrowed st') \<le> 3 \<and> uint (global_read_length st') = (if hlen \<le> rest then 14 + hlen else 34)"
proof -
  have o4: "uint o4 = hlen - 20" using ihl_hlen(2) [of v] assms(7,8) by (simp add: assms(9))
  have "uint (unread - 20) = rest - 20" using assms(4,5) by (subst uint_sub_lem [THEN iffD1]) auto
  then have fits: "o4 \<noteq> 0 \<and> o4 \<le> unread - 20 \<longleftrightarrow> hlen \<noteq> 20 \<and> hlen \<le> rest"
    using o4 by (auto simp: word_le_def word_uint_eq_iff)
  show ?thesis
  proof (cases "hlen \<noteq> 20 \<and> hlen \<le> rest")
    case False
    then show ?thesis using assms(1-8) fits by auto
  next
    case True
    then obtain st' where "nf_borrow_next_chunk (ucast o4) st = Some (34, st')" "io_ok n st'"
      "uint (global_read_length st') = 14 + hlen" "pkt st' = pkt st" "length (chunks_borrowed st') = 3"
      using borrow_chunk [OF assms(1), of "ucast o4"] assms(1-8) o4 uint_u16_u64 [of o4] by auto
    then show ?thesis using True fits by auto
  qed
qed

lemma ipv4_header_value:
  assumes ok: "io_ok n st" and r: "uint (global_read_length st) = 14" "length (chunks_borrowed st) = 1" "14 \<le> n"
    and b: "b = pkt st" "rest = (n - 14) mod 65536" "hlen = 4 * (uint (b ! 14) mod 16)"
    and c: "c \<longleftrightarrow> b ! 12 = 8 \<and> b ! 13 = 0 \<and> 20 \<le> rest \<and> 20 \<le> hlen \<and> 256 * uint (b ! 16) + uint (b ! 17) \<le> rest"
  shows "\<exists>opts st'. nf_then_get_rte_ipv4_header 0 st = Some (if c then Some 14 else None, opts, st') \<and>
     pkt st' = b \<and> (c \<longrightarrow> io_ok n st' \<and> length (chunks_borrowed st') \<le> 3 \<and>
       uint (global_read_length st') = (if hlen \<le> rest then 14 + hlen else 34))"
proof -
  define unread where "unread = (ucast (packet_get_unread_length st) :: u16)"
  have unread: "uint unread = rest" using unread_u16 [OF ok] r(1) by (simp add: unread_def b(2))
  have len: "n \<le> int (length b)" using ok by (simp add: io_ok_def b(1))
  have t: "ether_type st 0 = Some (le16 [b ! 12, b ! 13])"
    using ld16_nth [of 12 b] len r(3) by (simp add: ether_type_def b(1))
  have small: "unread < 20 \<longleftrightarrow> rest < 20" using unread by (simp add: word_less_alt)
  show ?thesis
  proof (cases "b ! 12 = 8 \<and> b ! 13 = 0 \<and> 20 \<le> rest")
    case False
    then show ?thesis
      using t small b(1) c by (auto simp: nf_then_get_rte_ipv4_header_def nf_has_rte_ipv4_header_def swap_ipv4
          Let_def unread_def [symmetric])
  next
    case True
    have rest: "rest \<le> n - 14" using r(3) zmod_le_nonneg_dividend [of "n - 14" 65536] by (simp add: b(2))
    obtain st1 where st1: "nf_borrow_next_chunk 20 st = Some (14, st1)" "io_ok n st1"
      "uint (global_read_length st1) = 34" "pkt st1 = b" "length (chunks_borrowed st1) = 2"
      using borrow_chunk [OF ok, of 20] r rest True b(1) by auto
    have v: "version_ihl st1 14 = Some (b ! 14)" "total_length st1 14 = Some (le16 [b ! 16, b ! 17])"
      using ld8_nth [of 14 b] ld16_nth [of 16 b] len rest True st1(4) by (auto simp: version_ihl_def total_length_def)
    have total: "unread < rte_be_to_cpu_16 (le16 [b ! 16, b ! 17]) \<longleftrightarrow> rest < 256 * uint (b ! 16) + uint (b ! 17)"
      by (simp add: word_less_alt uint_swap unread)
    note run = t small True st1(1) v total ihl_hlen(1) [of "b ! 14"]
    show ?thesis
    proof (cases c)
      case False
      then have "nf_then_get_rte_ipv4_header 0 st = Some (None, None, st1)"
        using run c by (auto simp: nf_then_get_rte_ipv4_header_def nf_has_rte_ipv4_header_def swap_ipv4 Let_def
            unread_def [symmetric] b(3))
      then show ?thesis using False st1 by auto
    next
      case c': True
      define o4 where "o4 = ((ucast (b ! 14 AND 0x0f) - 5) * 4 :: u16)"
      have "nf_then_get_rte_ipv4_header 0 st =
        (if o4 \<noteq> 0 \<and> unread - 20 \<ge> o4 then do {
           (options, st) \<leftarrow> nf_borrow_next_chunk (ucast o4) st1;
           Some (Some 14, Some options, st)
         } else Some (Some 14, None, st1))"
        using run c' c by (simp add: nf_then_get_rte_ipv4_header_def nf_has_rte_ipv4_header_def swap_ipv4
            unread_def [symmetric] b(3) Let_def o4_def)
      then show ?thesis
        using ipv4_options [OF st1(2,3,5) unread _ rest b(3) _ o4_def] True c c' st1(4) by simp
    qed
  qed
qed

lemma nf_headers_value:
  assumes fresh: "fresh_packet n st"
  shows "\<exists>st'. nf_headers st = Some (l4_offset n (pkt st), st') \<and> pkt st' = pkt st"
proof -
  define b rest hlen where b: "b = pkt st" "rest = (n - 14) mod 65536" "hlen = 4 * (uint (b ! 14) mod 16)"
  define c where "c \<longleftrightarrow>
    b ! 12 = 8 \<and> b ! 13 = 0 \<and> 20 \<le> rest \<and> 20 \<le> hlen \<and> 256 * uint (b ! 16) + uint (b ! 17) \<le> rest"
  define off where "off = (if hlen \<le> rest then 14 + hlen else 34)"
  have off: "l4_offset n (pkt st) = (if c \<and> (b ! 23 = 6 \<or> b ! 23 = 17) \<and> off + 4 \<le> n then Some off else None)"
    by (auto simp: l4_offset_def Let_def b(1) [symmetric] b(2) [symmetric] b(3) [symmetric] c_def off_def)
  obtain st1 where st1: "nf_then_get_rte_ether_header st = Some (0, st1)" "io_ok n st1"
    "uint (global_read_length st1) = 14" "pkt st1 = b" "length (chunks_borrowed st1) = 1" "14 \<le> n"
    using ether_header [of n st] fresh by (auto simp: fresh_packet_def b(1))
  obtain opts st2 where st2: "nf_then_get_rte_ipv4_header 0 st1 = Some (if c then Some 14 else None, opts, st2)"
    "pkt st2 = b" "c \<Longrightarrow> io_ok n st2 \<and> length (chunks_borrowed st2) \<le> 3 \<and> uint (global_read_length st2) = off"
    using ipv4_header_value [OF st1(2,3,5,6) st1(4) [symmetric] b(2,3) c_def] by (auto simp: off_def)
  show ?thesis
  proof (cases c)
    case False
    then show ?thesis using st1(1) st2 off b(1) by (simp add: nf_headers_def)
  next
    case True
    then have io: "io_ok n st2" "length (chunks_borrowed st2) \<le> 3" "uint (global_read_length st2) = off"
      using st2(3) by simp_all
    have "34 \<le> off" "34 \<le> n" "n \<le> int (length b)"
      using True io(1) st2(2) zmod_le_nonneg_dividend [of "n - 14" 65536] st1(6)
      by (auto simp: off_def c_def b(2) io_ok_def)
    then have p: "next_proto_id st2 14 = Some (b ! 23)"
      using ld8_nth [of 23 b] st2(2) by (simp add: next_proto_id_def)
    have unread: "packet_get_unread_length st2 < 4 \<longleftrightarrow> n - off < 4"
      using unread_length [OF io(1)] io(3) by (simp add: word_less_alt)
    show ?thesis
    proof (cases "(b ! 23 = 6 \<or> b ! 23 = 17) \<and> off + 4 \<le> n")
      case False
      then show ?thesis
        using True st1(1) st2 off b(1) p unread
        by (auto simp: nf_headers_def nf_then_get_tcpudp_header_def nf_has_tcpudp_header_def)
    next
      case l4: True
      then obtain st3 where "nf_borrow_next_chunk 4 st2 = Some (off, st3)" "pkt st3 = b"
        using borrow_chunk [OF io(1), of 4] io st2(2) by auto
      then show ?thesis
        using True l4 st1(1) st2(1) off b(1) p unread
        by (auto simp: nf_headers_def nf_then_get_tcpudp_header_def nf_has_tcpudp_header_def)
    qed
  qed
qed

text \<open>A handler that begins with the three headers.\<close>

lemma nf_headers_then:
  assumes "fresh_packet n st"
  shows "(do {
      (eth, st) \<leftarrow> nf_then_get_rte_ether_header st;
      (ip_hdr, _, st) \<leftarrow> nf_then_get_rte_ipv4_header eth st;
      case ip_hdr of None \<Rightarrow> A st
      | Some ip \<Rightarrow> do {
          (l4_hdr, st) \<leftarrow> nf_then_get_tcpudp_header ip st;
          case l4_hdr of None \<Rightarrow> A st | Some l4 \<Rightarrow> B eth ip l4 st } }) =
    do { (l4_hdr, st) \<leftarrow> nf_headers st; case l4_hdr of None \<Rightarrow> A st | Some l4 \<Rightarrow> B 0 14 l4 st }"
proof -
  obtain st1 where st1: "nf_then_get_rte_ether_header st = Some (0, st1)" "io_ok n st1"
    "uint (global_read_length st1) = 14" "length (chunks_borrowed st1) = 1" "14 \<le> n"
    using ether_header [of n st] assms by (auto simp: fresh_packet_def)
  obtain h opts st2 where "nf_then_get_rte_ipv4_header 0 st1 = Some (h, opts, st2)" "h = None \<or> h = Some 14"
    using ipv4_header [OF st1(2-5)] by blast
  then show ?thesis using st1(1) by (auto simp: nf_headers_def)
qed

text \<open>A field of the headers that a store does not overlap.\<close>

lemma st32_fields:
  assumes "st32 b i w = Some b'"
  shows "j + 2 \<le> i \<or> i + 4 \<le> j \<Longrightarrow> ld16 b' j = ld16 b j"
    "j + 4 \<le> i \<or> i + 4 \<le> j \<Longrightarrow> ld32 b' j = ld32 b j"
    "j + 1 \<le> i \<or> i + 4 \<le> j \<Longrightarrow> ld8 b' j = ld8 b j"
  using st32_ld(3) [OF assms, of j 2] st32_ld(3) [OF assms, of j 4] st32_ld(3) [OF assms, of j 1]
  by (auto simp: ld16_def ld32_def ld8_def)

lemma st16_fields:
  assumes "st16 b i w = Some b'"
  shows "j + 2 \<le> i \<or> i + 2 \<le> j \<Longrightarrow> ld16 b' j = ld16 b j"
    "j + 4 \<le> i \<or> i + 2 \<le> j \<Longrightarrow> ld32 b' j = ld32 b j"
    "j + 1 \<le> i \<or> i + 2 \<le> j \<Longrightarrow> ld8 b' j = ld8 b j"
  using st16_ld(3) [OF assms, of j 2] st16_ld(3) [OF assms, of j 4] st16_ld(3) [OF assms, of j 1]
  by (auto simp: ld16_def ld32_def ld8_def)

lemma l4_offset_range:
  assumes "l4_offset n b = Some l4"
  shows "34 \<le> l4" "l4 + 4 \<le> n" "l4 \<le> 74" "b ! 23 = 6 \<or> b ! 23 = 17"
  using assms pos_mod_bound [of 16 "uint (b ! 14)"] by (auto simp: l4_offset_def Let_def split: if_splits)

lemma header_loads:
  assumes "34 \<le> l4" "l4 + 4 \<le> int (length (pkt st))"
  shows "\<exists>w. src_port st l4 = Some w" "\<exists>w. dst_port st l4 = Some w" "\<exists>w. src_addr st 14 = Some w"
    "\<exists>w. dst_addr st 14 = Some w" "\<exists>w. next_proto_id st 14 = Some w"
  using assms ld16_ok [of l4 "pkt st"] ld16_ok [of "l4 + 2" "pkt st"] ld32_ok [of 26 "pkt st"]
    ld32_ok [of 30 "pkt st"] ld8_ok [of 23 "pkt st"]
  by (auto simp: src_port_def dst_port_def src_addr_def dst_addr_def next_proto_id_def)

text \<open>Handlers that need only the IPv4 header.\<close>

definition ipv4_present :: "int \<Rightarrow> u8 list \<Rightarrow> bool" where
  "ipv4_present n b \<longleftrightarrow> (
     let rest = (n - 14) mod 65536; hlen = 4 * (uint (b ! 14) mod 16) in
     b ! 12 = 8 \<and> b ! 13 = 0 \<and> 20 \<le> rest \<and> 20 \<le> hlen \<and> 256 * uint (b ! 16) + uint (b ! 17) \<le> rest)"

lemma ipv4_present_length: "ipv4_present n b \<Longrightarrow> 14 \<le> n \<Longrightarrow> 34 \<le> n"
  using zmod_le_nonneg_dividend [of "n - 14" 65536] by (auto simp: ipv4_present_def Let_def)

lemma ipv4_header_then:
  assumes "fresh_packet n st"
  shows "\<exists>st'. pkt st' = pkt st \<and> (do {
      (eth, st) \<leftarrow> nf_then_get_rte_ether_header st;
      (ip_hdr, _, st) \<leftarrow> nf_then_get_rte_ipv4_header eth st;
      case ip_hdr of None \<Rightarrow> A st | Some ip \<Rightarrow> B ip st }) =
    (if ipv4_present n (pkt st) then B 14 st' else A st')"
proof -
  obtain st1 where st1: "nf_then_get_rte_ether_header st = Some (0, st1)" "io_ok n st1"
    "uint (global_read_length st1) = 14" "pkt st1 = pkt st" "length (chunks_borrowed st1) = 1" "14 \<le> n"
    using ether_header [of n st] assms by (auto simp: fresh_packet_def)
  obtain opts st2 where "nf_then_get_rte_ipv4_header 0 st1 =
      Some (if ipv4_present n (pkt st) then Some 14 else None, opts, st2)" "pkt st2 = pkt st"
    using ipv4_header_value [OF st1(2,3,5,6) st1(4) [symmetric] refl refl]
    unfolding ipv4_present_def Let_def by blast
  then show ?thesis using st1(1) by (intro exI [of _ st2]) auto
qed

section \<open>Returning the chunks\<close>

text \<open>Reading on: only the read length changes, and more chunks are borrowed.\<close>

definition reads_on :: "packet_io \<Rightarrow> packet_io \<Rightarrow> bool" where
  "reads_on st st' \<longleftrightarrow> pkt st' = pkt st \<and> global_total_length st' = global_total_length st \<and>
     (\<exists>cs. chunks_borrowed st' = chunks_borrowed st @ cs)"

lemma reads_on_refl [simp]: "reads_on st st"
  by (simp add: reads_on_def)

lemma reads_on_trans: "reads_on st st' \<Longrightarrow> reads_on st' st'' \<Longrightarrow> reads_on st st''"
  by (auto simp: reads_on_def)

lemma borrow_keeps:
  assumes "nf_borrow_next_chunk len st = Some (c, st')"
  shows "reads_on st st'" "chunks_borrowed st' = chunks_borrowed st @ [uint (global_read_length st)]"
  using assms
  by (auto simp: nf_borrow_next_chunk_def packet_borrow_next_chunk_def cassert_def reads_on_def split: if_splits)

lemma ipv4_keeps: "nf_then_get_rte_ipv4_header eth st = Some (h, opts, st') \<Longrightarrow> reads_on st st'"
  by (auto simp: nf_then_get_rte_ipv4_header_def Let_def split: bind_splits if_splits
      dest!: borrow_keeps(1)) (blast intro: reads_on_trans)+

lemma tcpudp_keeps: "nf_then_get_tcpudp_header ip st = Some (h, st') \<Longrightarrow> reads_on st st'"
  by (auto simp: nf_then_get_tcpudp_header_def split: bind_splits if_splits dest: borrow_keeps(1))

lemma nf_headers_keep:
  assumes "nf_headers st = Some (l4, st')"
  shows "reads_on st st'" "\<exists>cs. chunks_borrowed st' = chunks_borrowed st @ uint (global_read_length st) # cs"
proof -
  obtain eth st1 where st1: "nf_borrow_next_chunk 14 st = Some (eth, st1)" "reads_on st1 st'"
    using assms
    by (fastforce simp: nf_headers_def nf_then_get_rte_ether_header_def split: bind_splits option.splits
        dest: ipv4_keeps tcpudp_keeps intro: reads_on_trans)
  show "reads_on st st'" using borrow_keeps(1) [OF st1(1)] st1(2) by (rule reads_on_trans)
  show "\<exists>cs. chunks_borrowed st' = chunks_borrowed st @ uint (global_read_length st) # cs"
    using borrow_keeps(2) [OF st1(1)] st1(2) by (auto simp: reads_on_def)
qed

lemma nf_return_all_chunks_eq:
  assumes "chunks_borrowed st = c # cs" "0 \<le> c" "c < 2 ^ 32"
  shows "nf_return_all_chunks st = st\<lparr>global_read_length := word_of_int c, chunks_borrowed := []\<rparr>"
  using assms
proof (induction cs arbitrary: st rule: rev_induct)
  case Nil
  have "(ucast (word_of_int c :: u32) :: u64) = word_of_int c"
    using Nil by (simp add: ucast_eq uint_word_of_int)
  then show ?case
    using Nil by (simp add: nf_return_all_chunks.simps [of st] nf_return_all_chunks.simps packet_return_chunk_def)
next
  case (snoc d cs)
  then show ?case
    by (simp add: nf_return_all_chunks.simps [of st] packet_return_chunk_def butlast_append)
qed

section \<open>Properties\<close>

text \<open>
  C33. Reading the Ethernet, IPv4 and TCP/UDP headers of any packet of at least 14 bytes ends without a fault,
  leaves its bytes alone, and finds the ports where \<open>l4_offset\<close> says, always inside the packet. For packets of up to
  65549 bytes, whose length behind the Ethernet header fits 16 bits, and IPv4 options that fit in the packet, this means: the ports are found exactly
  when the packet has the IPv4 type, a header length of at least 20 bytes, a total length inside
  the packet, protocol TCP or UDP and 4 more bytes for the ports, and they are those right behind the options. Options that do not
  fit are not refused: the ports are then read at byte 34, where the options begin
  (\<open>oversized_options_accepted\<close>). In a longer packet the lengths are compared with the length modulo 65536.
\<close>

theorem nf_headers_correct:
  assumes "fresh_packet n st" and hlen: "hlen = 4 * (uint (pkt st ! 14) mod 16)"
  shows "\<exists>st'. nf_headers st = Some (l4_offset n (pkt st), st') \<and> pkt st' = pkt st \<and>
     (\<forall>l4. l4_offset n (pkt st) = Some l4 \<longrightarrow> 34 \<le> l4 \<and> l4 + 4 \<le> n) \<and>
     (n \<le> 65549 \<and> 14 + hlen \<le> n \<longrightarrow> (\<forall>l4. l4_offset n (pkt st) = Some l4 \<longleftrightarrow>
        pkt st ! 12 = 8 \<and> pkt st ! 13 = 0 \<and> 20 \<le> hlen \<and> 256 * uint (pkt st ! 16) + uint (pkt st ! 17) \<le> n - 14 \<and>
        (pkt st ! 23 = 6 \<or> pkt st ! 23 = 17) \<and> l4 = 14 + hlen \<and> l4 + 4 \<le> n)) \<and>
     (n \<le> 65549 \<and> n < 14 + hlen \<longrightarrow> (\<forall>l4. l4_offset n (pkt st) = Some l4 \<longrightarrow> l4 = 34))"
proof -
  have n: "14 \<le> n" using assms(1) by (simp add: fresh_packet_def)
  then have "(n - 14) mod 65536 = n - 14" if "n \<le> 65549" using that by simp
  then have "\<forall>l4. l4_offset n (pkt st) = Some l4 \<longleftrightarrow>
        pkt st ! 12 = 8 \<and> pkt st ! 13 = 0 \<and> 20 \<le> hlen \<and> 256 * uint (pkt st ! 16) + uint (pkt st ! 17) \<le> n - 14 \<and>
        (pkt st ! 23 = 6 \<or> pkt st ! 23 = 17) \<and> l4 = 14 + hlen \<and> l4 + 4 \<le> n" if "n \<le> 65549" "14 + hlen \<le> n"
    using that unfolding l4_offset_def Let_def hlen by auto
  moreover have "\<forall>l4. l4_offset n (pkt st) = Some l4 \<longrightarrow> l4 = 34" if "n \<le> 65549" "n < 14 + hlen"
    using that n unfolding l4_offset_def Let_def hlen by auto
  ultimately show ?thesis using nf_headers_value [OF assms(1)] l4_offset_range(1,2) by blast
qed

definition ex_packet :: packet_io where
  "ex_packet = \<lparr>pkt = replicate 12 0 @ [8, 0, 0x45, 0, 0, 46] @ replicate 5 0 @ [6, 0, 0, 10, 0, 0, 1, 10, 0, 0, 2,
     1, 0, 2, 0] @ replicate 40 0, global_total_length = 60, global_read_length = 0, chunks_borrowed = []\<rparr>"

lemma ex_packet_fresh: "fresh_packet 60 ex_packet"
  by (simp add: fresh_packet_def io_ok_def ex_packet_def)

lemma ex_packet_length: "length (pkt ex_packet) = 78"
  by (simp add: ex_packet_def)

lemma ex_packet_l4: "l4_offset 60 (pkt ex_packet) = Some 34"
  by code_simp

theorem nf_headers_correct_witness:
  "\<exists>st'. nf_headers ex_packet = Some (Some 34, st') \<and> pkt st' = pkt ex_packet"
  using nf_headers_correct [OF ex_packet_fresh refl] by (auto simp: ex_packet_l4)

text \<open>
  C34. Returning the borrowed chunks after the headers have been read gives back the packet as
  it was: nothing is borrowed and the next read starts at its first byte.
\<close>

theorem nf_return_all_chunks_restores:
  assumes "fresh_packet n st" "nf_headers st = Some (l4, st')"
  shows "nf_return_all_chunks st' = st"
proof -
  obtain cs where "chunks_borrowed st' = 0 # cs" "reads_on st st'"
    using nf_headers_keep [OF assms(2)] assms(1) by (auto simp: fresh_packet_def)
  then show ?thesis
    using assms(1) nf_return_all_chunks_eq [of st' 0 cs]
    by (cases st; cases st') (simp add: fresh_packet_def reads_on_def)
qed

theorem nf_return_all_chunks_restores_witness:
  "\<exists>st'. nf_headers ex_packet = Some (Some 34, st') \<and> nf_return_all_chunks st' = ex_packet"
  using nf_headers_value [OF ex_packet_fresh] nf_return_all_chunks_restores [OF ex_packet_fresh]
  by (auto simp: ex_packet_l4)

text \<open>
  A header length that reaches behind the end of the packet does not make the packet
  malformed: with \<open>ihl\<close> 15 in a packet of 42 bytes the ports are read at offset 34, where
  the options begin.
\<close>

lemma oversized_options_accepted:
  "\<exists>st'. nf_headers \<lparr>pkt = replicate 12 0 @ [8, 0, 0x4f, 0, 0, 28] @ replicate 5 0 @ [17] @ replicate 18 0,
      global_total_length = 42, global_read_length = 0, chunks_borrowed = []\<rparr> = Some (Some 34, st')"
  (is "\<exists>st'. nf_headers ?st = _")
proof -
  have "fresh_packet 42 ?st" by (simp add: fresh_packet_def io_ok_def)
  moreover have "l4_offset 42 (pkt ?st) = Some 34" by code_simp
  ultimately show ?thesis using nf_headers_value by metis
qed

end
