(* ===== verification/Vignat.thy ===== *)
theory Vignat
  imports Emap Packet_Io
begin

text \<open>
  The network address translator, \<open>vignat/nat_flowmanager.c\<close> and
  \<open>vignat/nat_main.c\<close>. The structure \<open>State\<close> is generated by the build from
  \<open>vignat/dataspec.ml\<close>; the fields the code uses are the fields of \<open>FlowManager\<close>.
  The function that allocates it is an argument of \<open>flow_manager_allocate\<close>.

  A flow at index \<open>i\<close> uses the external port \<open>start_port + i\<close>. The properties say
  that flows in use have different external ports, that a packet from the internal side
  leaves with the port of its flow, that a packet from outside is let in only as the reply of
  a flow in use, and that such a reply reaches the host that opened the flow.
\<close>

declare of_nat_unat [simp del]

section \<open>The code\<close>

record FlowId =
  fl_src_port :: u16
  fl_dst_port :: u16
  fl_src_ip :: u32
  fl_dst_ip :: u32
  fl_internal_device :: u16
  fl_protocol :: u8

record FlowManager =
  nat_fm :: "(FlowId kptr, FlowId) vmap"
  nat_fv :: "FlowId Vector"
  nat_heap :: DoubleChain
  nat_start_port :: u16
  nat_expiration :: u32

record nat_config =
  wan_device :: u16
  external_addr :: u32
  device_macs :: "u8 list list"
  endpoint_macs :: "u8 list list"

text \<open>
  \<open>malloc_ok\<close> says whether the manager could be allocated; \<open>alloc_state\<close> is the generated
  allocation of the map, the vector, the allocator and the first port.
\<close>

definition flow_manager_allocate ::
  "bool \<Rightarrow> (u64 \<Rightarrow> u16 \<Rightarrow> u32 \<Rightarrow> u16 \<Rightarrow> ((FlowId kptr, FlowId) vmap \<times> FlowId Vector \<times> DoubleChain \<times> u16) option)
   \<Rightarrow> u16 \<Rightarrow> u32 \<Rightarrow> u16 \<Rightarrow> u32 \<Rightarrow> u64 \<Rightarrow> FlowManager option" where
  "flow_manager_allocate malloc_ok alloc_state starting_port nat_ip nat_device exp max_flows =
     (if \<not> malloc_ok then None
      else case alloc_state max_flows starting_port nat_ip nat_device of
        None \<Rightarrow> None
      | Some (m, v, h, p) \<Rightarrow>
          Some \<lparr>nat_fm = m, nat_fv = v, nat_heap = h, nat_start_port = p, nat_expiration = exp\<rparr>)"

definition flow_manager_allocate_flow ::
  "bool \<Rightarrow> FlowManager \<Rightarrow> FlowId \<Rightarrow> u16 \<Rightarrow> vigor_time \<Rightarrow> u16 \<Rightarrow> (bool \<times> u16 \<times> FlowManager) option" where
  "flow_manager_allocate_flow pow2 manager fid internal_device time external_port = do {
     (ret, index, h) \<leftarrow> dchain_allocate_new_index (nat_heap manager) 0 time;
     let manager = manager\<lparr>nat_heap := h\<rparr>;
     if ret = 0 then Some (False, external_port, manager)
     else do {
       let external_port = word_of_int (uint (nat_start_port manager) + index);
       key \<leftarrow> vector_borrow (nat_fv manager) index;
       let v = vector_write (nat_fv manager) key fid;
       m \<leftarrow> map_put pow2 (key_at v) (nat_fm manager) (Slot key) index;
       Some (True, external_port, manager\<lparr>nat_fv := vector_return v index key, nat_fm := m\<rparr>)
     }
   }"

definition flow_manager_expire :: "bool \<Rightarrow> FlowManager \<Rightarrow> vigor_time \<Rightarrow> FlowManager option" where
  "flow_manager_expire pow2 manager time = do {
     cassert (time \<ge> 0);
     let last_time = s64_wrap (time - uint (nat_expiration manager) * 1000);
     (_, h, m) \<leftarrow> expire_items_single_map pow2 (nat_heap manager) (nat_fv manager) (nat_fm manager) last_time;
     Some (manager\<lparr>nat_heap := h, nat_fm := m\<rparr>)
   }"

definition flow_manager_get_internal ::
  "bool \<Rightarrow> FlowManager \<Rightarrow> FlowId \<Rightarrow> vigor_time \<Rightarrow> u16 \<Rightarrow> (bool \<times> u16 \<times> FlowManager) option" where
  "flow_manager_get_internal pow2 manager fid time external_port = do {
     (found, index) \<leftarrow> map_get pow2 (key_at (nat_fv manager)) (nat_fm manager) (Ext fid) 0;
     if found = 0 then Some (False, external_port, manager)
     else do {
       let external_port = word_of_int (index + uint (nat_start_port manager));
       (_, h) \<leftarrow> dchain_rejuvenate_index (nat_heap manager) index time;
       Some (True, external_port, manager\<lparr>nat_heap := h\<rparr>)
     }
   }"

definition flow_manager_get_external ::
  "FlowManager \<Rightarrow> u16 \<Rightarrow> vigor_time \<Rightarrow> (FlowId option \<times> FlowManager) option" where
  "flow_manager_get_external manager external_port time = do {
     let index = uint external_port - uint (nat_start_port manager);
     allocated \<leftarrow> dchain_is_index_allocated (nat_heap manager) index;
     if allocated = 0 then Some (None, manager)
     else do {
       key \<leftarrow> vector_borrow (nat_fv manager) index;
       let out_flow = v_data (nat_fv manager) ! key;
       (_, h) \<leftarrow> dchain_rejuvenate_index (nat_heap manager) index time;
       Some (Some out_flow, manager\<lparr>nat_heap := h\<rparr>)
     }
   }"

text \<open>
  The two directions of \<open>nf_process\<close>. The result has no device when the packet is dropped.
\<close>

definition nat_from_wan ::
  "FlowManager \<Rightarrow> int \<Rightarrow> int \<Rightarrow> packet_io \<Rightarrow> vigor_time
   \<Rightarrow> (u16 option \<times> packet_io \<times> FlowManager) option" where
  "nat_from_wan manager ip l4 st now = do {
     port \<leftarrow> dst_port st l4;
     (flow, manager) \<leftarrow> flow_manager_get_external manager port now;
     case flow of
       None \<Rightarrow> Some (None, st, manager)
     | Some internal_flow \<Rightarrow> do {
         saddr \<leftarrow> src_addr st ip;
         sport \<leftarrow> src_port st l4;
         proto \<leftarrow> next_proto_id st ip;
         if fl_dst_ip internal_flow \<noteq> saddr \<or> fl_dst_port internal_flow \<noteq> sport \<or>
            fl_protocol internal_flow \<noteq> proto then Some (None, st, manager)
         else do {
           b \<leftarrow> st32 (pkt st) (ip + 16) (fl_src_ip internal_flow);
           b \<leftarrow> st16 b (l4 + 2) (fl_src_port internal_flow);
           Some (Some (fl_internal_device internal_flow), st\<lparr>pkt := b\<rparr>, manager)
         }
       }
   }"

definition nat_from_lan ::
  "bool \<Rightarrow> nat_config \<Rightarrow> FlowManager \<Rightarrow> u16 \<Rightarrow> int \<Rightarrow> int \<Rightarrow> packet_io \<Rightarrow> vigor_time
   \<Rightarrow> (u16 option \<times> packet_io \<times> FlowManager) option" where
  "nat_from_lan pow2 config manager device ip l4 st now = do {
     sport \<leftarrow> src_port st l4;
     dport \<leftarrow> dst_port st l4;
     saddr \<leftarrow> src_addr st ip;
     daddr \<leftarrow> dst_addr st ip;
     proto \<leftarrow> next_proto_id st ip;
     let fid = \<lparr>fl_src_port = sport, fl_dst_port = dport, fl_src_ip = saddr, fl_dst_ip = daddr,
               fl_internal_device = device, fl_protocol = proto\<rparr>;
     (known, port, manager) \<leftarrow> flow_manager_get_internal pow2 manager fid now 0;
     (ok, port, manager) \<leftarrow>
       (if \<not> known then flow_manager_allocate_flow pow2 manager fid device now port
        else Some (True, port, manager));
     if \<not> ok then Some (None, st, manager)
     else do {
       b \<leftarrow> st32 (pkt st) (ip + 12) (external_addr config);
       b \<leftarrow> st16 b l4 port;
       Some (Some (wan_device config), st\<lparr>pkt := b\<rparr>, manager)
     }
   }"

definition nat_send ::
  "nat_config \<Rightarrow> cksums \<Rightarrow> int \<Rightarrow> int \<Rightarrow> int \<Rightarrow> u16 \<Rightarrow> packet_io \<Rightarrow> packet_io option" where
  "nat_send config cks eth ip l4 dst_device st = do {
     b \<leftarrow> nf_set_rte_ipv4_udptcp_checksum cks ip l4 (pkt st);
     smac \<leftarrow> arr_get (device_macs config) (uint dst_device);
     b \<leftarrow> st_bytes b (eth + 6) smac;
     dmac \<leftarrow> arr_get (endpoint_macs config) (uint dst_device);
     b \<leftarrow> st_bytes b eth dmac;
     Some (st\<lparr>pkt := b\<rparr>)
   }"

definition nat_process ::
  "bool \<Rightarrow> nat_config \<Rightarrow> cksums \<Rightarrow> FlowManager \<Rightarrow> u16 \<Rightarrow> packet_io \<Rightarrow> vigor_time
   \<Rightarrow> (u16 \<times> packet_io \<times> FlowManager) option" where
  "nat_process pow2 config cks manager device st now = do {
     manager \<leftarrow> flow_manager_expire pow2 manager now;
     (eth, st) \<leftarrow> nf_then_get_rte_ether_header st;
     (ip_hdr, _, st) \<leftarrow> nf_then_get_rte_ipv4_header eth st;
     case ip_hdr of
       None \<Rightarrow> Some (device, st, manager)
     | Some ip \<Rightarrow> do {
         (l4_hdr, st) \<leftarrow> nf_then_get_tcpudp_header ip st;
         case l4_hdr of
           None \<Rightarrow> Some (device, st, manager)
         | Some l4 \<Rightarrow> do {
             (dst_device, st, manager) \<leftarrow>
               (if device = wan_device config then nat_from_wan manager ip l4 st now
                else nat_from_lan pow2 config manager device ip l4 st now);
             case dst_device of
               None \<Rightarrow> Some (device, st, manager)
             | Some dst \<Rightarrow> do {
                 st \<leftarrow> nat_send config cks eth ip l4 dst st;
                 Some (dst, st, manager)
               }
           }
       }
   }"

section \<open>The flow manager\<close>

text \<open>
  \<open>nat_ok\<close>: the table is coherent with the abstract chain \<open>ch\<close> and every index has a
  port of its own. \<open>nat_flow ch manager i\<close> is the flow at an index in use.
\<close>

definition nat_ok :: "bool \<Rightarrow> dchain \<Rightarrow> FlowManager \<Rightarrow> bool" where
  "nat_ok pow2 ch manager \<longleftrightarrow>
     flow_table_ok pow2 ch (nat_heap manager) (nat_fv manager) (nat_fm manager) \<and>
     uint (nat_start_port manager) + dchain_index_range_fp ch \<le> 65536"

definition nat_flow :: "dchain \<Rightarrow> FlowManager \<Rightarrow> int \<Rightarrow> FlowId option" where
  "nat_flow ch manager = flow_at (nat_fv manager) ch"

definition nat_emap :: "dchain \<Rightarrow> FlowManager \<Rightarrow> FlowId emap" where
  "nat_emap ch manager = emap_of (nat_fv manager) ch"

definition nat_port :: "FlowManager \<Rightarrow> int \<Rightarrow> u16" where
  "nat_port manager i = word_of_int (uint (nat_start_port manager) + i)"

definition nat_expired :: "dchain \<Rightarrow> FlowManager \<Rightarrow> vigor_time \<Rightarrow> dchain" where
  "nat_expired ch manager now = dchain_expire_old_indexes_fp ch (now - uint (nat_expiration manager) * 1000)"

text \<open>
  \<open>nat_touched\<close>: the flow \<open>k\<close> is now at index \<open>i\<close>, used at time \<open>now\<close>, and
  nothing else has changed.
\<close>

definition nat_touched ::
  "bool \<Rightarrow> dchain \<Rightarrow> FlowManager \<Rightarrow> int \<Rightarrow> FlowId \<Rightarrow> vigor_time \<Rightarrow> dchain \<Rightarrow> FlowManager \<Rightarrow> bool" where
  "nat_touched pow2 ch manager i k now ch' manager' \<longleftrightarrow>
     nat_ok pow2 ch' manager' \<and>
     nat_emap ch' manager' =
       (if emap_has (nat_emap ch manager) k then emap_refresh_idx (nat_emap ch manager) i now
        else emap_add (nat_emap ch manager) k i now) \<and>
     nat_flow ch' manager' = (nat_flow ch manager)(i \<mapsto> k) \<and>
     dchain_get_time_fp ch' = (dchain_get_time_fp ch)(i \<mapsto> now) \<and> dchain_high_fp ch' = now \<and>
     dchain_index_range_fp ch' = dchain_index_range_fp ch \<and>
     nat_start_port manager' = nat_start_port manager \<and> nat_expiration manager' = nat_expiration manager"

lemma nat_ok_table:
  "nat_ok pow2 ch manager \<Longrightarrow> flow_table_ok pow2 ch (nat_heap manager) (nat_fv manager) (nat_fm manager)"
  by (simp add: nat_ok_def)

lemma nat_index_range:
  assumes "nat_ok pow2 ch manager" "nat_flow ch manager i = Some k"
  shows "0 \<le> i" "i < dchain_index_range_fp ch" "uint (nat_port manager i) = uint (nat_start_port manager) + i"
proof -
  show r: "0 \<le> i" "i < dchain_index_range_fp ch"
    using flow_at_range(2,3) [OF nat_ok_table [OF assms(1)]] assms(2) by (simp_all add: nat_flow_def)
  have "0 \<le> uint (nat_start_port manager) + i" "uint (nat_start_port manager) + i < 65536"
    using r assms(1) by (auto simp: nat_ok_def)
  then show "uint (nat_port manager i) = uint (nat_start_port manager) + i"
    unfolding nat_port_def uint_word_of_int by simp
qed

lemma flow_manager_expire_spec:
  assumes ok: "nat_ok pow2 ch manager" and now: "0 \<le> now" "now < 2 ^ 63"
  shows "\<exists>manager'. flow_manager_expire pow2 manager now = Some manager' \<and>
     nat_ok pow2 (nat_expired ch manager now) manager' \<and> nat_fv manager' = nat_fv manager \<and>
     nat_start_port manager' = nat_start_port manager \<and> nat_expiration manager' = nat_expiration manager"
proof -
  let ?t = "now - uint (nat_expiration manager) * 1000"
  obtain h m where
    "expire_items_single_map pow2 (nat_heap manager) (nat_fv manager) (nat_fm manager) ?t =
       Some (int (length (dchain_get_expired_indexes_fp ch ?t)), h, m)"
    "flow_table_ok pow2 (dchain_expire_old_indexes_fp ch ?t) h (nat_fv manager) m"
    using expire_items_single_map_spec [OF nat_ok_table [OF ok], of ?t] by blast
  then show ?thesis
    using ok now by (simp add: flow_manager_expire_def nat_ok_def nat_expired_def cassert_def last_time_wrap)
qed

lemma nat_rejuvenate:
  assumes ok: "nat_ok pow2 ch manager" and time: "dchain_high_fp ch \<le> now"
    and i: "nat_flow ch manager i = Some k"
  shows "\<exists>h. dchain_rejuvenate_index (nat_heap manager) i now = Some (1, h) \<and>
     nat_touched pow2 ch manager i k now (dchain_rejuvenate_fp ch i now) (manager\<lparr>nat_heap := h\<rparr>)"
proof -
  note ft = nat_ok_table [OF ok]
  have mem: "i \<in> set (dchain_indexes_fp ch)" using flow_at_range(1) [OF ft] i by (simp add: nat_flow_def)
  from flow_table_rejuvenate [OF ft mem time] obtain h where
    "dchain_rejuvenate_index (nat_heap manager) i now = Some (1, h)"
    "flow_table_ok pow2 (dchain_rejuvenate_fp ch i now) h (nat_fv manager) (nat_fm manager)" by blast
  moreover have "double_chainp ch (nat_heap manager)" using ft by (simp add: flow_table_ok_def)
  ultimately show ?thesis
    using ok i flow_at_rejuvenate [OF ft mem] dchain_time_ops(2) [of ch "nat_heap manager" i now]
      emap_of_refresh [OF ft mem, of now] emap_of_lookup(1) [OF ft, of k]
    by (auto simp: nat_touched_def nat_ok_def nat_flow_def nat_emap_def)
qed

lemma flow_manager_get_internal_spec:
  assumes ok: "nat_ok pow2 ch manager" and time: "dchain_high_fp ch \<le> now"
  shows "nat_flow ch manager i = Some k \<Longrightarrow>
      \<exists>manager'. flow_manager_get_internal pow2 manager k now p = Some (True, nat_port manager i, manager') \<and>
        nat_touched pow2 ch manager i k now (dchain_rejuvenate_fp ch i now) manager'"
    "(\<forall>i. nat_flow ch manager i \<noteq> Some k) \<Longrightarrow>
      flow_manager_get_internal pow2 manager k now p = Some (False, p, manager)"
proof -
  note ft = nat_ok_table [OF ok]
  note get = flow_table_get [OF ft, of "Ext k" 0]
  show "flow_manager_get_internal pow2 manager k now p = Some (False, p, manager)"
    if "\<forall>i. nat_flow ch manager i \<noteq> Some k"
    using that get flow_at_index(2) [OF ft, of k] by (simp add: flow_manager_get_internal_def nat_flow_def)
  show "\<exists>manager'. flow_manager_get_internal pow2 manager k now p = Some (True, nat_port manager i, manager') \<and>
        nat_touched pow2 ch manager i k now (dchain_rejuvenate_fp ch i now) manager'"
    if i: "nat_flow ch manager i = Some k"
    using nat_rejuvenate [OF ok time i] get i flow_at_index(1) [OF ft, of k i]
    by (auto simp: flow_manager_get_internal_def nat_flow_def nat_port_def add.commute)
qed

lemma flow_manager_allocate_flow_spec:
  assumes ok: "nat_ok pow2 ch manager" and time: "dchain_high_fp ch \<le> now"
    and new: "\<forall>i. nat_flow ch manager i \<noteq> Some k"
  shows "dchain_out_of_space_fp ch \<Longrightarrow>
      flow_manager_allocate_flow pow2 manager k dev now p = Some (False, p, manager)"
    "\<not> dchain_out_of_space_fp ch \<Longrightarrow>
      \<exists>i manager'. flow_manager_allocate_flow pow2 manager k dev now p = Some (True, nat_port manager i, manager') \<and>
        nat_flow ch manager i = None \<and>
        nat_touched pow2 ch manager i k now (dchain_allocate_fp ch i now) manager'"
proof -
  note ft = nat_ok_table [OF ok]
  then have rep: "double_chainp ch (nat_heap manager)" by (simp add: flow_table_ok_def)
  show "flow_manager_allocate_flow pow2 manager k dev now p = Some (False, p, manager)"
    if "dchain_out_of_space_fp ch"
    using dchain_allocate_new_index_full [OF rep that, of 0 now] by (simp add: flow_manager_allocate_flow_def)
  show "\<exists>i manager'. flow_manager_allocate_flow pow2 manager k dev now p = Some (True, nat_port manager i, manager') \<and>
        nat_flow ch manager i = None \<and>
        nat_touched pow2 ch manager i k now (dchain_allocate_fp ch i now) manager'"
    if room: "\<not> dchain_out_of_space_fp ch"
  proof -
    obtain i h where run: "dchain_allocate_new_index (nat_heap manager) 0 now = Some (1, i, h)"
      "\<not> dchain_allocated_fp ch i" "0 \<le> i" "i < dchain_index_range_fp ch"
      "double_chainp (dchain_allocate_fp ch i now) h"
      using dchain_allocate_new_index_refines [OF rep room time] by blast
    have none: "flow_index (nat_fv manager) (dchain_indexes_fp ch) k = None"
      using new flow_at_index(2) [OF ft] by (simp add: nat_flow_def)
    have notin: "i \<notin> set (dchain_indexes_fp ch)" using run(2) by (simp add: dchain_allocated_indexes)
    note ins = flow_table_insert [OF ft run(2,3,4) room run(5) none]
    obtain m where m: "map_put pow2 (key_at (vector_write (nat_fv manager) (nat i) k)) (nat_fm manager) (Slot (nat i)) i = Some m"
      "flow_table_ok pow2 (dchain_allocate_fp ch i now) h (vector_write (nat_fv manager) (nat i) k) m"
      using ins(2) by blast
    let ?mgr = "manager\<lparr>nat_heap := h, nat_fv := vector_write (nat_fv manager) (nat i) k, nat_fm := m\<rparr>"
    have "flow_manager_allocate_flow pow2 manager k dev now p = Some (True, nat_port manager i, ?mgr)"
      using run m ins(1) by (simp add: flow_manager_allocate_flow_def nat_port_def)
    moreover have "nat_touched pow2 ch manager i k now (dchain_allocate_fp ch i now) ?mgr"
      using m(2) ok flow_at_allocate [OF ft notin run(3,4), of k now] dchain_time_ops(1) [OF rep run(2), of now]
        emap_of_add [OF ft notin run(3,4) none, of now] emap_of_lookup(1) [OF ft, of k] new
      by (simp add: nat_touched_def nat_ok_def nat_flow_def nat_emap_def)
    moreover have "nat_flow ch manager i = None" using notin by (simp add: nat_flow_def flow_at_def)
    ultimately show ?thesis by blast
  qed
qed

lemma flow_manager_get_external_spec:
  assumes ok: "nat_ok pow2 ch manager" and time: "dchain_high_fp ch \<le> now"
    and i: "i = uint p - uint (nat_start_port manager)" "0 \<le> i" "i < dchain_index_range_fp ch"
  shows "nat_flow ch manager i = None \<Longrightarrow> flow_manager_get_external manager p now = Some (None, manager)"
    "nat_flow ch manager i = Some k \<Longrightarrow>
      \<exists>manager'. flow_manager_get_external manager p now = Some (Some k, manager') \<and>
        nat_touched pow2 ch manager i k now (dchain_rejuvenate_fp ch i now) manager'"
proof -
  note ft = nat_ok_table [OF ok]
  have alloc: "dchain_is_index_allocated (nat_heap manager) i =
      Some (if nat_flow ch manager i = None then 0 else 1)"
    using dchain_is_index_allocated_refines [of ch "nat_heap manager" i] ft i(2,3)
    by (simp add: dchain_allocated_indexes flow_table_ok_def nat_flow_def flow_at_def)
  show "flow_manager_get_external manager p now = Some (None, manager)" if "nat_flow ch manager i = None"
    using alloc that by (simp add: flow_manager_get_external_def i(1))
  show "\<exists>manager'. flow_manager_get_external manager p now = Some (Some k, manager') \<and>
        nat_touched pow2 ch manager i k now (dchain_rejuvenate_fp ch i now) manager'"
    if k: "nat_flow ch manager i = Some k"
    using alloc k nat_rejuvenate [OF ok time k] flow_at_range(4,5) [OF ft, of i k]
    by (auto simp: flow_manager_get_external_def i(1) nat_flow_def)
qed

text \<open>The port of a packet is not checked: one outside the range of the table leads outside the cells.\<close>

lemma flow_manager_get_external_outside:
  assumes "nat_ok pow2 ch manager"
    "uint p + 2 < uint (nat_start_port manager) \<or> uint (nat_start_port manager) + dchain_index_range_fp ch \<le> uint p"
  shows "flow_manager_get_external manager p time = None"
proof -
  let ?i = "uint p - uint (nat_start_port manager)"
  have "int (length (ch_cells (nat_heap manager))) = dchain_index_range_fp ch + 2"
    using nat_ok_table [OF assms(1)]
    by (auto simp: flow_table_ok_def double_chainp_def dchainip_def dchain_links_def)
  then have "get_next (ch_cells (nat_heap manager)) (?i + 2) = None"
    using assms(2) by (auto simp: get_next_def arr_get_def)
  then show ?thesis
    by (cases "s32 (?i + 2)")
      (auto simp: flow_manager_get_external_def dchain_is_index_allocated_def dchain_impl_is_index_allocated_def
        INDEX_SHIFT_def s32_def Let_def split: if_splits)
qed

text \<open>A flow is only found at an index of the table.\<close>

lemma flow_manager_get_external_found:
  assumes ok: "nat_ok pow2 ch manager" and found: "flow_manager_get_external manager p time = Some (Some k, manager')"
  shows "uint (nat_start_port manager) \<le> uint p" "uint p - uint (nat_start_port manager) < dchain_index_range_fp ch"
proof -
  have "vector_wf (nat_fv manager)" using nat_ok_table [OF ok] by (simp add: flow_table_ok_def)
  moreover have "vector_borrow (nat_fv manager) (uint p - uint (nat_start_port manager)) \<noteq> None"
    using found by (auto simp: flow_manager_get_external_def Let_def split: bind_splits if_splits)
  ultimately show "uint (nat_start_port manager) \<le> uint p"
    using vector_borrow_outside [of "nat_fv manager" "uint p - uint (nat_start_port manager)"] by (cases "uint (nat_start_port manager) \<le> uint p") auto
  show "uint p - uint (nat_start_port manager) < dchain_index_range_fp ch"
    using flow_manager_get_external_outside [OF ok, of p time] found by fastforce
qed

section \<open>Packets\<close>

text \<open>The flow of a packet that comes from the internal side.\<close>

definition packet_flow :: "packet_io \<Rightarrow> u16 \<Rightarrow> int \<Rightarrow> int \<Rightarrow> FlowId option" where
  "packet_flow st device ip l4 = do {
     sport \<leftarrow> src_port st l4;
     dport \<leftarrow> dst_port st l4;
     saddr \<leftarrow> src_addr st ip;
     daddr \<leftarrow> dst_addr st ip;
     proto \<leftarrow> next_proto_id st ip;
     Some \<lparr>fl_src_port = sport, fl_dst_port = dport, fl_src_ip = saddr, fl_dst_ip = daddr,
           fl_internal_device = device, fl_protocol = proto\<rparr>
   }"

definition nat_config_ok :: "nat_config \<Rightarrow> bool" where
  "nat_config_ok config \<longleftrightarrow>
     length (device_macs config) = length (endpoint_macs config) \<and>
     uint (wan_device config) < int (length (device_macs config)) \<and>
     (\<forall>mac \<in> set (device_macs config) \<union> set (endpoint_macs config). length mac = 6)"

lemma packet_flow_ok:
  assumes "34 \<le> l4" "l4 + 4 \<le> int (length (pkt st))"
  shows "\<exists>k. packet_flow st device 14 l4 = Some k \<and> fl_internal_device k = device"
  using header_loads [OF assms] by (auto simp: packet_flow_def)

lemma packet_flow_fields:
  assumes "packet_flow st device 14 l4 = Some k"
  shows "src_port st l4 = Some (fl_src_port k)" "dst_port st l4 = Some (fl_dst_port k)"
    "src_addr st 14 = Some (fl_src_ip k)" "dst_addr st 14 = Some (fl_dst_ip k)"
    "next_proto_id st 14 = Some (fl_protocol k)" "fl_internal_device k = device"
  using assms by (auto simp: packet_flow_def split: bind_splits)

lemma rewrite_fields:
  assumes "34 \<le> l4" "l4 + 4 \<le> int (length (pkt st))" "i = 26 \<and> j = l4 \<or> i = 30 \<and> j = l4 + 2"
  shows "\<exists>b b'. st32 (pkt st) i a = Some b \<and> st16 b j p = Some b' \<and> length b' = length (pkt st) \<and>
     ld32 b' i = Some a \<and> ld16 b' j = Some p \<and>
     ld32 b' (56 - i) = ld32 (pkt st) (56 - i) \<and> ld16 b' (2 * l4 + 2 - j) = ld16 (pkt st) (2 * l4 + 2 - j) \<and>
     ld8 b' 23 = ld8 (pkt st) 23 \<and> ld_bytes b' 12 12 = ld_bytes (pkt st) 12 12"
proof -
  obtain b where b: "st32 (pkt st) i a = Some b" "length b = length (pkt st)"
    using st32_ok [of i "pkt st" a] assms by auto
  obtain b' where b': "st16 b j p = Some b'" "length b' = length b"
    using st16_ok [of j b p] assms b by auto
  have "ld_bytes b' 12 12 = ld_bytes (pkt st) 12 12"
    using st16_ld(3) [OF b'(1), of 12 12] st32_ld(3) [OF b(1), of 12 12] assms by auto
  then show ?thesis
    using b b' assms st32_ld(1) [OF b(1)] st16_ld(1) [OF b'(1)] st16_fields [OF b'(1)] st32_fields [OF b(1)]
    by auto
qed

text \<open>The index of a flow, or a free one for a flow that has none.\<close>

definition nat_slot :: "dchain \<Rightarrow> FlowManager \<Rightarrow> FlowId \<Rightarrow> int \<Rightarrow> bool" where
  "nat_slot ch manager k i \<longleftrightarrow>
     nat_flow ch manager i = Some k \<or> nat_flow ch manager i = None \<and> (\<forall>j. nat_flow ch manager j \<noteq> Some k)"

lemma nat_from_lan_spec:
  assumes ok: "nat_ok pow2 ch manager" and time: "dchain_high_fp ch \<le> now"
    and l4: "34 \<le> l4" "l4 + 4 \<le> int (length (pkt st))" and k: "packet_flow st device 14 l4 = Some k"
  shows "(\<exists>i. nat_flow ch manager i = Some k) \<or> \<not> dchain_out_of_space_fp ch \<Longrightarrow>
      \<exists>i ch' manager' st'. nat_from_lan pow2 config manager device 14 l4 st now =
          Some (Some (wan_device config), st', manager') \<and>
        nat_slot ch manager k i \<and> nat_touched pow2 ch manager i k now ch' manager' \<and>
        src_addr st' 14 = Some (external_addr config) \<and> src_port st' l4 = Some (nat_port manager i) \<and>
        dst_addr st' 14 = Some (fl_dst_ip k) \<and> dst_port st' l4 = Some (fl_dst_port k) \<and>
        next_proto_id st' 14 = Some (fl_protocol k) \<and> length (pkt st') = length (pkt st) \<and>
        ld_bytes (pkt st') 12 12 = ld_bytes (pkt st) 12 12"
    "(\<forall>i. nat_flow ch manager i \<noteq> Some k) \<and> dchain_out_of_space_fp ch \<Longrightarrow>
      nat_from_lan pow2 config manager device 14 l4 st now = Some (None, st, manager)"
proof -
  note f = packet_flow_fields [OF k]
  have k_eq: "\<lparr>fl_src_port = fl_src_port k, fl_dst_port = fl_dst_port k, fl_src_ip = fl_src_ip k,
      fl_dst_ip = fl_dst_ip k, fl_internal_device = device, fl_protocol = fl_protocol k\<rparr> = k"
    using f(6) by (cases k) simp
  show "nat_from_lan pow2 config manager device 14 l4 st now = Some (None, st, manager)"
    if "(\<forall>i. nat_flow ch manager i \<noteq> Some k) \<and> dchain_out_of_space_fp ch"
    using that f(1-5) flow_manager_get_internal_spec(2) [OF ok time, of k 0]
      flow_manager_allocate_flow_spec(1) [OF ok time, of k device 0]
    by (simp add: nat_from_lan_def k_eq Let_def)
  show "\<exists>i ch' manager' st'. nat_from_lan pow2 config manager device 14 l4 st now =
          Some (Some (wan_device config), st', manager') \<and>
        nat_slot ch manager k i \<and> nat_touched pow2 ch manager i k now ch' manager' \<and>
        src_addr st' 14 = Some (external_addr config) \<and> src_port st' l4 = Some (nat_port manager i) \<and>
        dst_addr st' 14 = Some (fl_dst_ip k) \<and> dst_port st' l4 = Some (fl_dst_port k) \<and>
        next_proto_id st' 14 = Some (fl_protocol k) \<and> length (pkt st') = length (pkt st) \<and>
        ld_bytes (pkt st') 12 12 = ld_bytes (pkt st) 12 12"
    if room: "(\<exists>i. nat_flow ch manager i = Some k) \<or> \<not> dchain_out_of_space_fp ch"
  proof -
    have "\<exists>i ch' manager'. nat_touched pow2 ch manager i k now ch' manager' \<and>
        nat_slot ch manager k i \<and>
        (do { (known, port, manager) \<leftarrow> flow_manager_get_internal pow2 manager k now 0;
             if \<not> known then flow_manager_allocate_flow pow2 manager k device now port
             else Some (True, port, manager) }) = Some (True, nat_port manager i, manager')"
    proof (cases "\<exists>i. nat_flow ch manager i = Some k")
      case True
      then obtain i where i: "nat_flow ch manager i = Some k" by blast
      from flow_manager_get_internal_spec(1) [OF ok time i, of 0] i show ?thesis by (fastforce simp: nat_slot_def)
    next
      case False
      then obtain i manager' where
        "flow_manager_allocate_flow pow2 manager k device now 0 = Some (True, nat_port manager i, manager')"
        "nat_flow ch manager i = None" "nat_touched pow2 ch manager i k now (dchain_allocate_fp ch i now) manager'"
        using flow_manager_allocate_flow_spec(2) [OF ok time, of k device 0] room by auto
      then show ?thesis using flow_manager_get_internal_spec(2) [OF ok time, of k 0] False by (fastforce simp: nat_slot_def)
    qed
    then obtain i ch' manager' where run: "nat_touched pow2 ch manager i k now ch' manager'"
      "nat_slot ch manager k i"
      "(do { (known, port, manager) \<leftarrow> flow_manager_get_internal pow2 manager k now 0;
             if \<not> known then flow_manager_allocate_flow pow2 manager k device now port
             else Some (True, port, manager) }) = Some (True, nat_port manager i, manager')" by blast
    obtain b b' where b: "st32 (pkt st) 26 (external_addr config) = Some b"
      "st16 b l4 (nat_port manager i) = Some b'" "length b' = length (pkt st)"
      "ld32 b' 26 = Some (external_addr config)" "ld16 b' l4 = Some (nat_port manager i)"
      "ld32 b' 30 = ld32 (pkt st) 30" "ld16 b' (l4 + 2) = ld16 (pkt st) (l4 + 2)" "ld8 b' 23 = ld8 (pkt st) 23"
      "ld_bytes b' 12 12 = ld_bytes (pkt st) 12 12"
      using rewrite_fields [OF l4, of 26 l4 "external_addr config" "nat_port manager i"] by auto
    have "nat_from_lan pow2 config manager device 14 l4 st now =
        Some (Some (wan_device config), st\<lparr>pkt := b'\<rparr>, manager')"
      using f(1-5) run(3) b(1,2)
      by (auto simp: nat_from_lan_def k_eq Let_def split: bind_splits if_splits)
    then show ?thesis
      using run(1,2) b f
      by (intro exI [of _ i] exI [of _ ch'] exI [of _ manager'] exI [of _ "st\<lparr>pkt := b'\<rparr>"])
        (simp add: src_addr_def dst_addr_def src_port_def dst_port_def next_proto_id_def)
  qed
qed

lemma nat_from_wan_spec:
  assumes ok: "nat_ok pow2 ch manager" and time: "dchain_high_fp ch \<le> now"
    and l4: "34 \<le> l4" "l4 + 4 \<le> int (length (pkt st))" and p: "packet_flow st device 14 l4 = Some p"
    and i: "i = uint (fl_dst_port p) - uint (nat_start_port manager)" "0 \<le> i" "i < dchain_index_range_fp ch"
  shows "nat_flow ch manager i = None \<Longrightarrow> nat_from_wan manager 14 l4 st now = Some (None, st, manager)"
    "nat_flow ch manager i = Some k \<Longrightarrow>
      fl_dst_ip k \<noteq> fl_src_ip p \<or> fl_dst_port k \<noteq> fl_src_port p \<or> fl_protocol k \<noteq> fl_protocol p \<Longrightarrow>
      \<exists>ch' manager'. nat_from_wan manager 14 l4 st now = Some (None, st, manager') \<and>
        nat_touched pow2 ch manager i k now ch' manager'"
    "nat_flow ch manager i = Some k \<Longrightarrow>
      fl_dst_ip k = fl_src_ip p \<and> fl_dst_port k = fl_src_port p \<and> fl_protocol k = fl_protocol p \<Longrightarrow>
      \<exists>ch' manager' st'. nat_from_wan manager 14 l4 st now =
          Some (Some (fl_internal_device k), st', manager') \<and>
        nat_touched pow2 ch manager i k now ch' manager' \<and>
        dst_addr st' 14 = Some (fl_src_ip k) \<and> dst_port st' l4 = Some (fl_src_port k) \<and>
        src_addr st' 14 = Some (fl_dst_ip k) \<and> src_port st' l4 = Some (fl_dst_port k) \<and>
        next_proto_id st' 14 = Some (fl_protocol k) \<and> length (pkt st') = length (pkt st) \<and>
        ld_bytes (pkt st') 12 12 = ld_bytes (pkt st) 12 12"
proof -
  note f = packet_flow_fields [OF p]
  note ext = flow_manager_get_external_spec [OF ok time i]
  show "nat_from_wan manager 14 l4 st now = Some (None, st, manager)" if "nat_flow ch manager i = None"
    using ext(1) [OF that] f by (simp add: nat_from_wan_def)
  show "\<exists>ch' manager'. nat_from_wan manager 14 l4 st now = Some (None, st, manager') \<and>
        nat_touched pow2 ch manager i k now ch' manager'"
    if "nat_flow ch manager i = Some k"
      "fl_dst_ip k \<noteq> fl_src_ip p \<or> fl_dst_port k \<noteq> fl_src_port p \<or> fl_protocol k \<noteq> fl_protocol p"
    using ext(2) [OF that(1)] that(2) f by (fastforce simp: nat_from_wan_def)
  show "\<exists>ch' manager' st'. nat_from_wan manager 14 l4 st now =
          Some (Some (fl_internal_device k), st', manager') \<and>
        nat_touched pow2 ch manager i k now ch' manager' \<and>
        dst_addr st' 14 = Some (fl_src_ip k) \<and> dst_port st' l4 = Some (fl_src_port k) \<and>
        src_addr st' 14 = Some (fl_dst_ip k) \<and> src_port st' l4 = Some (fl_dst_port k) \<and>
        next_proto_id st' 14 = Some (fl_protocol k) \<and> length (pkt st') = length (pkt st) \<and>
        ld_bytes (pkt st') 12 12 = ld_bytes (pkt st) 12 12"
    if k: "nat_flow ch manager i = Some k"
      "fl_dst_ip k = fl_src_ip p \<and> fl_dst_port k = fl_src_port p \<and> fl_protocol k = fl_protocol p"
  proof -
    obtain manager' where run: "flow_manager_get_external manager (fl_dst_port p) now = Some (Some k, manager')"
      "nat_touched pow2 ch manager i k now (dchain_rejuvenate_fp ch i now) manager'"
      using ext(2) [OF k(1)] by blast
    obtain b b' where b: "st32 (pkt st) 30 (fl_src_ip k) = Some b"
      "st16 b (l4 + 2) (fl_src_port k) = Some b'" "length b' = length (pkt st)"
      "ld32 b' 30 = Some (fl_src_ip k)" "ld16 b' (l4 + 2) = Some (fl_src_port k)"
      "ld32 b' 26 = ld32 (pkt st) 26" "ld16 b' l4 = ld16 (pkt st) l4" "ld8 b' 23 = ld8 (pkt st) 23"
      "ld_bytes b' 12 12 = ld_bytes (pkt st) 12 12"
      using rewrite_fields [OF l4, of 30 "l4 + 2" "fl_src_ip k" "fl_src_port k"] by auto
    have "nat_from_wan manager 14 l4 st now = Some (Some (fl_internal_device k), st\<lparr>pkt := b'\<rparr>, manager')"
      using f run(1) k(2) b(1,2) by (simp add: nat_from_wan_def)
    then show ?thesis
      using run(2) b f k(2)
      by (intro exI [of _ "dchain_rejuvenate_fp ch i now"] exI [of _ manager'] exI [of _ "st\<lparr>pkt := b'\<rparr>"])
        (simp add: src_addr_def dst_addr_def src_port_def dst_port_def next_proto_id_def)
  qed
qed

lemma nat_send_spec:
  assumes cfg: "nat_config_ok config" and dst: "uint dst < int (length (device_macs config))"
    and l4: "34 \<le> l4" "l4 + 18 \<le> int (length (pkt st))"
  shows "\<exists>st'. nat_send config cks 0 14 l4 dst st = Some st' \<and>
     src_addr st' 14 = src_addr st 14 \<and> dst_addr st' 14 = dst_addr st 14 \<and>
     src_port st' l4 = src_port st l4 \<and> dst_port st' l4 = dst_port st l4 \<and>
     next_proto_id st' 14 = next_proto_id st 14 \<and> length (pkt st') = length (pkt st) \<and>
     ld_bytes (pkt st') 12 12 = ld_bytes (pkt st) 12 12 \<and>
     ether_s_addr st' 0 = arr_get (device_macs config) (uint dst) \<and>
     ether_d_addr st' 0 = arr_get (endpoint_macs config) (uint dst)"
proof -
  let ?s = "device_macs config ! unat dst" and ?d = "endpoint_macs config ! unat dst"
  have "unat dst < length (device_macs config)" using dst by (simp add: uint_eq_int_unat)
  then have macs: "arr_get (device_macs config) (uint dst) = Some ?s" "arr_get (endpoint_macs config) (uint dst) = Some ?d"
    "length ?s = 6" "length ?d = 6"
    using cfg by (simp_all add: nat_config_ok_def run_simps)
  obtain b1 where b1: "nf_set_rte_ipv4_udptcp_checksum cks 14 l4 (pkt st) = Some b1" "length b1 = length (pkt st)"
    "\<And>j n. j + int n \<le> 24 \<or> 26 \<le> j \<Longrightarrow> j + int n \<le> l4 + 6 \<Longrightarrow> ld_bytes b1 j n = ld_bytes (pkt st) j n"
    using set_checksum [of 14 l4 "pkt st" cks] l4 by auto
  obtain b2 where b2: "st_bytes b1 6 ?s = Some b2" "length b2 = length b1"
    using st_bytes_ok [of 6 ?s b1] macs l4 b1(2) by auto
  obtain b3 where b3: "st_bytes b2 0 ?d = Some b3" "length b3 = length b2"
    using st_bytes_ok [of 0 ?d b2] macs l4 b1(2) b2(2) by auto
  have keep: "ld_bytes b3 j n = ld_bytes (pkt st) j n"
    if "12 \<le> j" "j + int n \<le> 24 \<or> 26 \<le> j" "j + int n \<le> l4 + 6" for j n
    using ld_st_other [OF b3(1), of j n] ld_st_other [OF b2(1), of j n] b1(3) [of j n] macs that by simp
  have "nat_send config cks 0 14 l4 dst st = Some (st\<lparr>pkt := b3\<rparr>)"
    using macs b1 b2 b3 by (simp add: nat_send_def)
  moreover have "ld_bytes b3 6 6 = Some ?s" "ld_bytes b3 0 6 = Some ?d"
    using ld_st_same [OF b2(1), of 6] ld_st_same [OF b3(1), of 6] ld_st_other [OF b3(1), of 6 6] macs by auto
  ultimately show ?thesis
    using macs b1(2) b2(2) b3(2) l4 keep [of 26 4] keep [of 30 4] keep [of l4 2] keep [of "l4 + 2" 2] keep [of 23 1] keep [of 12 12]
    by (simp add: src_addr_def dst_addr_def src_port_def dst_port_def next_proto_id_def ld32_def ld16_def
        ld8_def ether_s_addr_def ether_d_addr_def)
qed

section \<open>The specification\<close>

text \<open>
  \<open>vignat/spec.py\<close>. The packet is absent when a header did not match; otherwise its
  fields are those of a flow whose device is the one it was received on. What is sent is the
  device, the addresses and the ports. \<open>idx\<close> is the index the code chose for a new flow.
\<close>

definition nat_spec ::
  "nat_config \<Rightarrow> u16 \<Rightarrow> vigor_time \<Rightarrow> int \<Rightarrow> FlowId emap \<Rightarrow> FlowId option \<Rightarrow> vigor_time
   \<Rightarrow> (u16 \<times> u32 \<times> u32 \<times> u16 \<times> u16) option \<times> FlowId emap" where
  "nat_spec config start_port exp_time idx flow_emap packet now = (
     let flow_emap = emap_expire_all flow_emap (now - exp_time) in
     case packet of None \<Rightarrow> (None, flow_emap)
     | Some p \<Rightarrow>
         if fl_internal_device p = wan_device config then
           (let flow_indx = uint (fl_dst_port p) - uint start_port in
            if emap_has_idx flow_emap flow_indx then
              (let internal_flow = emap_get_key flow_emap flow_indx;
                   flow_emap = emap_refresh_idx flow_emap flow_indx now in
               if fl_dst_ip internal_flow \<noteq> fl_src_ip p \<or> fl_dst_port internal_flow \<noteq> fl_src_port p \<or>
                  fl_protocol internal_flow \<noteq> fl_protocol p then (None, flow_emap)
               else (Some (fl_internal_device internal_flow, fl_dst_ip internal_flow, fl_src_ip internal_flow,
                           fl_dst_port internal_flow, fl_src_port internal_flow), flow_emap))
            else (None, flow_emap))
         else if emap_has flow_emap p then
           (let i = emap_get flow_emap p in
            (Some (wan_device config, external_addr config, fl_dst_ip p, word_of_int (i + uint start_port), fl_dst_port p),
             emap_refresh_idx flow_emap i now))
         else if emap_full flow_emap then (None, flow_emap)
         else
           (Some (wan_device config, external_addr config, fl_dst_ip p, word_of_int (idx + uint start_port), fl_dst_port p),
            emap_add flow_emap p idx now))"

definition sent_fields :: "packet_io \<Rightarrow> int \<Rightarrow> u32 \<times> u32 \<times> u16 \<times> u16 \<Rightarrow> bool" where
  "sent_fields st l4 = (\<lambda>(sa, da, sp, dp).
     src_addr st 14 = Some sa \<and> dst_addr st 14 = Some da \<and> src_port st l4 = Some sp \<and> dst_port st l4 = Some dp)"

text \<open>Every internal device has addresses and is not the external one.\<close>

definition nat_devices_ok :: "nat_config \<Rightarrow> dchain \<Rightarrow> FlowManager \<Rightarrow> bool" where
  "nat_devices_ok config ch manager \<longleftrightarrow>
     (\<forall>i k. nat_flow ch manager i = Some k \<longrightarrow>
        fl_internal_device k \<noteq> wan_device config \<and>
        uint (fl_internal_device k) < int (length (device_macs config)))"

lemma nat_emap_lookup:
  assumes "nat_ok pow2 ch manager"
  shows "emap_has (nat_emap ch manager) k \<longleftrightarrow> (\<exists>i. nat_flow ch manager i = Some k)"
    "nat_flow ch manager i = Some k \<Longrightarrow> emap_get (nat_emap ch manager) k = i"
    "emap_has_idx (nat_emap ch manager) i \<longleftrightarrow> nat_flow ch manager i \<noteq> None"
    "nat_flow ch manager i = Some k \<Longrightarrow> emap_get_key (nat_emap ch manager) i = k"
    "emap_full (nat_emap ch manager) \<longleftrightarrow> dchain_out_of_space_fp ch"
  unfolding nat_emap_def nat_flow_def by (simp_all add: emap_of_lookup [OF nat_ok_table [OF assms]])

lemma nat_emap_expire:
  assumes "nat_ok pow2 ch manager"
  shows "emap_expire_all (nat_emap ch manager) (now - uint (nat_expiration manager) * 1000) =
     nat_emap (nat_expired ch manager now) manager"
  by (simp add: nat_emap_def nat_expired_def emap_of_expire [OF nat_ok_table [OF assms]])

lemma nat_touched_keeps:
  assumes "nat_touched pow2 ch manager i k now ch' manager'" "nat_devices_ok config ch manager"
    "fl_internal_device k \<noteq> wan_device config" "uint (fl_internal_device k) < int (length (device_macs config))"
  shows "nat_ok pow2 ch' manager'" "nat_devices_ok config ch' manager'" "dchain_high_fp ch' = now"
    "nat_start_port manager' = nat_start_port manager" "nat_expiration manager' = nat_expiration manager"
    "dchain_index_range_fp ch' = dchain_index_range_fp ch"
  using assms by (auto simp: nat_touched_def nat_devices_ok_def)

text \<open>
  The state after a packet: coherent, with the same parameters, and holding the flows
  \<open>em\<close>.
\<close>

definition nat_next ::
  "bool \<Rightarrow> nat_config \<Rightarrow> dchain \<Rightarrow> FlowManager \<Rightarrow> vigor_time \<Rightarrow> FlowId emap \<Rightarrow> dchain \<Rightarrow> FlowManager \<Rightarrow> bool" where
  "nat_next pow2 config ch manager now em ch' manager' \<longleftrightarrow>
     nat_ok pow2 ch' manager' \<and> nat_devices_ok config ch' manager' \<and> dchain_high_fp ch' \<le> now \<and>
     nat_emap ch' manager' = em \<and> nat_start_port manager' = nat_start_port manager \<and>
     nat_expiration manager' = nat_expiration manager \<and> dchain_index_range_fp ch' = dchain_index_range_fp ch"

definition nat_answer ::
  "packet_io \<Rightarrow> int \<Rightarrow> u16 option \<Rightarrow> packet_io \<Rightarrow> (u16 \<times> u32 \<times> u32 \<times> u16 \<times> u16) option \<Rightarrow> bool" where
  "nat_answer st l4 dst st' out \<longleftrightarrow>
     (case out of None \<Rightarrow> dst = None \<and> st' = st
      | Some (d, fs) \<Rightarrow> dst = Some d \<and> sent_fields st' l4 fs \<and>
          next_proto_id st' 14 = next_proto_id st 14 \<and> length (pkt st') = length (pkt st) \<and>
          ld_bytes (pkt st') 12 12 = ld_bytes (pkt st) 12 12)"

text \<open>What is sent for a packet from the inside is its flow at \<open>idx\<close>, used now.\<close>

definition nat_opened ::
  "nat_config \<Rightarrow> FlowManager \<Rightarrow> FlowId \<Rightarrow> int \<Rightarrow> vigor_time \<Rightarrow> (u16 \<times> u32 \<times> u32 \<times> u16 \<times> u16) option
   \<Rightarrow> dchain \<Rightarrow> FlowManager \<Rightarrow> bool" where
  "nat_opened config manager p idx now out ch' manager' \<longleftrightarrow>
     out = None \<or>
     out = Some (wan_device config, external_addr config, fl_dst_ip p, nat_port manager idx, fl_dst_port p) \<and>
     nat_flow ch' manager' idx = Some p \<and> dchain_get_time_fp ch' idx = Some now"

lemma nat_translate_lan:
  assumes cfg: "nat_config_ok config" and ok: "nat_ok pow2 ch manager" and time: "dchain_high_fp ch \<le> now"
    and dev: "nat_devices_ok config ch manager" "device \<noteq> wan_device config" "uint device < int (length (device_macs config))"
    and l4: "34 \<le> l4" "l4 + 4 \<le> int (length (pkt st))" and p: "packet_flow st device 14 l4 = Some p"
    and em: "emap_expire_all em (now - t) = nat_emap ch manager"
  shows "\<exists>dst st' ch' manager' idx out em'.
     nat_from_lan pow2 config manager device 14 l4 st now = Some (dst, st', manager') \<and>
     nat_spec config (nat_start_port manager) t idx em (Some p) now = (out, em') \<and>
     nat_answer st l4 dst st' out \<and> nat_next pow2 config ch manager now em' ch' manager' \<and>
     (\<forall>d. dst = Some d \<longrightarrow> uint d < int (length (device_macs config))) \<and>
     nat_opened config manager p idx now out ch' manager'"
proof (cases "(\<exists>i. nat_flow ch manager i = Some p) \<or> \<not> dchain_out_of_space_fp ch")
  case False
  then have "nat_from_lan pow2 config manager device 14 l4 st now = Some (None, st, manager)"
    using nat_from_lan_spec(2) [OF ok time l4 p, of config] by simp
  moreover have "nat_spec config (nat_start_port manager) t idx em (Some p) now = (None, nat_emap ch manager)" for idx
    using False dev(2) packet_flow_fields(6) [OF p] by (auto simp: nat_spec_def em nat_emap_lookup [OF ok])
  ultimately show ?thesis using ok time dev(1) by (fastforce simp: nat_answer_def nat_next_def nat_opened_def)
next
  case True
  then obtain i ch' manager' st' where run:
    "nat_from_lan pow2 config manager device 14 l4 st now = Some (Some (wan_device config), st', manager')"
    and slot: "nat_slot ch manager p i" and touched: "nat_touched pow2 ch manager i p now ch' manager'"
    and f: "src_addr st' 14 = Some (external_addr config)" "src_port st' l4 = Some (nat_port manager i)"
      "dst_addr st' 14 = Some (fl_dst_ip p)" "dst_port st' l4 = Some (fl_dst_port p)"
      "next_proto_id st' 14 = Some (fl_protocol p)" "length (pkt st') = length (pkt st)"
      "ld_bytes (pkt st') 12 12 = ld_bytes (pkt st) 12 12"
    using nat_from_lan_spec(1) [OF ok time l4 p] by blast
  let ?out = "Some (wan_device config, external_addr config, fl_dst_ip p, nat_port manager i, fl_dst_port p)"
  have "nat_spec config (nat_start_port manager) t i em (Some p) now = (?out, nat_emap ch' manager')"
  proof (cases "nat_flow ch manager i = Some p")
    case True
    then have "emap_has (nat_emap ch manager) p" "emap_get (nat_emap ch manager) p = i"
      by (auto simp: nat_emap_lookup [OF ok])
    then show ?thesis
      using touched dev(2) packet_flow_fields(6) [OF p]
      by (simp add: nat_spec_def em nat_touched_def nat_port_def add.commute)
  next
    case new: False
    then have "\<not> emap_has (nat_emap ch manager) p" "\<not> emap_full (nat_emap ch manager)"
      using slot True by (auto simp: nat_emap_lookup [OF ok] nat_slot_def)
    then show ?thesis
      using touched dev(2) packet_flow_fields(6) [OF p]
      by (simp add: nat_spec_def em nat_touched_def nat_port_def add.commute)
  qed
  moreover have "nat_next pow2 config ch manager now (nat_emap ch' manager') ch' manager'"
    using nat_touched_keeps [OF touched dev(1)] dev(2,3) packet_flow_fields(6) [OF p] by (simp add: nat_next_def)
  moreover have "nat_answer st l4 (Some (wan_device config)) st' ?out"
    using f packet_flow_fields(5) [OF p] by (simp add: nat_answer_def sent_fields_def)
  moreover have "uint (wan_device config) < int (length (device_macs config))" using cfg by (simp add: nat_config_ok_def)
  moreover have "nat_opened config manager p i now ?out ch' manager'"
    using touched by (simp add: nat_opened_def nat_touched_def)
  ultimately show ?thesis using run by blast
qed

lemma nat_translate_wan:
  assumes ok: "nat_ok pow2 ch manager" and time: "dchain_high_fp ch \<le> now"
    and dev: "nat_devices_ok config ch manager"
    and l4: "34 \<le> l4" "l4 + 4 \<le> int (length (pkt st))" and p: "packet_flow st (wan_device config) 14 l4 = Some p"
    and i: "i = uint (fl_dst_port p) - uint (nat_start_port manager)" "0 \<le> i" "i < dchain_index_range_fp ch"
    and em: "emap_expire_all em (now - t) = nat_emap ch manager"
  shows "\<exists>dst st' ch' manager' out em'.
     nat_from_wan manager 14 l4 st now = Some (dst, st', manager') \<and>
     nat_spec config (nat_start_port manager) t idx em (Some p) now = (out, em') \<and>
     nat_answer st l4 dst st' out \<and> nat_next pow2 config ch manager now em' ch' manager' \<and>
     (\<forall>d. dst = Some d \<longrightarrow> uint d < int (length (device_macs config)))"
proof (cases "nat_flow ch manager i")
  case None
  then have "nat_from_wan manager 14 l4 st now = Some (None, st, manager)"
    using nat_from_wan_spec(1) [OF ok time l4 p i] by simp
  moreover have "nat_spec config (nat_start_port manager) t idx em (Some p) now = (None, nat_emap ch manager)"
    using None packet_flow_fields(6) [OF p] by (simp add: nat_spec_def em nat_emap_lookup(3) [OF ok] i(1))
  ultimately show ?thesis using ok time dev by (fastforce simp: nat_answer_def nat_next_def)
next
  case (Some k)
  have k: "fl_internal_device k \<noteq> wan_device config" "uint (fl_internal_device k) < int (length (device_macs config))"
    using Some dev by (auto simp: nat_devices_ok_def)
  have has: "emap_has (nat_emap ch manager) k" "emap_has_idx (nat_emap ch manager) i" "emap_get_key (nat_emap ch manager) i = k"
    using Some by (auto simp: nat_emap_lookup [OF ok])
  let ?good = "fl_dst_ip k = fl_src_ip p \<and> fl_dst_port k = fl_src_port p \<and> fl_protocol k = fl_protocol p"
  let ?out = "if ?good then Some (fl_internal_device k, fl_dst_ip k, fl_src_ip k, fl_dst_port k, fl_src_port k) else None"
  obtain dst st' ch' manager' where run: "nat_from_wan manager 14 l4 st now = Some (dst, st', manager')"
    "nat_touched pow2 ch manager i k now ch' manager'" "nat_answer st l4 dst st' ?out"
    using nat_from_wan_spec(2,3) [OF ok time l4 p i Some] packet_flow_fields(5) [OF p]
    by (cases ?good) (fastforce simp: nat_answer_def sent_fields_def)+
  have "nat_spec config (nat_start_port manager) t idx em (Some p) now = (?out, nat_emap ch' manager')"
    using has packet_flow_fields(6) [OF p] run(2)
    by (simp add: nat_spec_def em i(1) [symmetric] nat_touched_def Let_def)
  moreover have "nat_next pow2 config ch manager now (nat_emap ch' manager') ch' manager'"
    using nat_touched_keeps [OF run(2) dev k] by (simp add: nat_next_def)
  moreover have "\<forall>d. dst = Some d \<longrightarrow> uint d < int (length (device_macs config))"
    using run(3) k by (auto simp: nat_answer_def split: if_splits)
  ultimately show ?thesis using run(1,3) by blast
qed

section \<open>The handler\<close>

definition nat_packet :: "int \<Rightarrow> packet_io \<Rightarrow> u16 \<Rightarrow> FlowId option" where
  "nat_packet n st device = do { l4 \<leftarrow> l4_offset n (pkt st); packet_flow st device 14 l4 }"

text \<open>
  A packet that is not sent keeps its device and its bytes. One that is sent has the given addresses and ports,
  the MAC addresses of its device, and the other fields of the Ethernet header and of the IPv4 header up to
  the checksum (the bytes 12 to 23) as they were.
\<close>

definition nat_sent ::
  "nat_config \<Rightarrow> int \<Rightarrow> packet_io \<Rightarrow> u16 \<Rightarrow> (u16 \<times> u32 \<times> u32 \<times> u16 \<times> u16) option \<Rightarrow> u16 \<Rightarrow> packet_io \<Rightarrow> bool" where
  "nat_sent config n st device out dst st' \<longleftrightarrow>
     (case out of None \<Rightarrow> dst = device \<and> pkt st' = pkt st
      | Some (d, fs) \<Rightarrow> dst = d \<and> (\<exists>l4. l4_offset n (pkt st) = Some l4 \<and> sent_fields st' l4 fs) \<and>
          next_proto_id st' 14 = next_proto_id st 14 \<and> length (pkt st') = length (pkt st) \<and>
          ld_bytes (pkt st') 12 12 = ld_bytes (pkt st) 12 12 \<and>
          ether_s_addr st' 0 = arr_get (device_macs config) (uint d) \<and>
          ether_d_addr st' 0 = arr_get (endpoint_macs config) (uint d))"

text \<open>The destination port of a packet from outside belongs to an index.\<close>

definition nat_port_ok :: "nat_config \<Rightarrow> dchain \<Rightarrow> FlowManager \<Rightarrow> FlowId option \<Rightarrow> bool" where
  "nat_port_ok config ch manager packet \<longleftrightarrow>
     (case packet of None \<Rightarrow> True
      | Some p \<Rightarrow> fl_internal_device p = wan_device config \<longrightarrow>
          uint (nat_start_port manager) \<le> uint (fl_dst_port p) \<and>
          uint (fl_dst_port p) - uint (nat_start_port manager) < dchain_index_range_fp ch)"

definition nat_state_ok :: "bool \<Rightarrow> nat_config \<Rightarrow> dchain \<Rightarrow> FlowManager \<Rightarrow> vigor_time \<Rightarrow> bool" where
  "nat_state_ok pow2 config ch manager now \<longleftrightarrow>
     nat_ok pow2 ch manager \<and> nat_config_ok config \<and> nat_devices_ok config ch manager \<and>
     0 \<le> now \<and> now < 2 ^ 63 \<and> dchain_high_fp ch \<le> now"

lemma packet_flow_pkt: "pkt st' = pkt st \<Longrightarrow> packet_flow st' = packet_flow st"
  by (simp add: packet_flow_def fun_eq_iff src_port_def dst_port_def src_addr_def dst_addr_def next_proto_id_def)

lemma nat_devices_expire:
  assumes "nat_ok pow2 ch manager" "nat_devices_ok config ch manager"
    "nat_fv manager' = nat_fv manager"
  shows "nat_devices_ok config (nat_expired ch manager now) manager'"
  using assms flow_at_expire [OF nat_ok_table [OF assms(1)]]
  by (auto simp: nat_devices_ok_def nat_flow_def nat_expired_def split: option.splits if_splits)

lemma nat_process_body:
  assumes st: "nat_state_ok pow2 config ch manager now" and fresh: "fresh_packet n st"
  obtains manager1 st1 where
    "nat_ok pow2 (nat_expired ch manager now) manager1" "nat_devices_ok config (nat_expired ch manager now) manager1"
    "nat_emap (nat_expired ch manager now) manager1 =
       emap_expire_all (nat_emap ch manager) (now - uint (nat_expiration manager) * 1000)"
    "nat_start_port manager1 = nat_start_port manager" "nat_expiration manager1 = nat_expiration manager"
    "pkt st1 = pkt st"
    "nat_process pow2 config cks manager device st now =
       (case l4_offset n (pkt st) of None \<Rightarrow> Some (device, st1, manager1)
        | Some l4 \<Rightarrow> do {
            (dst_device, st2, manager2) \<leftarrow>
              (if device = wan_device config then nat_from_wan manager1 14 l4 st1 now
               else nat_from_lan pow2 config manager1 device 14 l4 st1 now);
            case dst_device of None \<Rightarrow> Some (device, st2, manager2)
            | Some dst \<Rightarrow> do { st3 \<leftarrow> nat_send config cks 0 14 l4 dst st2; Some (dst, st3, manager2) } })"
proof -
  have ok: "nat_ok pow2 ch manager" using st by (simp add: nat_state_ok_def)
  obtain manager1 where m1: "flow_manager_expire pow2 manager now = Some manager1"
    "nat_ok pow2 (nat_expired ch manager now) manager1" "nat_fv manager1 = nat_fv manager"
    "nat_start_port manager1 = nat_start_port manager" "nat_expiration manager1 = nat_expiration manager"
    using flow_manager_expire_spec [OF ok] st by (auto simp: nat_state_ok_def)
  obtain st1 where st1: "nf_headers st = Some (l4_offset n (pkt st), st1)" "pkt st1 = pkt st"
    using nf_headers_value [OF fresh] by blast
  have "nat_process pow2 config cks manager device st now =
       (case l4_offset n (pkt st) of None \<Rightarrow> Some (device, st1, manager1)
        | Some l4 \<Rightarrow> do {
            (dst_device, st2, manager2) \<leftarrow>
              (if device = wan_device config then nat_from_wan manager1 14 l4 st1 now
               else nat_from_lan pow2 config manager1 device 14 l4 st1 now);
            case dst_device of None \<Rightarrow> Some (device, st2, manager2)
            | Some dst \<Rightarrow> do { st3 \<leftarrow> nat_send config cks 0 14 l4 dst st2; Some (dst, st3, manager2) } })"
    by (simp add: nat_process_def m1(1) nf_headers_then [OF fresh] st1(1))
  moreover have "nat_devices_ok config (nat_expired ch manager now) manager1"
    using nat_devices_expire [OF ok _ m1(3)] st by (simp add: nat_state_ok_def)
  moreover have "nat_emap (nat_expired ch manager now) manager1 =
       emap_expire_all (nat_emap ch manager) (now - uint (nat_expiration manager) * 1000)"
    using nat_emap_expire [OF ok] m1(3) by (simp add: nat_emap_def)
  ultimately show ?thesis using that m1(2,4,5) st1(2) by blast
qed

lemma nat_answer_sent:
  assumes cfg: "nat_config_ok config" and off: "l4_offset n (pkt st) = Some l4"
    and l4: "34 \<le> l4" "l4 + 18 \<le> int (length (pkt st1))" and st1: "pkt st1 = pkt st"
    and ans: "nat_answer st1 l4 dst st2 out" and d: "\<forall>d. dst = Some d \<longrightarrow> uint d < int (length (device_macs config))"
  shows "\<exists>d st'. (case dst of None \<Rightarrow> Some (device, st2, manager2)
      | Some dst \<Rightarrow> do { st3 \<leftarrow> nat_send config cks 0 14 l4 dst st2; Some (dst, st3, manager2) }) = Some (d, st', manager2) \<and>
      nat_sent config n st device out d st'"
proof (cases out)
  case None
  then show ?thesis using ans st1 by (auto simp: nat_answer_def nat_sent_def)
next
  case (Some o')
  then obtain d' fs where o': "out = Some (d', fs)" "dst = Some d'" "sent_fields st2 l4 fs"
    "next_proto_id st2 14 = next_proto_id st1 14" "length (pkt st2) = length (pkt st1)"
    "ld_bytes (pkt st2) 12 12 = ld_bytes (pkt st1) 12 12"
    using ans by (cases o') (auto simp: nat_answer_def)
  have "next_proto_id st1 14 = next_proto_id st 14" using st1 by (simp add: next_proto_id_def)
  then show ?thesis
    using nat_send_spec [OF cfg _ l4(1), of d' st2 cks] o' d l4(2) off st1
    by (auto simp: nat_sent_def sent_fields_def)
qed

lemma nat_process_spec:
  assumes st: "nat_state_ok pow2 config ch manager now" and dev: "uint device < int (length (device_macs config))"
    and fresh: "fresh_packet n st" and room: "n + 14 \<le> int (length (pkt st))"
    and port: "nat_port_ok config ch manager (nat_packet n st device)"
  shows "\<exists>dst st' manager' ch' idx out em'. nat_process pow2 config cks manager device st now = Some (dst, st', manager') \<and>
     nat_spec config (nat_start_port manager) (uint (nat_expiration manager) * 1000) idx (nat_emap ch manager)
       (nat_packet n st device) now = (out, em') \<and>
     nat_sent config n st device out dst st' \<and> nat_next pow2 config ch manager now em' ch' manager' \<and>
     (\<forall>p. nat_packet n st device = Some p \<longrightarrow> device \<noteq> wan_device config \<longrightarrow>
        nat_opened config manager p idx now out ch' manager')"
proof -
  let ?ch = "nat_expired ch manager now" and ?exp = "uint (nat_expiration manager) * 1000"
  obtain manager1 st1 where m1: "nat_ok pow2 ?ch manager1" "nat_devices_ok config ?ch manager1"
    "nat_emap ?ch manager1 = emap_expire_all (nat_emap ch manager) (now - ?exp)"
    "nat_start_port manager1 = nat_start_port manager" "nat_expiration manager1 = nat_expiration manager"
    "pkt st1 = pkt st" and run: "nat_process pow2 config cks manager device st now =
       (case l4_offset n (pkt st) of None \<Rightarrow> Some (device, st1, manager1)
        | Some l4 \<Rightarrow> do {
            (dst_device, st2, manager2) \<leftarrow>
              (if device = wan_device config then nat_from_wan manager1 14 l4 st1 now
               else nat_from_lan pow2 config manager1 device 14 l4 st1 now);
            case dst_device of None \<Rightarrow> Some (device, st2, manager2)
            | Some dst \<Rightarrow> do { st3 \<leftarrow> nat_send config cks 0 14 l4 dst st2; Some (dst, st3, manager2) } })"
    by (rule nat_process_body [OF st fresh])
  have time: "dchain_high_fp ?ch \<le> now" and range: "dchain_index_range_fp ?ch = dchain_index_range_fp ch"
    using st by (simp_all add: nat_state_ok_def nat_expired_def)
  have cfg: "nat_config_ok config" using st by (simp add: nat_state_ok_def)
  show ?thesis
  proof (cases "l4_offset n (pkt st)")
    case None
    have "nat_next pow2 config ch manager now (nat_emap ?ch manager1) ?ch manager1"
      using m1 time range by (simp add: nat_next_def)
    then show ?thesis
      using None run m1 by (auto simp: nat_spec_def nat_packet_def nat_sent_def)
  next
    case (Some l4)
    have l4: "34 \<le> l4" "l4 + 4 \<le> int (length (pkt st1))" "l4 + 18 \<le> int (length (pkt st1))"
      using l4_offset_range [OF Some] room m1(6) by auto
    obtain p where p: "packet_flow st1 device 14 l4 = Some p" using packet_flow_ok [OF l4(1,2)] by blast
    then have np: "nat_packet n st device = Some p"
      using Some by (simp add: nat_packet_def packet_flow_pkt [OF m1(6)])
    have "\<exists>dst st2 ch2 manager2 idx out em'.
       (if device = wan_device config then nat_from_wan manager1 14 l4 st1 now
        else nat_from_lan pow2 config manager1 device 14 l4 st1 now) = Some (dst, st2, manager2) \<and>
       nat_spec config (nat_start_port manager1) ?exp idx (nat_emap ch manager) (Some p) now = (out, em') \<and>
       nat_answer st1 l4 dst st2 out \<and> nat_next pow2 config ?ch manager1 now em' ch2 manager2 \<and>
       (\<forall>d. dst = Some d \<longrightarrow> uint d < int (length (device_macs config))) \<and>
       (device = wan_device config \<or> nat_opened config manager1 p idx now out ch2 manager2)"
    proof (cases "device = wan_device config")
      case True
      then have "0 \<le> uint (fl_dst_port p) - uint (nat_start_port manager1)"
        "uint (fl_dst_port p) - uint (nat_start_port manager1) < dchain_index_range_fp ?ch"
        using port np packet_flow_fields(6) [OF p] m1(4) range by (simp_all add: nat_port_ok_def)
      from nat_translate_wan [OF m1(1) time m1(2) l4(1,2) p [unfolded True] refl this m1(3) [symmetric]] True
      show ?thesis by fastforce
    next
      case False
      from nat_translate_lan [OF cfg m1(1) time m1(2) False dev l4(1,2) p m1(3) [symmetric]] False show ?thesis by fastforce
    qed
    then obtain dst st2 ch2 manager2 idx out em' where tr:
      "(if device = wan_device config then nat_from_wan manager1 14 l4 st1 now
        else nat_from_lan pow2 config manager1 device 14 l4 st1 now) = Some (dst, st2, manager2)"
      "nat_spec config (nat_start_port manager) ?exp idx (nat_emap ch manager) (Some p) now = (out, em')"
      "nat_answer st1 l4 dst st2 out" "nat_next pow2 config ch manager now em' ch2 manager2"
      "\<forall>d. dst = Some d \<longrightarrow> uint d < int (length (device_macs config))"
      "device = wan_device config \<or> nat_opened config manager p idx now out ch2 manager2"
      using m1(4,5) range by (auto simp: nat_next_def nat_opened_def nat_port_def)
    have "\<exists>d st'. nat_process pow2 config cks manager device st now = Some (d, st', manager2) \<and>
        nat_sent config n st device out d st'"
      using nat_answer_sent [OF cfg Some l4(1,3) m1(6) tr(3,5), of device manager2 cks] tr(1)
      by (simp add: run Some)
    then show ?thesis using tr(2,4,6) np by fastforce
  qed
qed

text \<open>A packet from outside that is sent on has a port of the table.\<close>

lemma nat_forwarded_port:
  assumes st: "nat_state_ok pow2 config ch manager now" and fresh: "fresh_packet n st"
    and run: "nat_process pow2 config cks manager (wan_device config) st now = Some (dst, st', manager')"
    and sent: "dst \<noteq> wan_device config"
  shows "nat_port_ok config ch manager (nat_packet n st (wan_device config))"
proof -
  let ?ch = "nat_expired ch manager now"
  obtain manager1 st1 where m1: "nat_ok pow2 ?ch manager1" "nat_start_port manager1 = nat_start_port manager"
    "pkt st1 = pkt st" and body: "nat_process pow2 config cks manager (wan_device config) st now =
       (case l4_offset n (pkt st) of None \<Rightarrow> Some (wan_device config, st1, manager1)
        | Some l4 \<Rightarrow> do {
            (dst_device, st2, manager2) \<leftarrow>
              (if wan_device config = wan_device config then nat_from_wan manager1 14 l4 st1 now
               else nat_from_lan pow2 config manager1 (wan_device config) 14 l4 st1 now);
            case dst_device of None \<Rightarrow> Some (wan_device config, st2, manager2)
            | Some dst \<Rightarrow> do { st3 \<leftarrow> nat_send config cks 0 14 l4 dst st2; Some (dst, st3, manager2) } })"
    by (rule nat_process_body [OF st fresh])
  obtain l4 d st2 manager2 where l4: "l4_offset n (pkt st) = Some l4"
    and tr: "nat_from_wan manager1 14 l4 st1 now = Some (Some d, st2, manager2)"
    using run sent unfolding body by (auto split: option.splits bind_splits)
  then obtain port k manager3 where port: "dst_port st1 l4 = Some port"
    and found: "flow_manager_get_external manager1 port now = Some (Some k, manager3)"
    by (auto simp: nat_from_wan_def split: bind_splits option.splits)
  have "fl_dst_port p = port" if "packet_flow st (wan_device config) 14 l4 = Some p" for p
    using packet_flow_fields(2) [OF that] port m1(3) by (simp add: dst_port_def)
  moreover have "dchain_index_range_fp ?ch = dchain_index_range_fp ch" by (simp add: nat_expired_def)
  ultimately show ?thesis
    using flow_manager_get_external_found [OF m1(1) found] m1(2) l4 by (auto simp: nat_port_ok_def nat_packet_def split: option.splits)
qed


text \<open>
  A packet from the inside that is sent out: its source port is that of its index, and its index is the one of
  a flow in use exactly when it belongs to that flow.
\<close>

lemma nat_spec_index:
  assumes ok: "nat_ok pow2 ch manager" and p: "fl_internal_device p \<noteq> wan_device config"
    and spec: "nat_spec config (nat_start_port manager) e idx (nat_emap ch manager) (Some p) now = (Some o1, em')"
    and ok': "nat_ok pow2 ch' manager'" "nat_emap ch' manager' = em'" and idx: "nat_flow ch' manager' idx = Some p"
    and flow: "nat_flow ch manager i = Some k" "dchain_get_time_fp ch i = Some t" "now - e \<le> t"
  shows "p = k \<longleftrightarrow> idx = i"
proof -
  let ?em = "emap_expire_all (nat_emap ch manager) (now - e)"
  note tab = emap_table_of [OF nat_ok_table [OF ok], folded nat_emap_def]
  note tab' = emap_table_of [OF nat_ok_table [OF ok'(1)], folded nat_emap_def, unfolded ok'(2)]
  obtain chain0 m0 where tab0: "emap_table pow2 ?em chain0 (nat_fv manager) m0" using table_expire [OF tab, of "now - e"] by blast
  have "emap_has (nat_emap ch manager) k" "emap_get (nat_emap ch manager) k = i" "emap_time (nat_emap ch manager) i = Some t"
    using nat_emap_lookup(1,2) [OF ok] flow by (auto simp: nat_emap_def emap_of_def)
  then have k: "emap_has ?em k" "emap_get ?em k = i"
    using emap_expire_lookup(1,4,5) [OF tab] flow(3) by auto
  have at: "emap_get em' p = idx" using nat_emap_lookup(2) [OF ok'(1) idx] ok'(2) by simp
  show ?thesis
  proof (cases "emap_has ?em p")
    case True
    then have em': "em' = emap_refresh_idx ?em (emap_get ?em p) now" using spec p by (auto simp: nat_spec_def Let_def)
    then have "idx = emap_get ?em p" using at emap_ops_lookup(2) [OF tab0] by simp
    then show ?thesis using True k table_facts(2) [OF tab0] by metis
  next
    case False
    then have em': "em' = emap_add ?em p idx now" using spec p by (auto simp: nat_spec_def Let_def split: if_splits)
    then have "\<not> emap_has_idx ?em idx" using emap_add_fresh [OF tab' [unfolded em']] by simp
    then show ?thesis using False k table_facts(1) [OF tab0 k(1)] by auto
  qed
qed

lemma nat_out_port:
  assumes "nat_state_ok pow2 config ch manager now" "uint device < int (length (device_macs config))"
    "device \<noteq> wan_device config" "fresh_packet n st" "n + 14 \<le> int (length (pkt st))"
    and out: "nat_process pow2 config cks manager device st now = Some (wan_device config, st', manager')"
    and flow: "nat_flow ch manager i = Some k" "dchain_get_time_fp ch i = Some t" "now - uint (nat_expiration manager) * 1000 \<le> t"
  shows "\<exists>p l4 idx ch'. nat_packet n st device = Some p \<and> l4_offset n (pkt st) = Some l4 \<and>
     src_port st' l4 = Some (nat_port manager idx) \<and> nat_flow ch' manager' idx = Some p \<and> (p = k \<longleftrightarrow> idx = i) \<and>
     nat_ok pow2 ch' manager' \<and> nat_start_port manager' = nat_start_port manager \<and>
     dchain_index_range_fp ch' = dchain_index_range_fp ch"
proof -
  have dev: "fl_internal_device p = device" if "nat_packet n st device = Some p" for p
    using that packet_flow_fields(6) by (fastforce simp: nat_packet_def bind_eq_Some_conv)
  have port: "nat_port_ok config ch manager (nat_packet n st device)"
    using dev assms(3) by (auto simp: nat_port_ok_def split: option.splits)
  obtain ch' idx o1 em' where
    one: "nat_spec config (nat_start_port manager) (uint (nat_expiration manager) * 1000) idx (nat_emap ch manager)
        (nat_packet n st device) now = (o1, em')"
      "nat_sent config n st device o1 (wan_device config) st'" "nat_next pow2 config ch manager now em' ch' manager'"
      "\<forall>p. nat_packet n st device = Some p \<longrightarrow> device \<noteq> wan_device config \<longrightarrow> nat_opened config manager p idx now o1 ch' manager'"
    using nat_process_spec [OF assms(1,2,4,5) port, of cks] out by auto
  obtain p where p: "nat_packet n st device = Some p" using one(1,2) assms(3) by (cases "nat_packet n st device") (auto simp: nat_spec_def nat_sent_def Let_def)
  have o1: "o1 = Some (wan_device config, external_addr config, fl_dst_ip p, nat_port manager idx, fl_dst_port p)"
    and idx: "nat_flow ch' manager' idx = Some p"
    using one(2,4) p assms(3) by (auto simp: nat_opened_def nat_sent_def)
  have next': "nat_ok pow2 ch' manager'" "nat_emap ch' manager' = em'" "nat_start_port manager' = nat_start_port manager"
    "dchain_index_range_fp ch' = dchain_index_range_fp ch"
    using one(3) by (simp_all add: nat_next_def)
  have ok: "nat_ok pow2 ch manager" using assms(1) by (simp add: nat_state_ok_def)
  have "p = k \<longleftrightarrow> idx = i"
    using nat_spec_index [OF ok _ _ next'(1,2) idx flow] one(1) p dev [OF p] assms(3) o1 by auto
  moreover obtain l4 where "l4_offset n (pkt st) = Some l4" "src_port st' l4 = Some (nat_port manager idx)"
    using one(2) by (auto simp: o1 nat_sent_def sent_fields_def)
  ultimately show ?thesis using p idx next' by blast
qed

section \<open>Properties\<close>

text \<open>
  C1. The packet handler of the NAT implements \<open>vignat/spec.py\<close>, when the range of ports ends at or below 65536
  and every device has its addresses. For every packet of at least 14 bytes from one of these devices, in a
  buffer with 14 more bytes of room (the checksum may be written there), with a destination port of the
  range when it comes from outside (other ports can read outside the cells,
  \<open>flow_manager_get_external_fault\<close>), it ends without a fault, in a coherent state whose flows are those the
  specification gives. It sends, with rewritten addresses and ports and the configured MAC addresses,
  what the specification sends, with the other fields of the Ethernet header and of the IPv4 header up to its
  checksum as they were; a packet that the specification drops is not changed.
\<close>

theorem nat_process_refines_spec:
  assumes "nat_state_ok pow2 config ch manager now" "uint device < int (length (device_macs config))"
    "fresh_packet n st" "n + 14 \<le> int (length (pkt st))"
    "nat_port_ok config ch manager (nat_packet n st device)"
  shows "\<exists>dst st' manager' ch' idx out em'. nat_process pow2 config cks manager device st now = Some (dst, st', manager') \<and>
     nat_spec config (nat_start_port manager) (uint (nat_expiration manager) * 1000) idx (nat_emap ch manager)
       (nat_packet n st device) now = (out, em') \<and>
     nat_sent config n st device out dst st' \<and> nat_next pow2 config ch manager now em' ch' manager'"
  using nat_process_spec [OF assms] by blast

text \<open>
  C3. A packet from outside is forwarded only as the reply of a flow, whatever its port: when the handler
  returns, without the fault that some ports cause (\<open>flow_manager_get_external_fault\<close> below), and sends it on,
  then some flow that was used within the expiration time has its destination port as external port, its
  source as destination and its protocol, and the packet goes to the host and the device that
  opened that flow.
\<close>

theorem nat_no_injection:
  assumes "nat_state_ok pow2 config ch manager now" "fresh_packet n st" "n + 14 \<le> int (length (pkt st))"
    and run: "nat_process pow2 config cks manager (wan_device config) st now = Some (dst, st', manager')"
    and sent: "dst \<noteq> wan_device config"
  shows "\<exists>i k t l4 p. nat_packet n st (wan_device config) = Some p \<and> nat_flow ch manager i = Some k \<and> dchain_get_time_fp ch i = Some t \<and>
     now - uint (nat_expiration manager) * 1000 \<le> t \<and> fl_dst_port p = nat_port manager i \<and>
     fl_src_ip p = fl_dst_ip k \<and> fl_src_port p = fl_dst_port k \<and> fl_protocol p = fl_protocol k \<and>
     dst = fl_internal_device k \<and> l4_offset n (pkt st) = Some l4 \<and>
     dst_addr st' 14 = Some (fl_src_ip k) \<and> dst_port st' l4 = Some (fl_src_port k)"
proof -
  have ok: "nat_ok pow2 ch manager" and wan: "uint (wan_device config) < int (length (device_macs config))"
    using assms(1) by (auto simp: nat_state_ok_def nat_config_ok_def)
  note port = nat_forwarded_port [OF assms(1,2) run sent]
  obtain p where p: "nat_packet n st (wan_device config) = Some p"
    using nat_process_spec [OF assms(1) wan assms(2,3) port, of cks] run sent
    by (cases "nat_packet n st (wan_device config)") (auto simp: nat_spec_def nat_sent_def Let_def)
  have dev: "fl_internal_device p = wan_device config"
    using p packet_flow_fields(6) by (fastforce simp: nat_packet_def bind_eq_Some_conv l4_offset_def Let_def split: if_splits)
  let ?t = "now - uint (nat_expiration manager) * 1000" and ?i = "uint (fl_dst_port p) - uint (nat_start_port manager)"
  let ?em = "emap_expire_all (nat_emap ch manager) ?t" and ?ch = "dchain_expire_old_indexes_fp ch ?t"
  obtain idx out em' where spec: "nat_spec config (nat_start_port manager) (uint (nat_expiration manager) * 1000) idx
      (nat_emap ch manager) (Some p) now = (out, em')" "nat_sent config n st (wan_device config) out dst st'"
    using nat_process_spec [OF assms(1) wan assms(2,3) port, of cks] p run by auto
  have lookup: "emap_has_idx ?em i \<longleftrightarrow> flow_at (nat_fv manager) ?ch i \<noteq> None"
    "flow_at (nat_fv manager) ?ch i = Some k \<Longrightarrow> emap_get_key ?em i = k" for i k
    using expire_items_single_map_spec [OF nat_ok_table [OF ok], of ?t]
    by (auto simp: nat_emap_def emap_of_expire [OF nat_ok_table [OF ok]] emap_of_lookup)
  have "out \<noteq> None" using spec(2) sent by (cases out) (auto simp: nat_sent_def)
  then obtain k where k0: "flow_at (nat_fv manager) ?ch ?i = Some k"
    using spec(1) dev lookup(1) [of ?i] by (cases "flow_at (nat_fv manager) ?ch ?i") (auto simp: nat_spec_def)
  have k: "fl_dst_ip k = fl_src_ip p" "fl_dst_port k = fl_src_port p" "fl_protocol k = fl_protocol p"
    "out = Some (fl_internal_device k, fl_dst_ip k, fl_src_ip k, fl_dst_port k, fl_src_port k)"
    using spec(1) dev lookup(1) [of ?i] lookup(2) [OF k0] k0 \<open>out \<noteq> None\<close>
    by (auto simp: nat_spec_def Let_def split: if_splits)
  from k0 obtain t where t: "nat_flow ch manager ?i = Some k" "dchain_get_time_fp ch ?i = Some t" "?t \<le> t"
    by (auto simp: flow_at_expire [OF nat_ok_table [OF ok]] nat_flow_def split: option.splits if_splits)
  obtain l4 where "l4_offset n (pkt st) = Some l4" "dst = fl_internal_device k"
    "dst_addr st' 14 = Some (fl_src_ip k)" "dst_port st' l4 = Some (fl_src_port k)"
    using spec(2) by (auto simp: k(4) nat_sent_def sent_fields_def)
  then show ?thesis
    using k(1-3) t p by (intro exI [of _ ?i] exI [of _ k] exI [of _ t] exI [of _ l4] exI [of _ p]) (simp add: nat_port_def)
qed


text \<open>
  C31. The external port identifies the flow. While a flow \<open>k\<close> is in use at an index \<open>i\<close>, a packet from the
  inside that the NAT sends out leaves with the source port \<open>start_port + i\<close> exactly when it belongs to \<open>k\<close>;
  and every packet leaves with a source port of the range that begins at \<open>start_port\<close> and has as many ports as
  the table has indexes.
\<close>

theorem nat_ports_distinct:
  assumes "nat_state_ok pow2 config ch manager now" "uint device < int (length (device_macs config))"
    "device \<noteq> wan_device config" "fresh_packet n st" "n + 14 \<le> int (length (pkt st))"
    and out: "nat_process pow2 config cks manager device st now = Some (wan_device config, st', manager')"
    and flow: "nat_flow ch manager i = Some k" "dchain_get_time_fp ch i = Some t" "now - uint (nat_expiration manager) * 1000 \<le> t"
  shows "\<exists>p l4 port. nat_packet n st device = Some p \<and> l4_offset n (pkt st) = Some l4 \<and> src_port st' l4 = Some port \<and>
     (uint port = uint (nat_start_port manager) + i \<longleftrightarrow> p = k) \<and>
     uint (nat_start_port manager) \<le> uint port \<and> uint port < uint (nat_start_port manager) + dchain_index_range_fp ch"
proof -
  obtain p l4 idx ch' where p: "nat_packet n st device = Some p" "l4_offset n (pkt st) = Some l4"
    and sent: "src_port st' l4 = Some (nat_port manager idx)" and flow': "nat_flow ch' manager' idx = Some p"
    and idx: "p = k \<longleftrightarrow> idx = i"
    and same: "nat_ok pow2 ch' manager'" "nat_start_port manager' = nat_start_port manager"
      "dchain_index_range_fp ch' = dchain_index_range_fp ch"
    using nat_out_port [OF assms] by blast
  show ?thesis using nat_index_range [OF same(1) flow'] p sent idx same(2,3) by (auto simp: nat_port_def)
qed

text \<open>
  C32. The external port is not checked against the range of the ports: looking up a port that
  lies behind the last one, or more than two below the first, reads outside the array of the
  cells.
\<close>

theorem flow_manager_get_external_fault:
  assumes "nat_ok pow2 ch manager"
    "uint p + 2 < uint (nat_start_port manager) \<or> uint (nat_start_port manager) + dchain_index_range_fp ch \<le> uint p"
  shows "flow_manager_get_external manager p time = None"
  using assms by (rule flow_manager_get_external_outside)

section \<open>An example\<close>

definition ex_flow :: "u16 \<Rightarrow> FlowId" where
  "ex_flow sport = \<lparr>fl_src_port = sport, fl_dst_port = 2, fl_src_ip = 0x0100000a, fl_dst_ip = 0x0200000a,
     fl_internal_device = 0, fl_protocol = 6\<rparr>"

definition ex_nat_config :: nat_config where
  "ex_nat_config = \<lparr>wan_device = 1, external_addr = 9, device_macs = [replicate 6 1, replicate 6 2],
     endpoint_macs = [replicate 6 3, replicate 6 4]\<rparr>"

definition ex_manager :: FlowManager where
  "ex_manager = \<lparr>nat_fm = ex_flows (ex_flow 1) (ex_flow 3), nat_fv = ex_vector (ex_flow 1) (ex_flow 3),
     nat_heap = ex_chain, nat_start_port = 5, nat_expiration = 1\<rparr>"

definition ex_reply :: packet_io where
  "ex_reply = \<lparr>pkt = replicate 12 0 @ [8, 0, 0x45, 0, 0, 46] @ replicate 5 0 @ [6, 0, 0, 10, 0, 0, 2, 9, 0, 0, 0,
     2, 0, 5, 0] @ replicate 40 0, global_total_length = 60, global_read_length = 0, chunks_borrowed = []\<rparr>"

abbreviation ex_ch :: dchain where
  "ex_ch \<equiv> dchain [(0, 5), (1, 7)] 3 0 7"

lemma ex_nat_ok: "nat_ok True ex_ch ex_manager"
  using ex_flow_table_ok [of "ex_flow 1" "ex_flow 3"] by (simp add: nat_ok_def ex_manager_def ex_flow_def)

lemma ex_nat_flows: "nat_flow ex_ch ex_manager i = (if i = 0 then Some (ex_flow 1) else if i = 1 then Some (ex_flow 3) else None)"
  by (simp add: nat_flow_def flow_at_def ex_manager_def ex_vector_def)

lemma ex_nat_state_ok: "7 \<le> now \<Longrightarrow> now < 2 ^ 63 \<Longrightarrow> nat_state_ok True ex_nat_config ex_ch ex_manager now"
  using ex_nat_ok
  by (auto simp: nat_state_ok_def nat_config_ok_def nat_devices_ok_def ex_nat_flows ex_nat_config_def ex_flow_def
      split: if_splits)

lemma ex_reply_fresh: "fresh_packet 60 ex_reply" "length (pkt ex_reply) = 78"
  by (simp_all add: fresh_packet_def io_ok_def ex_reply_def)

lemma ex_reply_l4: "l4_offset 60 (pkt ex_reply) = Some 34"
  by code_simp

lemma ex_packet_flow: "packet_flow ex_packet 0 14 34 = Some (ex_flow 1)"
  by code_simp

lemma ex_nat_spec:
  "fst (nat_spec ex_nat_config 5 1000 idx (nat_emap ex_ch ex_manager) (Some (ex_flow 1)) 8) =
     Some (1, 9, 0x0200000a, 5, 2)"
  by code_simp

section \<open>The properties on the example\<close>

theorem nat_process_refines_spec_witness:
  "\<exists>dst st' manager' ch' idx out em'.
     nat_process True ex_nat_config \<lparr>rte_ipv4_udptcp_cksum = (\<lambda>_ _ _. 0), rte_ipv4_cksum = (\<lambda>_ _. 0)\<rparr>
       ex_manager 0 ex_packet 8 = Some (dst, st', manager') \<and>
     nat_spec ex_nat_config 5 1000 idx (nat_emap ex_ch ex_manager) (Some (ex_flow 1)) 8 = (out, em') \<and>
     nat_sent ex_nat_config 60 ex_packet 0 out dst st' \<and> nat_next True ex_nat_config ex_ch ex_manager 8 em' ch' manager'"
proof -
  have "nat_packet 60 ex_packet 0 = Some (ex_flow 1)"
    by (simp add: nat_packet_def ex_packet_l4 ex_packet_flow)
  moreover have "uint (nat_expiration ex_manager) = 1" "nat_start_port ex_manager = 5" by (simp_all add: ex_manager_def)
  ultimately show ?thesis
    using nat_process_refines_spec [of True ex_nat_config ex_ch ex_manager 8 0 60 ex_packet]
      ex_nat_state_ok [of 8] ex_packet_fresh ex_packet_length
    by (simp add: nat_port_ok_def) (simp add: ex_flow_def ex_nat_config_def)
qed

theorem flow_manager_get_external_fault_witness: "flow_manager_get_external ex_manager 80 9 = None"
  using flow_manager_get_external_fault [OF ex_nat_ok, of 80 9] by (simp add: ex_manager_def)

lemma ex_reply_flow: "packet_flow ex_reply 1 14 34 =
    Some \<lparr>fl_src_port = 2, fl_dst_port = 5, fl_src_ip = 0x0200000a, fl_dst_ip = 9, fl_internal_device = 1, fl_protocol = 6\<rparr>"
  by code_simp

lemma ex_reply_packet: "nat_packet 60 ex_reply (wan_device ex_nat_config) =
    Some \<lparr>fl_src_port = 2, fl_dst_port = 5, fl_src_ip = 0x0200000a, fl_dst_ip = 9, fl_internal_device = 1, fl_protocol = 6\<rparr>"
  using ex_reply_flow by (simp add: nat_packet_def ex_reply_l4 ex_nat_config_def)

lemma ex_reply_port_ok: "nat_port_ok ex_nat_config ex_ch ex_manager (nat_packet 60 ex_reply (wan_device ex_nat_config))"
  unfolding ex_reply_packet by (simp add: nat_port_ok_def ex_manager_def)

lemma ex_reply_spec: "fst (nat_spec ex_nat_config 5 1000 idx (nat_emap ex_ch ex_manager)
    (nat_packet 60 ex_reply (wan_device ex_nat_config)) 9) = Some (0, 0x0200000a, 0x0100000a, 2, 1)"
  unfolding ex_reply_packet by code_simp

lemma ex_reply_run:
  "\<exists>st' manager'. nat_process True ex_nat_config cks ex_manager (wan_device ex_nat_config) ex_reply 9 = Some (0, st', manager')"
proof -
  obtain dst st' manager' idx out em' where
    "nat_process True ex_nat_config cks ex_manager (wan_device ex_nat_config) ex_reply 9 = Some (dst, st', manager')"
    "nat_spec ex_nat_config 5 1000 idx (nat_emap ex_ch ex_manager) (nat_packet 60 ex_reply (wan_device ex_nat_config)) 9 = (out, em')"
    "nat_sent ex_nat_config 60 ex_reply (wan_device ex_nat_config) out dst st'"
    using nat_process_spec [OF ex_nat_state_ok [of 9] _ ex_reply_fresh(1) _ ex_reply_port_ok, of cks] ex_reply_fresh(2)
    by (auto simp: ex_nat_config_def ex_manager_def)
  then show ?thesis using ex_reply_spec [of idx] by (auto simp: nat_sent_def)
qed

theorem nat_no_injection_witness:
  "\<exists>i k. nat_flow ex_ch ex_manager i = Some k \<and> nat_port ex_manager i = 5 \<and> fl_dst_ip k = 0x0200000a \<and>
     fl_internal_device k = 0"
proof -
  obtain st' manager' where run: "nat_process True ex_nat_config \<lparr>rte_ipv4_udptcp_cksum = (\<lambda>_ _ _. 0), rte_ipv4_cksum = (\<lambda>_ _. 0)\<rparr>
       ex_manager (wan_device ex_nat_config) ex_reply 9 = Some (0, st', manager')"
    using ex_reply_run by blast
  have "60 + 14 \<le> int (length (pkt ex_reply))" using ex_reply_fresh(2) by simp
  moreover have "0 \<noteq> wan_device ex_nat_config" by (simp add: ex_nat_config_def)
  ultimately obtain i k where "nat_flow ex_ch ex_manager i = Some k" "5 = nat_port ex_manager i" "0x0200000a = fl_dst_ip k"
    "0 = fl_internal_device k"
    using nat_no_injection [OF ex_nat_state_ok [of 9] ex_reply_fresh(1) _ run] by (auto simp: ex_reply_packet)
  then show ?thesis by metis
qed

lemma ex_out_run:
  "\<exists>st' manager'. nat_process True ex_nat_config cks ex_manager 0 ex_packet 8 = Some (wan_device ex_nat_config, st', manager') \<and>
     dst_addr st' 14 = Some 0x0200000a \<and> src_port st' 34 = Some 5 \<and> dst_port st' 34 = Some 2 \<and> next_proto_id st' 14 = Some 6"
proof -
  have p: "nat_packet 60 ex_packet 0 = Some (ex_flow 1)"
    by (simp add: nat_packet_def ex_packet_l4 ex_packet_flow)
  then have "nat_port_ok ex_nat_config ex_ch ex_manager (nat_packet 60 ex_packet 0)"
    by (simp add: nat_port_ok_def ex_flow_def ex_nat_config_def)
  then obtain dst st' manager' idx out em' where
    "nat_process True ex_nat_config cks ex_manager 0 ex_packet 8 = Some (dst, st', manager')"
    "nat_spec ex_nat_config 5 1000 idx (nat_emap ex_ch ex_manager) (Some (ex_flow 1)) 8 = (out, em')"
    "nat_sent ex_nat_config 60 ex_packet 0 out dst st'"
    using nat_process_spec [OF ex_nat_state_ok [of 8] _ ex_packet_fresh _, of 0 cks] ex_packet_length p
    by (auto simp: ex_nat_config_def ex_manager_def)
  moreover have "next_proto_id ex_packet 14 = Some 6" by code_simp
  ultimately show ?thesis
    using ex_nat_spec [of idx] by (auto simp: nat_sent_def sent_fields_def ex_packet_l4 ex_nat_config_def)
qed

theorem nat_ports_distinct_witness:
  "\<exists>st' manager' port. nat_process True ex_nat_config \<lparr>rte_ipv4_udptcp_cksum = (\<lambda>_ _ _. 0), rte_ipv4_cksum = (\<lambda>_ _. 0)\<rparr>
       ex_manager 0 ex_packet 8 = Some (wan_device ex_nat_config, st', manager') \<and>
     src_port st' 34 = Some port \<and> nat_flow ex_ch ex_manager 1 = Some (ex_flow 3) \<and> uint port \<noteq> 5 + 1 \<and> uint port < 8"
proof -
  let ?cks = "\<lparr>rte_ipv4_udptcp_cksum = (\<lambda>_ _ _. 0), rte_ipv4_cksum = (\<lambda>_ _. 0)\<rparr>"
  obtain st' manager' where out: "nat_process True ex_nat_config ?cks ex_manager 0 ex_packet 8 = Some (wan_device ex_nat_config, st', manager')"
    using ex_out_run by blast
  have k: "nat_flow ex_ch ex_manager 1 = Some (ex_flow 3)" "dchain_get_time_fp ex_ch 1 = Some 7" by (simp_all add: ex_nat_flows)
  have small: "uint (nat_expiration ex_manager) = 1" "uint (nat_start_port ex_manager) = 5" "length (device_macs ex_nat_config) = 2"
    "0 \<noteq> wan_device ex_nat_config" "ex_flow 1 \<noteq> ex_flow 3"
    by (simp_all add: ex_manager_def ex_nat_config_def ex_flow_def)
  have "nat_packet 60 ex_packet 0 = Some (ex_flow 1)" by (simp add: nat_packet_def ex_packet_l4 ex_packet_flow)
  then show ?thesis
    using nat_ports_distinct [OF ex_nat_state_ok [of 8] _ _ ex_packet_fresh _ out k] out small ex_packet_length ex_packet_l4 k(1)
    by auto
qed


end
