(* ===== verification/Runs.thy ===== *)
theory Runs
  imports Emap Packet_Io
begin

text \<open>
  Runs of a handler over sequences of packets, as the main loop makes them. The locale \<open>packet_run\<close> is what a
  statement about a run needs of a handler: an invariant that every packet keeps, up to some time. \<open>emap_bound\<close>
  is the invariant that most of these statements are about: a key keeps its index, and the value stored
  for it, as long as it is not old enough to expire, whatever is done for other keys.
\<close>

declare of_nat_unat [simp del]

section \<open>Runs\<close>

text \<open>A packet with the device it arrives on, its length and the time at which it is handled.\<close>

type_synonym arrival = "u16 \<times> packet_io \<times> u16 \<times> vigor_time"

abbreviation arrival_time :: "arrival \<Rightarrow> vigor_time" where
  "arrival_time a \<equiv> snd (snd (snd a))"

fun nf_run ::
  "('s \<Rightarrow> u16 \<Rightarrow> packet_io \<Rightarrow> u16 \<Rightarrow> vigor_time \<Rightarrow> ('r \<times> packet_io \<times> 's) option) \<Rightarrow> 's \<Rightarrow> arrival list
   \<Rightarrow> ('r list \<times> 's) option" where
  "nf_run process s [] = Some ([], s)"
| "nf_run process s ((device, st, sz, now) # ps) = do {
     (dst, _, s) \<leftarrow> process s device st sz now;
     (dsts, s) \<leftarrow> nf_run process s ps;
     Some (dst # dsts, s)
   }"

locale packet_run =
  fixes process :: "'s \<Rightarrow> u16 \<Rightarrow> packet_io \<Rightarrow> u16 \<Rightarrow> vigor_time \<Rightarrow> ('r \<times> packet_io \<times> 's) option"
    and inv :: "'s \<Rightarrow> vigor_time \<Rightarrow> bool" and arrives :: "u16 \<Rightarrow> packet_io \<Rightarrow> bool" and deadline :: vigor_time
  assumes packet_keeps: "inv s t \<Longrightarrow> t \<le> now \<Longrightarrow> now \<le> deadline \<Longrightarrow> arrives device st \<Longrightarrow>
      \<exists>dst st' s'. process s device st sz now = Some (dst, st', s') \<and> inv s' now"
begin

lemma run_keeps:
  "inv s t \<Longrightarrow> sorted (t # map arrival_time ps @ [deadline]) \<Longrightarrow> \<forall>a \<in> set ps. arrives (fst a) (fst (snd a)) \<Longrightarrow>
     \<exists>dsts s'. nf_run process s ps = Some (dsts, s') \<and> inv s' (last (t # map arrival_time ps))"
proof (induction ps arbitrary: s t)
  case (Cons a ps)
  obtain device st sz now where a: "a = (device, st, sz, now)" by (cases a)
  have t: "t \<le> now" "now \<le> deadline" "arrives device st" "sorted (now # map arrival_time ps @ [deadline])"
    using Cons.prems(2,3) a by (auto simp: sorted_append)
  obtain dst st' s1 where one: "process s device st sz now = Some (dst, st', s1)" "inv s1 now"
    using packet_keeps [OF Cons.prems(1) t(1-3), of sz] by blast
  obtain dsts s' where "nf_run process s1 ps = Some (dsts, s')" "inv s' (last (now # map arrival_time ps))"
    using Cons.IH [OF one(2) t(4)] Cons.prems(3) by auto
  then show ?case using one(1) a by auto
qed simp

lemma run_then:
  assumes "inv s t" "sorted (t # map arrival_time ps @ [deadline])" "\<forall>a \<in> set ps. arrives (fst a) (fst (snd a))"
  obtains dsts s' t' where "nf_run process s ps = Some (dsts, s')" "inv s' t'" "t \<le> t'" "t' \<le> deadline"
proof -
  have "t \<le> last (t # map arrival_time ps)" "last (t # map arrival_time ps) \<le> deadline"
    using assms(2) by (auto simp: sorted_append last_map)
  then show ?thesis using run_keeps [OF assms] that by blast
qed

end

section \<open>Entries that stay\<close>

definition emap_bound :: "'k emap \<Rightarrow> 'v list \<Rightarrow> 'k \<Rightarrow> int \<Rightarrow> 'v \<Rightarrow> vigor_time \<Rightarrow> bool" where
  "emap_bound em xs k i v t \<longleftrightarrow>
     emap_has em k \<and> emap_get em k = i \<and> xs ! nat i = v \<and> (case emap_time em i of None \<Rightarrow> False | Some u \<Rightarrow> t \<le> u)"

lemma emap_bound_expire:
  assumes "emap_table pow2 em chain vector m" "emap_bound em xs k i v t" "u \<le> t"
  shows "emap_bound (emap_expire_all em u) xs k i v t"
  using assms emap_expire_lookup [OF assms(1), of u] by (auto simp: emap_bound_def split: option.splits)

lemma emap_bound_refresh:
  assumes "emap_table pow2 em chain vector m" "emap_bound em xs k i v t" "t \<le> now"
  shows "emap_bound (emap_refresh_idx em j now) xs k i v t"
  using assms emap_ops_lookup(1-3) [OF assms(1)] by (auto simp: emap_bound_def split: option.splits)

lemma emap_bound_add:
  assumes tab: "emap_table pow2 em chain vector m" and tab': "emap_table pow2 (emap_add em k' j now) chain' vector' m'"
    and new: "\<not> emap_has em k'" and bound: "emap_bound em xs k i v t"
  shows "emap_bound (emap_add em k' j now) (xs[nat j := w]) k i v t"
proof -
  have has: "emap_has em k" "emap_get em k = i" "emap_has_idx em i"
    using bound table_facts(6) [OF tab, of i] by (auto simp: emap_bound_def split: option.splits)
  have fresh: "\<not> emap_has_idx em j" by (rule emap_add_fresh [OF tab'])
  have "0 \<le> j" using table_facts(1) [OF tab', of k'] table_facts(5) [OF tab', of j] emap_ops_lookup(4,5) [OF tab] by auto
  then have "nat j \<noteq> nat i" using fresh has(3) table_facts(5) [OF tab has(3)] by (metis eq_nat_nat_iff)
  then show ?thesis
    using bound new has fresh emap_ops_lookup(4,5) [OF tab] emap_ops_lookup(6) [OF tab fresh]
    by (auto simp: emap_bound_def)
qed

lemma emap_bound_erase:
  assumes tab: "emap_table pow2 em chain vector m" and k': "emap_has em k'" "k' \<noteq> k" and bound: "emap_bound em xs k i v t"
  shows "emap_bound (emap_erase em k') xs k i v t"
proof -
  have has: "emap_has em k" "emap_get em k = i" using bound by (simp_all add: emap_bound_def)
  have "i \<noteq> emap_get em k'" using table_facts(2) [OF tab k'(1)] table_facts(2) [OF tab has(1)] has(2) k'(2) by auto
  moreover obtain ch where "emap_chain em = ch" "double_chainp ch chain"
    using tab by (auto simp: emap_table_def flow_table_ok_def)
  ultimately have "emap_time (emap_erase em k') i = emap_time em i"
    by (cases ch) (auto simp: alist_get_remove dest: double_chainp_range(2))
  then show ?thesis using bound k' has by (simp add: emap_bound_def emap_erase_lookup)
qed

text \<open>An entry that is erased makes room.\<close>

lemma emap_erase_room:
  assumes tab: "emap_table pow2 em chain vector m" and k: "emap_has em k"
  shows "\<not> emap_full (emap_erase em k)"
proof -
  obtain ch where ch: "emap_chain em = ch" "double_chainp ch chain" using tab by (auto simp: emap_table_def flow_table_ok_def)
  obtain alist sz low high where al: "ch = dchain alist sz low high" by (cases ch)
  have "emap_get em k \<in> set (map fst alist)"
    using table_facts(1,6) [OF tab] k ch(1) by (simp add: al alist_get_None)
  then have "length (remove_by_index_fp alist (emap_get em k)) < length alist"
    using map_fst_remove [of alist "emap_get em k"] by (metis length_map length_remove1 length_pos_if_in_set diff_less zero_less_one)
  moreover have "int (length alist) \<le> sz" using double_chainp_range(4) [OF ch(2)] by (simp add: al)
  ultimately show ?thesis using ch(1) by (cases em) (simp add: al)
qed

text \<open>Using a key, or giving it an index, makes it stay from then on.\<close>

lemma emap_bound_used:
  assumes tab: "emap_table pow2 em chain vector m"
  shows "emap_has em k \<Longrightarrow> emap_bound (emap_refresh_idx em (emap_get em k) now) xs k (emap_get em k) (xs ! nat (emap_get em k)) now"
    "\<lbrakk>emap_table pow2 (emap_add em k j now) chain' vector' m'; int (length xs) = emap_range em\<rbrakk> \<Longrightarrow>
       emap_bound (emap_add em k j now) (xs[nat j := w]) k j w now"
proof -
  show "emap_bound (emap_refresh_idx em (emap_get em k) now) xs k (emap_get em k) (xs ! nat (emap_get em k)) now" if "emap_has em k"
    using that emap_ops_lookup(1-3) [OF tab] by (simp add: emap_bound_def)
  assume tab': "emap_table pow2 (emap_add em k j now) chain' vector' m'" and len: "int (length xs) = emap_range em"
  have fresh: "\<not> emap_has_idx em j" by (rule emap_add_fresh [OF tab'])
  have "0 \<le> j \<and> j < emap_range em"
    using table_facts(1) [OF tab', of k] table_facts(5) [OF tab', of j] emap_ops_lookup(4,5) [OF tab] by auto
  then have "nat j < length xs" using len by auto
  then show "emap_bound (emap_add em k j now) (xs[nat j := w]) k j w now"
    using emap_ops_lookup(4,5) [OF tab] emap_ops_lookup(6) [OF tab fresh] by (simp add: emap_bound_def)
qed

end
