(* ===== verification/Vigfw.thy ===== *)
theory Vigfw
  imports Runs
begin

text \<open>
  The firewall, \<open>vigfw/fw_flowmanager.c\<close> and \<open>vigfw/fw_main.c\<close>. The structure
  \<open>State\<close> and its allocation are generated by the build from \<open>vigfw/dataspec.ml\<close>;
  the fields the code uses are the fields of \<open>FwManager\<close>. The handler is shown to
  implement \<open>vigfw/spec.py\<close>: packets from the inside are let out and open a flow, packets
  from outside are let in only as replies, to the device that opened the flow.
\<close>

declare of_nat_unat [simp del]

section \<open>The code\<close>

record FwFlowId =
  fw_src_port :: u16
  fw_dst_port :: u16
  fw_src_ip :: u32
  fw_dst_ip :: u32
  fw_protocol :: u8

record FwManager =
  fw_fm :: "(FwFlowId kptr, FwFlowId) vmap"
  fw_fv :: "FwFlowId Vector"
  fw_int_devices :: "u32 Vector"
  fw_heap :: DoubleChain
  fw_expiration :: vigor_time

definition fw_manager_allocate ::
  "bool \<Rightarrow> (u64 \<Rightarrow> u16 \<Rightarrow> ((FwFlowId kptr, FwFlowId) vmap \<times> FwFlowId Vector \<times> u32 Vector \<times> DoubleChain) option)
   \<Rightarrow> u16 \<Rightarrow> vigor_time \<Rightarrow> u64 \<Rightarrow> FwManager option" where
  "fw_manager_allocate malloc_ok alloc_state fw_device exp max_flows =
     (if \<not> malloc_ok then None
      else case alloc_state max_flows fw_device of
        None \<Rightarrow> None
      | Some (m, v, d, h) \<Rightarrow>
          Some \<lparr>fw_fm = m, fw_fv = v, fw_int_devices = d, fw_heap = h, fw_expiration = exp\<rparr>)"

definition fw_allocate_or_refresh_flow ::
  "bool \<Rightarrow> FwManager \<Rightarrow> FwFlowId \<Rightarrow> u32 \<Rightarrow> vigor_time \<Rightarrow> FwManager option" where
  "fw_allocate_or_refresh_flow pow2 manager fid internal_device time = do {
     (found, index) \<leftarrow> map_get pow2 (key_at (fw_fv manager)) (fw_fm manager) (Ext fid) 0;
     if found \<noteq> 0 then do {
       (_, h) \<leftarrow> dchain_rejuvenate_index (fw_heap manager) index time;
       Some (manager\<lparr>fw_heap := h\<rparr>)
     } else do {
       (ret, index, h) \<leftarrow> dchain_allocate_new_index (fw_heap manager) index time;
       let manager = manager\<lparr>fw_heap := h\<rparr>;
       if ret = 0 then Some manager
       else do {
         key \<leftarrow> vector_borrow (fw_fv manager) index;
         let v = vector_write (fw_fv manager) key fid;
         m \<leftarrow> map_put pow2 (key_at v) (fw_fm manager) (Slot key) index;
         let v = vector_return v index key;
         int_dev \<leftarrow> vector_borrow (fw_int_devices manager) index;
         let d = vector_write (fw_int_devices manager) int_dev internal_device;
         Some (manager\<lparr>fw_fv := v, fw_fm := m, fw_int_devices := vector_return d index int_dev\<rparr>)
       }
     }
   }"

definition fw_expire :: "bool \<Rightarrow> FwManager \<Rightarrow> vigor_time \<Rightarrow> FwManager option" where
  "fw_expire pow2 manager time = do {
     cassert (time \<ge> 0);
     e \<leftarrow> s64 (fw_expiration manager * 1000);
     let last_time = s64_wrap (time - e);
     (_, h, m) \<leftarrow> expire_items_single_map pow2 (fw_heap manager) (fw_fv manager) (fw_fm manager) last_time;
     Some (manager\<lparr>fw_heap := h, fw_fm := m\<rparr>)
   }"

definition fw_get_refresh_flow ::
  "bool \<Rightarrow> FwManager \<Rightarrow> FwFlowId \<Rightarrow> vigor_time \<Rightarrow> u32 \<Rightarrow> (bool \<times> u32 \<times> FwManager) option" where
  "fw_get_refresh_flow pow2 manager fid time internal_device = do {
     (found, index) \<leftarrow> map_get pow2 (key_at (fw_fv manager)) (fw_fm manager) (Ext fid) 0;
     if found = 0 then Some (False, internal_device, manager)
     else do {
       int_dev \<leftarrow> vector_borrow (fw_int_devices manager) index;
       let internal_device = v_data (fw_int_devices manager) ! int_dev;
       let d = vector_return (fw_int_devices manager) index int_dev;
       (_, h) \<leftarrow> dchain_rejuvenate_index (fw_heap manager) index time;
       Some (True, internal_device, manager\<lparr>fw_int_devices := d, fw_heap := h\<rparr>)
     }
   }"

definition fw_process ::
  "bool \<Rightarrow> u16 \<Rightarrow> FwManager \<Rightarrow> u16 \<Rightarrow> packet_io \<Rightarrow> vigor_time
   \<Rightarrow> (u16 \<times> packet_io \<times> FwManager) option" where
  "fw_process pow2 wan manager device st now = do {
     manager \<leftarrow> fw_expire pow2 manager now;
     (eth, st) \<leftarrow> nf_then_get_rte_ether_header st;
     (ip_hdr, _, st) \<leftarrow> nf_then_get_rte_ipv4_header eth st;
     case ip_hdr of
       None \<Rightarrow> Some (device, st, manager)
     | Some ip \<Rightarrow> do {
         (l4_hdr, st) \<leftarrow> nf_then_get_tcpudp_header ip st;
         case l4_hdr of
           None \<Rightarrow> Some (device, st, manager)
         | Some l4 \<Rightarrow> do {
             sport \<leftarrow> src_port st l4;
             dport \<leftarrow> dst_port st l4;
             saddr \<leftarrow> src_addr st ip;
             daddr \<leftarrow> dst_addr st ip;
             proto \<leftarrow> next_proto_id st ip;
             if device = wan then do {
               let fid = \<lparr>fw_src_port = dport, fw_dst_port = sport, fw_src_ip = daddr, fw_dst_ip = saddr,
                         fw_protocol = proto\<rparr>;
               (known, dst_device_long, manager) \<leftarrow> fw_get_refresh_flow pow2 manager fid now 0;
               if \<not> known then Some (device, st, manager)
               else Some (ucast dst_device_long, st, manager)
             } else do {
               let fid = \<lparr>fw_src_port = sport, fw_dst_port = dport, fw_src_ip = saddr, fw_dst_ip = daddr,
                         fw_protocol = proto\<rparr>;
               manager \<leftarrow> fw_allocate_or_refresh_flow pow2 manager fid (ucast device) now;
               Some (wan, st, manager)
             }
           }
       }
   }"

section \<open>The specification\<close>

definition fw_reply :: "FwFlowId \<Rightarrow> FwFlowId" where
  "fw_reply p = \<lparr>fw_src_port = fw_dst_port p, fw_dst_port = fw_src_port p, fw_src_ip = fw_dst_ip p,
     fw_dst_ip = fw_src_ip p, fw_protocol = fw_protocol p\<rparr>"

text \<open>
  \<open>vigfw/spec.py\<close>: the packet is absent when a header did not match. The result is the
  device the unchanged packet is sent to and the new state; \<open>idx\<close> is the index the code
  chose for a new flow.
\<close>

definition fw_spec ::
  "u16 \<Rightarrow> vigor_time \<Rightarrow> int \<Rightarrow> FwFlowId emap \<times> u32 list \<Rightarrow> u16 \<Rightarrow> FwFlowId option \<Rightarrow> vigor_time
   \<Rightarrow> u16 option \<times> FwFlowId emap \<times> u32 list" where
  "fw_spec wan exp_time idx = (\<lambda>(flow_emap, int_devices) received_on_port packet now.
     let flow_emap = emap_expire_all flow_emap (now - exp_time) in
     case packet of None \<Rightarrow> (None, flow_emap, int_devices)
     | Some p \<Rightarrow>
         if received_on_port = wan then
           (let internal_flow = fw_reply p in
            if emap_has flow_emap internal_flow then
              (let fl_id = emap_get flow_emap internal_flow in
               (Some (ucast (int_devices ! nat fl_id)), emap_refresh_idx flow_emap fl_id now, int_devices))
            else (None, flow_emap, int_devices))
         else if emap_has flow_emap p then
           (Some wan, emap_refresh_idx flow_emap (emap_get flow_emap p) now, int_devices)
         else if \<not> emap_full flow_emap then
           (Some wan, emap_add flow_emap p idx now, int_devices[nat idx := ucast received_on_port])
         else (Some wan, flow_emap, int_devices))"

section \<open>The flow manager\<close>

text \<open>
  \<open>fw_ok\<close>: the table stands for \<open>em\<close>, there is a device for every index, and the
  expiration time is one the configuration can hold.
\<close>

definition fw_ok :: "bool \<Rightarrow> FwFlowId emap \<Rightarrow> u32 list \<Rightarrow> FwManager \<Rightarrow> bool" where
  "fw_ok pow2 em devs manager \<longleftrightarrow>
     emap_table pow2 em (fw_heap manager) (fw_fv manager) (fw_fm manager) \<and>
     vector_wf (fw_int_devices manager) \<and> v_data (fw_int_devices manager) = devs \<and>
     int (length devs) = emap_range em \<and> 0 \<le> fw_expiration manager \<and> fw_expiration manager < 2 ^ 32"

lemma fw_ok_table: "fw_ok pow2 em devs manager \<Longrightarrow> emap_table pow2 em (fw_heap manager) (fw_fv manager) (fw_fm manager)"
  by (simp add: fw_ok_def)

lemma fw_device_borrow:
  assumes "fw_ok pow2 em devs manager" "0 \<le> i" "i < emap_range em"
  shows "vector_borrow (fw_int_devices manager) i = Some (nat i)"
  using vector_borrow_spec [of "fw_int_devices manager" i] assms by (simp add: fw_ok_def)

lemma fw_expire_spec:
  assumes ok: "fw_ok pow2 em devs manager" and now: "0 \<le> now" "now < 2 ^ 63"
  shows "\<exists>manager'. fw_expire pow2 manager now = Some manager' \<and>
     fw_ok pow2 (emap_expire_all em (now - fw_expiration manager * 1000)) devs manager' \<and>
     fw_expiration manager' = fw_expiration manager"
proof -
  let ?e = "fw_expiration manager * 1000"
  have e: "0 \<le> fw_expiration manager" "fw_expiration manager < 2 ^ 32" using ok by (simp_all add: fw_ok_def)
  then have "s64 ?e = Some ?e" "s64_wrap (now - ?e) = now - ?e" using now by (simp_all add: s64_def s64_wrap_id)
  then show ?thesis
    using table_expire [OF fw_ok_table [OF ok], of "now - ?e"] ok now
    by (fastforce simp: fw_expire_def fw_ok_def cassert_def)
qed

lemma fw_get_refresh_spec:
  assumes ok: "fw_ok pow2 em devs manager" and time: "emap_now em \<le> now"
  shows "\<not> emap_has em k \<Longrightarrow> fw_get_refresh_flow pow2 manager k now d = Some (False, d, manager)"
    "emap_has em k \<Longrightarrow> \<exists>manager'. fw_get_refresh_flow pow2 manager k now d = Some (True, devs ! nat (emap_get em k), manager') \<and>
       fw_ok pow2 (emap_refresh_idx em (emap_get em k) now) devs manager' \<and> fw_expiration manager' = fw_expiration manager"
proof -
  note tab = fw_ok_table [OF ok]
  show "fw_get_refresh_flow pow2 manager k now d = Some (False, d, manager)" if "\<not> emap_has em k"
    using that table_get [OF tab, of k] by (simp add: fw_get_refresh_flow_def)
  assume has: "emap_has em k"
  note i = table_facts(1) [OF tab has]
  from table_refresh [OF tab i time] obtain h where
    "dchain_rejuvenate_index (fw_heap manager) (emap_get em k) now = Some (1, h)"
    "emap_table pow2 (emap_refresh_idx em (emap_get em k) now) h (fw_fv manager) (fw_fm manager)" by blast
  then show "\<exists>manager'. fw_get_refresh_flow pow2 manager k now d = Some (True, devs ! nat (emap_get em k), manager') \<and>
       fw_ok pow2 (emap_refresh_idx em (emap_get em k) now) devs manager' \<and> fw_expiration manager' = fw_expiration manager"
    using ok has table_get [OF tab, of k] fw_device_borrow [OF ok] table_facts(5) [OF tab i]
    by (simp add: fw_get_refresh_flow_def fw_ok_def)
qed

text \<open>The three cases of a packet from the inside: known, new, and new in a full table.\<close>

definition fw_opened :: "FwFlowId emap \<Rightarrow> u32 list \<Rightarrow> FwFlowId \<Rightarrow> u32 \<Rightarrow> int \<Rightarrow> vigor_time \<Rightarrow> FwFlowId emap \<times> u32 list" where
  "fw_opened em devs k dev idx now =
     (if emap_has em k then (emap_refresh_idx em (emap_get em k) now, devs)
      else if \<not> emap_full em then (emap_add em k idx now, devs[nat idx := dev])
      else (em, devs))"

lemma fw_allocate_or_refresh_spec:
  assumes ok: "fw_ok pow2 em devs manager" and time: "emap_now em \<le> now"
  shows "\<exists>idx manager' em' devs'. fw_allocate_or_refresh_flow pow2 manager k dev now = Some manager' \<and>
     fw_opened em devs k dev idx now = (em', devs') \<and> fw_ok pow2 em' devs' manager' \<and>
     0 \<le> idx \<and> idx < emap_range em \<and> fw_expiration manager' = fw_expiration manager"
proof -
  note tab = fw_ok_table [OF ok]
  consider (known) "emap_has em k" | (full) "\<not> emap_has em k" "emap_full em" | (new) "\<not> emap_has em k" "\<not> emap_full em"
    by blast
  then show ?thesis
  proof cases
    case known
    note i = table_facts(1) [OF tab known]
    from table_refresh [OF tab i time] obtain h where
      "dchain_rejuvenate_index (fw_heap manager) (emap_get em k) now = Some (1, h)"
      "emap_table pow2 (emap_refresh_idx em (emap_get em k) now) h (fw_fv manager) (fw_fm manager)" by blast
    then show ?thesis
      using ok known table_get [OF tab, of k] table_facts(9) [OF tab]
      by (intro exI [of _ 0]) (simp add: fw_allocate_or_refresh_flow_def fw_opened_def fw_ok_def)
  next
    case full
    then show ?thesis
      using ok table_get [OF tab, of k] table_full [OF tab full(2), of 0 now] table_facts(9) [OF tab]
      by (intro exI [of _ 0]) (simp add: fw_allocate_or_refresh_flow_def fw_opened_def)
  next
    case new
    obtain i h m where run: "dchain_allocate_new_index (fw_heap manager) 0 now = Some (1, i, h)"
      "vector_borrow (fw_fv manager) i = Some (nat i)"
      "map_put pow2 (key_at (vector_write (fw_fv manager) (nat i) k)) (fw_fm manager) (Slot (nat i)) i = Some m"
      "0 \<le> i" "i < emap_range em" "emap_table pow2 (emap_add em k i now) h (vector_write (fw_fv manager) (nat i) k) m"
      using table_add [OF tab new(2,1) time, of 0] by blast
    then show ?thesis
      using ok new table_get [OF tab, of k] fw_device_borrow [OF ok run(4,5)]
      by (intro exI [of _ i]) (simp add: fw_allocate_or_refresh_flow_def fw_opened_def fw_ok_def)
  qed
qed

section \<open>The handler\<close>

definition fw_packet :: "int \<Rightarrow> packet_io \<Rightarrow> FwFlowId option" where
  "fw_packet n st = do {
     l4 \<leftarrow> l4_offset n (pkt st);
     sport \<leftarrow> src_port st l4;
     dport \<leftarrow> dst_port st l4;
     saddr \<leftarrow> src_addr st 14;
     daddr \<leftarrow> dst_addr st 14;
     proto \<leftarrow> next_proto_id st 14;
     Some \<lparr>fw_src_port = sport, fw_dst_port = dport, fw_src_ip = saddr, fw_dst_ip = daddr, fw_protocol = proto\<rparr>
   }"

lemma fw_packet_fields:
  assumes "fw_packet n st = Some p" "l4_offset n (pkt st) = Some l4"
  shows "src_port st l4 = Some (fw_src_port p)" "dst_port st l4 = Some (fw_dst_port p)"
    "src_addr st 14 = Some (fw_src_ip p)" "dst_addr st 14 = Some (fw_dst_ip p)"
    "next_proto_id st 14 = Some (fw_protocol p)"
  using assms by (auto simp: fw_packet_def split: bind_splits)

text \<open>The two directions, for a table from which the old flows have been removed.\<close>

lemma fw_directions:
  assumes ok: "fw_ok pow2 em devs manager" and time: "emap_now em \<le> now"
    and em: "emap_expire_all em0 (now - t) = em"
  shows "\<exists>dst manager' idx out em' devs'.
     (if device = wan then do {
         (known, d, manager2) \<leftarrow> fw_get_refresh_flow pow2 manager (fw_reply p) now 0;
         if \<not> known then Some (device, st, manager2) else Some (ucast d, st, manager2)
       } else do {
         manager2 \<leftarrow> fw_allocate_or_refresh_flow pow2 manager p (ucast device) now;
         Some (wan, st, manager2) }) = Some (dst, st, manager') \<and>
     fw_spec wan t idx (em0, devs) device (Some p) now = (out, em', devs') \<and>
     dst = (case out of None \<Rightarrow> device | Some d \<Rightarrow> d) \<and> fw_ok pow2 em' devs' manager' \<and>
     emap_now em' \<le> now \<and> 0 \<le> idx \<and> idx < emap_range em \<and> fw_expiration manager' = fw_expiration manager"
proof (cases "device = wan")
  case True
  have pos: "0 < emap_range em" using table_facts(9) [OF fw_ok_table [OF ok]] .
  show ?thesis
  proof (cases "emap_has em (fw_reply p)")
    case False
    then show ?thesis
      using True ok time pos em fw_get_refresh_spec(1) [OF ok time, of "fw_reply p" 0]
      by (intro exI [of _ device] exI [of _ manager] exI [of _ 0]) (simp add: fw_spec_def)
  next
    case has: True
    then obtain manager2 where
      "fw_get_refresh_flow pow2 manager (fw_reply p) now 0 = Some (True, devs ! nat (emap_get em (fw_reply p)), manager2)"
      "fw_ok pow2 (emap_refresh_idx em (emap_get em (fw_reply p)) now) devs manager2"
      "fw_expiration manager2 = fw_expiration manager"
      using fw_get_refresh_spec(2) [OF ok time, of "fw_reply p" 0] by blast
    then show ?thesis
      using True has pos em
      by (intro exI [of _ "ucast (devs ! nat (emap_get em (fw_reply p)))"] exI [of _ manager2] exI [of _ 0])
        (simp add: fw_spec_def Let_def)
  qed
next
  case False
  obtain idx manager2 em' devs' where f: "fw_allocate_or_refresh_flow pow2 manager p (ucast device) now = Some manager2"
    "fw_opened em devs p (ucast device) idx now = (em', devs')" "fw_ok pow2 em' devs' manager2"
    "0 \<le> idx" "idx < emap_range em" "fw_expiration manager2 = fw_expiration manager"
    using fw_allocate_or_refresh_spec [OF ok time, of p "ucast device"] by auto
  then have "fw_spec wan t idx (em0, devs) device (Some p) now = (Some wan, em', devs')" "emap_now em' \<le> now"
    using False time em by (auto simp: fw_spec_def fw_opened_def Let_def split: if_splits)
  then show ?thesis using False f by (intro exI [of _ wan] exI [of _ manager2] exI [of _ idx]) simp
qed

lemma fw_process_spec:
  assumes ok: "fw_ok pow2 em devs manager" and now: "0 \<le> now" "now < 2 ^ 63" "emap_now em \<le> now"
    and fresh: "fresh_packet n st"
  shows "\<exists>dst st' manager' idx out em' devs'. fw_process pow2 wan manager device st now = Some (dst, st', manager') \<and>
     fw_spec wan (fw_expiration manager * 1000) idx (em, devs) device (fw_packet n st) now = (out, em', devs') \<and>
     dst = (case out of None \<Rightarrow> device | Some d \<Rightarrow> d) \<and> pkt st' = pkt st \<and> fw_ok pow2 em' devs' manager' \<and>
     emap_now em' \<le> now \<and> 0 \<le> idx \<and> idx < emap_range em \<and> fw_expiration manager' = fw_expiration manager"
proof -
  let ?em = "emap_expire_all em (now - fw_expiration manager * 1000)"
  obtain manager1 where m1: "fw_expire pow2 manager now = Some manager1" "fw_ok pow2 ?em devs manager1"
    "fw_expiration manager1 = fw_expiration manager"
    using fw_expire_spec [OF ok now(1,2)] by blast
  obtain st1 where st1: "nf_headers st = Some (l4_offset n (pkt st), st1)" "pkt st1 = pkt st"
    using nf_headers_value [OF fresh] by blast
  have time: "emap_now ?em \<le> now" and range: "emap_range ?em = emap_range em" using now(3) by simp_all
  have pos: "0 < emap_range em" using table_facts(9) [OF fw_ok_table [OF ok]] .
  show ?thesis
  proof (cases "l4_offset n (pkt st)")
    case None
    then have "fw_process pow2 wan manager device st now = Some (device, st1, manager1)"
      by (simp add: fw_process_def m1(1) nf_headers_then [OF fresh] st1(1))
    then show ?thesis
      using None m1 st1 time pos by (intro exI [of _ device] exI [of _ st1] exI [of _ manager1] exI [of _ 0])
        (simp add: fw_spec_def fw_packet_def)
  next
    case (Some l4)
    have l4: "34 \<le> l4" "l4 + 4 \<le> int (length (pkt st))"
      using l4_offset_range [OF Some] fresh by (auto simp: fresh_packet_def io_ok_def)
    obtain p where p: "fw_packet n st = Some p" using header_loads [OF l4] Some by (auto simp: fw_packet_def)
    have p_eq: "\<lparr>fw_src_port = fw_src_port p, fw_dst_port = fw_dst_port p, fw_src_ip = fw_src_ip p,
        fw_dst_ip = fw_dst_ip p, fw_protocol = fw_protocol p\<rparr> = p" by (cases p) simp
    have "src_port st1 = src_port st" "dst_port st1 = dst_port st" "src_addr st1 = src_addr st"
      "dst_addr st1 = dst_addr st" "next_proto_id st1 = next_proto_id st"
      using st1(2) by (auto simp: fun_eq_iff src_port_def dst_port_def src_addr_def dst_addr_def next_proto_id_def)
    then have run: "fw_process pow2 wan manager device st now =
      (if device = wan then do {
         (known, d, manager2) \<leftarrow> fw_get_refresh_flow pow2 manager1 (fw_reply p) now 0;
         if \<not> known then Some (device, st1, manager2) else Some (ucast d, st1, manager2)
       } else do {
         manager2 \<leftarrow> fw_allocate_or_refresh_flow pow2 manager1 p (ucast device) now;
         Some (wan, st1, manager2) })"
      by (simp add: fw_process_def m1(1) nf_headers_then [OF fresh] st1(1) Some fw_packet_fields [OF p Some]
          p_eq fw_reply_def Let_def)
    from fw_directions [OF m1(2) time refl, of device wan p st1] show ?thesis
      unfolding run p using m1(3) st1(2) range by fastforce
  qed
qed

section \<open>Properties\<close>

text \<open>
  C6. The packet handler of the firewall implements its specification: for every packet of at
  least 14 bytes it ends without a fault, does not change the packet, sends it where the
  specification sends it and leaves a coherent state with the flows and the devices that the
  specification leaves.
\<close>

theorem fw_process_refines_spec:
  assumes "fw_ok pow2 em devs manager" "0 \<le> now" "now < 2 ^ 63" "emap_now em \<le> now" "fresh_packet n st"
  shows "\<exists>dst st' manager' idx out em' devs'. fw_process pow2 wan manager device st now = Some (dst, st', manager') \<and>
     fw_spec wan (fw_expiration manager * 1000) idx (em, devs) device (fw_packet n st) now = (out, em', devs') \<and>
     dst = (case out of None \<Rightarrow> device | Some d \<Rightarrow> d) \<and> pkt st' = pkt st \<and> fw_ok pow2 em' devs' manager' \<and>
     emap_now em' \<le> now"
  using fw_process_spec [OF assms] by blast

section \<open>Runs\<close>

text \<open>
  \<open>fw_keeps\<close>: the table is in order, and the flow \<open>k\<close> has the index \<open>i\<close> and the device \<open>d\<close> and was used at
  \<open>t0\<close> or later, which is recent enough until \<open>deadline\<close>.
\<close>

definition fw_keeps ::
  "bool \<Rightarrow> FwFlowId \<Rightarrow> int \<Rightarrow> u32 \<Rightarrow> vigor_time \<Rightarrow> vigor_time \<Rightarrow> FwManager \<Rightarrow> vigor_time \<Rightarrow> bool" where
  "fw_keeps pow2 k i d t0 deadline manager t \<longleftrightarrow>
     0 \<le> t0 \<and> t0 \<le> t \<and> deadline < 2 ^ 63 \<and> deadline - fw_expiration manager * 1000 \<le> t0 \<and>
     (\<exists>em devs. fw_ok pow2 em devs manager \<and> emap_now em \<le> t \<and> emap_bound em devs k i d t0)"

lemma fw_spec_keeps:
  assumes ok: "fw_ok pow2 em devs manager" and ok': "fw_ok pow2 em' devs' manager'" and now: "0 \<le> now" "now < 2 ^ 63"
    and spec: "fw_spec wan (fw_expiration manager * 1000) idx (em, devs) device packet now = (out, em', devs')"
    and bound: "emap_bound em devs k i d t0" "now - fw_expiration manager * 1000 \<le> t0" "t0 \<le> now"
  shows "emap_bound em' devs' k i d t0"
proof -
  let ?em = "emap_expire_all em (now - fw_expiration manager * 1000)"
  obtain manager0 where "fw_ok pow2 ?em devs manager0" using fw_expire_spec [OF ok now] by blast
  note tab0 = fw_ok_table [OF this] and tab' = fw_ok_table [OF ok']
  have kept: "emap_bound ?em devs k i d t0" by (rule emap_bound_expire [OF fw_ok_table [OF ok] bound(1,2)])
  consider (same) "em' = ?em" "devs' = devs" | (refresh) j where "em' = emap_refresh_idx ?em j now" "devs' = devs"
    | (add) p where "em' = emap_add ?em p idx now" "devs' = devs[nat idx := ucast device]" "\<not> emap_has ?em p"
    using spec by (cases packet) (auto simp: fw_spec_def Let_def split: if_splits)
  then show ?thesis
  proof cases
    case same
    then show ?thesis using kept by simp
  next
    case (refresh j)
    then show ?thesis using emap_bound_refresh [OF tab0 kept bound(3)] by simp
  next
    case (add p)
    show ?thesis using emap_bound_add [OF tab0 tab' [unfolded add(1)] add(3) kept] by (simp add: add(1,2))
  qed
qed

interpretation fw_runs: packet_run "\<lambda>s device st _ now. fw_process pow2 wan s device st now" "fw_keeps pow2 k i d t0 deadline"
  "\<lambda>_ st. \<exists>n. fresh_packet n st" deadline for pow2 wan k i d t0 deadline
proof
  fix s t now device st
  assume keeps: "fw_keeps pow2 k i d t0 deadline s t" and t: "t \<le> now" "now \<le> deadline" and st: "\<exists>n. fresh_packet n st"
  obtain em devs where ok: "fw_ok pow2 em devs s" "emap_now em \<le> t" "emap_bound em devs k i d t0"
    and lim: "0 \<le> t0" "t0 \<le> t" "deadline < 2 ^ 63" "deadline - fw_expiration s * 1000 \<le> t0"
    using keeps by (auto simp: fw_keeps_def)
  obtain n where n: "fresh_packet n st" using st by blast
  have now: "0 \<le> now" "now < 2 ^ 63" "emap_now em \<le> now" "now - fw_expiration s * 1000 \<le> t0" "t0 \<le> now"
    using t ok(2) lim by linarith+
  obtain dst st' s' idx out em' devs' where run: "fw_process pow2 wan s device st now = Some (dst, st', s')"
    "fw_spec wan (fw_expiration s * 1000) idx (em, devs) device (fw_packet n st) now = (out, em', devs')"
    "fw_ok pow2 em' devs' s'" "emap_now em' \<le> now" "fw_expiration s' = fw_expiration s"
    using fw_process_spec [OF ok(1) now(1-3) n, of wan device] by blast
  have "emap_bound em' devs' k i d t0" by (rule fw_spec_keeps [OF ok(1) run(3) now(1,2) run(2) ok(3) now(4,5)])
  then show "\<exists>dst st' s'. fw_process pow2 wan s device st now = Some (dst, st', s') \<and> fw_keeps pow2 k i d t0 deadline s' now"
    using run lim now by (auto simp: fw_keeps_def)
qed

text \<open>A packet from the inside gives its flow an index, unless the table is full; the reply is sent to its device.\<close>

lemma fw_out_keeps:
  assumes ok: "fw_ok pow2 em devs manager" and now: "0 \<le> now" "now < 2 ^ 63" "emap_now em \<le> now"
    and packet: "fresh_packet n st" "fw_packet n st = Some p" and dev: "device \<noteq> wan"
    and em0: "em0 = emap_expire_all em (now - fw_expiration manager * 1000)" and room: "emap_has em0 p \<or> \<not> emap_full em0"
    and time: "deadline < 2 ^ 63" "deadline - fw_expiration manager * 1000 \<le> now"
  shows "\<exists>st' manager' i. fw_process pow2 wan manager device st now = Some (wan, st', manager') \<and> pkt st' = pkt st \<and>
     fw_keeps pow2 p i (if emap_has em0 p then devs ! nat (emap_get em0 p) else ucast device) now deadline manager' now"
proof -
  obtain manager0 where ok0: "fw_ok pow2 em0 devs manager0" using fw_expire_spec [OF ok now(1,2)] em0 by blast
  note tab0 = fw_ok_table [OF ok0]
  obtain dst st' manager' idx out em' devs' where run: "fw_process pow2 wan manager device st now = Some (dst, st', manager')"
    "fw_spec wan (fw_expiration manager * 1000) idx (em, devs) device (Some p) now = (out, em', devs')"
    "dst = (case out of None \<Rightarrow> device | Some d \<Rightarrow> d)" "pkt st' = pkt st" "fw_ok pow2 em' devs' manager'" "emap_now em' \<le> now"
    "fw_expiration manager' = fw_expiration manager"
    using fw_process_spec [OF ok now packet(1), of wan device] unfolding packet(2) by blast
  note tab' = fw_ok_table [OF run(5)]
  let ?d = "if emap_has em0 p then devs ! nat (emap_get em0 p) else ucast device"
  have "\<exists>i. emap_bound em' devs' p i ?d now"
  proof (cases "emap_has em0 p")
    case True
    then show ?thesis using run(2) dev emap_bound_used(1) [OF tab0 True] by (auto simp: fw_spec_def Let_def em0)
  next
    case False
    then have "em' = emap_add em0 p idx now" "devs' = devs[nat idx := ucast device]"
      using run(2) dev room by (auto simp: fw_spec_def Let_def em0)
    moreover have "int (length devs) = emap_range em0" using ok0 by (auto simp: fw_ok_def)
    ultimately show ?thesis using emap_bound_used(2) [OF tab0] tab' False by metis
  qed
  then obtain i where "emap_bound em' devs' p i ?d now" by blast
  then have "fw_keeps pow2 p i ?d now deadline manager' now"
    unfolding fw_keeps_def using run(5-) now time by (intro conjI exI [of _ em'] exI [of _ devs']) simp_all
  moreover have "dst = wan" using run(2,3) dev by (auto simp: fw_spec_def Let_def split: if_splits)
  ultimately show ?thesis using run(1,4) by auto
qed

lemma fw_reply_kept:
  assumes keeps: "fw_keeps pow2 p i d t0 deadline manager t" and t: "t \<le> deadline"
    and packet: "fresh_packet m r" "fw_packet m r = Some (fw_reply p)"
  shows "\<exists>st' manager'. fw_process pow2 wan manager wan r deadline = Some (ucast d, st', manager') \<and> pkt st' = pkt r"
proof -
  obtain em devs where ok: "fw_ok pow2 em devs manager" "emap_now em \<le> t" "emap_bound em devs p i d t0"
    and lim: "0 \<le> deadline" "deadline < 2 ^ 63" "deadline - fw_expiration manager * 1000 \<le> t0"
    using keeps t by (auto simp: fw_keeps_def)
  have "emap_bound (emap_expire_all em (deadline - fw_expiration manager * 1000)) devs p i d t0"
    by (rule emap_bound_expire [OF fw_ok_table [OF ok(1)] ok(3) lim(3)])
  moreover have "fw_reply (fw_reply p) = p" by (simp add: fw_reply_def)
  ultimately show ?thesis
    using fw_process_spec [OF ok(1) lim(1,2) order_trans [OF ok(2) t] packet(1), of wan wan] packet(2)
    by (auto simp: fw_spec_def Let_def emap_bound_def)
qed

text \<open>
  C16. The firewall lets replies in. Take a packet from the inside whose flow is in the table after it,
  because it was there or the table has room (with a full table the packet is sent out, but no flow is kept). It
  is sent out; and after any packets with an Ethernet header in between, a packet from outside with the addresses and the
  ports exchanged that comes before the flow expires is sent, unchanged, to the device of the flow: the one the
  first packet came from if it opened the flow, else the one recorded when the flow was opened.
\<close>

theorem fw_round_trip:
  assumes ok: "fw_ok pow2 em devs manager" and now: "0 \<le> now" "now < 2 ^ 63" "emap_now em \<le> now"
    and em0: "em0 = emap_expire_all em (now - fw_expiration manager * 1000)" and room: "emap_has em0 p \<or> \<not> emap_full em0"
    and packets: "fresh_packet n st" "fw_packet n st = Some p" "fresh_packet m r" "fw_packet m r = Some (fw_reply p)"
    and dev: "device \<noteq> wan" and time: "now' < 2 ^ 63" "now' - fw_expiration manager * 1000 \<le> now"
    and between: "sorted (now # map (\<lambda>a. snd (snd (snd a))) ps @ [now'])" "\<forall>a \<in> set ps. \<exists>l. fresh_packet l (fst (snd a))"
  shows "\<exists>st1 manager1 dsts manager2 st2 manager3. fw_process pow2 wan manager device st now = Some (wan, st1, manager1) \<and>
     nf_run (\<lambda>s device st _ now. fw_process pow2 wan s device st now) manager1 ps = Some (dsts, manager2) \<and>
     fw_process pow2 wan manager2 wan r now' =
       Some (if emap_has em0 p then ucast (devs ! nat (emap_get em0 p)) else device, st2, manager3) \<and>
     pkt st1 = pkt st \<and> pkt st2 = pkt r"
proof -
  let ?d = "if emap_has em0 p then devs ! nat (emap_get em0 p) else ucast device"
  obtain st1 manager1 i where one: "fw_process pow2 wan manager device st now = Some (wan, st1, manager1)" "pkt st1 = pkt st"
    "fw_keeps pow2 p i ?d now now' manager1 now"
    using fw_out_keeps [OF ok now packets(1,2) dev em0 room time] by blast
  obtain dsts manager2 t where two: "nf_run (\<lambda>s device st _ now. fw_process pow2 wan s device st now) manager1 ps = Some (dsts, manager2)"
    "fw_keeps pow2 p i ?d now now' manager2 t" "t \<le> now'"
    using fw_runs.run_then [OF one(3) between] by metis
  obtain st2 manager3 where "fw_process pow2 wan manager2 wan r now' = Some (ucast ?d, st2, manager3)" "pkt st2 = pkt r"
    using fw_reply_kept [OF two(2,3) packets(3,4)] by blast
  moreover have "ucast (ucast device :: u32) = device" by (rule ucast_up_ucast_id) (simp add: is_up)
  ultimately show ?thesis using one two(1) by auto
qed

section \<open>An example\<close>

definition ex_fw_flow :: "u16 \<Rightarrow> FwFlowId" where
  "ex_fw_flow sport = \<lparr>fw_src_port = sport, fw_dst_port = 2, fw_src_ip = 0x0100000a, fw_dst_ip = 0x0200000a, fw_protocol = 6\<rparr>"

definition ex_fw_manager :: FwManager where
  "ex_fw_manager = \<lparr>fw_fm = ex_flows (ex_fw_flow 7) (ex_fw_flow 8), fw_fv = ex_vector (ex_fw_flow 7) (ex_fw_flow 8),
     fw_int_devices = \<lparr>v_data = [0, 0, 0], v_elem_size = 4, v_capacity = 3\<rparr>, fw_heap = ex_chain, fw_expiration = 1\<rparr>"

definition ex_fw_emap :: "FwFlowId emap" where
  "ex_fw_emap = emap_of (ex_vector (ex_fw_flow 7) (ex_fw_flow 8)) (dchain [(0, 5), (1, 7)] 3 0 7)"

definition ex_fw_reply :: packet_io where
  "ex_fw_reply = \<lparr>pkt = replicate 12 0 @ [8, 0, 0x45, 0, 0, 46] @ replicate 5 0 @ [6, 0, 0, 10, 0, 0, 2, 10, 0, 0, 1,
     2, 0, 1, 0] @ replicate 22 0, global_total_length = 60, global_read_length = 0, chunks_borrowed = []\<rparr>"

lemma ex_fw_ok: "fw_ok True ex_fw_emap [0, 0, 0] ex_fw_manager"
  using emap_table_of [OF ex_flow_table_ok [of "ex_fw_flow 7" "ex_fw_flow 8"]]
  by (simp add: fw_ok_def ex_fw_manager_def ex_fw_emap_def ex_fw_flow_def vector_wf_def)

lemma ex_fw_now: "emap_now ex_fw_emap = 7"
  by (simp add: ex_fw_emap_def)

lemma ex_fw_packets: "fw_packet 60 ex_packet = Some (ex_fw_flow 1)"
  "fw_packet 60 ex_fw_reply = Some (fw_reply (ex_fw_flow 1))"
  by code_simp+

theorem fw_process_refines_spec_witness:
  "\<exists>dst st' manager' idx out em' devs'. fw_process True 1 ex_fw_manager 0 ex_packet 8 = Some (dst, st', manager') \<and>
     fw_spec 1 1000 idx (ex_fw_emap, [0, 0, 0]) 0 (Some (ex_fw_flow 1)) 8 = (out, em', devs') \<and>
     dst = (case out of None \<Rightarrow> 0 | Some d \<Rightarrow> d) \<and> pkt st' = pkt ex_packet \<and> fw_ok True em' devs' manager'"
proof -
  have "fw_expiration ex_fw_manager = 1" by (simp add: ex_fw_manager_def)
  then show ?thesis
    using fw_process_refines_spec [OF ex_fw_ok _ _ _ ex_packet_fresh, of 8 1 0] ex_fw_now
    by (simp add: ex_fw_packets) blast
qed

theorem fw_round_trip_witness:
  "\<exists>st1 manager1 dsts manager2 st2 manager3. fw_process True 1 ex_fw_manager 0 ex_packet 8 = Some (1, st1, manager1) \<and>
     nf_run (\<lambda>s device st _ now. fw_process True 1 s device st now) manager1 [(0, ex_fw_reply, 60, 9), (1, ex_packet, 60, 400)] = Some (dsts, manager2) \<and>
     fw_process True 1 manager2 1 ex_fw_reply 500 = Some (0, st2, manager3) \<and>
     pkt st1 = pkt ex_packet \<and> pkt st2 = pkt ex_fw_reply"
proof -
  have e: "fw_expiration ex_fw_manager = 1" by (simp add: ex_fw_manager_def)
  have new: "\<not> emap_has (emap_expire_all ex_fw_emap (8 - 1 * 1000)) (ex_fw_flow 1)"
    "\<not> emap_full (emap_expire_all ex_fw_emap (8 - 1 * 1000))" by code_simp+
  have r: "fresh_packet 60 ex_fw_reply" by (simp add: fresh_packet_def io_ok_def ex_fw_reply_def)
  show ?thesis
    using fw_round_trip [OF ex_fw_ok _ _ _ refl _ ex_packet_fresh ex_fw_packets(1) r ex_fw_packets(2),
        of 8 0 1 500 "[(0, ex_fw_reply, 60, 9), (1, ex_packet, 60, 400)]"] ex_fw_now e new r ex_packet_fresh by auto
qed

end
