(* ===== verification/Vigpol.thy ===== *)
theory Vigpol
  imports Runs
begin

text \<open>
  The traffic policer, \<open>vigpol/policer_main.c\<close>: one token bucket per destination address,
  held in an expiring table. The structure \<open>State\<close> is generated by the build from
  \<open>vigpol/dataspec.ml\<close>. The handler is shown to implement \<open>vigpol/spec.py\<close>, and
  every run of the handler forwards to an address at most what the burst size and the rate
  allow.
\<close>

declare of_nat_unat [simp del]

section \<open>The code\<close>

definition VIGOR_TIME_SECONDS_MULTIPLIER :: u64 where
  "VIGOR_TIME_SECONDS_MULTIPLIER = 1000000000"

record DynamicValue =
  bucket_size :: u64
  bucket_time :: vigor_time

record pol_config =
  pol_lan_device :: u16
  pol_wan_device :: u16
  pol_rate :: u64
  pol_burst :: u64

record pol_state =
  dyn_map :: "(u32 kptr, u32) vmap"
  dyn_keys :: "u32 Vector"
  dyn_heap :: DoubleChain
  dyn_vals :: "DynamicValue Vector"

text \<open>Unsigned division; dividing by zero is a fault.\<close>

definition udiv :: "u64 \<Rightarrow> u64 \<Rightarrow> u64 option" where
  "udiv a b = (if b = 0 then None else Some (a div b))"

definition policer_expire_entries ::
  "bool \<Rightarrow> pol_config \<Rightarrow> pol_state \<Rightarrow> vigor_time \<Rightarrow> (int \<times> pol_state) option" where
  "policer_expire_entries pow2 config s time = do {
     cassert (time \<ge> 0);
     q \<leftarrow> udiv (pol_burst config) (pol_rate config);
     let exp_time = sint (VIGOR_TIME_SECONDS_MULTIPLIER * q);
     let min_time = s64_wrap (time - exp_time);
     (n, h, m) \<leftarrow> expire_items_single_map pow2 (dyn_heap s) (dyn_keys s) (dyn_map s) min_time;
     Some (n, s\<lparr>dyn_heap := h, dyn_map := m\<rparr>)
   }"

definition policer_refill ::
  "pol_config \<Rightarrow> DynamicValue \<Rightarrow> vigor_time \<Rightarrow> DynamicValue option" where
  "policer_refill config value time = do {
     cassert (0 \<le> time);
     let time_u = (word_of_int time :: u64);
     cassert (bucket_time value \<ge> 0);
     cassert (word_of_int (bucket_time value) \<le> time_u);
     let time_diff = time_u - word_of_int (bucket_time value);
     full \<leftarrow> udiv (pol_burst config * VIGOR_TIME_SECONDS_MULTIPLIER) (pol_rate config);
     b \<leftarrow> (if time_diff < full then do {
              added_tokens \<leftarrow> udiv (time_diff * pol_rate config) VIGOR_TIME_SECONDS_MULTIPLIER;
              cassert (bucket_size value \<le> pol_burst config);
              let b = bucket_size value + added_tokens;
              Some (if b > pol_burst config then pol_burst config else b)
            } else Some (pol_burst config));
     Some \<lparr>bucket_size = b, bucket_time = sint time_u\<rparr>
   }"

definition policer_check_tb ::
  "bool \<Rightarrow> pol_config \<Rightarrow> pol_state \<Rightarrow> u32 \<Rightarrow> u16 \<Rightarrow> vigor_time \<Rightarrow> (bool \<times> pol_state) option" where
  "policer_check_tb pow2 config s dst sz time = do {
     (present, index) \<leftarrow> map_get pow2 (key_at (dyn_keys s)) (dyn_map s) (Ext dst) (- 1);
     if present \<noteq> 0 then do {
       (_, h) \<leftarrow> dchain_rejuvenate_index (dyn_heap s) index time;
       slot \<leftarrow> vector_borrow (dyn_vals s) index;
       value \<leftarrow> policer_refill config (v_data (dyn_vals s) ! slot) time;
       let fwd = bucket_size value > ucast sz;
       let value = (if fwd then value\<lparr>bucket_size := bucket_size value - ucast sz\<rparr> else value);
       let bks = vector_write (dyn_vals s) slot value;
       Some (fwd, s\<lparr>dyn_heap := h, dyn_vals := vector_return bks index slot\<rparr>)
     } else if ucast sz > pol_burst config then Some (False, s)
     else do {
       (allocated, index, h) \<leftarrow> dchain_allocate_new_index (dyn_heap s) index time;
       let s = s\<lparr>dyn_heap := h\<rparr>;
       if allocated = 0 then Some (False, s)
       else do {
         key \<leftarrow> vector_borrow (dyn_keys s) index;
         value \<leftarrow> vector_borrow (dyn_vals s) index;
         let keys = vector_write (dyn_keys s) key dst;
         let bks = vector_write (dyn_vals s) value
               \<lparr>bucket_size = pol_burst config - ucast sz, bucket_time = time\<rparr>;
         m \<leftarrow> map_put pow2 (key_at keys) (dyn_map s) (Slot key) index;
         Some (True, s\<lparr>dyn_map := m, dyn_keys := vector_return keys index key,
                       dyn_vals := vector_return bks index value\<rparr>)
       }
     }
   }"

definition pol_process ::
  "bool \<Rightarrow> pol_config \<Rightarrow> pol_state \<Rightarrow> u16 \<Rightarrow> packet_io \<Rightarrow> u16 \<Rightarrow> vigor_time
   \<Rightarrow> (u16 \<times> packet_io \<times> pol_state) option" where
  "pol_process pow2 config s device st packet_length now = do {
     (eth, st) \<leftarrow> nf_then_get_rte_ether_header st;
     (ip_hdr, _, st) \<leftarrow> nf_then_get_rte_ipv4_header eth st;
     case ip_hdr of
       None \<Rightarrow> Some (device, st, s)
     | Some ip \<Rightarrow> do {
         (_, s) \<leftarrow> policer_expire_entries pow2 config s now;
         if device = pol_lan_device config then Some (pol_wan_device config, st, s)
         else if device = pol_wan_device config then do {
           dst \<leftarrow> dst_addr st ip;
           (fwd, s) \<leftarrow> policer_check_tb pow2 config s dst packet_length now;
           Some (if fwd then pol_lan_device config else pol_wan_device config, st, s)
         } else Some (device, st, s)
       }
   }"

section \<open>The specification\<close>

text \<open>
  \<open>vigpol/spec.py\<close>. The packet is its destination address, absent when the IPv4 header
  is missing or malformed; \<open>idx\<close> is the index the code chose for a new entry. The
  constants of the file are \<open>burst\<close>, \<open>rate\<close> and \<open>exp_time\<close>.
\<close>

definition pol_bucket :: "int \<Rightarrow> int \<Rightarrow> vigor_time \<Rightarrow> DynamicValue \<Rightarrow> vigor_time \<Rightarrow> int" where
  "pol_bucket burst rate exp_time flow now =
     (if now - bucket_time flow < exp_time then
        (let b = uint (bucket_size flow) + (now - bucket_time flow) * rate div 1000000000 in
         if burst < b then burst else b)
      else burst)"

definition pol_spec ::
  "u16 \<Rightarrow> u16 \<Rightarrow> int \<Rightarrow> int \<Rightarrow> vigor_time \<Rightarrow> int \<Rightarrow> u32 emap \<times> DynamicValue list \<Rightarrow> u16 \<Rightarrow> u32 option
   \<Rightarrow> int \<Rightarrow> vigor_time \<Rightarrow> u16 option \<times> u32 emap \<times> DynamicValue list" where
  "pol_spec lan wan burst rate exp_time idx = (\<lambda>(flow_emap, dyn_vals) received_on_port packet packet_size now.
     case packet of None \<Rightarrow> (None, flow_emap, dyn_vals)
     | Some daddr \<Rightarrow>
         let flow_emap = emap_expire_all flow_emap (now - exp_time) in
         if received_on_port = lan then (Some wan, flow_emap, dyn_vals)
         else if received_on_port = wan then
           if emap_has flow_emap daddr then
             (let flow_idx = emap_get flow_emap daddr;
                  flow_emap = emap_refresh_idx flow_emap flow_idx now;
                  b = pol_bucket burst rate exp_time (dyn_vals ! nat flow_idx) now in
              if packet_size < b then
                (Some lan, flow_emap,
                 dyn_vals[nat flow_idx := \<lparr>bucket_size = word_of_int (b - packet_size), bucket_time = now\<rparr>])
              else
                (None, flow_emap, dyn_vals[nat flow_idx := \<lparr>bucket_size = word_of_int b, bucket_time = now\<rparr>]))
           else if \<not> emap_full flow_emap then
             (Some lan, emap_add flow_emap daddr idx now,
              dyn_vals[nat idx := \<lparr>bucket_size = word_of_int (burst - packet_size), bucket_time = now\<rparr>])
           else (None, flow_emap, dyn_vals)
         else (None, flow_emap, dyn_vals))"

section \<open>The bucket\<close>

text \<open>
  The configuration. \<open>pol_rate_ok\<close>: the rate is not zero, the product of the burst size and a
  billion does not wrap around, and the time in which a bucket fills, \<open>pol_full\<close>, fits a signed
  64 bit number; the defaults of \<open>policer_config.c\<close>, the arguments in the \<open>Makefile\<close> and the
  constants of \<open>spec.py\<close> have this. The time after which the code expires an entry, \<open>pol_exp\<close>,
  is \<open>pol_full\<close> only when the rate divides the burst size, \<open>pol_limits_ok\<close>, as it does in the
  \<open>Makefile\<close> and in \<open>spec.py\<close>, which has one constant for both times, but not for the defaults.
\<close>

definition pol_full :: "pol_config \<Rightarrow> vigor_time" where
  "pol_full config = uint (pol_burst config) * 1000000000 div uint (pol_rate config)"

definition pol_rate_ok :: "pol_config \<Rightarrow> bool" where
  "pol_rate_ok config \<longleftrightarrow> 0 < uint (pol_rate config) \<and> uint (pol_burst config) * 1000000000 < 2 ^ 64 \<and> pol_full config < 2 ^ 63"

definition pol_limits_ok :: "pol_config \<Rightarrow> bool" where
  "pol_limits_ok config \<longleftrightarrow> pol_rate_ok config \<and> uint (pol_rate config) dvd uint (pol_burst config)"

definition pol_exp :: "pol_config \<Rightarrow> vigor_time" where
  "pol_exp config = 1000000000 * (uint (pol_burst config) div uint (pol_rate config))"

lemma pol_config_examples:
  "pol_limits_ok \<lparr>pol_lan_device = 0, pol_wan_device = 1, pol_rate = 1000000000, pol_burst = 10000000000\<rparr>"
  "pol_limits_ok \<lparr>pol_lan_device = 1, pol_wan_device = 0, pol_rate = 375000000, pol_burst = 3750000000\<rparr>"
  "pol_rate_ok \<lparr>pol_lan_device = 0, pol_wan_device = 1, pol_rate = 1000000, pol_burst = 100000\<rparr>"
  "\<not> pol_limits_ok \<lparr>pol_lan_device = 0, pol_wan_device = 1, pol_rate = 1000000, pol_burst = 100000\<rparr>"
  by (simp_all add: pol_limits_ok_def pol_rate_ok_def pol_full_def)

lemma uint_mult_small: "uint a * uint b < 2 ^ 64 \<Longrightarrow> uint (a * b) = uint a * uint (b :: u64)"
  using uint_mult_lem [of a b] by simp

lemma uint_plus_small: "uint a + uint b < 2 ^ 64 \<Longrightarrow> uint (a + b) = uint a + uint (b :: u64)"
  using uint_add_lem [of a b] by simp

lemma mod_sub_le:
  fixes b :: int
  shows "0 \<le> x \<Longrightarrow> x < b \<Longrightarrow> b \<le> B \<Longrightarrow> B < 2 ^ 63 \<Longrightarrow> (b - x) mod 2 ^ 64 \<le> B"
  by simp

lemma sint_small: "uint (a :: u64) < 2 ^ 63 \<Longrightarrow> sint a = uint a"
  using s64_wrap_id [of "uint a"] uint_ge_0 [of a] by (simp add: s64_wrap_def)

lemma pol_full_bounds:
  assumes "pol_rate_ok config"
  shows "0 \<le> pol_full config" "pol_full config < 2 ^ 63"
    "D < pol_full config \<Longrightarrow> D * uint (pol_rate config) \<le> uint (pol_burst config) * 1000000000"
proof -
  define b r where "b = uint (pol_burst config) * 1000000000" "r = uint (pol_rate config)"
  note defs = b_r_def
  have b: "0 \<le> b" "0 < r" using assms by (simp_all add: pol_rate_ok_def defs)
  have full: "pol_full config = b div r" by (simp add: pol_full_def defs)
  show "0 \<le> pol_full config" using b by (simp add: full div_int_pos_iff)
  show "pol_full config < 2 ^ 63" using assms by (simp add: pol_rate_ok_def)
  have "(b div r) * r \<le> b" using div_mult_mod_eq [of b r] pos_mod_sign [OF b(2), of b] by linarith
  moreover have "D * r \<le> (b div r) * r" if "D < b div r" using that b(2) by (intro mult_right_mono) auto
  ultimately show "D < pol_full config \<Longrightarrow> D * uint (pol_rate config) \<le> uint (pol_burst config) * 1000000000"
    unfolding full defs by fastforce
qed

lemma pol_exp_full:
  assumes "pol_limits_ok config"
  shows "pol_full config = pol_exp config" "pol_exp config * uint (pol_rate config) = uint (pol_burst config) * 1000000000"
proof -
  obtain q where q: "uint (pol_burst config) = uint (pol_rate config) * q" and r: "uint (pol_rate config) \<noteq> 0"
    using assms by (auto simp: pol_limits_ok_def pol_rate_ok_def)
  have "uint (pol_rate config) * q * 1000000000 = uint (pol_rate config) * (1000000000 * q)" by simp
  then show "pol_full config = pol_exp config" unfolding pol_full_def pol_exp_def q using r by simp
  show "pol_exp config * uint (pol_rate config) = uint (pol_burst config) * 1000000000"
    unfolding pol_exp_def q using r by simp
qed

lemma pol_limits_rate: "pol_limits_ok config \<Longrightarrow> pol_rate_ok config"
  by (simp add: pol_limits_ok_def)

lemma pol_udivs:
  assumes "pol_rate_ok config"
  shows "\<exists>f. udiv (pol_burst config * VIGOR_TIME_SECONDS_MULTIPLIER) (pol_rate config) = Some f \<and> uint f = pol_full config"
    "pol_limits_ok config \<Longrightarrow>
     \<exists>q. udiv (pol_burst config) (pol_rate config) = Some q \<and> sint (VIGOR_TIME_SECONDS_MULTIPLIER * q) = pol_exp config"
proof -
  have r: "pol_rate config \<noteq> 0" using assms by (auto simp: pol_rate_ok_def)
  have m: "uint VIGOR_TIME_SECONDS_MULTIPLIER = 1000000000" by (simp add: VIGOR_TIME_SECONDS_MULTIPLIER_def)
  have "uint (pol_burst config * VIGOR_TIME_SECONDS_MULTIPLIER) = uint (pol_burst config) * 1000000000"
    using assms by (subst uint_mult_small) (simp_all add: m pol_rate_ok_def)
  then have "uint (pol_burst config * VIGOR_TIME_SECONDS_MULTIPLIER div pol_rate config) = pol_full config"
    by (simp add: uint_div_distrib pol_full_def)
  then show "\<exists>f. udiv (pol_burst config * VIGOR_TIME_SECONDS_MULTIPLIER) (pol_rate config) = Some f \<and> uint f = pol_full config"
    using r by (simp add: udiv_def)
  assume lim: "pol_limits_ok config"
  let ?q = "pol_burst config div pol_rate config"
  have exp: "pol_exp config < 2 ^ 63" using pol_full_bounds(2) [OF assms] pol_exp_full(1) [OF lim] by simp
  have "uint VIGOR_TIME_SECONDS_MULTIPLIER * uint ?q = pol_exp config"
    by (simp add: m pol_exp_def uint_div_distrib)
  then have "uint (VIGOR_TIME_SECONDS_MULTIPLIER * ?q) = pol_exp config" using exp by (subst uint_mult_small) simp_all
  then have "sint (VIGOR_TIME_SECONDS_MULTIPLIER * ?q) = pol_exp config" using exp by (simp add: sint_small)
  then show "\<exists>q. udiv (pol_burst config) (pol_rate config) = Some q \<and> sint (VIGOR_TIME_SECONDS_MULTIPLIER * q) = pol_exp config"
    using r by (simp add: udiv_def)
qed

lemma policer_refill_spec:
  assumes cfg: "pol_rate_ok config" and t: "0 \<le> bucket_time v" "bucket_time v \<le> now" "now < 2 ^ 63"
    and b: "bucket_size v \<le> pol_burst config"
  shows "policer_refill config v now =
       Some \<lparr>bucket_size = word_of_int (pol_bucket (uint (pol_burst config)) (uint (pol_rate config)) (pol_full config) v now),
             bucket_time = now\<rparr>"
    "0 \<le> pol_bucket (uint (pol_burst config)) (uint (pol_rate config)) (pol_full config) v now"
    "pol_bucket (uint (pol_burst config)) (uint (pol_rate config)) (pol_full config) v now \<le> uint (pol_burst config)"
proof -
  define B R D where "B = uint (pol_burst config)" "R = uint (pol_rate config)" "D = now - bucket_time v"
  note defs = B_R_D_def
  have B: "0 \<le> B" "B * 1000000000 < 2 ^ 64" "uint (bucket_size v) \<le> B" and R: "0 < R" and D: "0 \<le> D"
    using cfg b t by (auto simp: defs pol_rate_ok_def word_le_def)
  let ?d = "word_of_int now - word_of_int (bucket_time v) :: u64"
  have now: "sint (word_of_int now :: u64) = now" "uint (word_of_int now :: u64) = now"
    "uint (word_of_int (bucket_time v) :: u64) = bucket_time v"
    using t by (simp_all add: sint_small uint_word_of_int)
  have d: "uint ?d = D"
    using t now unfolding defs by (subst uint_sub_lem [THEN iffD1]) simp_all
  obtain f where f: "udiv (pol_burst config * VIGOR_TIME_SECONDS_MULTIPLIER) (pol_rate config) = Some f" "uint f = pol_full config"
    using pol_udivs(1) [OF cfg] by blast
  have m: "uint VIGOR_TIME_SECONDS_MULTIPLIER = 1000000000" "VIGOR_TIME_SECONDS_MULTIPLIER \<noteq> 0"
    by (simp_all add: VIGOR_TIME_SECONDS_MULTIPLIER_def)
  have added: "uint (?d * pol_rate config div VIGOR_TIME_SECONDS_MULTIPLIER) = D * R div 1000000000"
    "0 \<le> D * R div 1000000000" "D * R div 1000000000 \<le> B" if "D < pol_full config"
  proof -
    have le: "D * R \<le> B * 1000000000" using pol_full_bounds(3) [OF cfg that] by (simp add: defs)
    then have "uint (?d * pol_rate config) = D * R" using B(2) d by (subst uint_mult_small) (simp_all add: defs)
    then show "uint (?d * pol_rate config div VIGOR_TIME_SECONDS_MULTIPLIER) = D * R div 1000000000"
      by (simp add: uint_div_distrib m)
    show "0 \<le> D * R div 1000000000" using D R by (simp add: div_int_pos_iff)
    show "D * R div 1000000000 \<le> B" using zdiv_mono1 [OF le, of 1000000000] by simp
  qed
  have sum: "uint (bucket_size v + ?d * pol_rate config div VIGOR_TIME_SECONDS_MULTIPLIER) =
      uint (bucket_size v) + D * R div 1000000000" if "D < pol_full config"
    using added [OF that] B by (subst uint_plus_small) simp_all
  show "policer_refill config v now =
       Some \<lparr>bucket_size = word_of_int (pol_bucket B R (pol_full config) v now), bucket_time = now\<rparr>"
  proof (cases "D < pol_full config")
    case True
    let ?b = "bucket_size v + ?d * pol_rate config div VIGOR_TIME_SECONDS_MULTIPLIER"
    have "pol_burst config < ?b \<longleftrightarrow> B < uint (bucket_size v) + D * R div 1000000000"
      "?b = word_of_int (uint (bucket_size v) + D * R div 1000000000)"
      using sum [OF True] by (simp_all add: word_less_alt defs(1) flip: sum [OF True])
    then show ?thesis
      using True t now d f m b
      by (simp add: policer_refill_def cassert_def word_le_def word_less_alt udiv_def pol_bucket_def Let_def
          defs(3) [symmetric]) (simp add: defs(1))
  next
    case False
    then show ?thesis
      using t now d f
      by (simp add: policer_refill_def cassert_def word_le_def word_less_alt pol_bucket_def defs(3) [symmetric])
        (simp add: defs(1))
  qed
  show "0 \<le> pol_bucket B R (pol_full config) v now" "pol_bucket B R (pol_full config) v now \<le> B"
    using added(2) B(1) by (auto simp: pol_bucket_def Let_def defs(3) [symmetric])
qed

section \<open>The table of the buckets\<close>

text \<open>
  \<open>pol_ok\<close>: the table stands for \<open>em\<close>, the bucket of every index in use was last
  changed when the index was last used, and it holds at most the burst size.
\<close>

definition pol_ok :: "bool \<Rightarrow> pol_config \<Rightarrow> u32 emap \<Rightarrow> DynamicValue list \<Rightarrow> pol_state \<Rightarrow> bool" where
  "pol_ok pow2 config em bks s \<longleftrightarrow>
     emap_table pow2 em (dyn_heap s) (dyn_keys s) (dyn_map s) \<and>
     vector_wf (dyn_vals s) \<and> v_data (dyn_vals s) = bks \<and> int (length bks) = emap_range em \<and>
     (\<forall>i t. emap_time em i = Some t \<longrightarrow> bucket_time (bks ! nat i) = t \<and> 0 \<le> t \<and> bucket_size (bks ! nat i) \<le> pol_burst config)"

lemma pol_ok_table: "pol_ok pow2 config em bks s \<Longrightarrow> emap_table pow2 em (dyn_heap s) (dyn_keys s) (dyn_map s)"
  by (simp add: pol_ok_def)

lemma pol_vals_borrow:
  assumes "pol_ok pow2 config em bks s" "0 \<le> i" "i < emap_range em"
  shows "vector_borrow (dyn_vals s) i = Some (nat i)"
  using vector_borrow_spec [of "dyn_vals s" i] assms by (simp add: pol_ok_def)

lemma pol_expire_items:
  assumes ok: "pol_ok pow2 config em bks s"
  shows "\<exists>n h m. expire_items_single_map pow2 (dyn_heap s) (dyn_keys s) (dyn_map s) t = Some (n, h, m) \<and>
     0 \<le> n \<and> n \<le> 140000 \<and> pol_ok pow2 config (emap_expire_all em t) bks (s\<lparr>dyn_heap := h, dyn_map := m\<rparr>)"
proof -
  note tab = pol_ok_table [OF ok]
  obtain n h m where run: "expire_items_single_map pow2 (dyn_heap s) (dyn_keys s) (dyn_map s) t = Some (n, h, m)"
    "0 \<le> n" "n \<le> 140000" "emap_table pow2 (emap_expire_all em t) h (dyn_keys s) m"
    using table_expire [OF tab] by blast
  moreover have "bucket_time (bks ! nat i) = u \<and> 0 \<le> u \<and> bucket_size (bks ! nat i) \<le> pol_burst config"
    if "emap_time (emap_expire_all em t) i = Some u" for i u
    using that ok unfolding emap_expire_lookup(2) [OF tab] by (auto simp: pol_ok_def split: option.splits if_splits)
  ultimately show ?thesis using ok by (auto simp: pol_ok_def)
qed

lemma policer_expire_spec:
  assumes cfg: "pol_limits_ok config" and ok: "pol_ok pow2 config em bks s" and now: "0 \<le> now" "now < 2 ^ 63"
  shows "\<exists>n s'. policer_expire_entries pow2 config s now = Some (n, s') \<and>
     pol_ok pow2 config (emap_expire_all em (now - pol_exp config)) bks s'"
proof -
  obtain q where q: "udiv (pol_burst config) (pol_rate config) = Some q"
    "sint (VIGOR_TIME_SECONDS_MULTIPLIER * q) = pol_exp config"
    using pol_udivs(2) [OF pol_limits_rate [OF cfg] cfg] by blast
  have t: "s64_wrap (now - pol_exp config) = now - pol_exp config"
    using now pol_full_bounds(1,2) [OF pol_limits_rate [OF cfg]] pol_exp_full(1) [OF cfg] by (simp add: s64_wrap_id)
  show ?thesis
    using pol_expire_items [OF ok, of "now - pol_exp config"] q t now by (auto simp: policer_expire_entries_def cassert_def)
qed

lemma pol_write_ok:
  assumes ok: "pol_ok pow2 config em bks s" and i: "0 \<le> i" "i < emap_range em"
    and tab: "emap_table pow2 em' h keys m" "emap_range em' = emap_range em"
    and times: "\<And>j. emap_time em' j = (if j = i then Some now else emap_time em j)"
    and v: "bucket_time v = now" "0 \<le> now" "bucket_size v \<le> pol_burst config"
  shows "pol_ok pow2 config em' (bks[nat i := v])
     (s\<lparr>dyn_heap := h, dyn_keys := keys, dyn_map := m, dyn_vals := vector_write (dyn_vals s) (nat i) v\<rparr>)"
proof -
  have len: "nat i < length bks" using ok i by (auto simp: pol_ok_def)
  have "bucket_time (bks[nat i := v] ! nat j) = u \<and> 0 \<le> u \<and> bucket_size (bks[nat i := v] ! nat j) \<le> pol_burst config"
    if "emap_time em' j = Some u" for j u
  proof (cases "j = i")
    case True
    then show ?thesis using that v len times by auto
  next
    case False
    then have u: "emap_time em j = Some u" using that times by simp
    then have "0 \<le> j" using table_facts(5,6) [OF pol_ok_table [OF ok], of j] by auto
    then have "nat j \<noteq> nat i" using False i(1) by simp
    then show ?thesis using u ok by (simp add: pol_ok_def)
  qed
  then show ?thesis using ok tab by (simp add: pol_ok_def)
qed

text \<open>The check on a known and on a new address, as runs of the code.\<close>

definition pol_charged :: "int \<Rightarrow> int \<Rightarrow> vigor_time \<Rightarrow> DynamicValue" where
  "pol_charged b sz now =
     (if sz < b then \<lparr>bucket_size = word_of_int (b - sz), bucket_time = now\<rparr>
      else \<lparr>bucket_size = word_of_int b, bucket_time = now\<rparr>)"

lemma policer_known_run:
  assumes cfg: "pol_rate_ok config" and ok: "pol_ok pow2 config em bks s"
    and now: "0 \<le> now" "now < 2 ^ 63" "emap_now em \<le> now" and known: "emap_has em d"
    and i: "i = emap_get em d"
    and b: "b = pol_bucket (uint (pol_burst config)) (uint (pol_rate config)) (pol_full config) (bks ! nat i) now"
  shows "\<exists>s'. policer_check_tb pow2 config s d sz now = Some (uint sz < b, s') \<and>
     pol_ok pow2 config (emap_refresh_idx em i now) (bks[nat i := pol_charged b (uint sz) now]) s'"
proof -
  note tab = pol_ok_table [OF ok]
  have sz: "uint (ucast sz :: u64) = uint sz" by (rule uint_u16_u64)
  have B: "uint (pol_burst config) < 2 ^ 63"
    using cfg uint_ge_0 [of "pol_burst config"] by (simp add: pol_rate_ok_def)
  have idx: "emap_has_idx em i" using table_facts(1) [OF tab known] by (simp add: i)
  obtain u where u: "emap_time em i = Some u" using table_facts(6) [OF tab, of i] idx by blast
  have v: "0 \<le> bucket_time (bks ! nat i)" "bucket_time (bks ! nat i) \<le> now" "bucket_size (bks ! nat i) \<le> pol_burst config"
    using ok u table_time_le [OF tab u] now(3) by (auto simp: pol_ok_def)
  note refill = policer_refill_spec [OF cfg v(1,2) now(2) v(3), folded b]
  have bw: "uint (word_of_int b :: u64) = b" using refill(2,3) B by (simp add: uint_word_of_int)
  obtain h where h: "dchain_rejuvenate_index (dyn_heap s) i now = Some (1, h)"
    "emap_table pow2 (emap_refresh_idx em i now) h (dyn_keys s) (dyn_map s)"
    using table_refresh [OF tab idx now(3)] by blast
  let ?w = "pol_charged b (uint sz) now"
  let ?s = "s\<lparr>dyn_heap := h, dyn_keys := dyn_keys s, dyn_map := dyn_map s, dyn_vals := vector_write (dyn_vals s) (nat i) ?w\<rparr>"
  have sub: "word_of_int b - ucast sz = (word_of_int (b - uint sz) :: u64)" by simp
  have "policer_check_tb pow2 config s d sz now = Some (uint sz < b, ?s)"
    using known table_get [OF tab, of d, folded i] h(1) pol_vals_borrow [OF ok] table_facts(5) [OF tab idx] refill(1) ok bw sz sub
    by (auto simp: policer_check_tb_def pol_ok_def word_less_alt Let_def pol_charged_def i)
  moreover have "uint (word_of_int (b - uint sz) :: u64) \<le> uint (pol_burst config)" if "uint sz < b"
    using mod_sub_le [OF uint_ge_0 that refill(3) B] by (simp only: uint_word_of_int) simp
  then have "pol_ok pow2 config (emap_refresh_idx em i now) (bks[nat i := ?w]) ?s"
    using table_facts(5) [OF tab idx] h(2) emap_ops_lookup(3) [OF tab] now(1) refill(3) bw
    by (intro pol_write_ok [OF ok]) (auto simp: word_le_def pol_charged_def)
  ultimately show ?thesis by blast
qed

lemma policer_check_known:
  assumes cfg: "pol_limits_ok config" and ok: "pol_ok pow2 config em bks s"
    and now: "0 \<le> now" "now < 2 ^ 63" "emap_now em \<le> now" and lan: "pol_lan_device config \<noteq> pol_wan_device config"
    and em: "emap_expire_all em0 (now - pol_exp config) = em"
    and known: "emap_has em d"
  shows "\<exists>fwd s' idx out em' bks'. policer_check_tb pow2 config s d sz now = Some (fwd, s') \<and>
     pol_spec (pol_lan_device config) (pol_wan_device config) (uint (pol_burst config)) (uint (pol_rate config))
       (pol_exp config) idx (em0, bks) (pol_wan_device config) (Some d) (uint sz) now = (out, em', bks') \<and>
     out = (if fwd then Some (pol_lan_device config) else None) \<and> pol_ok pow2 config em' bks' s' \<and> emap_now em' \<le> now"
proof -
  let ?i = "emap_get em d"
  let ?b = "pol_bucket (uint (pol_burst config)) (uint (pol_rate config)) (pol_exp config) (bks ! nat ?i) now"
  obtain s' where run: "policer_check_tb pow2 config s d sz now = Some (uint sz < ?b, s')"
    "pol_ok pow2 config (emap_refresh_idx em ?i now) (bks[nat ?i := pol_charged ?b (uint sz) now]) s'"
    using policer_known_run [OF pol_limits_rate [OF cfg] ok now known refl refl, of sz]
    unfolding pol_exp_full(1) [OF cfg] by blast
  moreover have "pol_spec (pol_lan_device config) (pol_wan_device config) (uint (pol_burst config)) (uint (pol_rate config))
     (pol_exp config) 0 (em0, bks) (pol_wan_device config) (Some d) (uint sz) now =
     (if uint sz < ?b then Some (pol_lan_device config) else None, emap_refresh_idx em ?i now,
      bks[nat ?i := pol_charged ?b (uint sz) now])"
    using known lan em by (simp add: pol_spec_def Let_def pol_charged_def)
  ultimately show ?thesis by (intro exI [of _ "uint sz < ?b"] exI [of _ s'] exI [of _ 0]) simp
qed

lemma policer_new_run:
  assumes fits: "\<not> pol_burst config < ucast sz" and ok: "pol_ok pow2 config em bks s"
    and now: "0 \<le> now" "emap_now em \<le> now" and new: "\<not> emap_has em d" "\<not> emap_full em"
  shows "\<exists>s' i. policer_check_tb pow2 config s d sz now = Some (True, s') \<and> 0 \<le> i \<and> i < emap_range em \<and>
     pol_ok pow2 config (emap_add em d i now)
       (bks[nat i := \<lparr>bucket_size = word_of_int (uint (pol_burst config) - uint sz), bucket_time = now\<rparr>]) s'"
proof -
  note tab = pol_ok_table [OF ok]
  let ?v = "\<lparr>bucket_size = pol_burst config - ucast sz, bucket_time = now\<rparr>"
  obtain i h m where run: "dchain_allocate_new_index (dyn_heap s) (- 1) now = Some (1, i, h)"
    "vector_borrow (dyn_keys s) i = Some (nat i)"
    "map_put pow2 (key_at (vector_write (dyn_keys s) (nat i) d)) (dyn_map s) (Slot (nat i)) i = Some m"
    "\<not> emap_has_idx em i" "0 \<le> i" "i < emap_range em"
    "emap_table pow2 (emap_add em d i now) h (vector_write (dyn_keys s) (nat i) d) m"
    using table_add [OF tab new(2,1) now(2), of "- 1"] by blast
  let ?s = "s\<lparr>dyn_heap := h, dyn_keys := vector_write (dyn_keys s) (nat i) d, dyn_map := m,
    dyn_vals := vector_write (dyn_vals s) (nat i) ?v\<rparr>"
  have "policer_check_tb pow2 config s d sz now = Some (True, ?s)"
    using new table_get [OF tab, of d] run(1-3) pol_vals_borrow [OF ok run(5,6)] fits
    by (simp add: policer_check_tb_def Let_def)
  moreover have "uint (pol_burst config - ucast sz) = uint (pol_burst config) - uint (ucast sz :: u64)"
    using fits by (subst uint_sub_lem [THEN iffD1]) (simp_all add: word_less_alt)
  then have "pol_ok pow2 config (emap_add em d i now) (bks[nat i := ?v]) ?s"
    using emap_ops_lookup(6) [OF tab run(4)] now(1)
    by (intro pol_write_ok [OF ok run(5,6,7), where now = now]) (auto simp: word_le_def)
  moreover have "word_of_int (uint (pol_burst config) - uint sz) = pol_burst config - ucast sz" by simp
  ultimately show ?thesis using run(5,6) by auto
qed

lemma policer_check_new:
  assumes fits: "\<not> pol_burst config < ucast sz" and ok: "pol_ok pow2 config em bks s"
    and now: "0 \<le> now" "now < 2 ^ 63" "emap_now em \<le> now" and lan: "pol_lan_device config \<noteq> pol_wan_device config"
    and em: "emap_expire_all em0 (now - pol_exp config) = em"
    and new: "\<not> emap_has em d" "\<not> emap_full em"
  shows "\<exists>fwd s' idx out em' bks'. policer_check_tb pow2 config s d sz now = Some (fwd, s') \<and>
     pol_spec (pol_lan_device config) (pol_wan_device config) (uint (pol_burst config)) (uint (pol_rate config))
       (pol_exp config) idx (em0, bks) (pol_wan_device config) (Some d) (uint sz) now = (out, em', bks') \<and>
     out = (if fwd then Some (pol_lan_device config) else None) \<and> pol_ok pow2 config em' bks' s' \<and> emap_now em' \<le> now"
proof -
  obtain s' i where "policer_check_tb pow2 config s d sz now = Some (True, s')"
    "pol_ok pow2 config (emap_add em d i now)
       (bks[nat i := \<lparr>bucket_size = word_of_int (uint (pol_burst config) - uint sz), bucket_time = now\<rparr>]) s'"
    using policer_new_run [OF fits ok now(1,3) new] by blast
  then show ?thesis using new lan em
    by (intro exI [of _ True] exI [of _ s'] exI [of _ i]) (simp add: pol_spec_def Let_def)
qed

lemma policer_check_big:
  assumes ok: "pol_ok pow2 config em bks s" and new: "\<not> emap_has em d" and big: "pol_burst config < ucast sz"
  shows "policer_check_tb pow2 config s d sz now = Some (False, s)"
  using table_get [OF pol_ok_table [OF ok], of d] new big by (simp add: policer_check_tb_def)

lemma policer_check_spec:
  assumes cfg: "pol_limits_ok config" and fits: "emap_has em d \<or> \<not> pol_burst config < ucast sz" and ok: "pol_ok pow2 config em bks s"
    and now: "0 \<le> now" "now < 2 ^ 63" "emap_now em \<le> now" and lan: "pol_lan_device config \<noteq> pol_wan_device config"
    and em: "emap_expire_all em0 (now - pol_exp config) = em"
  shows "\<exists>fwd s' idx out em' bks'. policer_check_tb pow2 config s d sz now = Some (fwd, s') \<and>
     pol_spec (pol_lan_device config) (pol_wan_device config) (uint (pol_burst config)) (uint (pol_rate config))
       (pol_exp config) idx (em0, bks) (pol_wan_device config) (Some d) (uint sz) now = (out, em', bks') \<and>
     out = (if fwd then Some (pol_lan_device config) else None) \<and> pol_ok pow2 config em' bks' s' \<and> emap_now em' \<le> now"
proof -
  note tab = pol_ok_table [OF ok]
  consider (known) "emap_has em d" | (full) "\<not> emap_has em d" "emap_full em"
    | (new) "\<not> emap_has em d" "\<not> emap_full em" "\<not> pol_burst config < ucast sz" using fits by blast
  then show ?thesis
  proof cases
    case known
    show ?thesis by (rule policer_check_known [OF cfg ok now lan em known])
  next
    case full
    have "policer_check_tb pow2 config s d sz now = Some (False, s)"
      using full table_get [OF tab, of d] table_full [OF tab full(2), of "- 1" now] by (simp add: policer_check_tb_def)
    then show ?thesis using full lan em ok now by (auto simp: pol_spec_def)
  next
    case new
    show ?thesis by (rule policer_check_new [OF new(3) ok now lan em new(1,2)])
  qed
qed

section \<open>The handler\<close>

definition pol_packet :: "packet_io \<Rightarrow> u32 option" where
  "pol_packet st = (if ipv4_present (uint (global_total_length st)) (pkt st) then dst_addr st 14 else None)"

text \<open>
  \<open>spec.py\<close> does not look at the size of the first packet to an address; the code drops it when
  it is larger than the burst size. \<open>pol_step\<close> is the specification but for these packets.
\<close>

definition pol_oversized ::
  "pol_config \<Rightarrow> u32 emap \<Rightarrow> u16 \<Rightarrow> u32 option \<Rightarrow> int \<Rightarrow> vigor_time \<Rightarrow> bool" where
  "pol_oversized config em device packet sz now \<longleftrightarrow>
     (case packet of None \<Rightarrow> False
      | Some a \<Rightarrow> device = pol_wan_device config \<and> \<not> emap_has (emap_expire_all em (now - pol_exp config)) a \<and>
          uint (pol_burst config) < sz)"

abbreviation pol_step ::
  "pol_config \<Rightarrow> int \<Rightarrow> u32 emap \<times> DynamicValue list \<Rightarrow> u16 \<Rightarrow> u32 option \<Rightarrow> int \<Rightarrow> vigor_time
   \<Rightarrow> u16 option \<times> u32 emap \<times> DynamicValue list" where
  "pol_step config idx t device packet sz now \<equiv>
     (if pol_oversized config (fst t) device packet sz now then (None, emap_expire_all (fst t) (now - pol_exp config), snd t)
      else pol_spec (pol_lan_device config) (pol_wan_device config) (uint (pol_burst config)) (uint (pol_rate config))
        (pol_exp config) idx t device packet sz now)"

lemma pol_process_spec:
  assumes cfg: "pol_limits_ok config" and ok: "pol_ok pow2 config em bks s"
    and now: "0 \<le> now" "now < 2 ^ 63" "emap_now em \<le> now" and lan: "pol_lan_device config \<noteq> pol_wan_device config"
    and fresh: "fresh_packet n st"
  shows "\<exists>dst st' s' idx out em' bks'. pol_process pow2 config s device st sz now = Some (dst, st', s') \<and>
     pol_step config idx (em, bks) device (pol_packet st) (uint sz) now = (out, em', bks') \<and>
     dst = (case out of None \<Rightarrow> device | Some d \<Rightarrow> d) \<and> pkt st' = pkt st \<and>
     pol_ok pow2 config em' bks' s' \<and> emap_now em' \<le> now"
proof -
  have n: "n = uint (global_total_length st)" "14 \<le> n" "n \<le> int (length (pkt st))"
    using fresh by (auto simp: fresh_packet_def io_ok_def)
  define B where "B = (\<lambda>ip st1. do {
       (_, s) \<leftarrow> policer_expire_entries pow2 config s now;
       if device = pol_lan_device config then Some (pol_wan_device config, st1, s)
       else if device = pol_wan_device config then do {
         dst \<leftarrow> dst_addr st1 ip;
         (fwd, s) \<leftarrow> policer_check_tb pow2 config s dst sz now;
         Some (if fwd then pol_lan_device config else pol_wan_device config, st1, s)
       } else Some (device, st1, s) })"
  have run: "pol_process pow2 config s device st sz now = do {
      (eth, st) \<leftarrow> nf_then_get_rte_ether_header st;
      (ip_hdr, _, st) \<leftarrow> nf_then_get_rte_ipv4_header eth st;
      case ip_hdr of None \<Rightarrow> Some (device, st, s) | Some ip \<Rightarrow> B ip st }"
    unfolding pol_process_def B_def ..
  obtain st1 where st1: "pkt st1 = pkt st" "pol_process pow2 config s device st sz now =
      (if ipv4_present n (pkt st) then B 14 st1 else Some (device, st1, s))"
    using ipv4_header_then [OF fresh, of "\<lambda>st. Some (device, st, s)" B] unfolding run by blast
  show ?thesis
  proof (cases "ipv4_present n (pkt st)")
    case False
    then show ?thesis
      using st1 n(1) ok now by (intro exI [of _ device] exI [of _ st1] exI [of _ s]) (simp add: pol_packet_def pol_spec_def pol_oversized_def)
  next
    case True
    obtain d where d: "dst_addr st 14 = Some d"
      using ld32_ok [of 30 "pkt st"] ipv4_present_length [OF True n(2)] n(3) by (auto simp: dst_addr_def)
    then have d1: "dst_addr st1 14 = Some d" "pol_packet st = Some d"
      using True st1(1) n(1) by (simp_all add: dst_addr_def pol_packet_def)
    let ?em = "emap_expire_all em (now - pol_exp config)"
    obtain k s1 where s1: "policer_expire_entries pow2 config s now = Some (k, s1)" "pol_ok pow2 config ?em bks s1"
      using policer_expire_spec [OF cfg ok now(1,2)] by blast
    have time: "emap_now ?em \<le> now" using now(3) by simp
    have fits: "pol_burst config < ucast sz \<longleftrightarrow> uint (pol_burst config) < uint sz" by (simp add: word_less_alt uint_u16_u64)
    consider (check) "device = pol_wan_device config" "emap_has ?em d \<or> \<not> pol_burst config < ucast sz"
      | (big) "device = pol_wan_device config" "\<not> emap_has ?em d" "pol_burst config < ucast sz"
      | (other) "device \<noteq> pol_wan_device config" by blast
    then show ?thesis
    proof cases
      case check
      then have "\<not> pol_oversized config em device (pol_packet st) (uint sz) now" using d1(2) fits by (auto simp: pol_oversized_def)
      then show ?thesis
        using policer_check_spec [OF cfg check(2) s1(2) now(1,2) time lan refl] st1 True s1(1) d1 check(1) lan
        by (fastforce simp: B_def)
    next
      case big
      have "pol_oversized config em device (pol_packet st) (uint sz) now" using d1(2) big fits by (simp add: pol_oversized_def)
      then show ?thesis
        using policer_check_big [OF s1(2) big(2,3), of now] st1 True s1 d1 big(1) lan time by (simp add: B_def)
    next
      case other
      then have "\<not> pol_oversized config em device (pol_packet st) (uint sz) now" using d1(2) by (simp add: pol_oversized_def)
      then show ?thesis
        using st1 True s1 d1 lan time other by (cases "device = pol_lan_device config") (auto simp: pol_spec_def B_def)
    qed
  qed
qed

section \<open>The rate\<close>

text \<open>
  What an address may still receive at time \<open>t\<close>, in billionths of a byte: the tokens in
  its bucket and those that have come since, at most the burst size.
\<close>

definition pol_credit :: "pol_config \<Rightarrow> u32 emap \<Rightarrow> DynamicValue list \<Rightarrow> u32 \<Rightarrow> vigor_time \<Rightarrow> int" where
  "pol_credit config em bks d t =
     (if emap_has em d then
        (let v = bks ! nat (emap_get em d) in
         min (1000000000 * uint (pol_burst config))
           (1000000000 * uint (bucket_size v) + uint (pol_rate config) * (t - bucket_time v)))
      else 1000000000 * uint (pol_burst config))"

lemma pol_credit_le: "pol_credit config em bks d t \<le> 1000000000 * uint (pol_burst config)"
  by (simp add: pol_credit_def Let_def)

lemma pol_credit_time:
  assumes "t \<le> t'"
  shows "pol_credit config em bks d t' \<le> pol_credit config em bks d t + uint (pol_rate config) * (t' - t)"
proof -
  have "0 \<le> uint (pol_rate config) * (t' - t)" using assms by simp
  then show ?thesis by (auto simp: pol_credit_def Let_def algebra_simps min_def)
qed

lemma pol_entry:
  assumes ok: "pol_ok pow2 config em bks s" and has: "emap_has em d"
  shows "emap_time em (emap_get em d) = Some (bucket_time (bks ! nat (emap_get em d)))"
    "bucket_size (bks ! nat (emap_get em d)) \<le> pol_burst config"
    "bucket_time (bks ! nat (emap_get em d)) \<le> emap_now em"
    "0 \<le> emap_get em d" "nat (emap_get em d) < length bks" "0 \<le> bucket_time (bks ! nat (emap_get em d))"
proof -
  note tab = pol_ok_table [OF ok]
  obtain u where u: "emap_time em (emap_get em d) = Some u"
    using table_facts(6) [OF tab, of "emap_get em d"] table_facts(1) [OF tab has] by blast
  then show "emap_time em (emap_get em d) = Some (bucket_time (bks ! nat (emap_get em d)))"
    "bucket_size (bks ! nat (emap_get em d)) \<le> pol_burst config" "0 \<le> bucket_time (bks ! nat (emap_get em d))"
    using ok by (auto simp: pol_ok_def)
  then show "bucket_time (bks ! nat (emap_get em d)) \<le> emap_now em" using table_time_le [OF tab] by blast
  show "0 \<le> emap_get em d" "nat (emap_get em d) < length bks"
    using table_facts(5) [OF tab table_facts(1) [OF tab has]] ok by (auto simp: pol_ok_def)
qed

text \<open>An entry that expires has a full bucket.\<close>

lemma pol_credit_expire:
  assumes cfg: "pol_limits_ok config" and ok: "pol_ok pow2 config em bks s"
  shows "pol_credit config (emap_expire_all em (now - pol_exp config)) bks d now = pol_credit config em bks d now"
proof (cases "emap_has em d \<and> \<not> emap_has (emap_expire_all em (now - pol_exp config)) d")
  case False
  note tab = pol_ok_table [OF ok]
  show ?thesis
    using False emap_expire_lookup(4,5) [OF tab] by (auto simp: pol_credit_def)
next
  case True
  note tab = pol_ok_table [OF ok]
  let ?v = "bks ! nat (emap_get em d)"
  have "bucket_time ?v < now - pol_exp config"
    using True pol_entry(1) [OF ok] emap_expire_lookup(1,4) [OF tab] by auto
  then have "uint (pol_rate config) * pol_exp config \<le> uint (pol_rate config) * (now - bucket_time ?v)"
    by (intro mult_left_mono) auto
  then have "1000000000 * uint (pol_burst config) \<le> uint (pol_rate config) * (now - bucket_time ?v)"
    using pol_exp_full(2) [OF cfg] by (simp add: mult.commute)
  then show ?thesis using True by (simp add: pol_credit_def Let_def min_def) (use uint_ge_0 [of "bucket_size ?v"] in linarith)
qed

lemma pol_bucket_credit:
  assumes cfg: "pol_limits_ok config" and ok: "pol_ok pow2 config em bks s" and now: "emap_now em \<le> now"
    and has: "emap_has em d"
  shows "1000000000 * pol_bucket (uint (pol_burst config)) (uint (pol_rate config)) (pol_exp config)
      (bks ! nat (emap_get em d)) now \<le> pol_credit config em bks d now"
proof -
  let ?v = "bks ! nat (emap_get em d)"
  define B R D S where "B = uint (pol_burst config)" "R = uint (pol_rate config)" "D = now - bucket_time ?v"
    "S = uint (bucket_size ?v)"
  note defs = B_R_D_S_def
  have nonneg: "0 \<le> S" by (simp add: defs)
  have c: "pol_credit config em bks d now = min (1000000000 * B) (1000000000 * S + R * D)"
    using has by (simp add: pol_credit_def Let_def defs)
  have "1000000000 * (D * R div 1000000000) \<le> R * D"
    using minus_mod_eq_mult_div [of "D * R" 1000000000] pos_mod_sign [of 1000000000 "D * R"] by (simp add: mult.commute)
  moreover have "1000000000 * B \<le> R * D" if "\<not> D < pol_exp config"
  proof -
    have "R * pol_exp config \<le> R * D" using that by (intro mult_left_mono) (simp_all add: defs)
    then show ?thesis using pol_exp_full(2) [OF cfg] by (simp add: defs mult.commute)
  qed
  ultimately show ?thesis
    using nonneg unfolding c pol_bucket_def Let_def defs(1-4) [symmetric] by (auto simp: min_def)
qed

lemma pol_credit_write:
  assumes cfg: "pol_limits_ok config" and ok: "pol_ok pow2 config em bks s" and now: "emap_now em \<le> now"
    and has: "emap_has em a"
    and b: "b = pol_bucket (uint (pol_burst config)) (uint (pol_rate config)) (pol_exp config) (bks ! nat (emap_get em a)) now"
      "0 \<le> c" "c \<le> b" "b \<le> uint (pol_burst config)"
  shows "1000000000 * (if d = a then b - c else 0) +
     pol_credit config (emap_refresh_idx em (emap_get em a) now)
       (bks[nat (emap_get em a) := \<lparr>bucket_size = word_of_int c, bucket_time = now\<rparr>]) d now \<le>
     pol_credit config em bks d now"
proof (cases "d = a")
  case True
  have "uint (pol_burst config) < 2 ^ 64" using uint_bounded [of "pol_burst config"] by simp
  then have c: "uint (word_of_int c :: u64) = c" using b(2-4) by (simp add: uint_word_of_int)
  note look = emap_ops_lookup(1,2) [OF pol_ok_table [OF ok]]
  have "pol_credit config (emap_refresh_idx em (emap_get em a) now)
       (bks[nat (emap_get em a) := \<lparr>bucket_size = word_of_int c, bucket_time = now\<rparr>]) a now \<le> 1000000000 * c"
    using has pol_entry(5) [OF ok has] c by (simp add: pol_credit_def look)
  then show ?thesis using pol_bucket_credit [OF cfg ok now has, folded b(1)] True by simp
next
  case False
  note tab = pol_ok_table [OF ok]
  note look = emap_ops_lookup(1,2) [OF tab]
  have "nat (emap_get em d) \<noteq> nat (emap_get em a)" if "emap_has em d"
    using False that has pol_entry(4) [OF ok] table_facts(2) [OF tab] by (metis eq_nat_nat_iff)
  then show ?thesis using False by (auto simp: pol_credit_def look)
qed

lemma pol_credit_add:
  assumes ok: "pol_ok pow2 config em bks s" and idx: "\<not> emap_has_idx em i" "0 \<le> i" "nat i < length bks"
    and new: "\<not> emap_has em a" and sz: "0 \<le> sz" "sz \<le> uint (pol_burst config)"
  shows "1000000000 * (if d = a then sz else 0) +
     pol_credit config (emap_add em a i now)
       (bks[nat i := \<lparr>bucket_size = word_of_int (uint (pol_burst config) - sz), bucket_time = now\<rparr>]) d now \<le>
     pol_credit config em bks d now"
proof (cases "d = a")
  case True
  have "uint (pol_burst config) < 2 ^ 64" using uint_bounded [of "pol_burst config"] by simp
  then have c: "uint (word_of_int (uint (pol_burst config) - sz) :: u64) = uint (pol_burst config) - sz"
    using sz by (simp only: uint_word_of_int) simp
  note look = emap_ops_lookup(4,5) [OF pol_ok_table [OF ok]]
  show ?thesis using True new idx(3) c by (simp add: pol_credit_def look)
next
  case False
  note tab = pol_ok_table [OF ok]
  note look = emap_ops_lookup(4,5) [OF tab]
  have "nat (emap_get em d) \<noteq> nat i" if "emap_has em d"
    using that idx table_facts(1) [OF tab that] pol_entry(4) [OF ok that] by (metis eq_nat_nat_iff)
  then show ?thesis using False by (auto simp: pol_credit_def look)
qed

text \<open>One packet: what is forwarded to \<open>d\<close> is taken from its credit.\<close>

lemma pol_credit_step:
  assumes cfg: "pol_limits_ok config" and ok: "pol_ok pow2 config em bks s"
    and now: "0 \<le> now" "now < 2 ^ 63" "emap_now em \<le> now" and lan: "pol_lan_device config \<noteq> pol_wan_device config"
    and step: "pol_step config idx (em, bks) device p (uint (sz :: u16)) now = (out, em', bks')"
    and ok': "pol_ok pow2 config em' bks' s'"
  shows "1000000000 * (if device = pol_wan_device config \<and> p = Some d \<and> out = Some (pol_lan_device config) then uint sz else 0) +
     pol_credit config em' bks' d now \<le> pol_credit config em bks d now"
proof (cases p)
  case None
  then show ?thesis using step by (simp add: pol_spec_def pol_oversized_def)
next
  case (Some a)
  let ?em = "emap_expire_all em (now - pol_exp config)"
  obtain k s1 where ok1: "pol_ok pow2 config ?em bks s1" using policer_expire_spec [OF cfg ok now(1,2)] by blast
  have time: "emap_now ?em \<le> now" using now(3) by simp
  note same = pol_credit_expire [OF cfg ok, of now d, symmetric]
  consider (other) "em' = ?em" "bks' = bks" "device \<noteq> pol_wan_device config \<or> out = None"
    | (known) "device = pol_wan_device config" "emap_has ?em a"
    | (new) "device = pol_wan_device config" "\<not> emap_has ?em a" "\<not> emap_full ?em" "uint sz \<le> uint (pol_burst config)"
    using step lan by (auto simp: pol_spec_def pol_oversized_def Some Let_def split: if_splits)
  then show ?thesis
  proof cases
    case other
    then show ?thesis unfolding same by auto
  next
    case known
    define b where "b = pol_bucket (uint (pol_burst config)) (uint (pol_rate config)) (pol_exp config)
      (bks ! nat (emap_get ?em a)) now"
    note e = pol_entry [OF ok1 known(2)]
    have b: "0 \<le> b" "b \<le> uint (pol_burst config)"
      using policer_refill_spec(2,3) [OF pol_limits_rate [OF cfg] e(6) order_trans [OF e(3) time] now(2) e(2)] by (simp_all add: b_def pol_exp_full(1) [OF cfg])
    define c where "c = (if uint sz < b then b - uint sz else b)"
    have "em' = emap_refresh_idx ?em (emap_get ?em a) now"
      "bks' = bks[nat (emap_get ?em a) := \<lparr>bucket_size = word_of_int c, bucket_time = now\<rparr>]"
      "out = (if uint sz < b then Some (pol_lan_device config) else None)"
      using step lan known by (auto simp: pol_spec_def pol_oversized_def Some Let_def b_def c_def split: if_splits)
    moreover have "0 \<le> c" "c \<le> b" using b by (auto simp: c_def)
    ultimately show ?thesis
      using pol_credit_write [OF cfg ok1 time known(2) b_def _ _ b(2), of c d] known(1) Some
      unfolding same by (auto simp: c_def split: if_splits)
  next
    case new
    have em': "em' = emap_add ?em a idx now" "out = Some (pol_lan_device config)"
      "bks' = bks[nat idx := \<lparr>bucket_size = word_of_int (uint (pol_burst config) - uint sz), bucket_time = now\<rparr>]"
      using step lan new by (auto simp: pol_spec_def pol_oversized_def Some)
    note tab' = pol_ok_table [OF ok' [unfolded em'(1)]]
    have "\<not> emap_has_idx ?em idx" by (rule emap_add_fresh [OF tab'])
    moreover have "0 \<le> idx" "idx < emap_range ?em"
      using table_facts(5) [OF tab' table_facts(1) [OF tab', of a]] emap_ops_lookup(4,5) [OF pol_ok_table [OF ok1]] by auto
    then have "0 \<le> idx" "nat idx < length bks" using ok1 by (auto simp: pol_ok_def)
    ultimately show ?thesis
      using pol_credit_add [OF ok1 _ _ _ new(2) uint_ge_0 new(4), of idx d now] new(1) Some em'
      unfolding same by auto
  qed
qed

section \<open>Runs\<close>

text \<open>The bytes to an address that a run of the handler forwards.\<close>

fun pol_forwarded :: "pol_config \<Rightarrow> u32 \<Rightarrow> arrival list \<Rightarrow> u16 list \<Rightarrow> int" where
  "pol_forwarded config d ((device, st, sz, now) # ps) (dst # dsts) =
     (if device = pol_wan_device config \<and> pol_packet st = Some d \<and> dst = pol_lan_device config then uint sz else 0) +
     pol_forwarded config d ps dsts"
| "pol_forwarded config d _ _ = 0"

lemma pol_run_bound:
  assumes cfg: "pol_limits_ok config" and lan: "pol_lan_device config \<noteq> pol_wan_device config"
  shows "pol_ok pow2 config em bks s \<Longrightarrow> 0 \<le> t \<Longrightarrow> emap_now em \<le> t \<Longrightarrow> sorted (t # map arrival_time ps) \<Longrightarrow>
     \<forall>a \<in> set ps. arrival_time a < 2 ^ 63 \<and> (\<exists>n. fresh_packet n (fst (snd a))) \<Longrightarrow>
     \<exists>dsts s'. nf_run (pol_process pow2 config) s ps = Some (dsts, s') \<and>
       1000000000 * pol_forwarded config d ps dsts \<le>
         pol_credit config em bks d t + uint (pol_rate config) * (last (t # map arrival_time ps) - t)"
proof (induction ps arbitrary: em bks s t)
  case Nil
  have "0 \<le> pol_credit config em bks d t"
  proof (cases "emap_has em d")
    case True
    then show ?thesis using pol_entry(3) [OF Nil.prems(1) True] Nil.prems(3) by (simp add: pol_credit_def Let_def)
  qed (simp add: pol_credit_def)
  then show ?case by simp
next
  case (Cons a ps)
  obtain device st sz now where a: "a = (device, st, sz, now)" by (cases a)
  from Cons.prems a obtain n where n: "fresh_packet n st" and now: "t \<le> now" "now < 2 ^ 63" "0 \<le> now" "emap_now em \<le> now"
    by auto
  obtain dst st' s1 idx out em1 bks1 where one: "pol_process pow2 config s device st sz now = Some (dst, st', s1)"
    "pol_step config idx (em, bks) device (pol_packet st) (uint sz) now = (out, em1, bks1)"
    "dst = (case out of None \<Rightarrow> device | Some d \<Rightarrow> d)" "pol_ok pow2 config em1 bks1 s1" "emap_now em1 \<le> now"
    using pol_process_spec [OF cfg Cons.prems(1) now(3,2,4) lan n] by blast
  have "sorted (now # map arrival_time ps)" using Cons.prems(4) a by simp
  from Cons.IH [OF one(4) now(3) one(5) this] Cons.prems(5) obtain dsts s' where
    run: "nf_run (pol_process pow2 config) s1 ps = Some (dsts, s')"
      "1000000000 * pol_forwarded config d ps dsts \<le>
         pol_credit config em1 bks1 d now + uint (pol_rate config) * (last (now # map arrival_time ps) - now)"
    by auto
  have "out \<noteq> None \<longrightarrow> dst = the out" "device = pol_wan_device config \<and> dst = pol_lan_device config \<longrightarrow> out = Some (pol_lan_device config)"
    using one(3) lan by (auto split: option.splits)
  then have "1000000000 * (if device = pol_wan_device config \<and> pol_packet st = Some d \<and> dst = pol_lan_device config then uint sz else 0) +
      pol_credit config em1 bks1 d now \<le> pol_credit config em bks d now"
    using pol_credit_step [OF cfg Cons.prems(1) now(3,2,4) lan one(2,4), of d] by (auto split: if_splits)
  moreover have "pol_credit config em bks d now \<le> pol_credit config em bks d t + uint (pol_rate config) * (now - t)"
    using pol_credit_time [OF now(1)] .
  ultimately show ?case
    using run one(1) a by (simp add: algebra_simps)
qed

text \<open>An entry that expires makes room.\<close>

lemma emap_expire_room:
  assumes tab: "emap_table pow2 em chain vector m" and k: "emap_has em k" "\<not> emap_has (emap_expire_all em t) k"
  shows "\<not> emap_full (emap_expire_all em t)"
proof -
  obtain ch where ch: "em = emap_of vector ch" and ok: "flow_table_ok pow2 ch chain vector m"
    using tab by (rule emap_tableE)
  obtain alist sz low high where al: "ch = dchain alist sz low high" by (cases ch)
  have rep: "double_chainp ch chain" using ok by (simp add: flow_table_ok_def)
  let ?new = "filter (\<lambda>c. \<not> is_cell_expired t c) alist"
  have exp: "dchain_expire_old_indexes_fp ch t = dchain ?new sz low high"
    using double_chainp_range(2) [OF rep] by (simp add: al foldl_remove_filter)
  have em1: "emap_expire_all em t = emap_of vector (dchain ?new sz low high)" using emap_of_expire [OF ok, of t] by (simp add: ch exp)
  have "?new \<noteq> alist"
  proof
    assume "?new = alist"
    with em1 have "emap_expire_all em t = em" by (simp only: ch al)
    then show False using k by simp
  qed
  then have "length ?new < length alist" using length_filter_less filter_id_conv by metis
  moreover have "int (length alist) \<le> sz" using double_chainp_range(4) [OF rep] by (simp add: al)
  ultimately show ?thesis by (simp add: em1 emap_of_def)
qed

text \<open>
  An address that has been idle for the time its bucket takes to fill: it has no entry and there is
  room for one, or its entry was last used that long ago.
\<close>

definition pol_idle :: "pol_config \<Rightarrow> u32 emap \<Rightarrow> u32 \<Rightarrow> vigor_time \<Rightarrow> bool" where
  "pol_idle config em a now \<longleftrightarrow>
     (if emap_has em a then (case emap_time em (emap_get em a) of None \<Rightarrow> False | Some t \<Rightarrow> t + pol_exp config \<le> now)
      else \<not> emap_full (emap_expire_all em (now - pol_exp config)))"

lemma pol_step_idle:
  assumes ok: "pol_ok pow2 config em bks s" and lan: "pol_lan_device config \<noteq> pol_wan_device config"
    and idle: "pol_idle config em a now" and sz: "uint sz < uint (pol_burst config)"
  shows "fst (pol_step config idx (em, bks) (pol_wan_device config) (Some a) (uint (sz :: u16)) now) = Some (pol_lan_device config)"
proof -
  note tab = pol_ok_table [OF ok]
  let ?em = "emap_expire_all em (now - pol_exp config)"
  have fits: "\<not> pol_oversized config em (pol_wan_device config) (Some a) (uint sz) now" using sz by (simp add: pol_oversized_def)
  show ?thesis
  proof (cases "emap_has ?em a")
    case False
    have "\<not> emap_full ?em"
      using idle emap_expire_room [OF tab _ False] by (cases "emap_has em a") (simp_all add: pol_idle_def)
    then show ?thesis using lan False fits by (simp add: pol_spec_def Let_def)
  next
    case True
    then have "emap_has em a" using emap_expire_lookup(4) [OF tab] by blast
    then obtain t where idle: "emap_time em (emap_get em a) = Some t" "t + pol_exp config \<le> now"
      using idle by (auto simp: pol_idle_def split: option.splits)
    have "emap_get ?em a = emap_get em a" by (rule emap_expire_lookup(5) [OF tab True])
    moreover have "bucket_time (bks ! nat (emap_get em a)) = t" using ok idle(1) by (simp add: pol_ok_def)
    ultimately have "pol_bucket (uint (pol_burst config)) (uint (pol_rate config)) (pol_exp config) (bks ! nat (emap_get ?em a)) now = uint (pol_burst config)"
      using idle(2) by (simp add: pol_bucket_def)
    then show ?thesis using True lan sz fits by (simp add: pol_spec_def Let_def)
  qed
qed

section \<open>Properties\<close>

text \<open>
  C7. The packet handler of the policer implements \<open>vigpol/spec.py\<close> for the configurations in which the rate
  divides the burst size and the burst size does not overflow (\<open>pol_limits_ok\<close>; those of \<open>spec.py\<close> and
  of the \<open>Makefile\<close> do this, the defaults of \<open>policer_config.c\<close> do not), with two different devices. For every
  packet of at least 14 bytes it ends without a fault, does not change the packet, sends it where the
  specification sends it and leaves the buckets that the specification leaves; but the first packet to an
  address is dropped without creating an entry when it is larger than the burst size, which the specification
  does not do (\<open>pol_oversized\<close>).
\<close>

theorem pol_process_refines_spec:
  assumes "pol_limits_ok config" "pol_ok pow2 config em bks s" "0 \<le> now" "now < 2 ^ 63" "emap_now em \<le> now"
    "pol_lan_device config \<noteq> pol_wan_device config" "fresh_packet n st"
  shows "\<exists>dst st' s' idx out em' bks'. pol_process pow2 config s device st sz now = Some (dst, st', s') \<and>
     (if pol_oversized config em device (pol_packet st) (uint sz) now then (None, emap_expire_all em (now - pol_exp config), bks)
      else pol_spec (pol_lan_device config) (pol_wan_device config) (uint (pol_burst config)) (uint (pol_rate config))
        (pol_exp config) idx (em, bks) device (pol_packet st) (uint sz) now) = (out, em', bks') \<and>
     dst = (case out of None \<Rightarrow> device | Some d \<Rightarrow> d) \<and> pkt st' = pkt st \<and>
     pol_ok pow2 config em' bks' s' \<and> emap_now em' \<le> now"
  using pol_process_spec [OF assms] unfolding fst_conv snd_conv .

text \<open>
  C4. The policer enforces its rate when the rate divides the burst size, so that an entry expires only when its
  bucket is full again (\<open>pol_limits_ok\<close>; with the defaults of \<open>policer_config.c\<close> this is not so, see
  \<open>policer_expires_early\<close> below): over any sequence of packets with times that do not decrease,
  the bytes forwarded from the external device to an address are at most the burst size plus the
  rate times the length of the interval. This holds whatever other packets come, and also when
  the entry of the address expires and is created again.
\<close>

theorem pol_rate_bound:
  assumes "pol_limits_ok config" "pol_lan_device config \<noteq> pol_wan_device config" "pol_ok pow2 config em bks s"
    "0 \<le> t" "emap_now em \<le> t" "sorted (t # map (\<lambda>a. snd (snd (snd a))) ps)"
    "\<forall>a \<in> set ps. snd (snd (snd a)) < 2 ^ 63 \<and> (\<exists>n. fresh_packet n (fst (snd a)))"
  shows "\<exists>dsts s'. nf_run (pol_process pow2 config) s ps = Some (dsts, s') \<and>
     1000000000 * pol_forwarded config d ps dsts \<le>
       1000000000 * uint (pol_burst config) +
       uint (pol_rate config) * (last (t # map (\<lambda>a. snd (snd (snd a))) ps) - t)"
proof -
  obtain dsts s' where "nf_run (pol_process pow2 config) s ps = Some (dsts, s')"
    "1000000000 * pol_forwarded config d ps dsts \<le>
       pol_credit config em bks d t + uint (pol_rate config) * (last (t # map arrival_time ps) - t)"
    using pol_run_bound [OF assms(1-7), of d] by blast
  moreover have "pol_credit config em bks d t \<le> 1000000000 * uint (pol_burst config)" by (rule pol_credit_le)
  ultimately show ?thesis by fastforce
qed

text \<open>
  C5. No address is starved, when the rate divides the burst size: a packet smaller than the burst size to an
  address that has received nothing for the time in which its bucket fills up, burst divided by rate seconds,
  is forwarded, provided that the address still has an entry (which may be about to expire), or that it has
  none and the table has room for it after expiry.
\<close>

theorem pol_no_starvation:
  assumes "pol_limits_ok config" "pol_ok pow2 config em bks s" "0 \<le> now" "now < 2 ^ 63" "emap_now em \<le> now"
    "pol_lan_device config \<noteq> pol_wan_device config" "fresh_packet n st" "pol_packet st = Some a"
    "pol_idle config em a now" "uint sz < uint (pol_burst config)"
  shows "\<exists>st' s'. pol_process pow2 config s (pol_wan_device config) st sz now = Some (pol_lan_device config, st', s') \<and>
     pkt st' = pkt st"
proof -
  obtain dst st' s' idx out em' bks' where run: "pol_process pow2 config s (pol_wan_device config) st sz now = Some (dst, st', s')"
    "pol_step config idx (em, bks) (pol_wan_device config) (pol_packet st) (uint sz) now = (out, em', bks')"
    "dst = (case out of None \<Rightarrow> pol_wan_device config | Some d \<Rightarrow> d)" "pkt st' = pkt st"
    using pol_process_spec [OF assms(1-7), of "pol_wan_device config" sz] by blast
  then show ?thesis using pol_step_idle [OF assms(2,6,9,10), of idx] assms(8) by (metis fst_conv option.simps(5))
qed

text \<open>
  With a burst size below the rate the expiration time is rounded to zero, although the bucket
  takes \<open>burst / rate\<close> seconds to fill: every entry that was not used at this very time
  is removed, and its address starts again with a full bucket.
\<close>

lemma policer_expires_early:
  assumes tab: "emap_table pow2 em (dyn_heap s) (dyn_keys s) (dyn_map s)" and now: "0 \<le> now" "now < 2 ^ 63"
    and cfg: "pol_burst config < pol_rate config"
  shows "\<exists>n s'. policer_expire_entries pow2 config s now = Some (n, s') \<and>
     emap_table pow2 (emap_expire_all em now) (dyn_heap s') (dyn_keys s') (dyn_map s')"
proof -
  have "udiv (pol_burst config) (pol_rate config) = Some 0"
    using cfg by (auto simp: udiv_def word_less_alt word_uint_eq_iff uint_div_distrib)
  then show ?thesis
    using table_expire [OF tab, of now] now
    by (auto simp: policer_expire_entries_def cassert_def s64_wrap_id)
qed

section \<open>An example\<close>

definition ex_pol_config :: pol_config where
  "ex_pol_config = \<lparr>pol_lan_device = 1, pol_wan_device = 0, pol_rate = 65536, pol_burst = 131072\<rparr>"

definition ex_buckets :: "DynamicValue list" where
  "ex_buckets = [\<lparr>bucket_size = 100, bucket_time = 5\<rparr>, \<lparr>bucket_size = 200, bucket_time = 7\<rparr>, \<lparr>bucket_size = 0, bucket_time = 0\<rparr>]"

definition ex_pol_state :: pol_state where
  "ex_pol_state = \<lparr>dyn_map = ex_flows 10 11, dyn_keys = ex_vector 10 11, dyn_heap = ex_chain,
     dyn_vals = \<lparr>v_data = ex_buckets, v_elem_size = 16, v_capacity = 3\<rparr>\<rparr>"

definition ex_pol_emap :: "u32 emap" where
  "ex_pol_emap = emap_of (ex_vector 10 11) (dchain [(0, 5), (1, 7)] 3 0 7)"

lemma ex_pol_config_ok: "pol_limits_ok ex_pol_config" "pol_lan_device ex_pol_config \<noteq> pol_wan_device ex_pol_config"
  by (simp_all add: pol_full_def pol_limits_ok_def pol_rate_ok_def ex_pol_config_def dvd_def)

lemma ex_pol_ok: "pol_ok True ex_pol_config ex_pol_emap ex_buckets ex_pol_state"
  using emap_table_of [OF ex_flow_table_ok [of "10 :: u32" 11]]
  by (auto simp: pol_ok_def ex_pol_state_def ex_pol_emap_def vector_wf_def ex_buckets_def ex_pol_config_def split: if_splits)

lemma ex_pol_now: "emap_now ex_pol_emap = 7"
  by (simp add: ex_pol_emap_def)

theorem pol_process_refines_spec_witness:
  "\<exists>dst st' s' idx out em' bks'. pol_process True ex_pol_config ex_pol_state 0 ex_packet 60 8 = Some (dst, st', s') \<and>
     pol_spec 1 0 131072 65536 (pol_exp ex_pol_config) idx (ex_pol_emap, ex_buckets) 0 (pol_packet ex_packet) 60 8 = (out, em', bks') \<and>
     dst = (case out of None \<Rightarrow> 0 | Some d \<Rightarrow> d) \<and> pkt st' = pkt ex_packet"
proof -
  have "pol_lan_device ex_pol_config = 1" "pol_wan_device ex_pol_config = 0" "uint (pol_burst ex_pol_config) = 131072"
    "uint (pol_rate ex_pol_config) = 65536" "uint (60 :: u16) = 60" by (simp_all add: ex_pol_config_def)
  note v = this
  have "\<not> pol_oversized ex_pol_config ex_pol_emap 0 (pol_packet ex_packet) 60 8"
    by (simp add: pol_oversized_def v split: option.split)
  then show ?thesis
    using pol_process_refines_spec [OF ex_pol_config_ok(1) ex_pol_ok _ _ _ ex_pol_config_ok(2) ex_packet_fresh, of 8 0 60]
      ex_pol_now unfolding v by simp blast
qed

theorem pol_rate_bound_witness:
  "\<exists>dsts s'. nf_run (pol_process True ex_pol_config) ex_pol_state [(0, ex_packet, 60, 8), (0, ex_packet, 70, 1000)] = Some (dsts, s') \<and>
     1000000000 * pol_forwarded ex_pol_config 0x0200000a [(0, ex_packet, 60, 8), (0, ex_packet, 70, 1000)] dsts \<le>
       1000000000 * 131072 + 65536 * (1000 - 7)"
proof -
  have v: "uint (pol_burst ex_pol_config) = 131072" "uint (pol_rate ex_pol_config) = 65536" by (simp_all add: ex_pol_config_def)
  show ?thesis
    using pol_rate_bound [OF ex_pol_config_ok ex_pol_ok, of 7 "[(0, ex_packet, 60, 8), (0, ex_packet, 70, 1000)]" "0x0200000a"]
      ex_pol_now ex_packet_fresh unfolding v by auto
qed

definition ex_pol_packet :: packet_io where
  "ex_pol_packet = ex_packet\<lparr>pkt := (pkt ex_packet)[30 := 10, 31 := 0, 32 := 0, 33 := 0]\<rparr>"

lemma ex_pol_packet: "fresh_packet 60 ex_pol_packet" "pol_packet ex_pol_packet = Some 10"
  by (simp add: fresh_packet_def io_ok_def ex_pol_packet_def ex_packet_def, code_simp)

theorem pol_no_starvation_witness:
  "\<exists>st' s'. pol_process True ex_pol_config ex_pol_state 0 ex_pol_packet 1500 2000000005 = Some (1, st', s') \<and> pkt st' = pkt ex_pol_packet"
proof -
  have v: "pol_lan_device ex_pol_config = 1" "pol_wan_device ex_pol_config = 0" "pol_exp ex_pol_config = 2000000000"
    by (simp_all add: ex_pol_config_def pol_exp_def)
  have "pol_idle ex_pol_config ex_pol_emap 10 2000000005" "uint (1500 :: u16) < uint (pol_burst ex_pol_config)"
    by (simp_all add: pol_idle_def v ex_pol_emap_def emap_of_def flow_index_def ex_vector_def ex_pol_config_def pol_exp_def)
  then show ?thesis
    using pol_no_starvation [OF ex_pol_config_ok(1) ex_pol_ok _ _ _ ex_pol_config_ok(2) ex_pol_packet, of 2000000005 1500]
      ex_pol_now unfolding v by simp
qed

end
