(* ===== verification/Ether.thy ===== *)
theory Ether
  imports Packet_Io
begin

text \<open>
  Ethernet addresses as keys of a map, \<open>libvig/verified/ether.c\<close>: the address is the
  inductive type of the header. The CRC instruction of the processor that the hash uses is
  an argument.
\<close>

datatype rte_ether_addr = rte_ether_addrc u8 u8 u8 u8 u8 u8

fun addr_bytes :: "rte_ether_addr \<Rightarrow> u8 list" where
  "addr_bytes (rte_ether_addrc a b c d e f) = [a, b, c, d, e, f]"

text \<open>The address at some bytes of a packet.\<close>

fun ether_addr_of :: "u8 list \<Rightarrow> rte_ether_addr option" where
  "ether_addr_of [a, b, c, d, e, f] = Some (rte_ether_addrc a b c d e f)"
| "ether_addr_of _ = None"

definition rte_ether_addr_eq :: "rte_ether_addr \<Rightarrow> rte_ether_addr \<Rightarrow> bool" where
  "rte_ether_addr_eq id1 id2 \<longleftrightarrow>
     addr_bytes id1 ! 0 = addr_bytes id2 ! 0 \<and> addr_bytes id1 ! 1 = addr_bytes id2 ! 1 \<and>
     addr_bytes id1 ! 2 = addr_bytes id2 ! 2 \<and> addr_bytes id1 ! 3 = addr_bytes id2 ! 3 \<and>
     addr_bytes id1 ! 4 = addr_bytes id2 ! 4 \<and> addr_bytes id1 ! 5 = addr_bytes id2 ! 5"

definition rte_ether_addr_allocate :: rte_ether_addr where
  "rte_ether_addr_allocate = rte_ether_addrc 0 0 0 0 0 0"

definition rte_ether_addr_hash :: "(u32 \<Rightarrow> u32 \<Rightarrow> u32) \<Rightarrow> rte_ether_addr \<Rightarrow> u32" where
  "rte_ether_addr_hash crc32 obj = foldl (\<lambda>hash x. crc32 hash (ucast x)) 0 (addr_bytes obj)"

lemma rte_ether_addr_eq_iff: "rte_ether_addr_eq = (=)"
proof (intro ext)
  fix a b
  show "rte_ether_addr_eq a b = (a = b)"
    by (cases a; cases b) (auto simp: rte_ether_addr_eq_def numeral_nat)
qed

lemma ether_addr_of_bytes: "length bs = 6 \<Longrightarrow> \<exists>a. ether_addr_of bs = Some a \<and> addr_bytes a = bs"
  by (cases bs rule: ether_addr_of.cases) auto

end
