(* ===== verification/Vigbridge.thy ===== *)
theory Vigbridge
  imports Runs Ether
begin

text \<open>
  The learning bridge, \<open>vigbridge/bridge_main.c\<close>. The structure \<open>State\<close> is generated
  by the build from \<open>vigbridge/dataspec.ml\<close>: the table of learned addresses with a device
  for each, and the map of the static rules. The handler is shown to implement
  \<open>vigbridge/spec.py\<close>, and a learned address is reached on the device it was seen on. The
  rules from a file are read by the C library and are not modelled; the rules from an array
  are, with the parser of addresses as an argument.
\<close>

declare of_nat_unat [simp del]

section \<open>The code\<close>

record StaticKey =
  sk_addr :: rte_ether_addr
  sk_device :: u16

record br_state =
  br_dyn_map :: "(rte_ether_addr kptr, rte_ether_addr) vmap"
  br_dyn_keys :: "rte_ether_addr Vector"
  br_dyn_vals :: "u16 Vector"
  br_dyn_heap :: DoubleChain
  br_st_map :: "(StaticKey kptr, StaticKey) vmap"
  br_st_vec :: "StaticKey Vector"

definition FLOOD_FRAME :: int where
  "FLOOD_FRAME = uint (- 1 :: u16)"

definition bridge_expire_entries :: "bool \<Rightarrow> u32 \<Rightarrow> br_state \<Rightarrow> vigor_time \<Rightarrow> (int \<times> br_state) option" where
  "bridge_expire_entries pow2 expiration_time s time = do {
     cassert (time \<ge> 0);
     let last_time = s64_wrap (time - uint expiration_time * 1000);
     (n, h, m) \<leftarrow> expire_items_single_map pow2 (br_dyn_heap s) (br_dyn_keys s) (br_dyn_map s) last_time;
     Some (n, s\<lparr>br_dyn_heap := h, br_dyn_map := m\<rparr>)
   }"

definition bridge_get_device :: "bool \<Rightarrow> br_state \<Rightarrow> rte_ether_addr \<Rightarrow> u16 \<Rightarrow> int option" where
  "bridge_get_device pow2 s dst src_device = do {
     let k = \<lparr>sk_addr = dst, sk_device = src_device\<rparr>;
     (present, device) \<leftarrow> map_get pow2 (key_at (br_st_vec s)) (br_st_map s) (Ext k) (- 1);
     if present \<noteq> 0 then Some device
     else do {
       (present, index) \<leftarrow> map_get pow2 (key_at (br_dyn_keys s)) (br_dyn_map s) (Ext dst) (- 1);
       if present \<noteq> 0 then do {
         value \<leftarrow> vector_borrow (br_dyn_vals s) index;
         Some (uint (v_data (br_dyn_vals s) ! value))
       } else Some (- 1)
     }
   }"

definition bridge_put_update_entry ::
  "bool \<Rightarrow> br_state \<Rightarrow> rte_ether_addr \<Rightarrow> u16 \<Rightarrow> vigor_time \<Rightarrow> br_state option" where
  "bridge_put_update_entry pow2 s src src_device time = do {
     (present, index) \<leftarrow> map_get pow2 (key_at (br_dyn_keys s)) (br_dyn_map s) (Ext src) (- 1);
     if present \<noteq> 0 then do {
       (_, h) \<leftarrow> dchain_rejuvenate_index (br_dyn_heap s) index time;
       Some (s\<lparr>br_dyn_heap := h\<rparr>)
     } else do {
       (allocated, index, h) \<leftarrow> dchain_allocate_new_index (br_dyn_heap s) index time;
       let s = s\<lparr>br_dyn_heap := h\<rparr>;
       if allocated = 0 then Some s
       else do {
         key \<leftarrow> vector_borrow (br_dyn_keys s) index;
         value \<leftarrow> vector_borrow (br_dyn_vals s) index;
         let keys = vector_write (br_dyn_keys s) key src;
         let values = vector_write (br_dyn_vals s) value src_device;
         m \<leftarrow> map_put pow2 (key_at keys) (br_dyn_map s) (Slot key) index;
         Some (s\<lparr>br_dyn_map := m, br_dyn_keys := vector_return keys index key,
                 br_dyn_vals := vector_return values index value\<rparr>)
       }
     }
   }"

definition bridge_process ::
  "bool \<Rightarrow> u32 \<Rightarrow> br_state \<Rightarrow> u16 \<Rightarrow> packet_io \<Rightarrow> vigor_time \<Rightarrow> (int \<times> packet_io \<times> br_state) option" where
  "bridge_process pow2 expiration_time s device st now = do {
     (eth, st) \<leftarrow> nf_then_get_rte_ether_header st;
     (_, s) \<leftarrow> bridge_expire_entries pow2 expiration_time s now;
     bs \<leftarrow> ether_s_addr st eth;
     s_addr \<leftarrow> ether_addr_of bs;
     s \<leftarrow> bridge_put_update_entry pow2 s s_addr device now;
     bs \<leftarrow> ether_d_addr st eth;
     d_addr \<leftarrow> ether_addr_of bs;
     forward_to \<leftarrow> bridge_get_device pow2 s d_addr device;
     if forward_to = - 1 then Some (FLOOD_FRAME, st, s)
     else if forward_to = - 2 then Some (uint device, st, s)
     else Some (forward_to, st, s)
   }"

text \<open>
  The rules from an array, each an address and two devices. \<open>parse\<close> is
  \<open>nf_parse_etheraddr\<close>: whether the text is an address, and what it leaves in the key.
  A fault is \<open>None\<close>; ending the program with a message is \<open>Some None\<close>.
\<close>

type_synonym br_rule = "string \<times> int \<times> int"

fun read_static_ft_loop ::
  "bool \<Rightarrow> (string \<Rightarrow> rte_ether_addr \<Rightarrow> bool \<times> rte_ether_addr) \<Rightarrow> int \<Rightarrow> br_rule list
   \<Rightarrow> (StaticKey kptr, StaticKey) vmap \<times> StaticKey Vector \<Rightarrow> int
   \<Rightarrow> ((StaticKey kptr, StaticKey) vmap \<times> StaticKey Vector) option" where
  "read_static_ft_loop pow2 parse capacity [] (m, v) count = Some (m, v)"
| "read_static_ft_loop pow2 parse capacity ((mac, device_from, device_to) # rules) (m, v) count = do {
     key \<leftarrow> vector_borrow v count;
     let (ok, addr) = parse mac (sk_addr (v_data v ! key));
     let v = vector_write v key ((v_data v ! key)\<lparr>sk_addr := addr\<rparr>);
     let result = (if ok then 1 else 0 :: int);
     if result < 0 then read_static_ft_loop pow2 parse capacity rules (m, v) count
     else do {
       let v = vector_write v key ((v_data v ! key)\<lparr>sk_device := word_of_int device_from\<rparr>);
       m \<leftarrow> map_put pow2 (key_at v) m (Slot key) device_to;
       cassert (count + 1 < capacity);
       read_static_ft_loop pow2 parse capacity rules (m, vector_return v count key) (count + 1)
     }
   }"

definition read_static_ft_from_array ::
  "bool \<Rightarrow> (string \<Rightarrow> rte_ether_addr \<Rightarrow> bool \<times> rte_ether_addr) \<Rightarrow> br_rule list
   \<Rightarrow> (StaticKey kptr, StaticKey) vmap \<Rightarrow> StaticKey Vector \<Rightarrow> int
   \<Rightarrow> ((StaticKey kptr, StaticKey) vmap \<times> StaticKey Vector) option option" where
  "read_static_ft_from_array pow2 parse static_rules m v stat_capacity = (
     let capacity = 2 * int (length static_rules) in
     if stat_capacity \<le> capacity then Some None
     else map_option Some (read_static_ft_loop pow2 parse capacity static_rules (m, v) 0))"

section \<open>The specification\<close>

text \<open>
  \<open>vigbridge/spec.py\<close>. The outcome is a drop, a device, or a broadcast, which the
  specification writes for two devices.
\<close>

datatype br_out = Drop | To int | Broadcast

definition br_spec ::
  "vigor_time \<Rightarrow> int \<Rightarrow> (StaticKey \<Rightarrow> int option) \<Rightarrow> rte_ether_addr emap \<times> u16 list \<Rightarrow> u16
   \<Rightarrow> rte_ether_addr \<Rightarrow> rte_ether_addr \<Rightarrow> vigor_time \<Rightarrow> br_out \<times> rte_ether_addr emap \<times> u16 list" where
  "br_spec exp_time idx stat_emap = (\<lambda>(dyn_emap, dyn_vals) received_on_port saddr daddr now.
     let dyn_emap = emap_expire_all dyn_emap (now - exp_time);
         (dyn_emap, dyn_vals) =
           (if emap_has dyn_emap saddr then (emap_refresh_idx dyn_emap (emap_get dyn_emap saddr) now, dyn_vals)
            else if \<not> emap_full dyn_emap then (emap_add dyn_emap saddr idx now, dyn_vals[nat idx := received_on_port])
            else (dyn_emap, dyn_vals)) in
     (case stat_emap \<lparr>sk_addr = daddr, sk_device = received_on_port\<rparr> of
        Some output_port \<Rightarrow>
          if output_port = - 2 \<or> output_port = uint received_on_port then Drop else To output_port
      | None \<Rightarrow>
          if emap_has dyn_emap daddr then
            (let forward_to = dyn_vals ! nat (emap_get dyn_emap daddr) in
             if forward_to = received_on_port then Drop else To (uint forward_to))
          else Broadcast, dyn_emap, dyn_vals))"

text \<open>What the main loop does with the result of the handler.\<close>

definition br_result :: "u16 \<Rightarrow> int \<Rightarrow> br_out" where
  "br_result device dst = (if dst = uint device then Drop else if dst = FLOOD_FRAME then Broadcast else To dst)"

section \<open>The tables\<close>

definition br_ok :: "bool \<Rightarrow> rte_ether_addr emap \<Rightarrow> u16 list \<Rightarrow> (StaticKey \<Rightarrow> int option) \<Rightarrow> br_state \<Rightarrow> bool" where
  "br_ok pow2 em devs stat s \<longleftrightarrow>
     emap_table pow2 em (br_dyn_heap s) (br_dyn_keys s) (br_dyn_map s) \<and>
     vector_wf (br_dyn_vals s) \<and> v_data (br_dyn_vals s) = devs \<and> int (length devs) = emap_range em \<and>
     map_wf pow2 (key_at (br_st_vec s)) (br_st_map s) \<and> map_contents (key_at (br_st_vec s)) (br_st_map s) = stat"

lemma br_ok_table: "br_ok pow2 em devs stat s \<Longrightarrow> emap_table pow2 em (br_dyn_heap s) (br_dyn_keys s) (br_dyn_map s)"
  by (simp add: br_ok_def)

lemma br_vals_borrow:
  assumes "br_ok pow2 em devs stat s" "0 \<le> i" "i < emap_range em"
  shows "vector_borrow (br_dyn_vals s) i = Some (nat i)"
  using vector_borrow_spec [of "br_dyn_vals s" i] assms by (simp add: br_ok_def)

lemma bridge_expire_spec:
  assumes ok: "br_ok pow2 em devs stat s" and now: "0 \<le> now" "now < 2 ^ 63"
  shows "\<exists>n s'. bridge_expire_entries pow2 e s now = Some (n, s') \<and>
     br_ok pow2 (emap_expire_all em (now - uint e * 1000)) devs stat s'"
  using table_expire [OF br_ok_table [OF ok], of "now - uint e * 1000"] ok now
  by (fastforce simp: bridge_expire_entries_def br_ok_def cassert_def last_time_wrap)

lemma bridge_get_device_spec:
  assumes ok: "br_ok pow2 em devs stat s"
  shows "bridge_get_device pow2 s dst device =
     Some (case stat \<lparr>sk_addr = dst, sk_device = device\<rparr> of Some d \<Rightarrow> d
           | None \<Rightarrow> if emap_has em dst then uint (devs ! nat (emap_get em dst)) else - 1)"
proof -
  note tab = br_ok_table [OF ok]
  have "map_get pow2 (key_at (br_st_vec s)) (br_st_map s) (Ext k) (- 1) =
      Some (case stat k of None \<Rightarrow> (0, - 1) | Some w \<Rightarrow> (1, w))" for k
    using ok vm.get_law [of pow2 "key_at (br_st_vec s)" "br_st_map s" "Ext k" "- 1"] by (simp add: br_ok_def)
  moreover have "vector_borrow (br_dyn_vals s) (emap_get em dst) = Some (nat (emap_get em dst))" if "emap_has em dst"
    using br_vals_borrow [OF ok] table_facts(5) [OF tab table_facts(1) [OF tab that]] by blast
  ultimately show ?thesis
    using table_get [OF tab, of dst] ok by (simp add: bridge_get_device_def br_ok_def split: option.split)
qed

text \<open>The table after a frame from \<open>src\<close>.\<close>

definition br_learned ::
  "rte_ether_addr emap \<Rightarrow> u16 list \<Rightarrow> rte_ether_addr \<Rightarrow> u16 \<Rightarrow> int \<Rightarrow> vigor_time \<Rightarrow> rte_ether_addr emap \<times> u16 list" where
  "br_learned em devs src device idx now =
     (if emap_has em src then (emap_refresh_idx em (emap_get em src) now, devs)
      else if \<not> emap_full em then (emap_add em src idx now, devs[nat idx := device])
      else (em, devs))"

lemma bridge_put_update_spec:
  assumes ok: "br_ok pow2 em devs stat s" and time: "emap_now em \<le> now"
  shows "\<exists>idx s' em' devs'. bridge_put_update_entry pow2 s src device now = Some s' \<and>
     br_learned em devs src device idx now = (em', devs') \<and> br_ok pow2 em' devs' stat s' \<and> emap_now em' \<le> now"
proof -
  note tab = br_ok_table [OF ok]
  consider (known) "emap_has em src" | (full) "\<not> emap_has em src" "emap_full em"
    | (new) "\<not> emap_has em src" "\<not> emap_full em" by blast
  then show ?thesis
  proof cases
    case known
    from table_refresh [OF tab table_facts(1) [OF tab known] time] obtain h where
      "dchain_rejuvenate_index (br_dyn_heap s) (emap_get em src) now = Some (1, h)"
      "emap_table pow2 (emap_refresh_idx em (emap_get em src) now) h (br_dyn_keys s) (br_dyn_map s)" by blast
    then show ?thesis
      using ok known table_get [OF tab, of src]
      by (simp add: bridge_put_update_entry_def br_learned_def br_ok_def)
  next
    case full
    then show ?thesis
      using ok time table_get [OF tab, of src] table_full [OF tab full(2), of "- 1" now]
      by (simp add: bridge_put_update_entry_def br_learned_def)
  next
    case new
    obtain i h m where run: "dchain_allocate_new_index (br_dyn_heap s) (- 1) now = Some (1, i, h)"
      "vector_borrow (br_dyn_keys s) i = Some (nat i)"
      "map_put pow2 (key_at (vector_write (br_dyn_keys s) (nat i) src)) (br_dyn_map s) (Slot (nat i)) i = Some m"
      "0 \<le> i" "i < emap_range em" "emap_table pow2 (emap_add em src i now) h (vector_write (br_dyn_keys s) (nat i) src) m"
      using table_add [OF tab new(2,1) time, of "- 1"] by blast
    then show ?thesis
      using ok new table_get [OF tab, of src] br_vals_borrow [OF ok run(4,5)]
      by (intro exI [of _ i]) (simp add: bridge_put_update_entry_def br_learned_def br_ok_def)
  qed
qed

section \<open>The handler\<close>

text \<open>No device has the number that stands for a broadcast; a rule may also filter.\<close>

definition br_devices_ok :: "u16 list \<Rightarrow> (StaticKey \<Rightarrow> int option) \<Rightarrow> bool" where
  "br_devices_ok devs stat \<longleftrightarrow>
     (\<forall>d \<in> set devs. d \<noteq> - 1) \<and> (\<forall>k d. stat k = Some d \<longrightarrow> d = - 2 \<or> 0 \<le> d \<and> d < FLOOD_FRAME)"

definition frame_addrs :: "packet_io \<Rightarrow> rte_ether_addr \<Rightarrow> rte_ether_addr \<Rightarrow> bool" where
  "frame_addrs st saddr daddr \<longleftrightarrow>
     ether_s_addr st 0 = Some (addr_bytes saddr) \<and> ether_d_addr st 0 = Some (addr_bytes daddr)"

lemma ether_addr_of_addr: "ether_addr_of (addr_bytes a) = Some a"
  by (cases a) simp

lemma frame_addrs_ok:
  assumes "14 \<le> int (length (pkt st))"
  shows "\<exists>saddr daddr. frame_addrs st saddr daddr"
proof -
  have "\<exists>a. ld_bytes (pkt st) i 6 = Some (addr_bytes a)" if "0 \<le> i" "i \<le> 6" for i
    using that assms ether_addr_of_bytes [of "take 6 (drop (nat i) (pkt st))"]
    by (auto simp: ld_bytes_def intro: sym)
  from this [of 0] this [of 6] show ?thesis
    by (auto simp: frame_addrs_def ether_s_addr_def ether_d_addr_def)
qed

lemma br_learned_devices:
  assumes "br_learned em devs src device idx now = (em', devs')" "br_devices_ok devs stat" "device \<noteq> - 1"
  shows "br_devices_ok devs' stat"
  using assms set_update_subset_insert [of devs "nat idx" device]
  by (auto simp: br_learned_def br_devices_ok_def split: if_splits)

lemma emap_get_in_range:
  assumes "br_ok pow2 em devs stat s" "emap_has em k"
  shows "devs ! nat (emap_get em k) \<in> set devs"
proof -
  note tab = br_ok_table [OF assms(1)]
  have "nat (emap_get em k) < length devs"
    using table_facts(5) [OF tab table_facts(1) [OF tab assms(2)]] assms(1) by (auto simp: br_ok_def)
  then show ?thesis by simp
qed

lemma br_result_lookup:
  assumes ok: "br_ok pow2 em devs stat s" and dev: "br_devices_ok devs stat" "device \<noteq> - 1"
    and f: "f = (case stat \<lparr>sk_addr = d, sk_device = device\<rparr> of Some d \<Rightarrow> d
           | None \<Rightarrow> if emap_has em d then uint (devs ! nat (emap_get em d)) else - 1)"
  shows "br_result device (if f = - 1 then FLOOD_FRAME else if f = - 2 then uint device else f) =
     (case stat \<lparr>sk_addr = d, sk_device = device\<rparr> of
        Some output_port \<Rightarrow> if output_port = - 2 \<or> output_port = uint device then Drop else To output_port
      | None \<Rightarrow>
          if emap_has em d then
            (if devs ! nat (emap_get em d) = device then Drop else To (uint (devs ! nat (emap_get em d))))
          else Broadcast)"
proof -
  have flood: "uint e \<noteq> FLOOD_FRAME" if "e \<noteq> - 1" for e :: u16
    using that by (auto simp: FLOOD_FRAME_def word_uint_eq_iff)
  have pos: "uint e \<noteq> - 1" "uint e \<noteq> - 2" for e :: u16 using uint_ge_0 [of e] by linarith+
  show ?thesis
  proof (cases "stat \<lparr>sk_addr = d, sk_device = device\<rparr>")
    case None
    have "devs ! nat (emap_get em d) \<noteq> - 1" if "emap_has em d"
      using emap_get_in_range [OF ok that] dev(1) by (auto simp: br_devices_ok_def)
    then show ?thesis
      using None flood [OF dev(2)] flood pos by (auto simp: f br_result_def word_uint_eq_iff)
  next
    case (Some x)
    then have "x = - 2 \<or> 0 \<le> x \<and> x < FLOOD_FRAME" using dev(1) by (auto simp: br_devices_ok_def)
    then show ?thesis using Some flood [OF dev(2)] pos by (auto simp: f br_result_def)
  qed
qed

lemma bridge_process_spec:
  assumes ok: "br_ok pow2 em devs stat s" and now: "0 \<le> now" "now < 2 ^ 63" "emap_now em \<le> now"
    and dev: "br_devices_ok devs stat" "device \<noteq> - 1" and fresh: "fresh_packet n st"
    and addrs: "frame_addrs st saddr daddr"
  shows "\<exists>dst st' s' idx out em' devs'. bridge_process pow2 e s device st now = Some (dst, st', s') \<and>
     br_spec (uint e * 1000) idx stat (em, devs) device saddr daddr now = (out, em', devs') \<and>
     br_result device dst = out \<and> pkt st' = pkt st \<and> br_ok pow2 em' devs' stat s' \<and> emap_now em' \<le> now \<and>
     br_devices_ok devs' stat"
proof -
  let ?em = "emap_expire_all em (now - uint e * 1000)"
  obtain st1 where st1: "nf_then_get_rte_ether_header st = Some (0, st1)" "pkt st1 = pkt st"
    using ether_header [of n st] fresh by (auto simp: fresh_packet_def)
  have a: "ether_s_addr st1 0 = Some (addr_bytes saddr)" "ether_d_addr st1 0 = Some (addr_bytes daddr)"
    using addrs st1(2) by (simp_all add: frame_addrs_def ether_s_addr_def ether_d_addr_def)
  obtain k s1 where s1: "bridge_expire_entries pow2 e s now = Some (k, s1)" "br_ok pow2 ?em devs stat s1"
    using bridge_expire_spec [OF ok now(1,2)] by blast
  have "emap_now ?em \<le> now" using now(3) by simp
  then obtain idx s2 em' devs' where s2: "bridge_put_update_entry pow2 s1 saddr device now = Some s2"
    "br_learned ?em devs saddr device idx now = (em', devs')" "br_ok pow2 em' devs' stat s2" "emap_now em' \<le> now"
    using bridge_put_update_spec [OF s1(2)] by blast
  note dev' = br_learned_devices [OF s2(2) dev]
  define f where "f = (case stat \<lparr>sk_addr = daddr, sk_device = device\<rparr> of Some d \<Rightarrow> d
     | None \<Rightarrow> if emap_has em' daddr then uint (devs' ! nat (emap_get em' daddr)) else - 1)"
  have "bridge_process pow2 e s device st now =
      Some (if f = - 1 then FLOOD_FRAME else if f = - 2 then uint device else f, st1, s2)"
    using st1(1) s1(1) a s2(1) bridge_get_device_spec [OF s2(3), of daddr device]
    by (simp add: bridge_process_def ether_addr_of_addr f_def)
  moreover have "br_spec (uint e * 1000) idx stat (em, devs) device saddr daddr now =
      (br_result device (if f = - 1 then FLOOD_FRAME else if f = - 2 then uint device else f), em', devs')"
    using s2(2) unfolding br_result_lookup [OF s2(3) dev' dev(2) f_def]
    by (cases "stat \<lparr>sk_addr = daddr, sk_device = device\<rparr>")
      (simp_all add: br_spec_def br_learned_def Let_def split: if_splits)
  ultimately show ?thesis using st1(2) s2(3,4) dev' by fastforce
qed

section \<open>Properties\<close>

text \<open>
  C15. The frame handler of the bridge implements its specification: for every frame of at least
  14 bytes it ends without a fault, does not change the frame, drops it, sends it or broadcasts it
  as the specification does, and leaves the table of learned addresses that the specification
  leaves.
\<close>

theorem bridge_process_refines_spec:
  assumes "br_ok pow2 em devs stat s" "0 \<le> now" "now < 2 ^ 63" "emap_now em \<le> now"
    "br_devices_ok devs stat" "device \<noteq> - 1" "fresh_packet n st" "frame_addrs st saddr daddr"
  shows "\<exists>dst st' s' idx out em' devs'. bridge_process pow2 e s device st now = Some (dst, st', s') \<and>
     br_spec (uint e * 1000) idx stat (em, devs) device saddr daddr now = (out, em', devs') \<and>
     br_result device dst = out \<and> pkt st' = pkt st \<and> br_ok pow2 em' devs' stat s' \<and> emap_now em' \<le> now \<and>
     br_devices_ok devs' stat"
  by (rule bridge_process_spec [OF assms])

section \<open>Runs\<close>

text \<open>
  \<open>br_keeps\<close>: the tables are in order, and the address \<open>a\<close> has the index \<open>i\<close> and the device \<open>d\<close> and was seen at
  \<open>t0\<close> or later, which is recent enough until \<open>deadline\<close>.
\<close>

definition br_keeps ::
  "bool \<Rightarrow> u32 \<Rightarrow> (StaticKey \<Rightarrow> int option) \<Rightarrow> rte_ether_addr \<Rightarrow> int \<Rightarrow> u16 \<Rightarrow> vigor_time \<Rightarrow> vigor_time \<Rightarrow> br_state \<Rightarrow> vigor_time \<Rightarrow> bool" where
  "br_keeps pow2 e stat a i d t0 deadline s t \<longleftrightarrow>
     0 \<le> t0 \<and> t0 \<le> t \<and> deadline < 2 ^ 63 \<and> deadline - uint e * 1000 \<le> t0 \<and>
     (\<exists>em devs. br_ok pow2 em devs stat s \<and> emap_now em \<le> t \<and> br_devices_ok devs stat \<and> emap_bound em devs a i d t0)"

lemma br_spec_keeps:
  fixes e :: u32
  assumes ok: "br_ok pow2 em devs stat s" and ok': "br_ok pow2 em' devs' stat s'" and now: "0 \<le> now" "now < 2 ^ 63"
    and spec: "br_spec (uint e * 1000) idx stat (em, devs) device saddr daddr now = (out, em', devs')"
    and bound: "emap_bound em devs a i d t0" "now - uint e * 1000 \<le> t0" "t0 \<le> now"
  shows "emap_bound em' devs' a i d t0"
proof -
  let ?em = "emap_expire_all em (now - uint e * 1000)"
  obtain s0 where "br_ok pow2 ?em devs stat s0" using bridge_expire_spec [OF ok now, of e] by blast
  note tab0 = br_ok_table [OF this] and tab' = br_ok_table [OF ok']
  have kept: "emap_bound ?em devs a i d t0" by (rule emap_bound_expire [OF br_ok_table [OF ok] bound(1,2)])
  consider (same) "em' = ?em" "devs' = devs" | (refresh) j where "em' = emap_refresh_idx ?em j now" "devs' = devs"
    | (add) "em' = emap_add ?em saddr idx now" "devs' = devs[nat idx := device]" "\<not> emap_has ?em saddr"
    using spec by (auto simp: br_spec_def Let_def split: if_splits)
  then show ?thesis
  proof cases
    case same
    then show ?thesis using kept by simp
  next
    case (refresh j)
    then show ?thesis using emap_bound_refresh [OF tab0 kept bound(3)] by simp
  next
    case add
    show ?thesis using emap_bound_add [OF tab0 tab' [unfolded add(1)] add(3) kept] by (simp add: add(1,2))
  qed
qed

interpretation br_runs: packet_run "\<lambda>s device st _ now. bridge_process pow2 e s device st now" "br_keeps pow2 e stat a i d t0 deadline"
  "\<lambda>device st. device \<noteq> - 1 \<and> (\<exists>n. fresh_packet n st)" deadline for pow2 e stat a i d t0 deadline
proof
  fix s t now and device :: u16 and st
  assume keeps: "br_keeps pow2 e stat a i d t0 deadline s t" and t: "t \<le> now" "now \<le> deadline"
    and arrives: "device \<noteq> - 1 \<and> (\<exists>n. fresh_packet n st)"
  obtain em devs where ok: "br_ok pow2 em devs stat s" "emap_now em \<le> t" "br_devices_ok devs stat" "emap_bound em devs a i d t0"
    and lim: "0 \<le> t0" "t0 \<le> t" "deadline < 2 ^ 63" "deadline - uint e * 1000 \<le> t0"
    using keeps by (auto simp: br_keeps_def)
  obtain n where n: "fresh_packet n st" using arrives by blast
  obtain saddr daddr where addrs: "frame_addrs st saddr daddr" using frame_addrs_ok [of st] n by (auto simp: fresh_packet_def io_ok_def)
  have now: "0 \<le> now" "now < 2 ^ 63" "emap_now em \<le> now" "now - uint e * 1000 \<le> t0" "t0 \<le> now"
    using t ok(2) lim by linarith+
  obtain dst st' s' idx out em' devs' where run: "bridge_process pow2 e s device st now = Some (dst, st', s')"
    "br_spec (uint e * 1000) idx stat (em, devs) device saddr daddr now = (out, em', devs')"
    "br_ok pow2 em' devs' stat s'" "emap_now em' \<le> now" "br_devices_ok devs' stat"
    using bridge_process_spec [OF ok(1) now(1-3) ok(3) _ n addrs, of device e] arrives by blast
  have "emap_bound em' devs' a i d t0" by (rule br_spec_keeps [OF ok(1) run(3) now(1,2) run(2) ok(4) now(4,5)])
  then show "\<exists>dst st' s'. bridge_process pow2 e s device st now = Some (dst, st', s') \<and> br_keeps pow2 e stat a i d t0 deadline s' now"
    using run lim now by (auto simp: br_keeps_def)
qed

text \<open>A frame gives its source an index, unless the table is full; a frame to a kept address goes to its device.\<close>

lemma bridge_source_keeps:
  assumes ok: "br_ok pow2 em devs stat s" and now: "0 \<le> now" "now < 2 ^ 63" "emap_now em \<le> now"
    and dev: "br_devices_ok devs stat" "device \<noteq> - 1" and frame: "fresh_packet n st" "frame_addrs st a daddr"
    and em0: "em0 = emap_expire_all em (now - uint e * 1000)" and room: "emap_has em0 a \<or> \<not> emap_full em0"
    and time: "deadline < 2 ^ 63" "deadline - uint e * 1000 \<le> now"
  shows "\<exists>dst st' s' i. bridge_process pow2 e s device st now = Some (dst, st', s') \<and>
     br_keeps pow2 e stat a i (if emap_has em0 a then devs ! nat (emap_get em0 a) else device) now deadline s' now"
proof -
  let ?d = "if emap_has em0 a then devs ! nat (emap_get em0 a) else device"
  obtain s0 where ok0: "br_ok pow2 em0 devs stat s0" using bridge_expire_spec [OF ok now(1,2), of e] em0 by blast
  note tab0 = br_ok_table [OF ok0]
  obtain dst st' s' idx out em' devs' where run: "bridge_process pow2 e s device st now = Some (dst, st', s')"
    "br_spec (uint e * 1000) idx stat (em, devs) device a daddr now = (out, em', devs')"
    "br_ok pow2 em' devs' stat s'" "emap_now em' \<le> now" "br_devices_ok devs' stat"
    using bridge_process_spec [OF ok now dev frame] by blast
  have "\<exists>i. emap_bound em' devs' a i ?d now"
  proof (cases "emap_has em0 a")
    case True
    then show ?thesis using run(2) emap_bound_used(1) [OF tab0 True] by (auto simp: br_spec_def Let_def em0)
  next
    case False
    then have "em' = emap_add em0 a idx now" "devs' = devs[nat idx := device]"
      using run(2) room by (auto simp: br_spec_def Let_def em0)
    moreover have "int (length devs) = emap_range em0" using ok0 by (simp add: br_ok_def)
    ultimately show ?thesis using emap_bound_used(2) [OF tab0] br_ok_table [OF run(3)] False by metis
  qed
  then obtain i where "emap_bound em' devs' a i ?d now" by blast
  then have "br_keeps pow2 e stat a i ?d now deadline s' now"
    unfolding br_keeps_def using run(3-) now time by (intro conjI exI [of _ em'] exI [of _ devs']) simp_all
  then show ?thesis using run(1) by blast
qed

lemma bridge_to_kept:
  assumes keeps: "br_keeps pow2 e stat a i d t0 deadline s t" and t: "t \<le> deadline" and dev: "device \<noteq> - 1"
    and frame: "fresh_packet n st" "frame_addrs st saddr a" and rule: "stat \<lparr>sk_addr = a, sk_device = device\<rparr> = None"
  shows "\<exists>dst st' s'. bridge_process pow2 e s device st deadline = Some (dst, st', s') \<and>
     br_result device dst = (if device = d then Drop else To (uint d)) \<and> pkt st' = pkt st"
proof -
  obtain em devs where ok: "br_ok pow2 em devs stat s" "emap_now em \<le> t" "br_devices_ok devs stat" "emap_bound em devs a i d t0"
    and lim: "0 \<le> deadline" "deadline < 2 ^ 63" "deadline - uint e * 1000 \<le> t0" "t0 \<le> deadline"
    using keeps t by (auto simp: br_keeps_def)
  obtain dst st' s' idx out em' devs' where run: "bridge_process pow2 e s device st deadline = Some (dst, st', s')"
    "br_spec (uint e * 1000) idx stat (em, devs) device saddr a deadline = (out, em', devs')"
    "br_result device dst = out" "pkt st' = pkt st" "br_ok pow2 em' devs' stat s'"
    using bridge_process_spec [OF ok(1) lim(1,2) order_trans [OF ok(2) t] ok(3) dev frame] by blast
  have "emap_bound em' devs' a i d t0" by (rule br_spec_keeps [OF ok(1) run(5) lim(1,2) run(2) ok(4) lim(3,4)])
  then show ?thesis using run(1-4) rule by (auto simp: br_spec_def Let_def emap_bound_def split: if_splits)
qed

text \<open>
  C17. The bridge learns. Take a frame whose source address is in the table after it, because it was there or
  the table has room. After any frames in between, a frame to that address that arrives before the entry
  expires, on a device for which no static rule covers the address, is sent to the device of the entry and to
  it only, or dropped if it arrives on that device: the device on which the first frame arrived if the address
  was new, else the one recorded when it was learned. No device has the number 65535, which stands for flooding.
\<close>

theorem bridge_learns:
  assumes ok: "br_ok pow2 em devs stat s" and now: "0 \<le> now" "now < 2 ^ 63" "emap_now em \<le> now"
    and dev: "br_devices_ok devs stat" "device \<noteq> - 1" "device' \<noteq> - 1"
    and em0: "em0 = emap_expire_all em (now - uint e * 1000)" and room: "emap_has em0 a \<or> \<not> emap_full em0"
    and d: "d = (if emap_has em0 a then devs ! nat (emap_get em0 a) else device)"
    and frames: "fresh_packet n st" "frame_addrs st a daddr" "fresh_packet n' st'" "frame_addrs st' saddr a"
    and time: "now' < 2 ^ 63" "now' - uint e * 1000 \<le> now"
    and between: "sorted (now # map (\<lambda>f. snd (snd (snd f))) fs @ [now'])" "\<forall>f \<in> set fs. fst f \<noteq> - 1 \<and> (\<exists>l. fresh_packet l (fst (snd f)))"
    and rule: "stat \<lparr>sk_addr = a, sk_device = device'\<rparr> = None"
  shows "\<exists>dst st1 s1 dsts s2 dst' st2 s3. bridge_process pow2 e s device st now = Some (dst, st1, s1) \<and>
     nf_run (\<lambda>s device st _ now. bridge_process pow2 e s device st now) s1 fs = Some (dsts, s2) \<and>
     bridge_process pow2 e s2 device' st' now' = Some (dst', st2, s3) \<and>
     br_result device' dst' = (if device' = d then Drop else To (uint d)) \<and> pkt st2 = pkt st'"
proof -
  obtain dst st1 s1 i where one: "bridge_process pow2 e s device st now = Some (dst, st1, s1)" "br_keeps pow2 e stat a i d now now' s1 now"
    using bridge_source_keeps [OF ok now dev(1,2) frames(1,2) em0 room time] unfolding d by blast
  obtain dsts s2 t where two: "nf_run (\<lambda>s device st _ now. bridge_process pow2 e s device st now) s1 fs = Some (dsts, s2)"
    "br_keeps pow2 e stat a i d now now' s2 t" "t \<le> now'"
    using br_runs.run_then [OF one(2) between] by metis
  show ?thesis using bridge_to_kept [OF two(2,3) dev(3) frames(3,4) rule] one(1) two(1) by blast
qed

text \<open>
  The parser of addresses returns a truth value, which is never negative: a rule whose address
  could not be read is installed like any other.
\<close>

lemma read_static_ft_ignores_result:
  "read_static_ft_loop pow2 parse capacity rules (m, v) count =
   read_static_ft_loop pow2 (\<lambda>mac addr. (True, snd (parse mac addr))) capacity rules (m, v) count"
  by (induction rules arbitrary: m v count) (auto simp: Let_def split: prod.split Option.bind_split)

section \<open>An example\<close>

definition ex_addr :: "u8 \<Rightarrow> rte_ether_addr" where
  "ex_addr x = rte_ether_addrc 2 0 0 0 0 x"

definition ex_rule :: "u16 \<Rightarrow> StaticKey" where
  "ex_rule d = \<lparr>sk_addr = ex_addr 9, sk_device = d\<rparr>"

definition ex_br_state :: br_state where
  "ex_br_state = \<lparr>br_dyn_map = ex_flows (ex_addr 7) (ex_addr 8), br_dyn_keys = ex_vector (ex_addr 7) (ex_addr 8),
     br_dyn_vals = \<lparr>v_data = [0, 1, 0], v_elem_size = 2, v_capacity = 3\<rparr>, br_dyn_heap = ex_chain,
     br_st_map = ex_flows (ex_rule 1) (ex_rule 0), br_st_vec = ex_vector (ex_rule 1) (ex_rule 0)\<rparr>"

definition ex_br_emap :: "rte_ether_addr emap" where
  "ex_br_emap = emap_of (ex_vector (ex_addr 7) (ex_addr 8)) (dchain [(0, 5), (1, 7)] 3 0 7)"

definition ex_br_stat :: "StaticKey \<Rightarrow> int option" where
  "ex_br_stat = flow_index (ex_vector (ex_rule 1) (ex_rule 0)) [0, 1]"

definition ex_frame :: "u8 \<Rightarrow> u8 \<Rightarrow> packet_io" where
  "ex_frame src dst = \<lparr>pkt = [2, 0, 0, 0, 0, dst, 2, 0, 0, 0, 0, src] @ replicate 48 0, global_total_length = 60,
     global_read_length = 0, chunks_borrowed = []\<rparr>"

lemma ex_br_ok: "br_ok True ex_br_emap [0, 1, 0] ex_br_stat ex_br_state"
  using ex_flow_table_ok [of "ex_addr 7" "ex_addr 8", THEN emap_table_of] ex_flow_table_ok [of "ex_rule 1" "ex_rule 0"]
  by (simp add: br_ok_def ex_br_state_def ex_br_emap_def ex_br_stat_def ex_addr_def ex_rule_def vector_wf_def flow_table_ok_def)

lemma ex_br_devices: "br_devices_ok [0, 1, 0] ex_br_stat"
  using unsigned_minus_1_eq_mask [where 'a = int and 'b = 16]
  by (auto simp: mask_eq_exp_minus_1 br_devices_ok_def ex_br_stat_def flow_index_def ex_vector_def FLOOD_FRAME_def split: if_splits)

lemma ex_frame_ok: "fresh_packet 60 (ex_frame src dst)" "frame_addrs (ex_frame src dst) (ex_addr src) (ex_addr dst)"
  by (simp_all add: fresh_packet_def io_ok_def ex_frame_def frame_addrs_def ether_s_addr_def ether_d_addr_def ld_bytes_def ex_addr_def)

lemma ex_br_now: "emap_now ex_br_emap = 7"
  by (simp add: ex_br_emap_def)

theorem bridge_process_refines_spec_witness:
  "\<exists>dst st' s' idx out em' devs'. bridge_process True 1 ex_br_state 0 (ex_frame 1 8) 8 = Some (dst, st', s') \<and>
     br_spec 1000 idx ex_br_stat (ex_br_emap, [0, 1, 0]) 0 (ex_addr 1) (ex_addr 8) 8 = (out, em', devs') \<and>
     br_result 0 dst = out \<and> pkt st' = pkt (ex_frame 1 8) \<and> br_ok True em' devs' ex_br_stat s'"
  using bridge_process_refines_spec [OF ex_br_ok _ _ _ ex_br_devices _ ex_frame_ok, of 8 0 1] ex_br_now
  by simp blast

theorem bridge_learns_witness:
  "\<exists>dst st1 s1 dsts s2 dst' st2 s3. bridge_process True 1 ex_br_state 0 (ex_frame 1 8) 8 = Some (dst, st1, s1) \<and>
     nf_run (\<lambda>s device st _ now. bridge_process True 1 s device st now) s1 [(1, ex_frame 8 7, 60, 9), (1, ex_frame 1 7, 60, 10)] = Some (dsts, s2) \<and>
     bridge_process True 1 s2 1 (ex_frame 8 1) 500 = Some (dst', st2, s3) \<and> br_result 1 dst' = To 0 \<and>
     pkt st2 = pkt (ex_frame 8 1)"
proof -
  have new: "\<not> emap_has (emap_expire_all ex_br_emap (8 - uint (1 :: u32) * 1000)) (ex_addr 1)"
    "\<not> emap_full (emap_expire_all ex_br_emap (8 - uint (1 :: u32) * 1000))"
    "ex_br_stat \<lparr>sk_addr = ex_addr 1, sk_device = 1\<rparr> = None" by code_simp+
  have frames: "\<forall>f \<in> set [(1 :: u16, ex_frame 8 7, 60, 9), (1, ex_frame 1 7, 60, 10)]. fst f \<noteq> - 1 \<and> (\<exists>l. fresh_packet l (fst (snd f)))"
    using ex_frame_ok(1) by auto
  show ?thesis
    using bridge_learns [OF ex_br_ok _ _ _ ex_br_devices _ _ refl _ refl ex_frame_ok ex_frame_ok _ _ _ frames new(3), where now = 8 and device = 0 and now' = 500 and e = 1] ex_br_now
      new by simp
qed

end
