(* ===== verification/Cht.thy ===== *)
theory Cht
  imports Dchain Vector_Api
begin

text \<open>
  The consistent hash table of \<open>libvig/verified/cht.c\<close>: for every hash a list of all the
  backends in the order of preference, one list after the other in a vector. The abstract
  functions are those of \<open>cht.h\<close>, \<open>proof/permutations.gh\<close>, \<open>proof/listutils.gh\<close> and
  \<open>proof/prime.gh\<close>. \<open>cht_fill_cht\<close> is shown to fill the table with permutations
  when the height is a prime number, and the choice of a backend to be the first available
  one of the list, which does not change when other backends come and go.
\<close>

declare of_nat_unat [simp del]

section \<open>The code\<close>

text \<open>\<open>loop\<close>, a division that faults when the capacity is 0.\<close>

definition cht_loop :: "u64 \<Rightarrow> u64 \<Rightarrow> u64 option" where
  "cht_loop k capacity = (if capacity = 0 then None else Some (k mod capacity))"

text \<open>The loops of \<open>cht_fill_cht\<close>, from the first to the last.\<close>

function cht_permut_row :: "u64 \<Rightarrow> u64 \<Rightarrow> u32 \<Rightarrow> u32 \<Rightarrow> int list \<Rightarrow> u32 \<Rightarrow> int list option" where
  "cht_permut_row offset shift cht_height i permutations j =
     (if j < cht_height then do {
        permut \<leftarrow> cht_loop (offset + shift * ucast j) (ucast cht_height);
        permutations \<leftarrow> arr_set permutations (uint (i * cht_height + j)) (sint (ucast permut :: u32));
        cht_permut_row offset shift cht_height i permutations (j + 1)
      } else Some permutations)"
  by pat_completeness auto
termination
  by (relation "measure (\<lambda>(_, _, n, _, _, j). unat n - unat j)")
    (auto simp: unat_Suc_less word_less_nat_alt intro!: diff_less_mono2)

declare cht_permut_row.simps [simp del]

function cht_permut_loop :: "u32 \<Rightarrow> u32 \<Rightarrow> int list \<Rightarrow> u32 \<Rightarrow> int list option" where
  "cht_permut_loop cht_height backend_capacity permutations i =
     (if i < backend_capacity then do {
        let offset_absolut = i * 31;
        offset \<leftarrow> cht_loop (ucast offset_absolut) (ucast cht_height);
        base_shift \<leftarrow> cht_loop (ucast i) (ucast (cht_height - 1));
        let shift = base_shift + 1;
        permutations \<leftarrow> cht_permut_row offset shift cht_height i permutations 0;
        cht_permut_loop cht_height backend_capacity permutations (i + 1)
      } else Some permutations)"
  by pat_completeness auto
termination
  by (relation "measure (\<lambda>(_, n, _, i). unat n - unat i)")
    (auto simp: unat_Suc_less word_less_nat_alt intro!: diff_less_mono2)

declare cht_permut_loop.simps [simp del]

function cht_next_loop :: "u32 \<Rightarrow> int list \<Rightarrow> u32 \<Rightarrow> int list option" where
  "cht_next_loop cht_height next i =
     (if i < cht_height then do {
        next \<leftarrow> arr_set next (uint i) 0;
        cht_next_loop cht_height next (i + 1)
      } else Some next)"
  by pat_completeness auto
termination
  by (relation "measure (\<lambda>(n, _, i). unat n - unat i)")
    (auto simp: unat_Suc_less word_less_nat_alt intro!: diff_less_mono2)

declare cht_next_loop.simps [simp del]

function cht_fill_row ::
  "u32 \<Rightarrow> u32 \<Rightarrow> int list \<Rightarrow> u32 \<Rightarrow> int list \<Rightarrow> u32 Vector \<Rightarrow> u32 \<Rightarrow> (int list \<times> u32 Vector) option" where
  "cht_fill_row cht_height backend_capacity permutations i next cht j =
     (if j < backend_capacity then do {
        let index = j * cht_height + i;
        bucket_id \<leftarrow> arr_get permutations (uint index);
        priority \<leftarrow> arr_get next bucket_id;
        n \<leftarrow> s32 (priority + 1);
        next \<leftarrow> arr_set next bucket_id n;
        let pos = sint (backend_capacity * word_of_int bucket_id + word_of_int priority);
        value \<leftarrow> vector_borrow cht pos;
        let cht = vector_return (vector_write cht value j) pos value;
        cht_fill_row cht_height backend_capacity permutations i next cht (j + 1)
      } else Some (next, cht))"
  by pat_completeness auto
termination
  by (relation "measure (\<lambda>(_, n, _, _, _, _, j). unat n - unat j)")
    (auto simp: unat_Suc_less word_less_nat_alt intro!: diff_less_mono2)

declare cht_fill_row.simps [simp del]

function cht_fill_loop ::
  "u32 \<Rightarrow> u32 \<Rightarrow> int list \<Rightarrow> int list \<Rightarrow> u32 Vector \<Rightarrow> u32 \<Rightarrow> (int list \<times> u32 Vector) option" where
  "cht_fill_loop cht_height backend_capacity permutations next cht i =
     (if i < cht_height then do {
        (next, cht) \<leftarrow> cht_fill_row cht_height backend_capacity permutations i next cht 0;
        cht_fill_loop cht_height backend_capacity permutations next cht (i + 1)
      } else Some (next, cht))"
  by pat_completeness auto
termination
  by (relation "measure (\<lambda>(n, _, _, _, _, i). unat n - unat i)")
    (auto simp: unat_Suc_less word_less_nat_alt intro!: diff_less_mono2)

declare cht_fill_loop.simps [simp del]

text \<open>\<open>raw_permutations\<close> and \<open>raw_next\<close> are what the new blocks hold.\<close>

definition cht_fill_cht ::
  "u32 Vector \<Rightarrow> u32 \<Rightarrow> u32 \<Rightarrow> (nat \<Rightarrow> int) \<Rightarrow> (nat \<Rightarrow> int) \<Rightarrow> heap \<Rightarrow> (int \<times> u32 Vector \<times> heap) option" where
  "cht_fill_cht cht cht_height backend_capacity raw_permutations raw_next h =
     (let bytes = size_t (4 * sint (cht_height * backend_capacity)) in
      case malloc bytes h of
        (None, h) \<Rightarrow> Some (0, cht, h)
      | (Some p, h) \<Rightarrow> do {
          permutations \<leftarrow> cht_permut_loop cht_height backend_capacity (map raw_permutations [0..<bytes div 4]) 0;
          let bytes = size_t (4 * sint cht_height);
          case malloc bytes h of
            (None, h) \<Rightarrow> do {
              h \<leftarrow> free p h;
              Some (0, cht, h)
            }
          | (Some n, h) \<Rightarrow> do {
              next \<leftarrow> cht_next_loop cht_height (map raw_next [0..<bytes div 4]) 0;
              (next, cht) \<leftarrow> cht_fill_loop cht_height backend_capacity permutations next cht 0;
              h \<leftarrow> free n h;
              h \<leftarrow> free p h;
              Some (1, cht, h)
            }
        })"

function cht_find_loop ::
  "u64 \<Rightarrow> u32 Vector \<Rightarrow> DoubleChain \<Rightarrow> u32 \<Rightarrow> int \<Rightarrow> u32 \<Rightarrow> (int \<times> int) option" where
  "cht_find_loop start cht active_backends backend_capacity chosen_backend i =
     (if i < backend_capacity then do {
        let candidate_idx = start * ucast backend_capacity + ucast i;
        candidate \<leftarrow> vector_borrow cht (sint (ucast candidate_idx :: u32));
        let backend = sint (v_data cht ! candidate);
        allocated \<leftarrow> dchain_is_index_allocated active_backends backend;
        if allocated \<noteq> 0 then Some (1, backend)
        else cht_find_loop start cht active_backends backend_capacity chosen_backend (i + 1)
      } else Some (0, chosen_backend))"
  by pat_completeness auto
termination
  by (relation "measure (\<lambda>(_, _, _, n, _, i). unat n - unat i)")
    (auto simp: unat_Suc_less word_less_nat_alt intro!: diff_less_mono2)

declare cht_find_loop.simps [simp del]

definition cht_find_preferred_available_backend ::
  "u64 \<Rightarrow> u32 Vector \<Rightarrow> DoubleChain \<Rightarrow> u32 \<Rightarrow> u32 \<Rightarrow> int \<Rightarrow> (int \<times> int) option" where
  "cht_find_preferred_available_backend hash cht active_backends cht_height backend_capacity chosen_backend = do {
     start \<leftarrow> cht_loop hash (ucast cht_height);
     cht_find_loop start cht active_backends backend_capacity chosen_backend 0
   }"

section \<open>The abstract functions\<close>

definition MAX_CHT_HEIGHT :: int where
  "MAX_CHT_HEIGHT = 40000"

definition chunk :: "'a list \<Rightarrow> int \<Rightarrow> int \<Rightarrow> 'a list" where
  "chunk xs b e = take (nat (e - b)) (drop (nat b) xs)"

fun index_of_fp :: "'a list \<Rightarrow> int \<Rightarrow> ('a \<Rightarrow> bool) \<Rightarrow> int option" where
  "index_of_fp [] idx fp = None"
| "index_of_fp (x0 # xs0) idx fp = (if fp x0 then Some idx else index_of_fp xs0 (idx + 1) fp)"

fun split_fp :: "'a list \<Rightarrow> nat \<Rightarrow> int \<Rightarrow> 'a list list" where
  "split_fp xs 0 n = []"
| "split_fp xs (Suc k) n = take (nat n) xs # split_fp (drop (nat n) xs) k n"

definition is_permutation :: "int list \<Rightarrow> bool" where
  "is_permutation xs \<longleftrightarrow> list_all (\<lambda>x. x < int (length xs)) xs \<and> list_all (\<lambda>x. 0 \<le> x) xs \<and> distinct xs"

definition valid_cht :: "int list \<Rightarrow> int \<Rightarrow> int \<Rightarrow> bool" where
  "valid_cht values backend_capacity cht_height \<longleftrightarrow>
     cht_height * backend_capacity = int (length values) \<and>
     0 < cht_height \<and> cht_height < MAX_CHT_HEIGHT \<and>
     MAX_CHT_HEIGHT * backend_capacity < 2 ^ 31 - 1 \<and>
     4 * MAX_CHT_HEIGHT * (backend_capacity + 1) < 2 ^ 31 - 1 \<and>
     0 < backend_capacity \<and> backend_capacity < 2 ^ 31 - 1 \<and>
     list_all is_permutation (split_fp values (nat cht_height) backend_capacity)"

definition cht_row :: "int \<Rightarrow> int list \<Rightarrow> dchain \<Rightarrow> int" where
  "cht_row hash cht ch = hash mod (int (length cht) div dchain_index_range_fp ch)"

definition cht_exists :: "int \<Rightarrow> int list \<Rightarrow> dchain \<Rightarrow> bool" where
  "cht_exists hash cht ch \<longleftrightarrow>
     list_ex (dchain_allocated_fp ch)
       (chunk cht (cht_row hash cht ch * dchain_index_range_fp ch) ((cht_row hash cht ch + 1) * dchain_index_range_fp ch))"

definition cht_choose :: "int \<Rightarrow> int list \<Rightarrow> dchain \<Rightarrow> int" where
  "cht_choose hash cht ch =
     cht ! nat (cht_row hash cht ch * dchain_index_range_fp ch +
       the (index_of_fp
         (chunk cht (cht_row hash cht ch * dchain_index_range_fp ch) ((cht_row hash cht ch + 1) * dchain_index_range_fp ch))
         0 (dchain_allocated_fp ch)))"

text \<open>The values of the table as the abstract functions see them.\<close>

definition cht_values :: "u32 Vector \<Rightarrow> int list" where
  "cht_values cht = map uint (v_data cht)"

text \<open>Prime numbers, \<open>proof/prime.gh\<close>.\<close>

definition divide_fp :: "int \<Rightarrow> int \<Rightarrow> bool" where
  "divide_fp x divisor \<longleftrightarrow> x div divisor * divisor = x"

fun no_divisors_upto :: "int \<Rightarrow> nat \<Rightarrow> bool" where
  "no_divisors_upto x 0 = True"
| "no_divisors_upto x (Suc n) = (if n = 0 then True else \<not> divide_fp x (int (Suc n)) \<and> no_divisors_upto x n)"

fun is_prime_div :: "int \<Rightarrow> nat \<Rightarrow> bool" where
  "is_prime_div x 0 = False"
| "is_prime_div x (Suc n) = (if n = 0 then False else divide_fp x (int (Suc n)) \<and> no_divisors_upto x n)"

definition is_prime :: "int \<Rightarrow> bool" where
  "is_prime x = is_prime_div x (nat x)"

fun no_codivisors_upto :: "int \<Rightarrow> int \<Rightarrow> nat \<Rightarrow> bool" where
  "no_codivisors_upto x y 0 = True"
| "no_codivisors_upto x y (Suc n) =
     (if n = 0 then True
      else \<not> (divide_fp x (int (Suc n)) \<and> divide_fp y (int (Suc n))) \<and> no_codivisors_upto x y n)"

fun are_coprime_div :: "int \<Rightarrow> int \<Rightarrow> nat \<Rightarrow> bool" where
  "are_coprime_div x y 0 = False"
| "are_coprime_div x y (Suc n) =
     (if n = 0 then False else if n = 1 then False
      else (divide_fp x (int (Suc n)) \<and> divide_fp y (int (Suc n))) \<and> no_codivisors_upto x y n)"

definition are_coprime :: "int \<Rightarrow> int \<Rightarrow> bool" where
  "are_coprime x y = are_coprime_div x y (nat (min x y))"

section \<open>Affine maps modulo a prime\<close>

lemma divide_fp_dvd: "divide_fp x d \<longleftrightarrow> d dvd x"
  by (simp add: divide_fp_def dvd_div_mult_self mult.commute) (metis dvd_mult_div_cancel dvd_triv_left mult.commute)

lemma no_divisors_upto_iff: "no_divisors_upto x n \<longleftrightarrow> (\<forall>d. 1 < d \<and> d \<le> n \<longrightarrow> \<not> int d dvd x)"
proof (induction n)
  case (Suc n)
  have "(\<forall>d. 1 < d \<and> d \<le> Suc n \<longrightarrow> P d) \<longleftrightarrow> (0 < n \<longrightarrow> P (Suc n)) \<and> (\<forall>d. 1 < d \<and> d \<le> n \<longrightarrow> P d)" for P :: "nat \<Rightarrow> bool"
    by (auto simp: le_Suc_eq)
  with Suc show ?case by (auto simp: divide_fp_dvd)
qed simp

lemma is_prime_iff: "is_prime x \<longleftrightarrow> 1 < x \<and> (\<forall>d. 1 < d \<and> int d < x \<longrightarrow> \<not> int d dvd x)"
proof (cases "nat x")
  case 0
  then show ?thesis by (simp add: is_prime_def)
next
  case (Suc n)
  then have x: "x = int (Suc n)" by simp
  have "is_prime x \<longleftrightarrow> 0 < n \<and> no_divisors_upto x n" using Suc x by (simp add: is_prime_def divide_fp_dvd)
  then show ?thesis by (auto simp: no_divisors_upto_iff x)
qed

text \<open>
  The assumption \<open>prime_is_coprime_with_anything\<close> of \<open>prime.gh\<close> is false for the
  function it is stated for: \<open>are_coprime\<close> asks for a common divisor where it should
  exclude one. The proofs below do not use it.
\<close>

lemma prime_is_coprime_with_anything_false: "is_prime 7 \<and> 0 < (3 :: int) \<and> \<not> are_coprime 3 7"
  by code_simp

lemma prime_coprime:
  assumes "is_prime (int h)" "0 < s" "s < h"
  shows "coprime s h"
proof -
  let ?g = "gcd s h"
  have "?g \<le> s" using assms(2) by (intro gcd_le1_nat) simp
  moreover have "int ?g dvd int h" by (metis gcd_dvd2 of_nat_dvd_iff)
  moreover have "0 < ?g" using assms(2) by simp
  ultimately have "?g = 1" using assms(1,3) unfolding is_prime_iff by (metis One_nat_def linorder_neqE_nat less_one not_less_eq of_nat_less_iff le_less_trans less_Suc0)
  then show ?thesis by (simp add: coprime_iff_gcd_eq_1)
qed

text \<open>The place of backend \<open>j\<close> in its \<open>i\<close>-th choice.\<close>

definition cht_bucket :: "nat \<Rightarrow> nat \<Rightarrow> nat \<Rightarrow> nat" where
  "cht_bucket h j i = (j * 31 mod h + (j mod (h - 1) + 1) * i) mod h"

lemma affine_inj:
  assumes "coprime s h" "i < h" "i' < h" "(c + s * i) mod h = (c + s * i') mod (h :: nat)"
  shows "i = i'"
proof -
  have *: "a \<le> b \<Longrightarrow> b < h \<Longrightarrow> (c + s * a) mod h = (c + s * b) mod h \<Longrightarrow> a = b" for a b
  proof -
    assume ab: "a \<le> b" "b < h" "(c + s * a) mod h = (c + s * b) mod h"
    then have "h dvd (c + s * b) - (c + s * a)" by (metis mod_eq_dvd_iff_nat add_left_mono mult_le_mono2)
    then have "h dvd s * (b - a)" by (simp add: diff_mult_distrib2)
    then have "h dvd b - a" using assms(1) by (simp add: coprime_commute coprime_dvd_mult_right_iff)
    then show "a = b" using ab(1,2) by (auto dest: dvd_imp_le)
  qed
  show ?thesis using *[of i i'] *[of i' i] assms by (metis nat_le_linear)
qed

lemma cht_bucket_less: "0 < h \<Longrightarrow> cht_bucket h j i < h"
  by (simp add: cht_bucket_def)

lemma cht_bucket_inj:
  assumes "is_prime (int h)" "i < h" "i' < h" "cht_bucket h j i = cht_bucket h j i'"
  shows "i = i'"
proof -
  have h: "1 < h" using assms(1) by (simp add: is_prime_iff)
  have "j mod (h - 1) + 1 < h" using h mod_less_divisor [of "h - 1" j] by linarith
  then have "coprime (j mod (h - 1) + 1) h" using prime_coprime [OF assms(1)] by simp
  then show ?thesis using affine_inj assms(2-4) unfolding cht_bucket_def by blast
qed

lemma cht_bucket_surj:
  assumes "is_prime (int h)" "b < h"
  shows "\<exists>i < h. cht_bucket h j i = b"
proof -
  have h: "0 < h" using assms(2) by simp
  have "inj_on (cht_bucket h j) {0..<h}" using cht_bucket_inj [OF assms(1)] by (auto intro: inj_onI)
  moreover have "cht_bucket h j ` {0..<h} \<subseteq> {0..<h}" using cht_bucket_less [OF h] by auto
  ultimately have "cht_bucket h j ` {0..<h} = {0..<h}" by (simp add: endo_inj_surj)
  then show ?thesis using assms(2) by (metis atLeastLessThan_iff imageE zero_le)
qed

section \<open>Filling the table\<close>

text \<open>Words that stand for small numbers.\<close>

named_theorems small_words "words of small numbers"

lemma small_u32 [small_words]:
  "a < 2 ^ 32 \<Longrightarrow> b < 2 ^ 32 \<Longrightarrow> (of_nat a :: u32) < of_nat b \<longleftrightarrow> a < b"
  "a < 2 ^ 32 \<Longrightarrow> uint (of_nat a :: u32) = int a"
  "a < 2 ^ 31 \<Longrightarrow> sint (of_nat a :: u32) = int a"
  "a < 2 ^ 32 \<Longrightarrow> (ucast (of_nat a :: u32) :: u64) = of_nat a"
proof -
  show "a < 2 ^ 32 \<Longrightarrow> b < 2 ^ 32 \<Longrightarrow> (of_nat a :: u32) < of_nat b \<longleftrightarrow> a < b"
    by (simp add: word_less_nat_alt unat_of_nat)
  show u: "a < 2 ^ 32 \<Longrightarrow> uint (of_nat a :: u32) = int a" by (simp add: uint_eq_int_unat unat_of_nat)
  show "a < 2 ^ 31 \<Longrightarrow> sint (of_nat a :: u32) = int a" by (subst sint_eq_unat_small) (simp_all add: unat_of_nat)
  show "a < 2 ^ 32 \<Longrightarrow> (ucast (of_nat a :: u32) :: u64) = of_nat a"
    by (simp add: unsigned_of_nat take_bit_nat_eq_self)
qed

lemma small_u64 [small_words]:
  "a < 2 ^ 31 \<Longrightarrow> sint (ucast (of_nat a :: u64) :: u32) = int a"
  "a < 2 ^ 64 \<Longrightarrow> 0 < h \<Longrightarrow> h < 2 ^ 32 \<Longrightarrow> cht_loop (of_nat a) (of_nat h) = Some (of_nat (a mod h))"
proof -
  show "a < 2 ^ 31 \<Longrightarrow> sint (ucast (of_nat a :: u64) :: u32) = int a"
    by (simp add: unsigned_of_nat take_bit_nat_eq_self small_u32(3))
  assume a: "a < 2 ^ 64" "0 < h" "h < 2 ^ 32"
  then have u: "unat (of_nat a :: u64) = a" "unat (of_nat h :: u64) = h" by (simp_all add: unat_of_nat)
  have "(of_nat h :: u64) \<noteq> 0" using u(2) a(2) by (metis unat_0 less_irrefl)
  moreover have "(of_nat a :: u64) mod of_nat h = of_nat (a mod h)"
    using a by (intro word_unat_eq_iff [THEN iffD2]) (simp add: unat_mod u unat_of_nat le_less_trans [OF mod_less_eq_dividend])
  ultimately show "cht_loop (of_nat a) (of_nat h) = Some (of_nat (a mod h))" by (simp add: cht_loop_def)
qed

text \<open>The sizes for which the table is specified.\<close>

definition cht_size_ok :: "nat \<Rightarrow> nat \<Rightarrow> bool" where
  "cht_size_ok h b \<longleftrightarrow> is_prime (int h) \<and> int h < MAX_CHT_HEIGHT \<and> 0 < b \<and> b < h \<and>
     4 * MAX_CHT_HEIGHT * (int b + 1) < 2 ^ 31 - 1"

lemma cht_sizeD:
  assumes "cht_size_ok h b"
  shows "1 < h" "h < 40000" "0 < b" "b < h" "b < 13421" "h * b < 2 ^ 30"
proof -
  show "1 < h" "h < 40000" "0 < b" "b < h" "b < 13421"
    using assms by (auto simp: cht_size_ok_def MAX_CHT_HEIGHT_def is_prime_iff)
  then have "h * b \<le> 40000 * 13421" by (intro mult_mono) auto
  then show "h * b < 2 ^ 30" by simp
qed

lemma cht_cell_less: "j < b \<Longrightarrow> i < h \<Longrightarrow> j * h + i < h * (b :: nat)"
proof -
  assume "j < b" "i < h"
  then have "j * h + i < Suc j * h" by simp
  also have "\<dots> \<le> b * h" using \<open>j < b\<close> by (intro mult_le_mono1) simp
  finally show ?thesis by (simp add: mult.commute)
qed

lemma cht_permut_row_run:
  assumes size: "cht_size_ok h b" and i: "i < b" and c: "c < h" and s: "s < h"
  shows "length p = h * b \<Longrightarrow> j \<le> h \<Longrightarrow>
     \<exists>p'. cht_permut_row (of_nat c) (of_nat s) (of_nat h) (of_nat i) p (of_nat j) = Some p' \<and> length p' = h * b \<and>
       (\<forall>k < h * b. p' ! k = (if i * h + j \<le> k \<and> k < i * h + h then int ((c + s * (k - i * h)) mod h) else p ! k))"
proof (induction "h - j" arbitrary: j p)
  case 0
  then show ?case
    using cht_sizeD [OF size] by (auto simp: cht_permut_row.simps [of _ _ _ _ _ "of_nat j"] small_words)
next
  case (Suc n)
  let ?p = "p[i * h + j := int ((c + s * j) mod h)]"
  have n: "n = h - Suc j" using Suc(2) by simp
  have b: "h < 2 ^ 32" "j < 2 ^ 32" "j < h" using Suc cht_sizeD [OF size] by auto
  have "s * j \<le> 40000 * 40000" using s b(3) cht_sizeD(2) [OF size] by (intro mult_mono) auto
  then have "c + s * j < 2 ^ 64" using c cht_sizeD(2) [OF size] by simp
  then have loop: "cht_loop (of_nat c + of_nat s * of_nat j) (of_nat h) = Some (of_nat ((c + s * j) mod h))"
    using small_u64(2) [of "c + s * j" h] b(3) cht_sizeD(2) [OF size] by simp
  have m: "(c + s * j) mod h < 2 ^ 31"
    using b(3) cht_sizeD(2) [OF size] by (intro mod_less_bound) auto
  have k: "i * h + j < h * b" using cht_cell_less i b(3) by blast
  have "uint (of_nat i * of_nat h + of_nat j :: u32) = int (i * h + j)"
    using small_u32(2) [of "i * h + j"] k cht_sizeD(6) [OF size] by simp
  then have set: "arr_set p (uint (of_nat i * of_nat h + of_nat j :: u32)) x = Some (p[i * h + j := x])" for x
    using k Suc.prems(1) arr_set_nth by metis
  have "cht_permut_row (of_nat c) (of_nat s) (of_nat h) (of_nat i) p (of_nat j) =
      cht_permut_row (of_nat c) (of_nat s) (of_nat h) (of_nat i) ?p (of_nat (Suc j))"
    using b loop small_u64(1) [OF m]
    by (simp add: cht_permut_row.simps [of _ _ _ _ _ "of_nat j"] small_words set add.commute [of 1])
  moreover obtain p' where "cht_permut_row (of_nat c) (of_nat s) (of_nat h) (of_nat i) ?p (of_nat (Suc j)) = Some p'"
    "length p' = h * b"
    "\<forall>k < h * b. p' ! k = (if i * h + Suc j \<le> k \<and> k < i * h + h then int ((c + s * (k - i * h)) mod h) else ?p ! k)"
    using Suc(1) [of "Suc j" ?p, OF n] Suc.prems(1) b(3) by (metis Suc_leI length_list_update)
  moreover have "(if i * h + Suc j \<le> k \<and> k < i * h + h then int ((c + s * (k - i * h)) mod h) else ?p ! k) =
      (if i * h + j \<le> k \<and> k < i * h + h then int ((c + s * (k - i * h)) mod h) else p ! k)" for k
    using b(3) k Suc.prems(1) by (auto simp: nth_list_update)
  ultimately show ?case by auto
qed

text \<open>The whole table of the permutations.\<close>

lemma cht_permut_row_cells:
  assumes "\<forall>k < h * b. p' ! k = (if i * h + 0 \<le> k \<and> k < i * h + h then f (k - i * h) else p ! k)"
    "j < b" "x < (h :: nat)"
  shows "p' ! (j * h + x) = (if j = i then f x else p ! (j * h + x))"
proof -
  have "j = i" if "i * h \<le> j * h + x" "j * h + x < i * h + h"
  proof -
    have "(j * h + x) div h = j" "0 < h" using assms(3) by auto
    moreover have "(j * h + x) div h = i" using that by (intro div_nat_eqI) (auto simp: mult.commute)
    ultimately show ?thesis by simp
  qed
  then show ?thesis using assms(1) cht_cell_less [OF assms(2,3)] assms(3) by auto
qed

lemma cht_permut_loop_run:
  assumes size: "cht_size_ok h b"
  shows "length p = h * b \<Longrightarrow> i \<le> b \<Longrightarrow>
     \<exists>p'. cht_permut_loop (of_nat h) (of_nat b) p (of_nat i) = Some p' \<and> length p' = h * b \<and>
       (\<forall>j < b. \<forall>x < h. p' ! (j * h + x) = (if i \<le> j then int (cht_bucket h j x) else p ! (j * h + x)))"
proof (induction "b - i" arbitrary: i p)
  case 0
  then show ?case
    using cht_sizeD [OF size] by (auto simp: cht_permut_loop.simps [of _ _ _ "of_nat i"] small_words)
next
  case (Suc n)
  note sz = cht_sizeD [OF size]
  have n: "n = b - Suc i" and i: "i < b" using Suc(2) by simp_all
  let ?c = "i * 31 mod h" and ?s = "i mod (h - 1) + 1"
  have c: "?c < h" "?s < h" using sz(1) mod_less_divisor [of "h - 1" i] by (simp, linarith)
  obtain p1 where p1: "cht_permut_row (of_nat ?c) (of_nat ?s) (of_nat h) (of_nat i) p (of_nat 0) = Some p1" "length p1 = h * b"
    "\<forall>k < h * b. p1 ! k = (if i * h + 0 \<le> k \<and> k < i * h + h then int ((?c + ?s * (k - i * h)) mod h) else p ! k)"
    using cht_permut_row_run [OF size i c Suc.prems(1), of 0] by blast
  have lim: "i * 31 < 2 ^ 32" "h < 2 ^ 32" "b < 2 ^ 32" "i < 2 ^ 32" "h - 1 < 2 ^ 32" "0 < h - 1" using sz i by auto
  have l1: "cht_loop (ucast (of_nat i * 31 :: u32)) (ucast (of_nat h :: u32)) = Some (of_nat ?c)"
    using small_u32(4) [OF lim(1)] small_u32(4) [OF lim(2)] small_u64(2) [of "i * 31" h] lim(1,2) sz(1) by simp
  have "(of_nat h - 1 :: u32) = of_nat (h - 1)" using sz(1) by (simp add: of_nat_diff)
  then have l2: "cht_loop (ucast (of_nat i :: u32)) (ucast (of_nat h - 1 :: u32)) = Some (of_nat (i mod (h - 1)))"
    using small_u32(4) [OF lim(4)] small_u32(4) [OF lim(5)] small_u64(2) [of i "h - 1"] lim by simp
  have "cht_permut_loop (of_nat h) (of_nat b) p (of_nat i) = cht_permut_loop (of_nat h) (of_nat b) p1 (of_nat (Suc i))"
    using i lim p1(1)
    by (simp add: cht_permut_loop.simps [of _ _ _ "of_nat i"] small_u32(1) l1 l2 Let_def add.commute [of 1])
  moreover obtain p' where "cht_permut_loop (of_nat h) (of_nat b) p1 (of_nat (Suc i)) = Some p'" "length p' = h * b"
    "\<forall>j < b. \<forall>x < h. p' ! (j * h + x) = (if Suc i \<le> j then int (cht_bucket h j x) else p1 ! (j * h + x))"
    using Suc(1) [OF n p1(2)] i by (metis Suc_leI)
  moreover have "(if Suc i \<le> j then int (cht_bucket h j x) else p1 ! (j * h + x)) =
      (if i \<le> j then int (cht_bucket h j x) else p ! (j * h + x))" if "j < b" "x < h" for j x
    using cht_permut_row_cells [OF p1(3) that] by (cases "j = i") (auto simp: cht_bucket_def)
  ultimately show ?case by auto
qed

lemma cht_next_loop_run:
  assumes "h < 2 ^ 31" "length p = h"
  shows "i \<le> h \<Longrightarrow> cht_next_loop (of_nat h) p (of_nat i) = Some (take i p @ replicate (h - i) 0)"
  using assms(2)
proof (induction "h - i" arbitrary: i p)
  case 0
  then show ?case using assms(1) by (simp add: cht_next_loop.simps [of _ _ "of_nat i"] small_words)
next
  case (Suc n)
  then have i: "i < h" "n = h - Suc i" by simp_all
  have "cht_next_loop (of_nat h) p (of_nat i) = cht_next_loop (of_nat h) (p[i := 0]) (of_nat (Suc i))"
    using i assms(1) Suc.prems(2)
    by (simp add: cht_next_loop.simps [of _ _ "of_nat i"] small_words arr_set_nth add.commute [of 1])
  also have "\<dots> = Some (take (Suc i) (p[i := 0]) @ replicate (h - Suc i) 0)"
    using Suc(1) [OF i(2)] i(1) Suc.prems(2) by simp
  finally show ?case
    using i Suc(2) Suc.prems(2) by (simp add: take_Suc_conv_app_nth replicate_append_same [symmetric] flip: Suc(2))
qed

text \<open>
  The pairs of a choice and a backend are visited in order; \<open>cht_hits h bk ps\<close> are the
  backends that fell into the list of \<open>bk\<close> among the pairs \<open>ps\<close>.
\<close>

definition cht_hits :: "nat \<Rightarrow> nat \<Rightarrow> (nat \<times> nat) list \<Rightarrow> nat list" where
  "cht_hits h bk ps = map snd (filter (\<lambda>(i, j). cht_bucket h j i = bk) ps)"

definition cht_pairs_ok :: "nat \<Rightarrow> nat \<Rightarrow> (nat \<times> nat) list \<Rightarrow> bool" where
  "cht_pairs_ok h b ps \<longleftrightarrow> distinct ps \<and> set ps \<subseteq> {0..<h} \<times> {0..<b}"

definition cht_fill_inv :: "nat \<Rightarrow> nat \<Rightarrow> (nat \<times> nat) list \<Rightarrow> int list \<Rightarrow> u32 list \<Rightarrow> bool" where
  "cht_fill_inv h b ps next values \<longleftrightarrow>
     length next = h \<and> length values = h * b \<and> (\<forall>bk < h. next ! bk = int (length (cht_hits h bk ps))) \<and>
     (\<forall>bk < h. \<forall>k < length (cht_hits h bk ps). values ! (bk * b + k) = of_nat (cht_hits h bk ps ! k))"

lemma cht_hits_snoc: "cht_hits h bk (ps @ [(i, j)]) = cht_hits h bk ps @ (if cht_bucket h j i = bk then [j] else [])"
  by (simp add: cht_hits_def)

lemma cht_hits_distinct:
  assumes "is_prime (int h)" "cht_pairs_ok h b ps"
  shows "distinct (cht_hits h bk ps)" "set (cht_hits h bk ps) \<subseteq> {0..<b}" "length (cht_hits h bk ps) \<le> b"
proof -
  have "inj_on snd (set (filter (\<lambda>(i, j). cht_bucket h j i = bk) ps))"
  proof (rule inj_onI)
    fix x y assume x: "x \<in> set (filter (\<lambda>(i, j). cht_bucket h j i = bk) ps)"
      and y: "y \<in> set (filter (\<lambda>(i, j). cht_bucket h j i = bk) ps)" and eq: "snd x = snd y"
    then have "cht_bucket h (snd x) (fst x) = cht_bucket h (snd x) (fst y)" "fst x < h" "fst y < h"
      using assms(2) by (auto simp: cht_pairs_ok_def)
    then show "x = y" using cht_bucket_inj [OF assms(1)] eq by (simp add: prod_eq_iff)
  qed
  then show d: "distinct (cht_hits h bk ps)"
    using assms(2) by (simp add: cht_hits_def distinct_map cht_pairs_ok_def)
  show s: "set (cht_hits h bk ps) \<subseteq> {0..<b}" using assms(2) by (auto simp: cht_hits_def cht_pairs_ok_def)
  have "length (cht_hits h bk ps) = card (set (cht_hits h bk ps))" using distinct_card [OF d] by simp
  also have "\<dots> \<le> card {0..<b}" using s by (rule card_mono [rotated]) simp
  finally show "length (cht_hits h bk ps) \<le> b" by simp
qed

lemma cht_hits_room:
  assumes "is_prime (int h)" "cht_pairs_ok h b (ps @ [(i, j)])"
  shows "length (cht_hits h (cht_bucket h j i) ps) < b"
  using cht_hits_distinct(3) [OF assms, of "cht_bucket h j i"] by (simp add: cht_hits_snoc)

lemma cht_cell_eq: "k < b \<Longrightarrow> k' < b \<Longrightarrow> bk * b + k = bk' * b + k' \<longleftrightarrow> bk = bk' \<and> k = (k' :: nat)"
  by (metis div_mult_self3 div_less add_0 add.commute less_nat_zero_code add_left_cancel)

lemma cht_fill_inv_step:
  assumes inv: "cht_fill_inv h b ps next values" and prime: "is_prime (int h)" and ok: "cht_pairs_ok h b (ps @ [(i, j)])"
    and bk: "bk = cht_bucket h j i" and k: "k = length (cht_hits h bk ps)"
  shows "cht_fill_inv h b (ps @ [(i, j)]) (next[bk := int k + 1]) (values[bk * b + k := of_nat j])"
proof -
  have "cht_pairs_ok h b ps" using ok by (simp add: cht_pairs_ok_def)
  note le = cht_hits_distinct(3) [OF prime this]
  have kb: "k < b" and h: "bk < h" using cht_hits_room [OF prime ok] cht_bucket_less [of h] ok
    by (auto simp: bk k cht_pairs_ok_def)
  have cell: "bk * b + k < h * b" using cht_cell_less [OF h kb] by (simp add: mult.commute)
  have "(values[bk * b + k := of_nat j]) ! (bk' * b + k') = of_nat (cht_hits h bk' (ps @ [(i, j)]) ! k')"
    if "bk' < h" "k' < length (cht_hits h bk' (ps @ [(i, j)]))" for bk' k'
  proof (cases "bk' = bk \<and> k' = k")
    case True
    then show ?thesis using inv cell by (simp add: cht_fill_inv_def cht_hits_snoc bk [symmetric] k)
  next
    case False
    then have k': "k' < length (cht_hits h bk' ps)"
      using that(2) by (auto simp: cht_hits_snoc bk [symmetric] k split: if_splits)
    then have "bk' * b + k' \<noteq> bk * b + k" using False cht_cell_eq [OF kb, of k' bk bk'] le [of bk'] by auto
    then show ?thesis using inv that(1) k' by (simp add: cht_fill_inv_def cht_hits_snoc nth_append)
  qed
  then show ?thesis using inv h by (auto simp: cht_fill_inv_def cht_hits_snoc bk [symmetric] k nth_list_update)
qed

definition cht_perms :: "nat \<Rightarrow> nat \<Rightarrow> int list \<Rightarrow> bool" where
  "cht_perms h b p \<longleftrightarrow> length p = h * b \<and> (\<forall>j < b. \<forall>x < h. p ! (j * h + x) = int (cht_bucket h j x))"

text \<open>One step of the innermost loop.\<close>

lemma cht_fill_row_step:
  assumes size: "cht_size_ok h b" and perms: "cht_perms h b p" and inv: "cht_fill_inv h b ps next (v_data cht)"
    and wf: "vector_wf cht" and ok: "cht_pairs_ok h b (ps @ [(i, j)])"
  shows "\<exists>next' cht'. cht_fill_row (of_nat h) (of_nat b) p (of_nat i) next cht (of_nat j) =
       cht_fill_row (of_nat h) (of_nat b) p (of_nat i) next' cht' (of_nat (Suc j)) \<and>
     cht_fill_inv h b (ps @ [(i, j)]) next' (v_data cht') \<and> vector_wf cht'"
proof -
  note sz = cht_sizeD [OF size]
  have prime: "is_prime (int h)" using size by (simp add: cht_size_ok_def)
  define bk where "bk = cht_bucket h j i"
  define k where "k = length (cht_hits h bk ps)"
  have ij: "i < h" "j < b" using ok by (auto simp: cht_pairs_ok_def)
  have kb: "k < b" "bk < h" using cht_hits_room [OF prime ok] cht_bucket_less ij(1) by (auto simp: bk_def k_def)
  have cells: "j * h + i < h * b" "bk * b + k < h * b"
    using cht_cell_less [OF ij(2,1)] cht_cell_less [OF kb(2,1)] by (simp_all add: mult.commute)
  have "uint (of_nat j * of_nat h + of_nat i :: u32) = int (j * h + i)"
    using small_u32(2) [of "j * h + i"] cells(1) sz(6) by simp
  then have get: "arr_get p (uint (of_nat j * of_nat h + of_nat i :: u32)) = Some (int bk)"
    using arr_get_nth [of "j * h + i" p] perms cells(1) ij by (simp add: cht_perms_def bk_def)
  have nxt: "arr_get next (int bk) = Some (int k)" "arr_set next (int bk) x = Some (next[bk := x])" for x
    using inv kb(2) by (simp_all add: cht_fill_inv_def arr_get_nth arr_set_nth k_def)
  have pos: "sint (of_nat b * of_nat bk + of_nat k :: u32) = int (bk * b + k)"
    using small_u32(3) [of "bk * b + k"] cells(2) sz(6) by (simp add: mult.commute)
  have borrow: "vector_borrow cht (int (bk * b + k)) = Some (bk * b + k)"
    using vector_borrow_spec [OF wf, of "int (bk * b + k)"] inv cells(2)
    by (simp add: cht_fill_inv_def flip: of_nat_add of_nat_mult)
  let ?next = "next[bk := int k + 1]" and ?cht = "vector_write cht (bk * b + k) (of_nat j)"
  have "s32 (int k + 1) = Some (int k + 1)" using kb(1) sz(5) by (intro s32_in_range) auto
  then have "cht_fill_row (of_nat h) (of_nat b) p (of_nat i) next cht (of_nat j) =
      cht_fill_row (of_nat h) (of_nat b) p (of_nat i) ?next ?cht (of_nat (Suc j))"
    using ij sz get nxt pos borrow
    by (simp add: cht_fill_row.simps [of _ _ _ _ _ _ "of_nat j"] small_u32(1) Let_def vector_return_def
        add.commute [of 1] del: of_nat_add of_nat_mult)
  moreover have "cht_fill_inv h b (ps @ [(i, j)]) ?next (v_data ?cht)"
    using cht_fill_inv_step [OF inv prime ok bk_def k_def] by (simp add: vector_write_def)
  moreover have "vector_wf ?cht" using wf by (simp add: vector_wf_def vector_write_def)
  ultimately show ?thesis by blast
qed

lemma cht_fill_row_run:
  assumes size: "cht_size_ok h b" and perms: "cht_perms h b p" and i: "i < h"
  shows "j \<le> b \<Longrightarrow> cht_fill_inv h b (ps @ map (Pair i) [0..<j]) next (v_data cht) \<Longrightarrow> vector_wf cht \<Longrightarrow>
     cht_pairs_ok h b (ps @ map (Pair i) [0..<b]) \<Longrightarrow>
     \<exists>next' cht'. cht_fill_row (of_nat h) (of_nat b) p (of_nat i) next cht (of_nat j) = Some (next', cht') \<and>
       cht_fill_inv h b (ps @ map (Pair i) [0..<b]) next' (v_data cht') \<and> vector_wf cht'"
proof (induction "b - j" arbitrary: j "next" cht)
  case 0
  then show ?case
    using cht_sizeD [OF size] by (auto simp: cht_fill_row.simps [of _ _ _ _ _ _ "of_nat j"] small_words)
next
  case (Suc n)
  have n: "n = b - Suc j" "Suc j \<le> b" using Suc(2) by simp_all
  have split: "ps @ map (Pair i) [0..<Suc j] = (ps @ map (Pair i) [0..<j]) @ [(i, j)]" by simp
  have "[0..<b] = [0..<Suc j] @ [Suc j..<b]" using upt_add_eq_append [of 0 "Suc j" "b - Suc j"] n(2) by simp
  then have "cht_pairs_ok h b (ps @ map (Pair i) [0..<Suc j])"
    using Suc.prems(4) by (auto simp: cht_pairs_ok_def simp del: upt_Suc)
  then obtain next' cht' where "cht_fill_row (of_nat h) (of_nat b) p (of_nat i) next cht (of_nat j) =
       cht_fill_row (of_nat h) (of_nat b) p (of_nat i) next' cht' (of_nat (Suc j))"
     "cht_fill_inv h b (ps @ map (Pair i) [0..<Suc j]) next' (v_data cht')" "vector_wf cht'"
    using cht_fill_row_step [OF size perms Suc.prems(2,3)] unfolding split by blast
  then show ?case using Suc(1) [OF n(1,2)] Suc.prems(4) by metis
qed

lemma cht_fill_loop_run:
  assumes size: "cht_size_ok h b" and perms: "cht_perms h b p"
  shows "i \<le> h \<Longrightarrow> cht_fill_inv h b (List.product [0..<i] [0..<b]) next (v_data cht) \<Longrightarrow> vector_wf cht \<Longrightarrow>
     \<exists>next' cht'. cht_fill_loop (of_nat h) (of_nat b) p next cht (of_nat i) = Some (next', cht') \<and>
       cht_fill_inv h b (List.product [0..<h] [0..<b]) next' (v_data cht') \<and> vector_wf cht'"
proof (induction "h - i" arbitrary: i "next" cht)
  case 0
  then show ?case
    using cht_sizeD [OF size] by (auto simp: cht_fill_loop.simps [of _ _ _ _ _ "of_nat i"] small_words)
next
  case (Suc n)
  have n: "n = h - Suc i" "Suc i \<le> h" "i < h" using Suc(2) by simp_all
  have split: "List.product [0..<Suc i] [0..<b] = List.product [0..<i] [0..<b] @ map (Pair i) [0..<b]"
    by (simp add: product_concat_map)
  have "cht_pairs_ok h b (List.product [0..<Suc i] [0..<b])"
    using n(3) by (auto simp: cht_pairs_ok_def distinct_product simp del: upt_Suc)
  then obtain next' cht' where row: "cht_fill_row (of_nat h) (of_nat b) p (of_nat i) next cht (of_nat 0) = Some (next', cht')"
    "cht_fill_inv h b (List.product [0..<Suc i] [0..<b]) next' (v_data cht')" "vector_wf cht'"
    using cht_fill_row_run [OF size perms n(3), of 0 "List.product [0..<i] [0..<b]" "next" cht] Suc.prems(2,3)
    unfolding split by auto
  have "cht_fill_loop (of_nat h) (of_nat b) p next cht (of_nat i) =
      cht_fill_loop (of_nat h) (of_nat b) p next' cht' (of_nat (Suc i))"
    using row(1) n(3) cht_sizeD(2) [OF size]
    by (simp add: cht_fill_loop.simps [of _ _ _ _ _ "of_nat i"] small_u32(1) add.commute [of 1])
  then show ?case using Suc(1) [OF n(1,2) row(2,3)] by simp
qed

lemma split_fp_rows:
  "length xs = k * n \<Longrightarrow> split_fp xs k (int n) = map (\<lambda>r. take n (drop (r * n) xs)) [0..<k]"
proof (induction k arbitrary: xs)
  case (Suc k)
  have "split_fp (drop n xs) k (int n) = map (\<lambda>r. take n (drop (r * n) (drop n xs))) [0..<k]"
    using Suc.prems by (intro Suc.IH) simp
  also have "\<dots> = map (\<lambda>r. take n (drop (r * n) xs)) (map Suc [0..<k])" by (simp add: add.commute)
  finally show ?case by (simp add: map_Suc_upt upt_conv_Cons del: upt_Suc map_map)
qed simp

text \<open>The list of a bucket, when all the pairs have been visited.\<close>

lemma cht_hits_all:
  assumes "is_prime (int h)" "bk < h"
  shows "length (cht_hits h bk (List.product [0..<h] [0..<b])) = b"
    "is_permutation (map int (cht_hits h bk (List.product [0..<h] [0..<b])))"
proof -
  let ?xs = "cht_hits h bk (List.product [0..<h] [0..<b])"
  have "cht_pairs_ok h b (List.product [0..<h] [0..<b])" by (auto simp: cht_pairs_ok_def distinct_product)
  note d = cht_hits_distinct(1,2) [OF assms(1) this, of bk]
  have "j \<in> set ?xs" if "j < b" for j
    using cht_bucket_surj [OF assms, of j] that by (force simp: cht_hits_def)
  then have "set ?xs = {0..<b}" using d(2) by auto
  then show len: "length ?xs = b" using distinct_card [OF d(1)] by simp
  show "is_permutation (map int ?xs)"
    using d by (auto simp: is_permutation_def list_all_iff distinct_map len subset_iff)
qed

lemma cht_fill_inv_valid:
  assumes size: "cht_size_ok h b" and inv: "cht_fill_inv h b (List.product [0..<h] [0..<b]) next values"
  shows "valid_cht (map uint values) (int b) (int h)"
proof -
  note sz = cht_sizeD [OF size]
  have prime: "is_prime (int h)" using size by (simp add: cht_size_ok_def)
  have len: "length values = h * b" using inv by (simp add: cht_fill_inv_def)
  have row: "is_permutation (take b (drop (r * b) (map uint values)))" if r: "r < h" for r
  proof -
    let ?xs = "cht_hits h r (List.product [0..<h] [0..<b])"
    note all = cht_hits_all [OF prime r, of b]
    have fit: "r * b + b \<le> h * b" using r by (metis Suc_leI add.commute mult_Suc mult_le_mono1)
    have "take b (drop (r * b) (map uint values)) = map int ?xs"
    proof (rule nth_equalityI)
      fix k assume "k < length (take b (drop (r * b) (map uint values)))"
      then have k: "k < b" "r * b + k < h * b" using fit len by auto
      have "?xs ! k < b" using all(2) k(1) by (auto simp: is_permutation_def list_all_length all(1))
      then have "uint (of_nat (?xs ! k) :: u32) = int (?xs ! k)" using sz(5) by (intro small_u32(2)) simp
      then show "take b (drop (r * b) (map uint values)) ! k = map int ?xs ! k"
        using inv r k all(1) len by (simp add: cht_fill_inv_def)
    qed (use fit len all(1) in simp)
    then show ?thesis using all(2) by simp
  qed
  have "int h * int b = int (length values)" "MAX_CHT_HEIGHT * int b < 2 ^ 31 - 1" "int b < 2 ^ 31 - 1"
    using sz len by (simp_all add: MAX_CHT_HEIGHT_def)
  then show ?thesis
    using size sz row len
    by (simp add: valid_cht_def split_fp_rows list_all_iff) (simp add: cht_size_ok_def)
qed

lemma cht_fill_cht_spec:
  assumes size: "cht_size_ok h b" and wf: "vector_wf cht" and len: "length (v_data cht) = h * b" and heap: "heap_ok hp"
  shows "\<exists>r cht' hp'. cht_fill_cht cht (of_nat h) (of_nat b) raw_p raw_n hp = Some (r, cht', hp') \<and>
     live hp' = live hp \<and> heap_ok hp' \<and> vector_wf cht' \<and> length (v_data cht') = h * b \<and>
     (if r = 0 then cht' = cht else r = 1 \<and> valid_cht (cht_values cht') (int b) (int h))"
proof -
  note sz = cht_sizeD [OF size]
  have "sint (of_nat h * of_nat b :: u32) = int (h * b)" using small_u32(3) [of "h * b"] sz(6) by simp
  then have bytes: "size_t (4 * sint (of_nat h * of_nat b :: u32)) div 4 = h * b"
    "size_t (4 * sint (of_nat h :: u32)) div 4 = h"
    using sz small_u32(3) [of h] by (simp_all add: size_t_def nat_mod_distrib nat_mult_distrib del: of_nat_mult)
  obtain p where p: "cht_permut_loop (of_nat h) (of_nat b) (map raw_p [0..<h * b]) 0 = Some p" "cht_perms h b p"
    using cht_permut_loop_run [OF size, of "map raw_p [0..<h * b]" 0] by (auto simp: cht_perms_def)
  have nx: "cht_next_loop (of_nat h) (map raw_n [0..<h]) 0 = Some (replicate h 0)"
    using cht_next_loop_run [of h "map raw_n [0..<h]" 0] sz(2) by simp
  have "cht_fill_inv h b (List.product [0..<0] [0..<b]) (replicate h 0) (v_data cht)"
    using len by (simp add: cht_fill_inv_def cht_hits_def)
  then obtain next' cht' where fill: "cht_fill_loop (of_nat h) (of_nat b) p (replicate h 0) cht 0 = Some (next', cht')"
    "cht_fill_inv h b (List.product [0..<h] [0..<b]) next' (v_data cht')" "vector_wf cht'"
    using cht_fill_loop_run [OF size p(2), of 0 "replicate h 0" cht] wf by auto
  have valid: "valid_cht (cht_values cht') (int b) (int h)" "length (v_data cht') = h * b"
    using cht_fill_inv_valid [OF size fill(2)] fill(2) by (simp_all add: cht_values_def cht_fill_inv_def)
  note run = cht_fill_cht_def Let_def bytes p(1) nx fill(1)
  from heap show ?thesis
  proof (cases rule: malloc_cases [where sz = "size_t (4 * sint (of_nat h * of_nat b :: u32))"])
    case (fail h1)
    then show ?thesis using wf len by (simp add: run)
  next
    case (ok h1)
    note one = ok
    from one(4) show ?thesis
    proof (cases rule: malloc_cases [where sz = "size_t (4 * sint (of_nat h :: u32))"])
      case (fail h2)
      then show ?thesis
        using one wf len heap heap_ok_restore [OF heap, of h2] heap_ok_fresh(2) [OF heap] by (simp add: run free_def fun_upd_idem)
    next
      case (ok h2)
      then show ?thesis
        using one fill(3) valid heap heap_ok_restore [OF heap, of h2] heap_ok_fresh(1) [OF heap, of 1] heap_ok_fresh(2) [OF heap]
        by (simp add: run free_def fun_upd_idem fun_upd_twist)
    qed
  qed
qed

text \<open>
  A table of height 1, which the configuration of the load balancer accepts, makes the code
  divide by 0.
\<close>

lemma cht_fill_cht_height_one:
  assumes "malloc (size_t (4 * sint backend_capacity)) h = (Some p, h')" "0 < backend_capacity"
  shows "cht_fill_cht cht 1 backend_capacity raw_permutations raw_next h = None"
  using assms by (simp add: cht_fill_cht_def Let_def cht_permut_loop.simps [of _ _ _ 0] cht_loop_def)

section \<open>Choosing a backend\<close>

text \<open>The list of preferences of a hash.\<close>

definition cht_prefs :: "int \<Rightarrow> int list \<Rightarrow> nat \<Rightarrow> nat \<Rightarrow> int list" where
  "cht_prefs hash values h b = take b (drop (nat (hash mod int h) * b) values)"

lemma index_of_fp_Some:
  "index_of_fp xs idx f = Some r \<Longrightarrow>
     0 \<le> r - idx \<and> nat (r - idx) < length xs \<and> f (xs ! nat (r - idx)) \<and> (\<forall>k < nat (r - idx). \<not> f (xs ! k))"
proof (induction xs arbitrary: idx)
  case (Cons x xs)
  show ?case
  proof (cases "f x")
    case False
    then have IH: "0 \<le> r - (idx + 1)" "nat (r - (idx + 1)) < length xs" "f (xs ! nat (r - (idx + 1)))"
      "\<forall>k < nat (r - (idx + 1)). \<not> f (xs ! k)" using Cons by auto
    moreover have "nat (r - idx) = Suc (nat (r - (idx + 1)))" using IH(1) by linarith
    ultimately show ?thesis using False by (auto simp: nth_Cons split: nat.split)
  qed (use Cons in auto)
qed simp

lemma index_of_fp_None: "index_of_fp xs idx f = None \<longleftrightarrow> \<not> list_ex f xs"
  by (induction xs arbitrary: idx) auto

lemma valid_cht_size:
  assumes "valid_cht values (int b) (int h)"
  shows "0 < h" "0 < b" "length values = h * b" "h < 40000" "b < 13421"
proof -
  show "0 < h" "0 < b" using assms by (auto simp: valid_cht_def nat_less_iff)
  show "h < 40000" "b < 13421" using assms by (auto simp: valid_cht_def MAX_CHT_HEIGHT_def)
  have "int h * int b = int (length values)" using assms by (simp add: valid_cht_def)
  then show "length values = h * b" by (metis nat_int of_nat_mult)
qed

lemma valid_cht_row:
  assumes "valid_cht values (int b) (int h)"
  shows "length (cht_prefs hash values h b) = b" "is_permutation (cht_prefs hash values h b)"
    "nat (hash mod int h) < h"
proof -
  note sz = valid_cht_size [OF assms]
  show r: "nat (hash mod int h) < h" using sz(1) by (simp add: nat_less_iff)
  then have "nat (hash mod int h) * b + b \<le> h * b" by (metis Suc_leI add.commute mult_Suc mult_le_mono1)
  then show "length (cht_prefs hash values h b) = b" by (simp add: cht_prefs_def sz(3))
  show "is_permutation (cht_prefs hash values h b)"
    using assms r by (auto simp: valid_cht_def split_fp_rows [OF sz(3)] list_all_iff cht_prefs_def)
qed

lemma cht_abstract:
  assumes "valid_cht values (int b) (int h)" "dchain_index_range_fp ch = int b"
  shows "cht_exists hash values ch \<longleftrightarrow> list_ex (dchain_allocated_fp ch) (cht_prefs hash values h b)"
    "cht_exists hash values ch \<Longrightarrow>
       cht_choose hash values ch = cht_prefs hash values h b ! nat (the (index_of_fp (cht_prefs hash values h b) 0 (dchain_allocated_fp ch)))"
proof -
  note row = valid_cht_row [OF assms(1), of hash] valid_cht_size [OF assms(1)]
  have r: "cht_row hash values ch = hash mod int h" "0 \<le> hash mod int h"
    using row by (simp_all add: cht_row_def assms(2))
  have ch: "chunk values (hash mod int h * int b) ((hash mod int h + 1) * int b) = cht_prefs hash values h b"
    using r(2) by (simp add: chunk_def cht_prefs_def nat_mult_distrib distrib_right)
  show ex: "cht_exists hash values ch \<longleftrightarrow> list_ex (dchain_allocated_fp ch) (cht_prefs hash values h b)"
    by (simp add: cht_exists_def r assms(2) ch)
  assume "cht_exists hash values ch"
  then obtain k where k: "index_of_fp (cht_prefs hash values h b) 0 (dchain_allocated_fp ch) = Some k"
    using ex index_of_fp_None [of "cht_prefs hash values h b" 0] by fastforce
  then have b: "0 \<le> k" "nat k < b" using index_of_fp_Some [OF k] row(1) by auto
  have "nat (hash mod int h * int b + k) = nat (hash mod int h) * b + nat k"
    using r(2) b(1) by (simp add: nat_add_distrib nat_mult_distrib)
  moreover have "nat (hash mod int h) * b \<le> length values" using row(3,6) by simp
  ultimately show "cht_choose hash values ch =
      cht_prefs hash values h b ! nat (the (index_of_fp (cht_prefs hash values h b) 0 (dchain_allocated_fp ch)))"
    using b(2) by (simp add: cht_choose_def r assms(2) ch k) (simp add: cht_prefs_def)
qed

lemma cht_find_loop_run:
  assumes valid: "valid_cht (cht_values cht) (int b) (int h)" and wf: "vector_wf cht"
    and rep: "double_chainp ch chain" "dchain_index_range_fp ch = int b" and r: "r = nat (hash mod int h)"
  shows "i \<le> b \<Longrightarrow> cht_find_loop (of_nat r) cht chain (of_nat b) chosen (of_nat i) =
     Some (case index_of_fp (drop i (cht_prefs hash (cht_values cht) h b)) (int i) (dchain_allocated_fp ch) of
       Some k \<Rightarrow> (1, cht_prefs hash (cht_values cht) h b ! nat k) | None \<Rightarrow> (0, chosen))"
proof (induction "b - i" arbitrary: i)
  case 0
  then show ?case
    using valid_cht_row(1) [OF valid, of hash] valid_cht_size(5) [OF valid] by (simp add: cht_find_loop.simps [of _ _ _ _ _ "of_nat i"] small_words)
next
  case (Suc n)
  let ?prefs = "cht_prefs hash (cht_values cht) h b"
  note row = valid_cht_row [OF valid, of hash] valid_cht_size [OF valid]
  have n: "n = b - Suc i" "Suc i \<le> b" "i < b" using Suc(2) by simp_all
  have cell: "r * b + i < h * b" using cht_cell_less [OF row(3) n(3)] by (simp add: mult.commute r)
  have "h * b \<le> 40000 * 13421" using row(7,8) by (intro mult_mono) auto
  then have small: "r * b + i < 2 ^ 31" using cell by simp
  have len: "length (v_data cht) = h * b" using row(6) by (simp add: cht_values_def)
  have borrow: "vector_borrow cht (int (r * b + i)) = Some (r * b + i)"
    using vector_borrow_spec [OF wf, of "int (r * b + i)"] cell len by (simp flip: of_nat_add of_nat_mult)
  have x: "uint (v_data cht ! (r * b + i)) = ?prefs ! i"
    using cell len n(3) row(3) nth_drop [of "r * b" "map uint (v_data cht)" i]
    by (simp add: cht_prefs_def cht_values_def flip: r del: nth_drop)
  have range: "0 \<le> ?prefs ! i" "?prefs ! i < int b"
    using row(1,2) n(3) by (auto simp: is_permutation_def list_all_length)
  have "unat (v_data cht ! (r * b + i)) < 2 ^ 31"
    using range(2) row(8) unfolding x [symmetric] by (simp add: uint_eq_int_unat)
  then have s: "sint (v_data cht ! (r * b + i)) = ?prefs ! i" using sint_eq_unat_small x by (simp add: uint_eq_int_unat)
  have "sint (ucast (of_nat r * of_nat b + of_nat i :: u64) :: u32) = int (r * b + i)"
    using small_u64(1) [OF small] by simp
  then have "cht_find_loop (of_nat r) cht chain (of_nat b) chosen (of_nat i) =
      (if dchain_allocated_fp ch (?prefs ! i) then Some (1, ?prefs ! i)
       else cht_find_loop (of_nat r) cht chain (of_nat b) chosen (of_nat (Suc i)))"
    using n(3) row(8) borrow s dchain_is_index_allocated_refines [OF rep(1)] range rep(2)
    by (simp add: cht_find_loop.simps [of _ _ _ _ _ "of_nat i"] small_u32(1,4) add.commute [of 1] del: of_nat_add of_nat_mult)
  moreover have "drop i ?prefs = ?prefs ! i # drop (Suc i) ?prefs" using n(3) row(1) by (simp add: Cons_nth_drop_Suc)
  ultimately show ?case using Suc(1) [OF n(1,2)] by (simp add: add.commute)
qed

lemma cht_find_spec:
  assumes valid: "valid_cht (cht_values cht) (int b) (int h)" and wf: "vector_wf cht"
    and rep: "double_chainp ch chain" "dchain_index_range_fp ch = int b"
  shows "cht_find_preferred_available_backend hash cht chain (of_nat h) (of_nat b) chosen =
     Some (if cht_exists (uint hash) (cht_values cht) ch then (1, cht_choose (uint hash) (cht_values cht) ch)
           else (0, chosen))"
proof -
  note sz = valid_cht_size [OF valid]
  have "nat (uint hash mod int h) = unat hash mod h" by (simp add: nat_mod_distrib uint_eq_int_unat)
  moreover have "unat hash < 2 ^ 64" using uint_bounded [of hash] by (simp add: uint_eq_int_unat)
  then have "cht_loop hash (ucast (of_nat h :: u32)) = Some (of_nat (unat hash mod h))"
    using small_u64(2) [of "unat hash" h] sz(1,4) small_u32(4) [of h] by (simp add: of_nat_unat ucast_id)
  ultimately have "cht_find_preferred_available_backend hash cht chain (of_nat h) (of_nat b) chosen =
     Some (case index_of_fp (cht_prefs (uint hash) (cht_values cht) h b) 0 (dchain_allocated_fp ch) of
       Some k \<Rightarrow> (1, cht_prefs (uint hash) (cht_values cht) h b ! nat k) | None \<Rightarrow> (0, chosen))"
    using cht_find_loop_run [OF valid wf rep refl, of 0 "uint hash" chosen]
    by (simp add: cht_find_preferred_available_backend_def)
  then show ?thesis
    using cht_abstract [OF valid rep(2), of "uint hash"]
      index_of_fp_None [of "cht_prefs (uint hash) (cht_values cht) h b" 0 "dchain_allocated_fp ch"]
    by (cases "index_of_fp (cht_prefs (uint hash) (cht_values cht) h b) 0 (dchain_allocated_fp ch)") auto
qed

text \<open>Every list of preferences names every backend.\<close>

lemma is_permutation_set:
  assumes "is_permutation xs"
  shows "set xs = {0..<int (length xs)}"
proof -
  have "set xs \<subseteq> {0..<int (length xs)}" "distinct xs" using assms by (auto simp: is_permutation_def list_all_iff)
  moreover have "card (set xs) = card {0..<int (length xs)}" using distinct_card [OF \<open>distinct xs\<close>] by simp
  ultimately show ?thesis by (intro card_subset_eq) auto
qed

lemma cht_exists_iff:
  assumes "valid_cht values (int b) (int h)" "double_chainp ch chain" "dchain_index_range_fp ch = int b"
  shows "cht_exists hash values ch \<longleftrightarrow> (\<exists>x. dchain_allocated_fp ch x)"
proof -
  have "set (cht_prefs hash values h b) = {0..<int b}"
    using is_permutation_set [OF valid_cht_row(2) [OF assms(1), of hash]] valid_cht_row(1) [OF assms(1)] by simp
  moreover have "x \<in> {0..<int b}" if "dchain_allocated_fp ch x" for x
    using that double_chainp_range(5) [OF assms(2) that] assms(3) by simp
  ultimately show ?thesis by (auto simp: cht_abstract(1) [OF assms(1,3)] list_ex_iff)
qed

text \<open>The choice is the first available backend of the list.\<close>

lemma cht_choose_first:
  assumes "valid_cht values (int b) (int h)" "dchain_index_range_fp ch = int b"
  shows "cht_exists hash values ch \<and> cht_choose hash values ch = c \<longleftrightarrow>
     (\<exists>k < b. cht_prefs hash values h b ! k = c \<and> dchain_allocated_fp ch c \<and>
        (\<forall>l < k. \<not> dchain_allocated_fp ch (cht_prefs hash values h b ! l)))" (is "?L \<longleftrightarrow> ?R")
proof -
  let ?xs = "cht_prefs hash values h b" and ?f = "dchain_allocated_fp ch"
  note abs = cht_abstract [OF assms, of hash] and len = valid_cht_row(1) [OF assms(1), of hash]
  have uniq: "nat r = k" if "index_of_fp ?xs 0 ?f = Some r" "k < b" "?f (?xs ! k)" "\<forall>l < k. \<not> ?f (?xs ! l)" for r k
    using index_of_fp_Some [OF that(1)] that(2-4) by (metis diff_zero linorder_neqE_nat)
  show ?thesis
  proof
    assume ?L
    then obtain r where r: "index_of_fp ?xs 0 ?f = Some r" using abs(1) index_of_fp_None [of ?xs 0 ?f] by fastforce
    with \<open>?L\<close> show ?R using abs(2) index_of_fp_Some [OF r] len by (intro exI [of _ "nat r"]) auto
  next
    assume ?R
    then obtain k where k: "k < b" "?xs ! k = c" "?f (?xs ! k)" "\<forall>l < k. \<not> ?f (?xs ! l)" by auto
    then have "list_ex ?f ?xs" using len by (auto simp: list_ex_length)
    moreover from this obtain r where r: "index_of_fp ?xs 0 ?f = Some r" using index_of_fp_None [of ?xs 0 ?f] by fastforce
    ultimately show ?L using abs uniq [OF r k(1,3,4)] k(2) by simp
  qed
qed

section \<open>Properties\<close>

text \<open>
  C20. Filling the table: for a prime height below the limit and fewer backends than that,
  \<open>cht_fill_cht\<close> ends without a fault and leaves no block allocated. When memory runs out it
  returns 0 and has not changed the table; otherwise it returns 1 and every list of the table
  is a permutation of all the backends.
\<close>

theorem cht_fill_cht_correct:
  assumes "cht_size_ok (unat cht_height) (unat backend_capacity)" "vector_wf cht"
    "length (v_data cht) = unat cht_height * unat backend_capacity" "heap_ok h"
  shows "\<exists>r cht' h'. cht_fill_cht cht cht_height backend_capacity raw_permutations raw_next h = Some (r, cht', h') \<and>
     live h' = live h \<and>
     (if r = 0 then cht' = cht
      else r = 1 \<and> vector_wf cht' \<and> valid_cht (cht_values cht') (uint backend_capacity) (uint cht_height))"
  using cht_fill_cht_spec [OF assms, of raw_permutations raw_next]
  by (auto simp: word_of_nat_unat uint_eq_int_unat split: if_splits)

text \<open>
  C21. Looking for a backend: it returns 1 exactly when some backend is available, and then the
  first available one of the list of preferences of the hash; otherwise it returns 0 and
  leaves the output as it was.
\<close>

theorem cht_find_correct:
  assumes "valid_cht (cht_values cht) (uint backend_capacity) (uint cht_height)" "vector_wf cht"
    "double_chainp ch chain" "dchain_index_range_fp ch = uint backend_capacity"
  shows "cht_find_preferred_available_backend hash cht chain cht_height backend_capacity chosen =
       Some (if \<exists>x. dchain_allocated_fp ch x then (1, cht_choose (uint hash) (cht_values cht) ch) else (0, chosen))"
  using cht_find_spec [of cht "unat backend_capacity" "unat cht_height" ch chain hash chosen] assms
    cht_exists_iff [of "cht_values cht" "unat backend_capacity" "unat cht_height" ch chain "uint hash"]
  by (simp add: word_of_nat_unat uint_eq_int_unat)

text \<open>
  C22. The choice is consistent: when other backends leave, a hash keeps its backend; when
  backends join, it keeps its backend or moves to one that joined. Here \<open>ch\<close> has the fewer
  and \<open>ch'\<close> the more backends, and \<open>c\<close> and \<open>c'\<close> are the backends chosen with each.
\<close>

theorem cht_consistent:
  assumes valid: "valid_cht (cht_values cht) (uint backend_capacity) (uint cht_height)" "vector_wf cht"
    and rep: "double_chainp ch chain" "dchain_index_range_fp ch = uint backend_capacity"
      "double_chainp ch' chain'" "dchain_index_range_fp ch' = uint backend_capacity"
    and more: "\<forall>x. dchain_allocated_fp ch x \<longrightarrow> dchain_allocated_fp ch' x"
    and run: "cht_find_preferred_available_backend hash cht chain cht_height backend_capacity d = Some (1, c)"
      "cht_find_preferred_available_backend hash cht chain' cht_height backend_capacity d = Some (1, c')"
    and known: "dchain_allocated_fp ch c'"
  shows "c = c'"
proof -
  let ?b = "unat backend_capacity" and ?h = "unat cht_height" and ?vs = "cht_values cht"
  have v: "valid_cht ?vs (int ?b) (int ?h)" "dchain_index_range_fp ch = int ?b" "dchain_index_range_fp ch' = int ?b"
    using valid rep by (simp_all add: uint_eq_int_unat)
  have "cht_exists (uint hash) ?vs ch \<and> cht_choose (uint hash) ?vs ch = c"
    "cht_exists (uint hash) ?vs ch' \<and> cht_choose (uint hash) ?vs ch' = c'"
    using run cht_find_spec [OF v(1) valid(2) rep(1) v(2), of hash d] cht_find_spec [OF v(1) valid(2) rep(3) v(3), of hash d]
    by (auto simp: word_of_nat_unat split: if_splits)
  then obtain k k' where k: "cht_prefs (uint hash) ?vs ?h ?b ! k = c" "dchain_allocated_fp ch c"
      "\<forall>l < k. \<not> dchain_allocated_fp ch (cht_prefs (uint hash) ?vs ?h ?b ! l)"
    and k': "cht_prefs (uint hash) ?vs ?h ?b ! k' = c'"
      "\<forall>l < k'. \<not> dchain_allocated_fp ch' (cht_prefs (uint hash) ?vs ?h ?b ! l)"
    unfolding cht_choose_first [OF v(1,2)] cht_choose_first [OF v(1,3)] by blast
  have "\<not> k < k'" using k(1,2) k'(2) more by blast
  moreover have "\<not> k' < k" using k(3) k'(1) known by blast
  ultimately show ?thesis using k(1) k'(1) by (metis linorder_neqE_nat)
qed

section \<open>An example\<close>

definition ex_cht :: "u32 Vector" where
  "ex_cht = \<lparr>v_data = [0, 2, 1, 1, 0, 2, 2, 0, 1, 1, 2, 0, 0, 1, 2], v_elem_size = 4, v_capacity = 15\<rparr>"

lemma ex_cht_ok: "valid_cht (cht_values ex_cht) (uint (3 :: u32)) (uint (5 :: u32))" "vector_wf ex_cht"
proof -
  show "valid_cht (cht_values ex_cht) (uint (3 :: u32)) (uint (5 :: u32))" by code_simp
  show "vector_wf ex_cht" by (simp add: vector_wf_def ex_cht_def)
qed

theorem cht_fill_cht_correct_witness:
  "\<exists>r cht' h'. cht_fill_cht (ex_cht\<lparr>v_data := replicate 15 0\<rparr>) 5 3 (\<lambda>_. 7) (\<lambda>_. 7) \<lparr>live = Map.empty, fresh = 0, answers = [True, True]\<rparr> =
       Some (r, cht', h') \<and> live h' = Map.empty \<and>
     (if r = 0 then cht' = ex_cht\<lparr>v_data := replicate 15 0\<rparr>
      else r = 1 \<and> vector_wf cht' \<and> valid_cht (cht_values cht') (uint (3 :: u32)) (uint (5 :: u32)))"
proof -
  have "cht_size_ok (unat (5 :: u32)) (unat (3 :: u32))" "vector_wf (ex_cht\<lparr>v_data := replicate 15 0\<rparr>)"
    "length (v_data (ex_cht\<lparr>v_data := replicate 15 0\<rparr>)) = unat (5 :: u32) * unat (3 :: u32)"
    by code_simp (simp_all add: vector_wf_def ex_cht_def)
  from cht_fill_cht_correct [OF this, of "\<lparr>live = Map.empty, fresh = 0, answers = [True, True]\<rparr>" "\<lambda>_. 7" "\<lambda>_. 7"]
  show ?thesis by (simp add: heap_ok_def split del: if_split)
qed

theorem cht_find_correct_witness:
  "cht_find_preferred_available_backend 2 ex_cht ex_chain 5 3 (- 1) = Some (1, 0)"
proof -
  have "cht_choose (uint (2 :: u64)) (cht_values ex_cht) (dchain [(0, 5), (1, 7)] 3 0 7) = 0" by code_simp
  moreover have "dchain_allocated_fp (dchain [(0, 5), (1, 7)] 3 0 7) 0" by simp
  ultimately show ?thesis
    using cht_find_correct [OF ex_cht_ok ex_chain_ok, of 2 "- 1"] by auto
qed

theorem cht_consistent_witness:
  "\<exists>chain'. double_chainp (dchain [(0, 5), (1, 7), (2, 9)] 3 0 9) chain' \<and>
     cht_find_preferred_available_backend 3 ex_cht ex_chain 5 3 0 = Some (1, 1) \<and>
     cht_find_preferred_available_backend 3 ex_cht chain' 5 3 0 = Some (1, 1)"
proof -
  let ?ch = "dchain [(0, 5), (1, 7)] 3 0 7" and ?ch' = "dchain [(0, 5), (1, 7), (2, 9)] 3 0 9"
  obtain i chain' where i: "\<not> dchain_allocated_fp ?ch i" "0 \<le> i" "i < 3" "double_chainp (dchain_allocate_fp ?ch i 9) chain'"
    using dchain_allocate_new_index_refines [OF ex_chain_ok, of 9 0] by auto
  then have "i = 2" by auto
  with i(4) have rep: "double_chainp ?ch' chain'" by simp
  have c: "cht_exists (uint (3 :: u64)) (cht_values ex_cht) ?ch"
    "cht_exists (uint (3 :: u64)) (cht_values ex_cht) ?ch'" "cht_choose (uint (3 :: u64)) (cht_values ex_cht) ?ch' = 1"
    by code_simp+
  have v: "valid_cht (cht_values ex_cht) (int 3) (int 5)" using ex_cht_ok(1) by simp
  have run: "cht_find_preferred_available_backend 3 ex_cht ex_chain 5 3 0 = Some (1, cht_choose 3 (cht_values ex_cht) ?ch)"
    "cht_find_preferred_available_backend 3 ex_cht chain' 5 3 0 = Some (1, 1)"
    using cht_find_spec [OF v ex_cht_ok(2) ex_chain_ok, of 3 0] cht_find_spec [OF v ex_cht_ok(2) rep, of 3 0] c by simp_all
  have "cht_choose 3 (cht_values ex_cht) ?ch = 1"
    by (rule cht_consistent [OF ex_cht_ok ex_chain_ok _ rep _ _ run]) auto
  then show ?thesis using rep run by auto
qed

end
