(* ===== verification/Viglb.thy ===== *)
theory Viglb
  imports Runs Cht Ether
begin

text \<open>
  The load balancer, \<open>viglb/lb_main.c\<close> and \<open>viglb/lb_balancer.c\<close>. The structure
  \<open>State\<close> is generated by the build from \<open>viglb/dataspec.ml\<close>: the table of the flows with
  the backend of each, the table of the backends by address, and the consistent hash table.
  The hash of a flow is generated too and is an argument. The handler is shown to implement
  \<open>viglb/spec.py\<close>; a flow is sent to the same backend as long as the flow and the backend
  are in use.
\<close>

declare of_nat_unat [simp del]

section \<open>The code\<close>

record LoadBalancedFlow =
  lf_src_ip :: u32
  lf_dst_ip :: u32
  lf_src_port :: u16
  lf_dst_port :: u16
  lf_protocol :: u8

record LoadBalancedBackend =
  bk_nic :: u16
  bk_mac :: rte_ether_addr
  bk_ip :: u32

record LoadBalancer =
  lb_flow_expiration :: vigor_time
  lb_backend_expiration :: vigor_time
  lb_flow_map :: "(LoadBalancedFlow kptr, LoadBalancedFlow) vmap"
  lb_flow_heap :: "LoadBalancedFlow Vector"
  lb_flow_chain :: DoubleChain
  lb_flow_backend :: "u32 Vector"
  lb_ip_map :: "(u32 kptr, u32) vmap"
  lb_backend_ips :: "u32 Vector"
  lb_backends :: "LoadBalancedBackend Vector"
  lb_active :: DoubleChain
  lb_cht :: "u32 Vector"
  lb_backend_capacity :: u32
  lb_cht_height :: u32

record lb_config =
  lb_device_macs :: "rte_ether_addr list"
  lb_wan_device :: u16

text \<open>
  The result of \<open>calloc\<close> is used without a test: no memory is a fault. \<open>alloc_state\<close> is the
  generated allocation of everything but the two times. \<open>None\<close> inside is the null pointer.
\<close>

definition lb_allocate_balancer ::
  "bool \<Rightarrow> (u32 \<Rightarrow> u32 \<Rightarrow> u32 \<Rightarrow> LoadBalancer option) \<Rightarrow> u32 \<Rightarrow> u32 \<Rightarrow> u32 \<Rightarrow> vigor_time \<Rightarrow> vigor_time
   \<Rightarrow> LoadBalancer option option" where
  "lb_allocate_balancer calloc_ok alloc_state flow_capacity backend_capacity cht_height
       backend_expiration_time flow_expiration_time = do {
     cassert calloc_ok;
     Some (case alloc_state backend_capacity flow_capacity cht_height of
         None \<Rightarrow> None
       | Some s \<Rightarrow> Some (s\<lparr>lb_flow_expiration := flow_expiration_time, lb_backend_expiration := backend_expiration_time\<rparr>))
   }"

text \<open>
  \<open>raw\<close> is the backend structure before it is filled in; the index is uninitialised at first
  and never read in that state.
\<close>

partial_function (option) lb_get_backend ::
  "bool \<Rightarrow> (LoadBalancedFlow \<Rightarrow> u32) \<Rightarrow> LoadBalancedBackend \<Rightarrow> LoadBalancer \<Rightarrow> LoadBalancedFlow \<Rightarrow> vigor_time \<Rightarrow> u16
   \<Rightarrow> (LoadBalancedBackend \<times> LoadBalancer) option" where
  "lb_get_backend pow2 flow_hash raw b flow now wan_device = do {
     (present, flow_index) \<leftarrow> map_get pow2 (key_at (lb_flow_heap b)) (lb_flow_map b) (Ext flow) 0;
     if present = 0 then do {
       (found, backend_index) \<leftarrow> cht_find_preferred_available_backend (ucast (flow_hash flow)) (lb_cht b) (lb_active b)
         (lb_cht_height b) (lb_backend_capacity b) 0;
       if found \<noteq> 0 then do {
         (allocated, flow_index, h) \<leftarrow> dchain_allocate_new_index (lb_flow_chain b) flow_index now;
         let b = b\<lparr>lb_flow_chain := h\<rparr>;
         b \<leftarrow> (if allocated \<noteq> 0 then do {
             vec_flow \<leftarrow> vector_borrow (lb_flow_heap b) flow_index;
             let flows = vector_write (lb_flow_heap b) vec_flow flow;
             vec_id \<leftarrow> vector_borrow (lb_flow_backend b) flow_index;
             let ids = vector_write (lb_flow_backend b) vec_id (word_of_int backend_index);
             m \<leftarrow> map_put pow2 (key_at flows) (lb_flow_map b) (Slot vec_flow) flow_index;
             Some (b\<lparr>lb_flow_map := m, lb_flow_heap := vector_return flows flow_index vec_flow,
                     lb_flow_backend := vector_return ids flow_index vec_id\<rparr>)
           } else Some b);
         vec_backend \<leftarrow> vector_borrow (lb_backends b) backend_index;
         Some (v_data (lb_backends b) ! vec_backend, b)
       } else Some (raw\<lparr>bk_nic := wan_device\<rparr>, b)
     } else do {
       vec_id \<leftarrow> vector_borrow (lb_flow_backend b) flow_index;
       let backend_index = sint (v_data (lb_flow_backend b) ! vec_id);
       active \<leftarrow> dchain_is_index_allocated (lb_active b) backend_index;
       if active = 0 then do {
         flow_key \<leftarrow> vector_borrow (lb_flow_heap b) flow_index;
         (_, m) \<leftarrow> map_erase pow2 (key_at (lb_flow_heap b)) (lb_flow_map b) (Ext flow) (Slot flow_key);
         (_, h) \<leftarrow> dchain_free_index (lb_flow_chain b) flow_index;
         lb_get_backend pow2 flow_hash raw (b\<lparr>lb_flow_map := m, lb_flow_chain := h\<rparr>) flow now wan_device
       } else do {
         (_, h) \<leftarrow> dchain_rejuvenate_index (lb_flow_chain b) flow_index now;
         vec_backend \<leftarrow> vector_borrow (lb_backends b) backend_index;
         Some (v_data (lb_backends b) ! vec_backend, b\<lparr>lb_flow_chain := h\<rparr>)
       }
     }
   }"

declare lb_get_backend.simps [code]

definition lb_process_heartbit ::
  "bool \<Rightarrow> LoadBalancer \<Rightarrow> LoadBalancedFlow \<Rightarrow> rte_ether_addr \<Rightarrow> int \<Rightarrow> vigor_time \<Rightarrow> LoadBalancer option" where
  "lb_process_heartbit pow2 b flow mac_addr nic now = do {
     (present, backend_index) \<leftarrow> map_get pow2 (key_at (lb_backend_ips b)) (lb_ip_map b) (Ext (lf_src_ip flow)) 0;
     if present = 0 then do {
       (allocated, backend_index, h) \<leftarrow> dchain_allocate_new_index (lb_active b) backend_index now;
       let b = b\<lparr>lb_active := h\<rparr>;
       if allocated \<noteq> 0 then do {
         new_backend \<leftarrow> vector_borrow (lb_backends b) backend_index;
         let bs = vector_write (lb_backends b) new_backend
           \<lparr>bk_nic = word_of_int nic, bk_mac = mac_addr, bk_ip = lf_src_ip flow\<rparr>;
         ip \<leftarrow> vector_borrow (lb_backend_ips b) backend_index;
         let ips = vector_write (lb_backend_ips b) ip (lf_src_ip flow);
         m \<leftarrow> map_put pow2 (key_at ips) (lb_ip_map b) (Slot ip) backend_index;
         Some (b\<lparr>lb_backends := vector_return bs backend_index new_backend, lb_ip_map := m,
                 lb_backend_ips := vector_return ips backend_index ip\<rparr>)
       } else Some b
     } else do {
       (_, h) \<leftarrow> dchain_rejuvenate_index (lb_active b) backend_index now;
       Some (b\<lparr>lb_active := h\<rparr>)
     }
   }"

definition lb_expire_flows :: "bool \<Rightarrow> LoadBalancer \<Rightarrow> vigor_time \<Rightarrow> LoadBalancer option" where
  "lb_expire_flows pow2 b time = do {
     cassert (time \<ge> 0);
     t \<leftarrow> s64 (lb_flow_expiration b * 1000);
     let last_time = s64_wrap (time - t);
     (_, h, m) \<leftarrow> expire_items_single_map pow2 (lb_flow_chain b) (lb_flow_heap b) (lb_flow_map b) last_time;
     Some (b\<lparr>lb_flow_chain := h, lb_flow_map := m\<rparr>)
   }"

definition lb_expire_backends :: "bool \<Rightarrow> LoadBalancer \<Rightarrow> vigor_time \<Rightarrow> LoadBalancer option" where
  "lb_expire_backends pow2 b time = do {
     cassert (time \<ge> 0);
     t \<leftarrow> s64 (lb_backend_expiration b * 1000);
     let last_time = s64_wrap (time - t);
     (_, h, m) \<leftarrow> expire_items_single_map pow2 (lb_active b) (lb_backend_ips b) (lb_ip_map b) last_time;
     Some (b\<lparr>lb_active := h, lb_ip_map := m\<rparr>)
   }"

definition lb_process ::
  "bool \<Rightarrow> lb_config \<Rightarrow> cksums \<Rightarrow> (LoadBalancedFlow \<Rightarrow> u32) \<Rightarrow> LoadBalancedBackend \<Rightarrow> LoadBalancer \<Rightarrow> u16 \<Rightarrow> packet_io
   \<Rightarrow> vigor_time \<Rightarrow> (u16 \<times> packet_io \<times> LoadBalancer) option" where
  "lb_process pow2 config cks flow_hash raw b device st now = do {
     b \<leftarrow> lb_expire_flows pow2 b now;
     b \<leftarrow> lb_expire_backends pow2 b now;
     (eth, st) \<leftarrow> nf_then_get_rte_ether_header st;
     (ip_hdr, _, st) \<leftarrow> nf_then_get_rte_ipv4_header eth st;
     case ip_hdr of
       None \<Rightarrow> Some (device, st, b)
     | Some ip \<Rightarrow> do {
         (l4_hdr, st) \<leftarrow> nf_then_get_tcpudp_header ip st;
         case l4_hdr of
           None \<Rightarrow> Some (device, st, b)
         | Some l4 \<Rightarrow> do {
             saddr \<leftarrow> src_addr st ip;
             daddr \<leftarrow> dst_addr st ip;
             sport \<leftarrow> src_port st l4;
             dport \<leftarrow> dst_port st l4;
             proto \<leftarrow> next_proto_id st ip;
             let flow = \<lparr>lf_src_ip = saddr, lf_dst_ip = daddr, lf_src_port = sport, lf_dst_port = dport, lf_protocol = proto\<rparr>;
             if device \<noteq> lb_wan_device config then do {
               bs \<leftarrow> ether_s_addr st eth;
               mac \<leftarrow> ether_addr_of bs;
               b \<leftarrow> lb_process_heartbit pow2 b flow mac (uint device) now;
               Some (device, st, b)
             } else do {
               (backend, b) \<leftarrow> lb_get_backend pow2 flow_hash raw b flow now (lb_wan_device config);
               if bk_nic backend \<noteq> lb_wan_device config then do {
                 p \<leftarrow> st32 (pkt st) (ip + 16) (bk_ip backend);
                 smac \<leftarrow> arr_get (lb_device_macs config) (uint (bk_nic backend));
                 p \<leftarrow> st_bytes p (eth + 6) (addr_bytes smac);
                 p \<leftarrow> st_bytes p eth (addr_bytes (bk_mac backend));
                 p \<leftarrow> nf_set_rte_ipv4_udptcp_checksum cks ip l4 p;
                 Some (bk_nic backend, st\<lparr>pkt := p\<rparr>, b)
               } else Some (bk_nic backend, st, b)
             }
           }
       }
   }"

section \<open>The specification\<close>

text \<open>
  \<open>viglb/spec.py\<close>: the state is the map of the flows, the backend of each flow, the backends
  and the map of their addresses. \<open>lb_alloc_spec\<close> is the part that chooses a backend for a
  flow that has none, \<open>lb_heartbeat_spec\<close> the part for a packet of a backend. The outcome is
  the backend that the packet is sent to.
\<close>

definition emap_exists_with_cht :: "'k emap \<Rightarrow> int list \<Rightarrow> int \<Rightarrow> bool" where
  "emap_exists_with_cht em cht hash = cht_exists hash cht (emap_chain em)"

definition emap_choose_with_cht :: "'k emap \<Rightarrow> int list \<Rightarrow> int \<Rightarrow> int" where
  "emap_choose_with_cht em cht hash = cht_choose hash cht (emap_chain em)"

type_synonym lb_abs = "LoadBalancedFlow emap \<times> u32 list \<times> LoadBalancedBackend list \<times> u32 emap"

definition lb_alloc_spec ::
  "int list \<Rightarrow> int \<Rightarrow> int \<Rightarrow> lb_abs \<Rightarrow> LoadBalancedFlow \<Rightarrow> vigor_time \<Rightarrow> LoadBalancedBackend option \<times> lb_abs" where
  "lb_alloc_spec cht hash idx = (\<lambda>(flow_emap, ids, backends, backend_ip_emap) packet_flow now.
     if emap_exists_with_cht backend_ip_emap cht hash then
       (let bknd = emap_choose_with_cht backend_ip_emap cht hash;
            (flow_emap, ids) =
              (if \<not> emap_full flow_emap then (emap_add flow_emap packet_flow idx now, ids[nat idx := word_of_int bknd])
               else (flow_emap, ids)) in
        (Some (backends ! nat bknd), flow_emap, ids, backends, backend_ip_emap))
     else (None, flow_emap, ids, backends, backend_ip_emap))"

definition lb_client_spec ::
  "int list \<Rightarrow> int \<Rightarrow> int \<Rightarrow> lb_abs \<Rightarrow> LoadBalancedFlow \<Rightarrow> vigor_time \<Rightarrow> LoadBalancedBackend option \<times> lb_abs" where
  "lb_client_spec cht hash idx = (\<lambda>(flow_emap, ids, backends, backend_ip_emap) packet_flow now.
     if emap_has flow_emap packet_flow then
       (let flow_id = emap_get flow_emap packet_flow;
            backend_id = uint (ids ! nat flow_id) in
        if emap_has_idx backend_ip_emap backend_id then
          (Some (backends ! nat backend_id),
           emap_refresh_idx flow_emap (emap_get flow_emap packet_flow) now, ids, backends, backend_ip_emap)
        else lb_alloc_spec cht hash idx (emap_erase flow_emap packet_flow, ids, backends, backend_ip_emap) packet_flow now)
     else lb_alloc_spec cht hash idx (flow_emap, ids, backends, backend_ip_emap) packet_flow now)"

definition lb_heartbeat_spec ::
  "int \<Rightarrow> lb_abs \<Rightarrow> u16 \<Rightarrow> rte_ether_addr \<Rightarrow> u32 \<Rightarrow> vigor_time \<Rightarrow> lb_abs" where
  "lb_heartbeat_spec idx = (\<lambda>(flow_emap, ids, backends, backend_ip_emap) received_on_port h1_saddr bknd_addr now.
     if emap_has backend_ip_emap bknd_addr then
       (flow_emap, ids, backends, emap_refresh_idx backend_ip_emap (emap_get backend_ip_emap bknd_addr) now)
     else if \<not> emap_full backend_ip_emap then
       (flow_emap, ids, backends[nat idx := \<lparr>bk_nic = received_on_port, bk_mac = h1_saddr, bk_ip = bknd_addr\<rparr>],
        emap_add backend_ip_emap bknd_addr idx now)
     else (flow_emap, ids, backends, backend_ip_emap))"

definition lb_spec ::
  "vigor_time \<Rightarrow> vigor_time \<Rightarrow> u16 \<Rightarrow> (LoadBalancedFlow \<Rightarrow> int) \<Rightarrow> int list \<Rightarrow> int \<Rightarrow> lb_abs \<Rightarrow> u16 \<Rightarrow> rte_ether_addr
   \<Rightarrow> LoadBalancedFlow option \<Rightarrow> vigor_time \<Rightarrow> LoadBalancedBackend option \<times> lb_abs" where
  "lb_spec exp_time backend_exp_time ext_port flow_hash cht idx =
     (\<lambda>(flow_emap, ids, backends, backend_ip_emap) received_on_port h1_saddr packet now.
     let flow_emap = emap_expire_all flow_emap (now - exp_time);
         backend_ip_emap = emap_expire_all backend_ip_emap (now - backend_exp_time) in
     case packet of None \<Rightarrow> (None, flow_emap, ids, backends, backend_ip_emap)
     | Some packet_flow \<Rightarrow>
         if received_on_port = ext_port then
           lb_client_spec cht (flow_hash packet_flow) idx (flow_emap, ids, backends, backend_ip_emap) packet_flow now
         else (None, lb_heartbeat_spec idx (flow_emap, ids, backends, backend_ip_emap) received_on_port h1_saddr
                       (lf_src_ip packet_flow) now))"

section \<open>The invariant\<close>

definition lb_backend_ok :: "lb_config \<Rightarrow> LoadBalancedBackend \<Rightarrow> bool" where
  "lb_backend_ok config k \<longleftrightarrow>
     bk_nic k \<noteq> lb_wan_device config \<and> uint (bk_nic k) < int (length (lb_device_macs config))"

definition lb_ok :: "bool \<Rightarrow> lb_config \<Rightarrow> lb_abs \<Rightarrow> LoadBalancer \<Rightarrow> bool" where
  "lb_ok pow2 config = (\<lambda>(fe, ids, bks, be) b.
     emap_table pow2 fe (lb_flow_chain b) (lb_flow_heap b) (lb_flow_map b) \<and>
     emap_table pow2 be (lb_active b) (lb_backend_ips b) (lb_ip_map b) \<and>
     vector_wf (lb_flow_backend b) \<and> v_data (lb_flow_backend b) = ids \<and> int (length ids) = emap_range fe \<and>
     vector_wf (lb_backends b) \<and> v_data (lb_backends b) = bks \<and> int (length bks) = uint (lb_backend_capacity b) \<and>
     (\<forall>x \<in> set ids. uint x < uint (lb_backend_capacity b)) \<and>
     vector_wf (lb_cht b) \<and> emap_range be = uint (lb_backend_capacity b) \<and>
     valid_cht (cht_values (lb_cht b)) (uint (lb_backend_capacity b)) (uint (lb_cht_height b)) \<and>
     (\<forall>i. emap_has_idx be i \<longrightarrow> lb_backend_ok config (bks ! nat i)) \<and>
     0 \<le> lb_flow_expiration b \<and> lb_flow_expiration b < 2 ^ 32 \<and>
     0 \<le> lb_backend_expiration b \<and> lb_backend_expiration b < 2 ^ 32)"

text \<open>What no operation changes.\<close>

definition lb_same :: "LoadBalancer \<Rightarrow> LoadBalancer \<Rightarrow> bool" where
  "lb_same b b' \<longleftrightarrow> lb_cht b' = lb_cht b \<and> lb_flow_expiration b' = lb_flow_expiration b \<and>
     lb_backend_expiration b' = lb_backend_expiration b"

lemma lb_ok_tables:
  assumes "lb_ok pow2 config (fe, ids, bks, be) b"
  shows "emap_table pow2 fe (lb_flow_chain b) (lb_flow_heap b) (lb_flow_map b)"
    "emap_table pow2 be (lb_active b) (lb_backend_ips b) (lb_ip_map b)"
  using assms by (simp_all add: lb_ok_def)

lemma lb_borrow:
  assumes "lb_ok pow2 config (fe, ids, bks, be) b"
  shows "0 \<le> i \<Longrightarrow> i < emap_range fe \<Longrightarrow> vector_borrow (lb_flow_backend b) i = Some (nat i)"
    "0 \<le> i \<Longrightarrow> i < emap_range be \<Longrightarrow> vector_borrow (lb_backends b) i = Some (nat i)"
  using vector_borrow_spec [of "lb_flow_backend b" i] vector_borrow_spec [of "lb_backends b" i] assms
  by (simp_all add: lb_ok_def)

lemma lb_expire_flows_spec:
  assumes ok: "lb_ok pow2 config (fe, ids, bks, be) b" and now: "0 \<le> now" "now < 2 ^ 63"
  shows "\<exists>b'. lb_expire_flows pow2 b now = Some b' \<and>
     lb_ok pow2 config (emap_expire_all fe (now - lb_flow_expiration b * 1000), ids, bks, be) b' \<and> lb_same b b'"
proof -
  let ?t = "now - lb_flow_expiration b * 1000"
  have e: "0 \<le> lb_flow_expiration b" "lb_flow_expiration b < 2 ^ 32" using ok by (simp_all add: lb_ok_def)
  then have t: "s64 (lb_flow_expiration b * 1000) = Some (lb_flow_expiration b * 1000)" "s64_wrap ?t = ?t"
    using now by (simp_all add: s64_def s64_wrap_id)
  obtain n chain' m' where x: "expire_items_single_map pow2 (lb_flow_chain b) (lb_flow_heap b) (lb_flow_map b) ?t = Some (n, chain', m')"
    "emap_table pow2 (emap_expire_all fe ?t) chain' (lb_flow_heap b) m'"
    using table_expire [OF lb_ok_tables(1) [OF ok]] by blast
  then show ?thesis
    using ok now t by (simp add: lb_expire_flows_def cassert_def lb_ok_def lb_same_def)
qed

lemma lb_expire_backends_spec:
  assumes ok: "lb_ok pow2 config (fe, ids, bks, be) b" and now: "0 \<le> now" "now < 2 ^ 63"
  shows "\<exists>b'. lb_expire_backends pow2 b now = Some b' \<and>
     lb_ok pow2 config (fe, ids, bks, emap_expire_all be (now - lb_backend_expiration b * 1000)) b' \<and> lb_same b b'"
proof -
  let ?t = "now - lb_backend_expiration b * 1000"
  have e: "0 \<le> lb_backend_expiration b" "lb_backend_expiration b < 2 ^ 32" using ok by (simp_all add: lb_ok_def)
  then have t: "s64 (lb_backend_expiration b * 1000) = Some (lb_backend_expiration b * 1000)" "s64_wrap ?t = ?t"
    using now by (simp_all add: s64_def s64_wrap_id)
  note tab = lb_ok_tables(2) [OF ok]
  obtain n chain' m' where x: "expire_items_single_map pow2 (lb_active b) (lb_backend_ips b) (lb_ip_map b) ?t = Some (n, chain', m')"
    "emap_table pow2 (emap_expire_all be ?t) chain' (lb_backend_ips b) m'"
    using table_expire [OF tab] by blast
  have "emap_has_idx be i" if "emap_has_idx (emap_expire_all be ?t) i" for i
    using that unfolding emap_expire_lookup(1) [OF tab] table_facts(6) [OF tab] by auto
  then show ?thesis
    using ok now t x by (simp add: lb_expire_backends_def cassert_def lb_ok_def lb_same_def)
qed

section \<open>Finding a backend\<close>

lemma lb_cht_find:
  assumes ok: "lb_ok pow2 config (fe, ids, bks, be) b"
  shows "cht_find_preferred_available_backend (ucast (hash :: u32)) (lb_cht b) (lb_active b) (lb_cht_height b) (lb_backend_capacity b) d =
      Some (if emap_exists_with_cht be (cht_values (lb_cht b)) (uint hash)
            then (1, emap_choose_with_cht be (cht_values (lb_cht b)) (uint hash)) else (0, d))" (is ?run)
    "emap_exists_with_cht be (cht_values (lb_cht b)) (uint hash) \<Longrightarrow>
      emap_has_idx be (emap_choose_with_cht be (cht_values (lb_cht b)) (uint hash))"
proof -
  let ?b = "unat (lb_backend_capacity b)" and ?h = "unat (lb_cht_height b)"
  have v: "valid_cht (cht_values (lb_cht b)) (int ?b) (int ?h)" "vector_wf (lb_cht b)"
    "double_chainp (emap_chain be) (lb_active b)" "dchain_index_range_fp (emap_chain be) = int ?b"
    using ok by (auto simp: lb_ok_def uint_eq_int_unat emap_table_def flow_table_ok_def)
  have "uint (ucast hash :: u64) = uint hash" by (rule uint_up_ucast) (simp add: is_up)
  then show ?run
    using cht_find_spec [OF v, of "ucast hash" d]
    by (simp add: word_of_nat_unat emap_exists_with_cht_def emap_choose_with_cht_def)
  show "emap_has_idx be (emap_choose_with_cht be (cht_values (lb_cht b)) (uint hash))"
    if "emap_exists_with_cht be (cht_values (lb_cht b)) (uint hash)"
    using that cht_choose_first [OF v(1,4), of "uint hash"]
    by (cases be) (auto simp: emap_exists_with_cht_def emap_choose_with_cht_def)
qed

text \<open>A flow that is not in the table.\<close>

lemma lb_new_flow:
  assumes ok: "lb_ok pow2 config (fe, ids, bks, be) b" and time: "emap_now fe \<le> now" and new: "\<not> emap_has fe flow"
  shows "\<exists>k b' idx out fe' ids'. lb_get_backend pow2 flow_hash raw b flow now (lb_wan_device config) = Some (k, b') \<and>
     lb_alloc_spec (cht_values (lb_cht b)) (uint (flow_hash flow)) idx (fe, ids, bks, be) flow now = (out, fe', ids', bks, be) \<and>
     lb_ok pow2 config (fe', ids', bks, be) b' \<and> lb_same b b' \<and> emap_now fe' \<le> now \<and>
     (case out of None \<Rightarrow> bk_nic k = lb_wan_device config | Some k' \<Rightarrow> k = k' \<and> lb_backend_ok config k)"
proof -
  let ?vs = "cht_values (lb_cht b)" and ?hash = "uint (flow_hash flow)"
  note tabs = lb_ok_tables [OF ok]
  have get: "map_get pow2 (key_at (lb_flow_heap b)) (lb_flow_map b) (Ext flow) 0 = Some (0, 0)"
    using table_get [OF tabs(1)] new by simp
  note find = lb_cht_find [OF ok, of "flow_hash flow"]
  show ?thesis
  proof (cases "emap_exists_with_cht be ?vs ?hash")
    case False
    then have "lb_get_backend pow2 flow_hash raw b flow now (lb_wan_device config) = Some (raw\<lparr>bk_nic := lb_wan_device config\<rparr>, b)"
      using get find(1) by (subst lb_get_backend.simps) simp
    then show ?thesis using False ok time by (simp add: lb_alloc_spec_def lb_same_def)
  next
    case True
    define c where "c = emap_choose_with_cht be ?vs ?hash"
    have c: "emap_has_idx be c" "0 \<le> c" "c < emap_range be"
      using find(2) [OF True] table_facts(5) [OF tabs(2)] by (auto simp: c_def)
    have cap: "emap_range be = uint (lb_backend_capacity b)" using ok by (simp add: lb_ok_def)
    have "uint (word_of_int c :: u32) = c"
      using c(2,3) cap uint_bounded [of "lb_backend_capacity b"] by (simp add: uint_word_of_int)
    then have w: "uint (word_of_int c :: u32) < uint (lb_backend_capacity b)" using c(3) cap by simp
    have borrow: "vector_borrow (lb_backends b) c = Some (nat c)" using lb_borrow(2) [OF ok] c by simp
    have good: "lb_backend_ok config (bks ! nat c)" "v_data (lb_backends b) = bks" using ok c(1) by (auto simp: lb_ok_def)
    show ?thesis
    proof (cases "emap_full fe")
      case full: True
      have "lb_get_backend pow2 flow_hash raw b flow now (lb_wan_device config) = Some (bks ! nat c, b)"
        using True get find(1) table_full [OF tabs(1) full] borrow good(2)
        by (subst lb_get_backend.simps) (simp add: c_def [symmetric])
      then show ?thesis using True full ok time good by (simp add: lb_alloc_spec_def lb_same_def c_def [symmetric])
    next
      case room: False
      obtain i chain' m' where i: "dchain_allocate_new_index (lb_flow_chain b) 0 now = Some (1, i, chain')"
        "vector_borrow (lb_flow_heap b) i = Some (nat i)"
        "map_put pow2 (key_at (vector_write (lb_flow_heap b) (nat i) flow)) (lb_flow_map b) (Slot (nat i)) i = Some m'"
        "0 \<le> i" "i < emap_range fe"
        "emap_table pow2 (emap_add fe flow i now) chain' (vector_write (lb_flow_heap b) (nat i) flow) m'"
        using table_add [OF tabs(1) room new time] by blast
      let ?b = "b\<lparr>lb_flow_chain := chain', lb_flow_map := m', lb_flow_heap := vector_write (lb_flow_heap b) (nat i) flow,
        lb_flow_backend := vector_write (lb_flow_backend b) (nat i) (word_of_int c)\<rparr>"
      have run: "lb_get_backend pow2 flow_hash raw b flow now (lb_wan_device config) = Some (bks ! nat c, ?b)"
        using True get find(1) i(1-3) lb_borrow(1) [OF ok i(4,5)] borrow good(2)
        by (subst lb_get_backend.simps) (simp add: c_def [symmetric] vector_return_def Let_def)
      have "set (ids[nat i := word_of_int c]) \<subseteq> insert (word_of_int c) (set ids)" by (rule set_update_subset_insert)
      then have "\<forall>x \<in> set (ids[nat i := word_of_int c]). uint x < uint (lb_backend_capacity b)"
        using ok w by (auto simp: lb_ok_def)
      then have "lb_ok pow2 config (emap_add fe flow i now, ids[nat i := word_of_int c], bks, be) ?b"
        using ok i(6) by (simp add: lb_ok_def)
      moreover have "lb_alloc_spec ?vs ?hash i (fe, ids, bks, be) flow now =
          (Some (bks ! nat c), emap_add fe flow i now, ids[nat i := word_of_int c], bks, be)"
        using True room by (simp add: lb_alloc_spec_def c_def [symmetric])
      moreover have "emap_now (emap_add fe flow i now) \<le> now" "lb_same b ?b" by (simp_all add: lb_same_def)
      ultimately show ?thesis
        using run good(1)
        by (intro exI [of _ "bks ! nat c"] exI [of _ ?b] exI [of _ i] exI [of _ "Some (bks ! nat c)"]
            exI [of _ "emap_add fe flow i now"] exI [of _ "ids[nat i := word_of_int c]"]) simp
    qed
  qed
qed

text \<open>Any flow: the handler calls itself at most once, for a flow whose backend is gone.\<close>

lemma lb_get_backend_spec:
  assumes ok: "lb_ok pow2 config (fe, ids, bks, be) b" and time: "emap_now fe \<le> now"
  shows "\<exists>k b' idx out fe' ids'. lb_get_backend pow2 flow_hash raw b flow now (lb_wan_device config) = Some (k, b') \<and>
     lb_client_spec (cht_values (lb_cht b)) (uint (flow_hash flow)) idx (fe, ids, bks, be) flow now = (out, fe', ids', bks, be) \<and>
     lb_ok pow2 config (fe', ids', bks, be) b' \<and> lb_same b b' \<and> emap_now fe' \<le> now \<and>
     (case out of None \<Rightarrow> bk_nic k = lb_wan_device config | Some k' \<Rightarrow> k = k' \<and> lb_backend_ok config k)"
proof (cases "emap_has fe flow")
  case False
  then show ?thesis using lb_new_flow [OF ok time False, of flow_hash raw] by (simp add: lb_client_spec_def)
next
  case True
  note tabs = lb_ok_tables [OF ok]
  define i where "i = emap_get fe flow"
  define c where "c = uint (ids ! nat i)"
  have get: "map_get pow2 (key_at (lb_flow_heap b)) (lb_flow_map b) (Ext flow) 0 = Some (1, i)"
    using table_get [OF tabs(1)] True by (simp add: i_def)
  have i: "emap_has_idx fe i" "0 \<le> i" "i < emap_range fe"
    using table_facts(1) [OF tabs(1) True] table_facts(5) [OF tabs(1), of i] by (simp_all add: i_def)
  have ids: "v_data (lb_flow_backend b) = ids" "int (length ids) = emap_range fe" "v_data (lb_backends b) = bks"
    and cap: "emap_range be = uint (lb_backend_capacity b)" using ok by (simp_all add: lb_ok_def)
  have "ids ! nat i \<in> set ids" using i ids(2) by (intro nth_mem) simp
  then have c: "0 \<le> c" "c < emap_range be" using ok cap by (auto simp: lb_ok_def c_def)
  have "unat (ids ! nat i) < 2 ^ 31"
    using c(2) table_facts(10) [OF tabs(2)] by (simp add: c_def uint_eq_int_unat)
  then have s: "sint (ids ! nat i) = c" using sint_eq_unat_small by (simp add: c_def uint_eq_int_unat)
  note pre = get lb_borrow(1) [OF ok i(2,3)] ids(1) s table_allocated [OF tabs(2) c]
  show ?thesis
  proof (cases "emap_has_idx be c")
    case active: True
    obtain chain' where r: "dchain_rejuvenate_index (lb_flow_chain b) i now = Some (1, chain')"
      "emap_table pow2 (emap_refresh_idx fe i now) chain' (lb_flow_heap b) (lb_flow_map b)"
      using table_refresh [OF tabs(1) i(1) time] by blast
    have "lb_get_backend pow2 flow_hash raw b flow now (lb_wan_device config) = Some (bks ! nat c, b\<lparr>lb_flow_chain := chain'\<rparr>)"
      using pre r(1) lb_borrow(2) [OF ok c] active ids(3) by (subst lb_get_backend.simps) simp
    moreover have "lb_ok pow2 config (emap_refresh_idx fe i now, ids, bks, be) (b\<lparr>lb_flow_chain := chain'\<rparr>)"
      using ok r(2) by (simp add: lb_ok_def)
    moreover have "lb_client_spec vs hash 0 (fe, ids, bks, be) flow now = (Some (bks ! nat c), emap_refresh_idx fe i now, ids, bks, be)" for vs hash
      using True active by (simp add: lb_client_spec_def i_def [symmetric] c_def [symmetric])
    moreover have "lb_backend_ok config (bks ! nat c)" "emap_now (emap_refresh_idx fe i now) \<le> now" "lb_same b (b\<lparr>lb_flow_chain := chain'\<rparr>)"
      using ok active by (auto simp: lb_ok_def lb_same_def)
    ultimately show ?thesis
      by (intro exI [of _ "bks ! nat c"] exI [of _ "b\<lparr>lb_flow_chain := chain'\<rparr>"] exI [of _ 0] exI [of _ "Some (bks ! nat c)"]
          exI [of _ "emap_refresh_idx fe i now"] exI [of _ ids]) simp
  next
    case gone: False
    obtain q chain' m' where e: "map_erase pow2 (key_at (lb_flow_heap b)) (lb_flow_map b) (Ext flow) (Slot (nat i)) = Some (q, m')"
      "dchain_free_index (lb_flow_chain b) i = Some (1, chain')" "emap_table pow2 (emap_erase fe flow) chain' (lb_flow_heap b) m'"
      using table_erase [OF tabs(1) True] i_def by blast
    let ?b = "b\<lparr>lb_flow_map := m', lb_flow_chain := chain'\<rparr>"
    have "lb_get_backend pow2 flow_hash raw b flow now (lb_wan_device config) =
        lb_get_backend pow2 flow_hash raw ?b flow now (lb_wan_device config)"
      using pre e(1,2) table_borrow(1) [OF tabs(1) i(1)] gone by (subst lb_get_backend.simps) simp
    moreover have ok': "lb_ok pow2 config (emap_erase fe flow, ids, bks, be) ?b" using ok e(3) by (simp add: lb_ok_def)
    have "dchain_high_fp (dchain_remove_index_fp ch j) = dchain_high_fp ch" for ch j by (cases ch) simp
    then have "emap_now (emap_erase fe flow) \<le> now" "\<not> emap_has (emap_erase fe flow) flow"
      using time by (simp_all add: emap_erase_lookup)
    from lb_new_flow [OF ok' this, of flow_hash raw] obtain k b' idx out fe' ids' where
      "lb_get_backend pow2 flow_hash raw ?b flow now (lb_wan_device config) = Some (k, b')"
      "lb_alloc_spec (cht_values (lb_cht b)) (uint (flow_hash flow)) idx (emap_erase fe flow, ids, bks, be) flow now = (out, fe', ids', bks, be)"
      "lb_ok pow2 config (fe', ids', bks, be) b'" "lb_same ?b b'" "emap_now fe' \<le> now"
      "case out of None \<Rightarrow> bk_nic k = lb_wan_device config | Some k' \<Rightarrow> k = k' \<and> lb_backend_ok config k" by auto
    moreover have "lb_client_spec vs hash idx (fe, ids, bks, be) flow now = lb_alloc_spec vs hash idx (emap_erase fe flow, ids, bks, be) flow now" for vs hash
      using True gone by (simp add: lb_client_spec_def i_def [symmetric] c_def [symmetric])
    ultimately show ?thesis
      by (intro exI [of _ k] exI [of _ b'] exI [of _ idx] exI [of _ out] exI [of _ fe'] exI [of _ ids']) (simp add: lb_same_def)
  qed
qed

lemma lb_heartbit_spec:
  assumes ok: "lb_ok pow2 config (fe, ids, bks, be) b" and time: "emap_now be \<le> now"
    and dev: "device \<noteq> lb_wan_device config" "uint device < int (length (lb_device_macs config))"
  shows "\<exists>b' idx bks' be'. lb_process_heartbit pow2 b flow mac (uint device) now = Some b' \<and>
     lb_heartbeat_spec idx (fe, ids, bks, be) device mac (lf_src_ip flow) now = (fe, ids, bks', be') \<and>
     lb_ok pow2 config (fe, ids, bks', be') b' \<and> lb_same b b' \<and> emap_now be' \<le> now"
proof -
  let ?ip = "lf_src_ip flow"
  note tab = lb_ok_tables(2) [OF ok]
  note get = table_get [OF tab, of ?ip 0]
  show ?thesis
  proof (cases "emap_has be ?ip")
    case True
    obtain chain' where r: "dchain_rejuvenate_index (lb_active b) (emap_get be ?ip) now = Some (1, chain')"
      "emap_table pow2 (emap_refresh_idx be (emap_get be ?ip) now) chain' (lb_backend_ips b) (lb_ip_map b)"
      using table_refresh [OF tab table_facts(1) [OF tab True] time] by blast
    have "emap_has_idx (emap_refresh_idx be (emap_get be ?ip) now) j \<longleftrightarrow> emap_has_idx be j" for j
      unfolding table_facts(6) [OF r(2)] table_facts(6) [OF tab] emap_ops_lookup(3) [OF tab]
      using table_facts(6) [OF tab, of "emap_get be ?ip"] table_facts(1) [OF tab True] by auto
    then have "lb_ok pow2 config (fe, ids, bks, emap_refresh_idx be (emap_get be ?ip) now) (b\<lparr>lb_active := chain'\<rparr>)"
      using ok r(2) by (simp add: lb_ok_def)
    then show ?thesis
      using True get r(1) by (simp add: lb_process_heartbit_def lb_heartbeat_spec_def lb_same_def)
  next
    case new: False
    show ?thesis
    proof (cases "emap_full be")
      case True
      then show ?thesis
        using new get table_full [OF tab True] ok time
        by (simp add: lb_process_heartbit_def lb_heartbeat_spec_def lb_same_def)
    next
      case room: False
      let ?k = "\<lparr>bk_nic = device, bk_mac = mac, bk_ip = ?ip\<rparr>"
      obtain i chain' m' where i: "dchain_allocate_new_index (lb_active b) 0 now = Some (1, i, chain')"
        "vector_borrow (lb_backend_ips b) i = Some (nat i)"
        "map_put pow2 (key_at (vector_write (lb_backend_ips b) (nat i) ?ip)) (lb_ip_map b) (Slot (nat i)) i = Some m'"
        "\<not> emap_has_idx be i" "0 \<le> i" "i < emap_range be"
        "emap_table pow2 (emap_add be ?ip i now) chain' (vector_write (lb_backend_ips b) (nat i) ?ip) m'"
        using table_add [OF tab room new time] by blast
      let ?b = "b\<lparr>lb_active := chain', lb_backends := vector_write (lb_backends b) (nat i) ?k, lb_ip_map := m',
        lb_backend_ips := vector_write (lb_backend_ips b) (nat i) ?ip\<rparr>"
      have run: "lb_process_heartbit pow2 b flow mac (uint device) now = Some ?b"
        using new get i(1-3) lb_borrow(2) [OF ok i(5,6)] by (simp add: lb_process_heartbit_def Let_def)
      have "lb_backend_ok config ((bks[nat i := ?k]) ! nat j)" if j: "emap_has_idx (emap_add be ?ip i now) j" for j
      proof (cases "j = i")
        case True
        have "int (length bks) = emap_range be" using ok by (simp add: lb_ok_def)
        then show ?thesis using True i(5,6) dev by (simp add: lb_backend_ok_def)
      next
        case False
        then have "emap_has_idx be j"
          using j unfolding table_facts(6) [OF i(7)] table_facts(6) [OF tab] emap_ops_lookup(6) [OF tab i(4)] by simp
        moreover have "nat j \<noteq> nat i" using False table_facts(5) [OF tab calculation] i(5) by auto
        ultimately show ?thesis using ok by (auto simp: lb_ok_def)
      qed
      then have "lb_ok pow2 config (fe, ids, bks[nat i := ?k], emap_add be ?ip i now) ?b"
        using ok i(7) by (simp add: lb_ok_def)
      then show ?thesis
        using run new room
        by (intro exI [of _ ?b] exI [of _ i] exI [of _ "bks[nat i := ?k]"] exI [of _ "emap_add be ?ip i now"])
          (simp add: lb_heartbeat_spec_def lb_same_def)
    qed
  qed
qed

section \<open>The handler\<close>

definition lb_packet :: "int \<Rightarrow> packet_io \<Rightarrow> LoadBalancedFlow option" where
  "lb_packet n st = do {
     l4 \<leftarrow> l4_offset n (pkt st);
     saddr \<leftarrow> src_addr st 14;
     daddr \<leftarrow> dst_addr st 14;
     sport \<leftarrow> src_port st l4;
     dport \<leftarrow> dst_port st l4;
     proto \<leftarrow> next_proto_id st 14;
     Some \<lparr>lf_src_ip = saddr, lf_dst_ip = daddr, lf_src_port = sport, lf_dst_port = dport, lf_protocol = proto\<rparr>
   }"

text \<open>
  What is sent for an outcome of the specification: to a backend, the packet with the address
  and the MAC address of the backend and the MAC address of the device; otherwise nothing,
  which is the device the packet came from.
\<close>

definition lb_sent ::
  "lb_config \<Rightarrow> int \<Rightarrow> packet_io \<Rightarrow> u16 \<Rightarrow> LoadBalancedBackend option \<Rightarrow> u16 \<Rightarrow> packet_io \<Rightarrow> bool" where
  "lb_sent config n st device out dst st' \<longleftrightarrow>
     (case out of None \<Rightarrow> dst = device \<and> pkt st' = pkt st
      | Some k \<Rightarrow> dst = bk_nic k \<and> dst \<noteq> device \<and> length (pkt st') = length (pkt st) \<and>
          dst_addr st' 14 = Some (bk_ip k) \<and> src_addr st' 14 = src_addr st 14 \<and>
          next_proto_id st' 14 = next_proto_id st 14 \<and>
          (\<forall>l4. l4_offset n (pkt st) = Some l4 \<longrightarrow> src_port st' l4 = src_port st l4 \<and> dst_port st' l4 = dst_port st l4) \<and>
          ether_d_addr st' 0 = Some (addr_bytes (bk_mac k)) \<and>
          ether_s_addr st' 0 = map_option addr_bytes (arr_get (lb_device_macs config) (uint dst)))"

lemma length_addr_bytes [simp]: "length (addr_bytes a) = 6"
  by (cases a) simp

lemma lb_rewrite:
  assumes k: "lb_backend_ok config k" and l4: "l4_offset n (pkt st) = Some l4" "l4 + 18 \<le> int (length (pkt st))"
  shows "\<exists>p0 p1 p2 p3 smac. st32 (pkt st) 30 (bk_ip k) = Some p0 \<and> arr_get (lb_device_macs config) (uint (bk_nic k)) = Some smac \<and>
     st_bytes p0 6 (addr_bytes smac) = Some p1 \<and> st_bytes p1 0 (addr_bytes (bk_mac k)) = Some p2 \<and>
     nf_set_rte_ipv4_udptcp_checksum cks 14 l4 p2 = Some p3 \<and>
     lb_sent config n st (lb_wan_device config) (Some k) (bk_nic k) (st'\<lparr>pkt := p3\<rparr>)"
proof -
  have l4': "34 \<le> l4" using l4_offset_range [OF l4(1)] by simp
  obtain smac where smac: "arr_get (lb_device_macs config) (uint (bk_nic k)) = Some smac"
    using k by (auto simp: lb_backend_ok_def arr_get_def)
  obtain p0 where p0: "st32 (pkt st) 30 (bk_ip k) = Some p0" "length p0 = length (pkt st)"
    using st32_ok [of 30 "pkt st" "bk_ip k"] l4' l4 by auto
  obtain p1 where p1: "st_bytes p0 6 (addr_bytes smac) = Some p1" "length p1 = length (pkt st)"
    using st_bytes_ok [of 6 "addr_bytes smac" p0] l4' l4 p0 by auto
  obtain p2 where p2: "st_bytes p1 0 (addr_bytes (bk_mac k)) = Some p2" "length p2 = length (pkt st)"
    using st_bytes_ok [of 0 "addr_bytes (bk_mac k)" p1] l4' l4 p1 by auto
  obtain p3 where p3: "nf_set_rte_ipv4_udptcp_checksum cks 14 l4 p2 = Some p3" "length p3 = length (pkt st)"
    "\<And>j n. j + int n \<le> 24 \<or> 26 \<le> j \<Longrightarrow> j + int n \<le> l4 + 6 \<Longrightarrow> ld_bytes p3 j n = ld_bytes p2 j n"
    using set_checksum [of 14 l4 p2 cks] l4' l4 p2(2) by auto
  have keep: "ld_bytes p3 j m = ld_bytes p0 j m" if "14 \<le> j" "j + int m \<le> 24 \<or> 26 \<le> j" "j + int m \<le> l4 + 6" for j m
    using ld_st_other [OF p2(1), of j m] ld_st_other [OF p1(1), of j m] p3(3) [of j m] that by simp
  have old: "ld_bytes p3 j m = ld_bytes (pkt st) j m"
    if "14 \<le> j" "j + int m \<le> 24 \<or> 26 \<le> j" "j + int m \<le> l4 + 6" "j + int m \<le> 30 \<or> 34 \<le> j" for j m
    using keep [of j m] st32_ld(3) [OF p0(1), of j m] that by simp
  have macs: "ld_bytes p3 0 6 = Some (addr_bytes (bk_mac k))" "ld_bytes p3 6 6 = Some (addr_bytes smac)"
    using p3(3) [of 0 6] p3(3) [of 6 6] ld_st_same [OF p2(1), of 6] ld_st_other [OF p2(1), of 6 6] ld_st_same [OF p1(1), of 6] l4'
    by auto
  have "ld_bytes p3 30 4 = ld_bytes p0 30 4" using l4' by (intro keep) auto
  then have "ld32 p3 30 = Some (bk_ip k)" using st32_ld(1) [OF p0(1)] by (simp add: ld32_def)
  then have "lb_sent config n st (lb_wan_device config) (Some k) (bk_nic k) (st'\<lparr>pkt := p3\<rparr>)"
    using macs smac p3(2) l4(1) l4' k old [of 26 4] old [of 23 1] old [of l4 2] old [of "l4 + 2" 2]
    by (simp add: lb_sent_def lb_backend_ok_def src_addr_def dst_addr_def src_port_def dst_port_def next_proto_id_def
        ether_s_addr_def ether_d_addr_def ld32_def ld16_def ld8_def)
  then show ?thesis using smac p0(1) p1(1) p2(1) p3(1) by blast
qed

text \<open>The state before a packet at time \<open>now\<close>.\<close>

definition lb_state_ok :: "bool \<Rightarrow> lb_config \<Rightarrow> lb_abs \<Rightarrow> LoadBalancer \<Rightarrow> vigor_time \<Rightarrow> bool" where
  "lb_state_ok pow2 config = (\<lambda>(fe, ids, bks, be) b now.
     lb_ok pow2 config (fe, ids, bks, be) b \<and> emap_now fe \<le> now \<and> emap_now be \<le> now)"

lemma lb_packet_fields:
  assumes "lb_packet n st = Some p" "l4_offset n (pkt st) = Some l4"
  shows "src_port st l4 = Some (lf_src_port p)" "dst_port st l4 = Some (lf_dst_port p)"
    "src_addr st 14 = Some (lf_src_ip p)" "dst_addr st 14 = Some (lf_dst_ip p)"
    "next_proto_id st 14 = Some (lf_protocol p)"
  using assms by (auto simp: lb_packet_def split: bind_splits)

lemma lb_from_wan:
  assumes ok: "lb_state_ok pow2 config (fe, ids, bks, be) b now" and l4: "l4_offset n (pkt st) = Some l4" "l4 + 18 \<le> int (length (pkt st))"
    and st1: "pkt st1 = pkt st"
  shows "\<exists>dst st' b' idx out S'. (do {
       (backend, b) \<leftarrow> lb_get_backend pow2 flow_hash raw b p now (lb_wan_device config);
       if bk_nic backend \<noteq> lb_wan_device config then do {
         p \<leftarrow> st32 (pkt st1) (14 + 16) (bk_ip backend);
         smac \<leftarrow> arr_get (lb_device_macs config) (uint (bk_nic backend));
         p \<leftarrow> st_bytes p (0 + 6) (addr_bytes smac);
         p \<leftarrow> st_bytes p 0 (addr_bytes (bk_mac backend));
         p \<leftarrow> nf_set_rte_ipv4_udptcp_checksum cks 14 l4 p;
         Some (bk_nic backend, st1\<lparr>pkt := p\<rparr>, b)
       } else Some (bk_nic backend, st1, b) }) = Some (dst, st', b') \<and>
     lb_client_spec (cht_values (lb_cht b)) (uint (flow_hash p)) idx (fe, ids, bks, be) p now = (out, S') \<and>
     lb_sent config n st (lb_wan_device config) out dst st' \<and> lb_state_ok pow2 config S' b' now \<and> lb_same b b'"
proof -
  obtain k b' idx out fe' ids' where r: "lb_get_backend pow2 flow_hash raw b p now (lb_wan_device config) = Some (k, b')"
    "lb_client_spec (cht_values (lb_cht b)) (uint (flow_hash p)) idx (fe, ids, bks, be) p now = (out, fe', ids', bks, be)"
    "lb_ok pow2 config (fe', ids', bks, be) b'" "lb_same b b'" "emap_now fe' \<le> now"
    "case out of None \<Rightarrow> bk_nic k = lb_wan_device config | Some k' \<Rightarrow> k = k' \<and> lb_backend_ok config k"
    using lb_get_backend_spec [of pow2 config fe ids bks be b now flow_hash raw p] ok by (auto simp: lb_state_ok_def)
  have ok': "lb_state_ok pow2 config (fe', ids', bks, be) b' now" using r(3,5) ok by (simp add: lb_state_ok_def)
  show ?thesis
  proof (cases out)
    case None
    then show ?thesis
      using r(1,2,4,6) ok' st1
      by (intro exI [of _ "lb_wan_device config"] exI [of _ st1] exI [of _ b'] exI [of _ idx] exI [of _ out]
          exI [of _ "(fe', ids', bks, be)"]) (simp add: lb_sent_def)
  next
    case (Some k')
    then have k: "k' = k" "lb_backend_ok config k" using r(6) by auto
    from lb_rewrite [OF k(2) l4, of cks st1] obtain p0 p1 p2 p3 smac where w: "st32 (pkt st) 30 (bk_ip k) = Some p0"
      "arr_get (lb_device_macs config) (uint (bk_nic k)) = Some smac" "st_bytes p0 6 (addr_bytes smac) = Some p1"
      "st_bytes p1 0 (addr_bytes (bk_mac k)) = Some p2" "nf_set_rte_ipv4_udptcp_checksum cks 14 l4 p2 = Some p3"
      "lb_sent config n st (lb_wan_device config) (Some k) (bk_nic k) (st1\<lparr>pkt := p3\<rparr>)" by blast
    then show ?thesis
      using r(1,2,4) ok' st1 Some k
      by (intro exI [of _ "bk_nic k"] exI [of _ "st1\<lparr>pkt := p3\<rparr>"] exI [of _ b'] exI [of _ idx] exI [of _ out]
          exI [of _ "(fe', ids', bks, be)"]) (simp add: lb_backend_ok_def)
  qed
qed

lemma lb_process_spec:
  assumes ok: "lb_state_ok pow2 config (fe, ids, bks, be) b now" and now: "0 \<le> now" "now < 2 ^ 63"
    and dev: "uint device < int (length (lb_device_macs config))" and fresh: "fresh_packet n st"
    and room: "n + 14 \<le> int (length (pkt st))" and mac: "ether_s_addr st 0 = Some (addr_bytes smac)"
  shows "\<exists>dst st' b' idx out S'. lb_process pow2 config cks flow_hash raw b device st now = Some (dst, st', b') \<and>
     lb_spec (lb_flow_expiration b * 1000) (lb_backend_expiration b * 1000) (lb_wan_device config) (\<lambda>f. uint (flow_hash f))
       (cht_values (lb_cht b)) idx (fe, ids, bks, be) device smac (lb_packet n st) now = (out, S') \<and>
     lb_sent config n st device out dst st' \<and> lb_state_ok pow2 config S' b' now \<and> lb_same b b'"
proof -
  let ?fe = "emap_expire_all fe (now - lb_flow_expiration b * 1000)"
  let ?be = "emap_expire_all be (now - lb_backend_expiration b * 1000)"
  obtain b1 where b1: "lb_expire_flows pow2 b now = Some b1" "lb_ok pow2 config (?fe, ids, bks, be) b1" "lb_same b b1"
    using lb_expire_flows_spec [of pow2 config fe ids bks be b now] ok now by (auto simp: lb_state_ok_def)
  obtain b2 where b2: "lb_expire_backends pow2 b1 now = Some b2" "lb_ok pow2 config (?fe, ids, bks, ?be) b2" "lb_same b b2"
    using lb_expire_backends_spec [OF b1(2) now] b1(3) by (auto simp: lb_same_def)
  have ok2: "lb_state_ok pow2 config (?fe, ids, bks, ?be) b2 now" using b2(2) ok by (simp add: lb_state_ok_def)
  obtain st1 where st1: "nf_headers st = Some (l4_offset n (pkt st), st1)" "pkt st1 = pkt st"
    using nf_headers_value [OF fresh] by blast
  note spec = lb_spec_def Let_def
  show ?thesis
  proof (cases "l4_offset n (pkt st)")
    case None
    then have "lb_process pow2 config cks flow_hash raw b device st now = Some (device, st1, b2)"
      by (simp add: lb_process_def b1(1) b2(1) nf_headers_then [OF fresh] st1(1))
    then show ?thesis
      using None st1(2) ok2 b2(3) by (intro exI [of _ device] exI [of _ st1] exI [of _ b2] exI [of _ 0] exI [of _ None]
          exI [of _ "(?fe, ids, bks, ?be)"]) (simp add: spec lb_packet_def lb_sent_def)
  next
    case (Some l4)
    have l4: "34 \<le> l4" "l4 + 4 \<le> int (length (pkt st))" "l4 + 18 \<le> int (length (pkt st))"
      using l4_offset_range [OF Some] fresh room by (auto simp: fresh_packet_def io_ok_def)
    obtain p where p: "lb_packet n st = Some p" using header_loads [OF l4(1,2)] Some by (auto simp: lb_packet_def)
    have p_eq: "\<lparr>lf_src_ip = lf_src_ip p, lf_dst_ip = lf_dst_ip p, lf_src_port = lf_src_port p,
        lf_dst_port = lf_dst_port p, lf_protocol = lf_protocol p\<rparr> = p" by (cases p) simp
    have same: "src_port st1 = src_port st" "dst_port st1 = dst_port st" "src_addr st1 = src_addr st"
      "dst_addr st1 = dst_addr st" "next_proto_id st1 = next_proto_id st" "ether_s_addr st1 = ether_s_addr st"
      using st1(2) by (auto simp: fun_eq_iff src_port_def dst_port_def src_addr_def dst_addr_def next_proto_id_def ether_s_addr_def)
    note run = lb_process_def b1(1) b2(1) nf_headers_then [OF fresh] st1(1) Some lb_packet_fields [OF p Some] p_eq same
    show ?thesis
    proof (cases "device = lb_wan_device config")
      case True
      from lb_from_wan [OF ok2 Some l4(3) st1(2), of flow_hash raw p cks] show ?thesis
        using True b2(3) by (simp add: run spec p Let_def lb_same_def)
    next
      case False
      have "ether_addr_of (addr_bytes smac) = Some smac" by (cases smac) simp
      moreover obtain b3 idx bks' be' where "lb_process_heartbit pow2 b2 p smac (uint device) now = Some b3"
        "lb_heartbeat_spec idx (?fe, ids, bks, ?be) device smac (lf_src_ip p) now = (?fe, ids, bks', be')"
        "lb_ok pow2 config (?fe, ids, bks', be') b3" "lb_same b2 b3" "emap_now be' \<le> now"
        using lb_heartbit_spec [OF b2(2) _ False dev, of now p smac] ok2 by (auto simp: lb_state_ok_def)
      ultimately show ?thesis
        using False mac b2(3) st1(2) ok2
        by (intro exI [of _ device] exI [of _ st1] exI [of _ b3] exI [of _ idx] exI [of _ None] exI [of _ "(?fe, ids, bks', be')"])
          (simp add: run spec p lb_sent_def lb_state_ok_def lb_same_def)
    qed
  qed
qed

section \<open>Affinity\<close>

text \<open>
  \<open>lb_bound S p i v ip k t u\<close>: the flow \<open>p\<close> has the index \<open>i\<close> and the backend with the index \<open>v\<close>, which has the
  address \<open>ip\<close> and the entry \<open>k\<close>; the flow was used at \<open>t\<close> or later, and the backend at \<open>u\<close> or later.
\<close>

definition lb_bound ::
  "lb_abs \<Rightarrow> LoadBalancedFlow \<Rightarrow> int \<Rightarrow> u32 \<Rightarrow> u32 \<Rightarrow> LoadBalancedBackend \<Rightarrow> vigor_time \<Rightarrow> vigor_time \<Rightarrow> bool" where
  "lb_bound = (\<lambda>(fe, ids, bks, be) p i v ip k t u. emap_bound fe ids p i v t \<and> emap_bound be bks ip (uint v) k u)"

lemma lb_expired_ok:
  assumes "lb_state_ok pow2 config (fe, ids, bks, be) b now0" "0 \<le> now" "now < 2 ^ 63"
  shows "\<exists>b'. lb_ok pow2 config (emap_expire_all fe (now - lb_flow_expiration b * 1000), ids, bks,
     emap_expire_all be (now - lb_backend_expiration b * 1000)) b' \<and> lb_same b b'"
proof -
  obtain b1 where b1: "lb_ok pow2 config (emap_expire_all fe (now - lb_flow_expiration b * 1000), ids, bks, be) b1" "lb_same b b1"
    using lb_expire_flows_spec [of pow2 config fe ids bks be b now] assms by (auto simp: lb_state_ok_def)
  obtain b2 where "lb_ok pow2 config (emap_expire_all fe (now - lb_flow_expiration b * 1000), ids, bks,
     emap_expire_all be (now - lb_backend_expiration b1 * 1000)) b2" "lb_same b1 b2"
    using lb_expire_backends_spec [OF b1(1) assms(2,3)] by auto
  then show ?thesis using b1(2) by (auto simp: lb_same_def)
qed

lemma packet_source:
  assumes "fresh_packet n st"
  shows "\<exists>smac. ether_s_addr st 0 = Some (addr_bytes smac)"
proof -
  have "14 \<le> int (length (pkt st))" using assms by (auto simp: fresh_packet_def io_ok_def)
  then show ?thesis
    using ether_addr_of_bytes [of "take 6 (drop 6 (pkt st))"] by (auto simp: ether_s_addr_def ld_bytes_def intro: sym)
qed

lemma lb_expire_keeps:
  assumes "lb_ok pow2 config (fe, ids, bks, be) b" "lb_bound (fe, ids, bks, be) p i v ip k t u" "x \<le> t" "y \<le> u"
  shows "lb_bound (emap_expire_all fe x, ids, bks, emap_expire_all be y) p i v ip k t u"
  using assms(2-) emap_bound_expire [OF lb_ok_tables(1) [OF assms(1)]] emap_bound_expire [OF lb_ok_tables(2) [OF assms(1)]]
  by (auto simp: lb_bound_def)

lemma lb_erase_ok:
  assumes "lb_ok pow2 config (fe, ids, bks, be) b" "emap_has fe q"
  shows "\<exists>b'. lb_ok pow2 config (emap_erase fe q, ids, bks, be) b' \<and> lb_cht b' = lb_cht b"
proof -
  obtain chain' m' where "emap_table pow2 (emap_erase fe q) chain' (lb_flow_heap b) m'"
    using table_erase [OF lb_ok_tables(1) [OF assms(1)] assms(2)] by blast
  then have "lb_ok pow2 config (emap_erase fe q, ids, bks, be) (b\<lparr>lb_flow_map := m', lb_flow_chain := chain'\<rparr>)"
    using assms(1) by (simp add: lb_ok_def)
  then show ?thesis by fastforce
qed

text \<open>What is done for other flows and other backends leaves a bound flow and its backend as they are.\<close>

lemma lb_alloc_keeps:
  assumes spec: "lb_alloc_spec vs hash idx (fe, ids, bks, be) q now = (out, fe', ids', bks', be')"
    and ok: "lb_ok pow2 config (fe, ids, bks, be) b" "lb_ok pow2 config (fe', ids', bks', be') b'" and new: "\<not> emap_has fe q"
    and bound: "lb_bound (fe, ids, bks, be) p i v ip k t u"
  shows "lb_bound (fe', ids', bks', be') p i v ip k t u"
proof (cases "emap_exists_with_cht be vs hash \<and> \<not> emap_full fe")
  case True
  then have eqs: "fe' = emap_add fe q idx now" "ids' = ids[nat idx := word_of_int (emap_choose_with_cht be vs hash)]" "bks' = bks" "be' = be"
    using spec by (auto simp: lb_alloc_spec_def Let_def)
  have "emap_bound fe' ids' p i v t"
    unfolding eqs(1,2) by (rule emap_bound_add [OF lb_ok_tables(1) [OF ok(1)] lb_ok_tables(1) [OF ok(2), unfolded eqs(1)] new])
      (use bound in \<open>simp add: lb_bound_def\<close>)
  then show ?thesis using bound eqs(3,4) by (simp add: lb_bound_def)
next
  case False
  then show ?thesis using spec bound by (auto simp: lb_alloc_spec_def Let_def split: if_splits)
qed

lemma lb_client_keeps:
  assumes spec: "lb_client_spec vs hash idx (fe, ids, bks, be) q now = (out, fe', ids', bks', be')"
    and ok: "lb_ok pow2 config (fe, ids, bks, be) b" "lb_ok pow2 config (fe', ids', bks', be') b'"
    and bound: "lb_bound (fe, ids, bks, be) p i v ip k t u" and now: "t \<le> now"
  shows "lb_bound (fe', ids', bks', be') p i v ip k t u"
proof -
  note tab = lb_ok_tables [OF ok(1)]
  consider (new) "\<not> emap_has fe q" | (alive) "emap_has fe q" "emap_has_idx be (uint (ids ! nat (emap_get fe q)))"
    | (dead) "emap_has fe q" "\<not> emap_has_idx be (uint (ids ! nat (emap_get fe q)))" by blast
  then show ?thesis
  proof cases
    case new
    then show ?thesis using spec lb_alloc_keeps [OF _ ok new bound] by (auto simp: lb_client_spec_def)
  next
    case alive
    then have "fe' = emap_refresh_idx fe (emap_get fe q) now" "ids' = ids" "bks' = bks" "be' = be"
      using spec by (auto simp: lb_client_spec_def Let_def)
    then show ?thesis using bound emap_bound_refresh [OF tab(1) _ now, of ids p i v] by (simp add: lb_bound_def)
  next
    case dead
    have "emap_has_idx be (uint v)" "ids ! nat (emap_get fe p) = v"
      using bound table_facts(6) [OF tab(2), of "uint v"] by (auto simp: lb_bound_def emap_bound_def split: option.splits)
    then have "q \<noteq> p" using dead(2) by auto
    then have kept: "lb_bound (emap_erase fe q, ids, bks, be) p i v ip k t u"
      using bound emap_bound_erase [OF tab(1) dead(1), of p ids i v t] by (simp add: lb_bound_def)
    obtain b0 where b0: "lb_ok pow2 config (emap_erase fe q, ids, bks, be) b0" using lb_erase_ok [OF ok(1) dead(1)] by blast
    have "lb_alloc_spec vs hash idx (emap_erase fe q, ids, bks, be) q now = (out, fe', ids', bks', be')"
      using spec dead by (simp add: lb_client_spec_def Let_def)
    from lb_alloc_keeps [OF this b0 ok(2) _ kept] show ?thesis by (simp add: emap_erase_lookup)
  qed
qed

lemma lb_heartbeat_keeps:
  assumes spec: "lb_heartbeat_spec idx (fe, ids, bks, be) device mac a now = (fe', ids', bks', be')"
    and ok: "lb_ok pow2 config (fe, ids, bks, be) b" "lb_ok pow2 config (fe', ids', bks', be') b'"
    and bound: "lb_bound (fe, ids, bks, be) p i v ip k t u" and now: "u \<le> now"
  shows "lb_bound (fe', ids', bks', be') p i v ip k t u"
proof -
  note tab = lb_ok_tables(2) [OF ok(1)] and tab' = lb_ok_tables(2) [OF ok(2)]
  have b: "emap_bound be bks ip (uint v) k u" using bound by (simp add: lb_bound_def)
  have "emap_bound be' bks' ip (uint v) k u"
  proof (cases "emap_has be a \<or> emap_full be")
    case True
    then show ?thesis using spec b emap_bound_refresh [OF tab b now] by (auto simp: lb_heartbeat_spec_def split: if_splits)
  next
    case False
    then have eqs: "be' = emap_add be a idx now" "bks' = bks[nat idx := \<lparr>bk_nic = device, bk_mac = mac, bk_ip = a\<rparr>]"
      using spec by (simp_all add: lb_heartbeat_spec_def)
    show ?thesis unfolding eqs by (rule emap_bound_add [OF tab tab' [unfolded eqs(1)] _ b]) (use False in simp)
  qed
  moreover have "fe' = fe" "ids' = ids" using spec by (auto simp: lb_heartbeat_spec_def split: if_splits)
  ultimately show ?thesis using bound by (simp add: lb_bound_def)
qed

text \<open>
  \<open>lb_keeps\<close>: the load balancer is in order, and a bound flow and its backend are recent enough until
  \<open>deadline\<close>.
\<close>

definition lb_keeps ::
  "bool \<Rightarrow> lb_config \<Rightarrow> LoadBalancedFlow \<Rightarrow> int \<Rightarrow> u32 \<Rightarrow> u32 \<Rightarrow> LoadBalancedBackend \<Rightarrow> vigor_time \<Rightarrow> vigor_time \<Rightarrow> vigor_time
   \<Rightarrow> LoadBalancer \<Rightarrow> vigor_time \<Rightarrow> bool" where
  "lb_keeps pow2 config p i v ip k t u deadline b now \<longleftrightarrow>
     0 \<le> t \<and> t \<le> now \<and> u \<le> now \<and> deadline < 2 ^ 63 \<and> deadline - lb_flow_expiration b * 1000 \<le> t \<and>
     deadline - lb_backend_expiration b * 1000 \<le> u \<and>
     (\<exists>fe ids bks be. lb_state_ok pow2 config (fe, ids, bks, be) b now \<and> lb_bound (fe, ids, bks, be) p i v ip k t u)"

lemma lb_spec_keeps:
  assumes ok: "lb_state_ok pow2 config (fe, ids, bks, be) b now" "lb_ok pow2 config (fe', ids', bks', be') b'" and now: "0 \<le> now" "now < 2 ^ 63"
    and spec: "lb_spec (lb_flow_expiration b * 1000) (lb_backend_expiration b * 1000) wan flow_hash vs idx (fe, ids, bks, be)
       device mac packet now = (out, fe', ids', bks', be')"
    and bound: "lb_bound (fe, ids, bks, be) p i v ip k t u" "t \<le> now" "u \<le> now"
      "now - lb_flow_expiration b * 1000 \<le> t" "now - lb_backend_expiration b * 1000 \<le> u"
  shows "lb_bound (fe', ids', bks', be') p i v ip k t u"
proof -
  let ?fe = "emap_expire_all fe (now - lb_flow_expiration b * 1000)"
  let ?be = "emap_expire_all be (now - lb_backend_expiration b * 1000)"
  have "lb_ok pow2 config (fe, ids, bks, be) b" using ok(1) by (simp add: lb_state_ok_def)
  from lb_expire_keeps [OF this bound(1,4,5)] have kept: "lb_bound (?fe, ids, bks, ?be) p i v ip k t u" .
  obtain b0 where b0: "lb_ok pow2 config (?fe, ids, bks, ?be) b0" using lb_expired_ok [OF ok(1) now] by blast
  show ?thesis
  proof (cases packet)
    case None
    then show ?thesis using spec kept by (auto simp: lb_spec_def Let_def)
  next
    case (Some q)
    then show ?thesis
      using spec lb_client_keeps [OF _ b0 ok(2) kept bound(2)] lb_heartbeat_keeps [OF _ b0 ok(2) kept bound(3)]
      by (auto simp: lb_spec_def Let_def split: if_splits)
  qed
qed

lemma lb_process_keeps:
  assumes keeps: "lb_keeps pow2 config p i v ip k t u deadline b now0" and now: "now0 \<le> now" "now \<le> deadline"
    and dev: "uint device < int (length (lb_device_macs config))" and st: "fresh_packet n st" "n + 14 \<le> int (length (pkt st))"
  shows "\<exists>dst st' b'. lb_process pow2 config cks flow_hash raw b device st now = Some (dst, st', b') \<and>
     lb_keeps pow2 config p i v ip k t u deadline b' now \<and>
     (device = lb_wan_device config \<and> lb_packet n st = Some p \<longrightarrow> lb_sent config n st device (Some k) dst st')"
proof -
  obtain fe ids bks be where S: "lb_state_ok pow2 config (fe, ids, bks, be) b now0" "lb_bound (fe, ids, bks, be) p i v ip k t u"
    and lim: "0 \<le> t" "t \<le> now0" "u \<le> now0" "deadline < 2 ^ 63" "deadline - lb_flow_expiration b * 1000 \<le> t"
      "deadline - lb_backend_expiration b * 1000 \<le> u"
    using keeps by (auto simp: lb_keeps_def)
  have ok: "lb_state_ok pow2 config (fe, ids, bks, be) b now" using S(1) now(1) by (simp add: lb_state_ok_def)
  have t: "0 \<le> now" "now < 2 ^ 63" "t \<le> now" "u \<le> now" "now - lb_flow_expiration b * 1000 \<le> t" "now - lb_backend_expiration b * 1000 \<le> u"
    using lim now by linarith+
  obtain smac where mac: "ether_s_addr st 0 = Some (addr_bytes smac)" using packet_source [OF st(1)] by blast
  obtain dst st' b' idx out fe' ids' bks' be' where
    run: "lb_process pow2 config cks flow_hash raw b device st now = Some (dst, st', b')"
    "lb_spec (lb_flow_expiration b * 1000) (lb_backend_expiration b * 1000) (lb_wan_device config) (\<lambda>f. uint (flow_hash f))
       (cht_values (lb_cht b)) idx (fe, ids, bks, be) device smac (lb_packet n st) now = (out, fe', ids', bks', be')"
    "lb_sent config n st device out dst st'" "lb_state_ok pow2 config (fe', ids', bks', be') b' now" "lb_same b b'"
    using lb_process_spec [OF ok t(1,2) dev st mac, of cks flow_hash raw] by (metis prod.exhaust)
  have ok': "lb_ok pow2 config (fe', ids', bks', be') b'" using run(4) by (simp add: lb_state_ok_def)
  have "lb_bound (fe', ids', bks', be') p i v ip k t u" by (rule lb_spec_keeps [OF ok ok' t(1,2) run(2) S(2) t(3-)])
  then have "lb_keeps pow2 config p i v ip k t u deadline b' now"
    unfolding lb_keeps_def using lim t run(4,5) by (auto simp: lb_same_def)
  moreover have "out = Some k" if "device = lb_wan_device config" "lb_packet n st = Some p"
  proof -
    let ?fe = "emap_expire_all fe (now - lb_flow_expiration b * 1000)"
    let ?be = "emap_expire_all be (now - lb_backend_expiration b * 1000)"
    obtain b0 where b0: "lb_ok pow2 config (?fe, ids, bks, ?be) b0" using lb_expired_ok [OF ok t(1,2)] by blast
    have "lb_bound (?fe, ids, bks, ?be) p i v ip k t u"
      using lb_expire_keeps [OF _ S(2) t(5,6), of pow2 config b] ok by (simp add: lb_state_ok_def)
    then have "emap_has ?fe p" "ids ! nat (emap_get ?fe p) = v" "bks ! nat (uint v) = k" "emap_has_idx ?be (uint v)"
      using table_facts(6) [OF lb_ok_tables(2) [OF b0], of "uint v"] by (auto simp: lb_bound_def emap_bound_def split: option.splits)
    then show ?thesis using run(2) that by (auto simp: lb_spec_def lb_client_spec_def Let_def)
  qed
  ultimately show ?thesis using run(1,3) by blast
qed

interpretation lb_runs: packet_run "\<lambda>s device st _ now. lb_process pow2 config cks flow_hash raw s device st now"
  "lb_keeps pow2 config p i v ip k t u deadline"
  "\<lambda>device st. uint device < int (length (lb_device_macs config)) \<and> (\<exists>n. fresh_packet n st \<and> n + 14 \<le> int (length (pkt st)))" deadline
  for pow2 config cks flow_hash raw p i v ip k t u deadline
proof
  fix s t' now and device :: u16 and st
  assume keeps: "lb_keeps pow2 config p i v ip k t u deadline s t'" and now: "t' \<le> now" "now \<le> deadline"
    and "uint device < int (length (lb_device_macs config)) \<and> (\<exists>n. fresh_packet n st \<and> n + 14 \<le> int (length (pkt st)))"
  then obtain n where n: "uint device < int (length (lb_device_macs config))" "fresh_packet n st" "n + 14 \<le> int (length (pkt st))" by blast
  show "\<exists>dst st' s'. lb_process pow2 config cks flow_hash raw s device st now = Some (dst, st', s') \<and>
      lb_keeps pow2 config p i v ip k t u deadline s' now"
    using lb_process_keeps [OF keeps now n] by blast
qed

text \<open>A packet of a client that is sent to a backend binds its flow to it, unless the table of the flows is full.\<close>

lemma lb_alloc_binds:
  assumes spec: "lb_alloc_spec vs hash idx (fe, ids, bks, be) p now = (Some k, fe', ids', bks', be')"
    and ok: "lb_ok pow2 config (fe, ids, bks, be) b" "lb_ok pow2 config (fe', ids', bks', be') b'"
    and vs: "vs = cht_values (lb_cht b)" and hash: "hash = uint (h :: u32)" and room: "\<not> emap_full fe"
  shows "\<exists>i v. emap_has_idx be (uint v) \<and> k = bks ! nat (uint v) \<and> emap_bound fe' ids' p i v now \<and> bks' = bks \<and> be' = be"
proof -
  note tab = lb_ok_tables(1) [OF ok(1)] and tab' = lb_ok_tables(1) [OF ok(2)] and tabb = lb_ok_tables(2) [OF ok(1)]
  define c where "c = emap_choose_with_cht be vs hash"
  have ex: "emap_exists_with_cht be vs hash" using spec by (auto simp: lb_alloc_spec_def split: if_splits)
  have eqs: "fe' = emap_add fe p idx now" "ids' = ids[nat idx := word_of_int c]" "k = bks ! nat c" "bks' = bks" "be' = be"
    using spec ex room by (auto simp: lb_alloc_spec_def c_def [symmetric])
  have c: "emap_has_idx be c" using lb_cht_find(2) [OF ok(1), of h] ex unfolding vs hash c_def by blast
  have "int (length ids) = emap_range fe" using ok(1) by (simp add: lb_ok_def)
  then have "emap_bound fe' ids' p idx (word_of_int c) now"
    unfolding eqs(1,2) by (rule emap_bound_used(2) [OF tab tab' [unfolded eqs(1)]])
  moreover have "0 \<le> c" "c < 2 ^ 31" using table_facts(5) [OF tabb c] table_facts(10) [OF tabb] by auto
  then have "uint (word_of_int c :: u32) = c" by (simp add: uint_word_of_int)
  ultimately show ?thesis using c eqs(3-) by metis
qed

lemma lb_client_binds:
  assumes spec: "lb_client_spec vs hash idx (fe, ids, bks, be) p now = (Some k, fe', ids', bks', be')"
    and ok: "lb_ok pow2 config (fe, ids, bks, be) b" "lb_ok pow2 config (fe', ids', bks', be') b'"
    and vs: "vs = cht_values (lb_cht b)" and hash: "hash = uint (h :: u32)" and room: "emap_has fe p \<or> \<not> emap_full fe"
  shows "\<exists>i v. emap_has_idx be (uint v) \<and> k = bks ! nat (uint v) \<and> emap_bound fe' ids' p i v now \<and> bks' = bks \<and> be' = be"
proof -
  note tab = lb_ok_tables(1) [OF ok(1)]
  consider (new) "\<not> emap_has fe p" | (alive) "emap_has fe p" "emap_has_idx be (uint (ids ! nat (emap_get fe p)))"
    | (dead) "emap_has fe p" "\<not> emap_has_idx be (uint (ids ! nat (emap_get fe p)))" by blast
  then show ?thesis
  proof cases
    case new
    then show ?thesis using spec lb_alloc_binds [OF _ ok vs hash] room by (simp add: lb_client_spec_def)
  next
    case alive
    then have "k = bks ! nat (uint (ids ! nat (emap_get fe p)))" "fe' = emap_refresh_idx fe (emap_get fe p) now" "ids' = ids" "bks' = bks" "be' = be"
      using spec by (auto simp: lb_client_spec_def Let_def)
    then show ?thesis using alive emap_bound_used(1) [OF tab alive(1)] by metis
  next
    case dead
    obtain b0 where b0: "lb_ok pow2 config (emap_erase fe p, ids, bks, be) b0" "lb_cht b0 = lb_cht b"
      using lb_erase_ok [OF ok(1) dead(1)] by blast
    have "lb_alloc_spec vs hash idx (emap_erase fe p, ids, bks, be) p now = (Some k, fe', ids', bks', be')"
      using spec dead by (simp add: lb_client_spec_def Let_def)
    from lb_alloc_binds [OF this b0(1) ok(2) _ hash emap_erase_room [OF tab dead(1)]] show ?thesis using vs b0(2) by simp
  qed
qed

text \<open>
  The first packet. The backend is alive until \<open>deadline\<close> when every backend with the device and the address
  that the packet was sent to was heard of recently enough.
\<close>

lemma lb_first_keeps:
  assumes ok: "lb_state_ok pow2 config (fe, ids, bks, be) b now" and now: "0 \<le> now" "now < 2 ^ 63"
    and wan: "uint (lb_wan_device config) < int (length (lb_device_macs config))"
    and st: "fresh_packet n st" "n + 14 \<le> int (length (pkt st))" "lb_packet n st = Some p"
    and fe0: "fe0 = emap_expire_all fe (now - lb_flow_expiration b * 1000)" and room: "emap_has fe0 p \<or> \<not> emap_full fe0"
    and time: "deadline < 2 ^ 63" "deadline - lb_flow_expiration b * 1000 \<le> now"
    and live: "\<forall>c u. emap_time be c = Some u \<and> bk_nic (bks ! nat c) = dst \<and> dst_addr st' 14 = Some (bk_ip (bks ! nat c)) \<longrightarrow>
        deadline - lb_backend_expiration b * 1000 \<le> u"
    and run: "lb_process pow2 config cks flow_hash raw b (lb_wan_device config) st now = Some (dst, st', b')" "dst \<noteq> lb_wan_device config"
  shows "\<exists>i v ip k u. lb_keeps pow2 config p i v ip k now u deadline b' now \<and> lb_sent config n st (lb_wan_device config) (Some k) dst st'"
proof -
  let ?be = "emap_expire_all be (now - lb_backend_expiration b * 1000)"
  obtain smac where mac: "ether_s_addr st 0 = Some (addr_bytes smac)" using packet_source [OF st(1)] by blast
  obtain idx out fe' ids' bks' be' where one:
    "lb_spec (lb_flow_expiration b * 1000) (lb_backend_expiration b * 1000) (lb_wan_device config) (\<lambda>f. uint (flow_hash f))
       (cht_values (lb_cht b)) idx (fe, ids, bks, be) (lb_wan_device config) smac (Some p) now = (out, fe', ids', bks', be')"
    "lb_sent config n st (lb_wan_device config) out dst st'" "lb_state_ok pow2 config (fe', ids', bks', be') b' now" "lb_same b b'"
    using lb_process_spec [OF ok now wan st(1,2) mac, of cks flow_hash raw] run(1) st(3) by fastforce
  obtain k where k: "out = Some k" using one(2) run(2) by (auto simp: lb_sent_def split: option.splits)
  have spec: "lb_client_spec (cht_values (lb_cht b)) (uint (flow_hash p)) idx (fe0, ids, bks, ?be) p now = (Some k, fe', ids', bks', be')"
    using one(1) k by (simp add: lb_spec_def Let_def fe0)
  obtain b0 where b0: "lb_ok pow2 config (fe0, ids, bks, ?be) b0" "lb_same b b0" using lb_expired_ok [OF ok now] fe0 by blast
  have ok': "lb_ok pow2 config (fe', ids', bks', be') b'" using one(3) by (simp add: lb_state_ok_def)
  have "cht_values (lb_cht b) = cht_values (lb_cht b0)" using b0(2) by (simp add: lb_same_def)
  from lb_client_binds [OF spec b0(1) ok' this refl room] obtain i v where c: "emap_has_idx ?be (uint v)" "k = bks ! nat (uint v)"
    "emap_bound fe' ids' p i v now" "bks' = bks" "be' = ?be" by blast
  note tabb = lb_ok_tables(2) [OF b0(1)]
  have "emap_table pow2 be (lb_active b) (lb_backend_ips b) (lb_ip_map b)" using ok by (simp add: lb_state_ok_def lb_ok_def)
  note look = emap_expire_lookup(1,2) [OF this, of "now - lb_backend_expiration b * 1000" "uint v"]
  obtain u where u: "emap_time be (uint v) = Some u" "emap_time ?be (uint v) = Some u"
    using look c(1) by (auto split: if_splits)
  have "deadline - lb_backend_expiration b * 1000 \<le> u" using live [rule_format, of "uint v" u] u(1) one(2) k c(2) by (simp add: lb_sent_def)
  moreover have "u \<le> now" using table_time_le [OF tabb u(2)] ok by (simp add: lb_state_ok_def)
  moreover have "emap_bound be' bks' (emap_get_key ?be (uint v)) (uint v) k u"
    using table_facts(3,4) [OF tabb c(1)] u(2) c(2,4,5) by (simp add: emap_bound_def)
  ultimately have "lb_keeps pow2 config p i v (emap_get_key ?be (uint v)) k now u deadline b' now"
    unfolding lb_keeps_def using now time one(3,4) c(3) by (auto simp: lb_bound_def lb_same_def)
  then show ?thesis using one(2) k by blast
qed

section \<open>Properties\<close>

text \<open>
  C8. The packet handler of the load balancer implements its specification: for every packet it
  ends without a fault, in a coherent state that is the one the specification gives, and it
  sends the packet, with the addresses of the backend, exactly when the specification does; a
  packet that is not sent is not changed.
\<close>

theorem lb_process_refines_spec:
  assumes "lb_state_ok pow2 config (fe, ids, bks, be) b now" "0 \<le> now" "now < 2 ^ 63"
    "uint device < int (length (lb_device_macs config))" "fresh_packet n st" "n + 14 \<le> int (length (pkt st))"
    "ether_s_addr st 0 = Some (addr_bytes smac)"
  shows "\<exists>dst st' b' idx out S'. lb_process pow2 config cks flow_hash raw b device st now = Some (dst, st', b') \<and>
     lb_spec (lb_flow_expiration b * 1000) (lb_backend_expiration b * 1000) (lb_wan_device config) (\<lambda>f. uint (flow_hash f))
       (cht_values (lb_cht b)) idx (fe, ids, bks, be) device smac (lb_packet n st) now = (out, S') \<and>
     lb_sent config n st device out dst st' \<and> lb_state_ok pow2 config S' b' now \<and> lb_same b b'"
  by (rule lb_process_spec [OF assms])

text \<open>
  C19. Flows stay with their backend. Take a packet of a client that is sent to a backend, whose flow is in
  the table after it, because it was there or the table has room. After any packets in between, from
  clients or from inside, which may announce new backends, a later packet of the flow is sent to the same
  device, address and MAC address, as long as the flow has not expired since the first packet, and the backend
  not since it was last heard of before the first packet; other backends may come and go. All packets come
  from configured devices, in order of time, in buffers with room for the checksum.
\<close>

theorem lb_affinity:
  assumes ok: "lb_state_ok pow2 config (fe, ids, bks, be) b now" and now: "0 \<le> now" "now < 2 ^ 63" "now2 < 2 ^ 63"
    and wan: "uint (lb_wan_device config) < int (length (lb_device_macs config))"
    and st: "fresh_packet n st" "n + 14 \<le> int (length (pkt st))" "lb_packet n st = Some p"
    and st2: "fresh_packet l st2" "l + 14 \<le> int (length (pkt st2))" "lb_packet l st2 = Some p"
    and fe0: "fe0 = emap_expire_all fe (now - lb_flow_expiration b * 1000)" and room: "emap_has fe0 p \<or> \<not> emap_full fe0"
    and live: "now2 - lb_flow_expiration b * 1000 \<le> now"
      "\<forall>c u. emap_time be c = Some u \<and> bk_nic (bks ! nat c) = dst \<and> dst_addr st' 14 = Some (bk_ip (bks ! nat c)) \<longrightarrow>
        now2 - lb_backend_expiration b * 1000 \<le> u"
    and run: "lb_process pow2 config cks flow_hash raw b (lb_wan_device config) st now = Some (dst, st', b1)" "dst \<noteq> lb_wan_device config"
    and between: "sorted (now # map arrival_time ps @ [now2])"
      "\<forall>a \<in> set ps. uint (fst a) < int (length (lb_device_macs config)) \<and>
         (\<exists>m. fresh_packet m (fst (snd a)) \<and> m + 14 \<le> int (length (pkt (fst (snd a)))))"
  shows "\<exists>dsts b2 st2' b3. nf_run (\<lambda>s device st _ now. lb_process pow2 config cks flow_hash raw s device st now) b1 ps = Some (dsts, b2) \<and>
     lb_process pow2 config cks flow_hash raw b2 (lb_wan_device config) st2 now2 = Some (dst, st2', b3) \<and>
     dst_addr st2' 14 = dst_addr st' 14 \<and> ether_d_addr st2' 0 = ether_d_addr st' 0"
proof -
  obtain i v ip k u where one: "lb_keeps pow2 config p i v ip k now u now2 b1 now" "lb_sent config n st (lb_wan_device config) (Some k) dst st'"
    using lb_first_keeps [OF ok now(1,2) wan st fe0 room now(3) live run] by blast
  obtain dsts b2 t where two: "nf_run (\<lambda>s device st _ now. lb_process pow2 config cks flow_hash raw s device st now) b1 ps = Some (dsts, b2)"
    "lb_keeps pow2 config p i v ip k now u now2 b2 t" "t \<le> now2"
    using lb_runs.run_then [OF one(1) between] by metis
  obtain dst' st2' b3 where "lb_process pow2 config cks flow_hash raw b2 (lb_wan_device config) st2 now2 = Some (dst', st2', b3)"
    "lb_sent config l st2 (lb_wan_device config) (Some k) dst' st2'"
    using lb_process_keeps [OF two(2,3) order_refl wan st2(1,2), of cks flow_hash raw] st2(3) by blast
  then show ?thesis using two(1) one(2) by (auto simp: lb_sent_def)
qed

section \<open>An example\<close>

definition ex_lb_flow :: "u16 \<Rightarrow> LoadBalancedFlow" where
  "ex_lb_flow sport = \<lparr>lf_src_ip = 0x0100000a, lf_dst_ip = 0x0200000a, lf_src_port = sport, lf_dst_port = 2, lf_protocol = 6\<rparr>"

definition ex_mac :: "u8 \<Rightarrow> rte_ether_addr" where
  "ex_mac x = rte_ether_addrc 2 0 0 0 1 x"

definition ex_lb_config :: lb_config where
  "ex_lb_config = \<lparr>lb_device_macs = [ex_mac 1, ex_mac 2, ex_mac 3], lb_wan_device = 2\<rparr>"

definition ex_backend :: "u16 \<Rightarrow> LoadBalancedBackend" where
  "ex_backend d = \<lparr>bk_nic = d, bk_mac = ex_mac 9, bk_ip = 7\<rparr>"

definition ex_balancer :: LoadBalancer where
  "ex_balancer = \<lparr>lb_flow_expiration = 1, lb_backend_expiration = 1, lb_flow_map = ex_flows (ex_lb_flow 7) (ex_lb_flow 8),
     lb_flow_heap = ex_vector (ex_lb_flow 7) (ex_lb_flow 8), lb_flow_chain = ex_chain,
     lb_flow_backend = \<lparr>v_data = [0, 1, 0], v_elem_size = 4, v_capacity = 3\<rparr>, lb_ip_map = ex_flows 7 8,
     lb_backend_ips = ex_vector 7 8, lb_backends = \<lparr>v_data = [ex_backend 0, ex_backend 1, ex_backend 0], v_elem_size = 12, v_capacity = 3\<rparr>,
     lb_active = ex_chain, lb_cht = ex_cht, lb_backend_capacity = 3, lb_cht_height = 5\<rparr>"

abbreviation ex_lb_flows :: "LoadBalancedFlow emap" where
  "ex_lb_flows \<equiv> emap_of (ex_vector (ex_lb_flow 7) (ex_lb_flow 8)) (dchain [(0, 5), (1, 7)] 3 0 7)"

abbreviation ex_lb_backends :: "u32 emap" where
  "ex_lb_backends \<equiv> emap_of (ex_vector 7 8) (dchain [(0, 5), (1, 7)] 3 0 7)"

abbreviation ex_cksums :: cksums where
  "ex_cksums \<equiv> \<lparr>rte_ipv4_udptcp_cksum = (\<lambda>_ _ _. 0), rte_ipv4_cksum = (\<lambda>_ _. 0)\<rparr>"

lemma ex_lb_ok:
  "lb_state_ok True ex_lb_config (ex_lb_flows, [0, 1, 0], [ex_backend 0, ex_backend 1, ex_backend 0], ex_lb_backends) ex_balancer 8"
proof -
  have "emap_table True ex_lb_flows ex_chain (ex_vector (ex_lb_flow 7) (ex_lb_flow 8)) (ex_flows (ex_lb_flow 7) (ex_lb_flow 8))"
    "emap_table True ex_lb_backends ex_chain (ex_vector 7 8) (ex_flows 7 8)"
    by (intro emap_table_of ex_flow_table_ok; simp add: ex_lb_flow_def)+
  moreover have "\<forall>i. emap_has_idx ex_lb_backends i \<longrightarrow>
      lb_backend_ok ex_lb_config ([ex_backend 0, ex_backend 1, ex_backend 0] ! nat i)"
    by (auto simp: emap_of_def lb_backend_ok_def ex_lb_config_def ex_backend_def)
  ultimately show ?thesis
    using ex_cht_ok by (simp add: lb_state_ok_def lb_ok_def ex_balancer_def vector_wf_def)
qed

lemma ex_lb_packet: "lb_packet 60 ex_packet = Some (ex_lb_flow 1)"
  by code_simp

lemma ex_lb_spec:
  "fst (lb_spec 1000 1000 2 (\<lambda>_. 2) (cht_values ex_cht) idx
     (ex_lb_flows, [0, 1, 0], [ex_backend 0, ex_backend 1, ex_backend 0], ex_lb_backends) 2 mac (Some (ex_lb_flow 1)) 8) =
   Some (ex_backend 0)"
  by code_simp

lemma ex_lb_params:
  "lb_flow_expiration ex_balancer = 1" "lb_backend_expiration ex_balancer = 1" "lb_cht ex_balancer = ex_cht"
  "lb_wan_device ex_lb_config = 2" "length (lb_device_macs ex_lb_config) = 3"
  by (simp_all add: ex_balancer_def ex_lb_config_def)

lemma ex_packet_source: "ether_s_addr ex_packet 0 = Some (addr_bytes (rte_ether_addrc 0 0 0 0 0 0))"
  by code_simp

lemma ex_lb_room: "60 + 14 \<le> int (length (pkt ex_packet))"
  by (simp add: ex_packet_length)

lemma ex_lb_run:
  "\<exists>st' b1. lb_process True ex_lb_config ex_cksums (\<lambda>_. 2) (ex_backend 0) ex_balancer 2 ex_packet 8 = Some (0, st', b1)"
proof -
  obtain dst st' b' idx out S' where
    "lb_process True ex_lb_config ex_cksums (\<lambda>_. 2) (ex_backend 0) ex_balancer 2 ex_packet 8 = Some (dst, st', b')"
    "lb_spec 1000 1000 2 (\<lambda>_. 2) (cht_values ex_cht) idx (ex_lb_flows, [0, 1, 0], [ex_backend 0, ex_backend 1, ex_backend 0], ex_lb_backends)
       2 (rte_ether_addrc 0 0 0 0 0 0) (Some (ex_lb_flow 1)) 8 = (out, S')"
    "lb_sent ex_lb_config 60 ex_packet 2 out dst st'"
    using lb_process_spec [OF ex_lb_ok _ _ _ ex_packet_fresh ex_lb_room ex_packet_source, of 2 ex_cksums "\<lambda>_. 2" "ex_backend 0"]
    by (auto simp: ex_lb_params ex_lb_packet)
  then show ?thesis using ex_lb_spec [of idx "rte_ether_addrc 0 0 0 0 0 0"] by (auto simp: lb_sent_def ex_backend_def)
qed

theorem lb_process_refines_spec_witness:
  "\<exists>st' b'. lb_process True ex_lb_config ex_cksums (\<lambda>_. 2) (ex_backend 0) ex_balancer 2 ex_packet 8 = Some (0, st', b') \<and>
     dst_addr st' 14 = Some 7"
proof -
  obtain dst st' b' idx out S' where
    "lb_process True ex_lb_config ex_cksums (\<lambda>_. 2) (ex_backend 0) ex_balancer 2 ex_packet 8 = Some (dst, st', b')"
    "lb_spec 1000 1000 2 (\<lambda>_. 2) (cht_values ex_cht) idx (ex_lb_flows, [0, 1, 0], [ex_backend 0, ex_backend 1, ex_backend 0], ex_lb_backends)
       2 (rte_ether_addrc 0 0 0 0 0 0) (Some (ex_lb_flow 1)) 8 = (out, S')"
    "lb_sent ex_lb_config 60 ex_packet 2 out dst st'"
    using lb_process_refines_spec [OF ex_lb_ok _ _ _ ex_packet_fresh ex_lb_room ex_packet_source, of 2 ex_cksums "\<lambda>_. 2" "ex_backend 0"]
    by (auto simp: ex_lb_params ex_lb_packet)
  then show ?thesis using ex_lb_spec [of idx "rte_ether_addrc 0 0 0 0 0 0"] by (auto simp: lb_sent_def ex_backend_def)
qed

theorem lb_affinity_witness:
  "\<exists>st' b1 dsts b2 st2' b3.
     lb_process True ex_lb_config ex_cksums (\<lambda>_. 2) (ex_backend 0) ex_balancer 2 ex_packet 8 = Some (0, st', b1) \<and>
     nf_run (\<lambda>s device st _ now. lb_process True ex_lb_config ex_cksums (\<lambda>_. 2) (ex_backend 0) s device st now) b1
       [(1, ex_packet, 60, 9), (2, ex_packet, 60, 10)] = Some (dsts, b2) \<and>
     lb_process True ex_lb_config ex_cksums (\<lambda>_. 2) (ex_backend 0) b2 2 ex_packet 500 = Some (0, st2', b3) \<and>
     dst_addr st2' 14 = dst_addr st' 14"
proof -
  obtain st' b1 where run: "lb_process True ex_lb_config ex_cksums (\<lambda>_. 2) (ex_backend 0) ex_balancer (lb_wan_device ex_lb_config) ex_packet 8 = Some (0, st', b1)"
    using ex_lb_run by (auto simp: ex_lb_params)
  have new: "\<not> emap_full (emap_expire_all ex_lb_flows (8 - lb_flow_expiration ex_balancer * 1000))" by code_simp
  have live: "\<forall>c u. emap_time ex_lb_backends c = Some u \<and> bk_nic ([ex_backend 0, ex_backend 1, ex_backend 0] ! nat c) = 0 \<and>
      dst_addr st' 14 = Some (bk_ip ([ex_backend 0, ex_backend 1, ex_backend 0] ! nat c)) \<longrightarrow> 500 - lb_backend_expiration ex_balancer * 1000 \<le> u"
    by (auto simp: ex_lb_params split: if_splits)
  have ps: "\<forall>a \<in> set [(1 :: u16, ex_packet, 60, 9), (2, ex_packet, 60, 10)]. uint (fst a) < int (length (lb_device_macs ex_lb_config)) \<and>
      (\<exists>m. fresh_packet m (fst (snd a)) \<and> m + 14 \<le> int (length (pkt (fst (snd a)))))"
    using ex_packet_fresh ex_lb_room by (auto simp: ex_lb_params)
  show ?thesis
    using lb_affinity [OF ex_lb_ok _ _ _ _ ex_packet_fresh ex_lb_room ex_lb_packet ex_packet_fresh ex_lb_room ex_lb_packet
        refl disjI2 [OF new] _ live run _ _ ps] run
    by (simp add: ex_lb_params) blast
qed

end
