(* ===== verification/Vigpolifw.thy ===== *)
theory Vigpolifw
  imports Vigfw Vigpol
begin

text \<open>
  The two functions that are a firewall and a policer in one, \<open>vigpolifw\<close>, which polices what
  comes in, and \<open>vigpoliupfw\<close>, which polices what goes out. The flow managers of both are the
  same file, the one of \<open>vigfw\<close> followed by the policer of \<open>vigpol\<close>, with two differences that
  are modelled: the limits are parameters of 16 bits, and the state has both tables. Each
  packet goes through both parts, and leaves when neither of them drops it.
\<close>

declare of_nat_unat [simp del]

section \<open>The code\<close>

record pif_config =
  pif_wan_device :: u16
  pif_lan_device :: u16
  pif_rate :: u64
  pif_burst :: u64
  pif_device_macs :: "u8 list list"
  pif_endpoint_macs :: "u8 list list"

record PifManager =
  pif_flows :: FwManager
  pif_buckets :: pol_state

definition pif_manager_allocate ::
  "bool \<Rightarrow> (u64 \<Rightarrow> u16 \<Rightarrow> u32 \<Rightarrow> u32 \<Rightarrow>
     (((FwFlowId kptr, FwFlowId) vmap \<times> FwFlowId Vector \<times> u32 Vector \<times> DoubleChain) \<times> pol_state) option)
   \<Rightarrow> u16 \<Rightarrow> vigor_time \<Rightarrow> u64 \<Rightarrow> u32 \<Rightarrow> u32 \<Rightarrow> PifManager option" where
  "pif_manager_allocate malloc_ok alloc_state fw_device exp max_flows capacity dev_count =
     (if \<not> malloc_ok then None
      else case alloc_state max_flows fw_device capacity dev_count of
        None \<Rightarrow> None
      | Some ((m, v, d, h), s) \<Rightarrow>
          Some \<lparr>pif_flows = \<lparr>fw_fm = m, fw_fv = v, fw_int_devices = d, fw_heap = h, fw_expiration = exp\<rparr>,
                pif_buckets = s\<rparr>)"

text \<open>
  \<open>config.burst\<close> and \<open>config.rate\<close> have 64 bits; the functions of the flow manager take them as
  \<open>uint16_t\<close>, so the call keeps the low 16 bits, and C promotes them again in the arithmetic.
\<close>

definition pif_limits :: "u16 \<Rightarrow> u16 \<Rightarrow> u16 \<Rightarrow> u16 \<Rightarrow> pol_config" where
  "pif_limits lan wan burst rate =
     \<lparr>pol_lan_device = lan, pol_wan_device = wan, pol_rate = ucast rate, pol_burst = ucast burst\<rparr>"

definition pif_expire_entries :: "bool \<Rightarrow> vigor_time \<Rightarrow> u16 \<Rightarrow> u16 \<Rightarrow> PifManager \<Rightarrow> (int \<times> PifManager) option" where
  "pif_expire_entries pow2 time burst rate manager = do {
     (n, s) \<leftarrow> policer_expire_entries pow2 (pif_limits 0 0 burst rate) (pif_buckets manager) time;
     Some (n, manager\<lparr>pif_buckets := s\<rparr>)
   }"

definition pif_check_tb ::
  "bool \<Rightarrow> u32 \<Rightarrow> u16 \<Rightarrow> vigor_time \<Rightarrow> PifManager \<Rightarrow> u16 \<Rightarrow> u16 \<Rightarrow> (bool \<times> PifManager) option" where
  "pif_check_tb pow2 dst sz time manager burst rate = do {
     (fwd, s) \<leftarrow> policer_check_tb pow2 (pif_limits 0 0 burst rate) (pif_buckets manager) dst sz time;
     Some (fwd, manager\<lparr>pif_buckets := s\<rparr>)
   }"

definition pif_process_firewall ::
  "bool \<Rightarrow> pif_config \<Rightarrow> PifManager \<Rightarrow> u16 \<Rightarrow> int \<Rightarrow> int \<Rightarrow> packet_io \<Rightarrow> vigor_time \<Rightarrow> (u16 \<times> PifManager) option" where
  "pif_process_firewall pow2 config manager device ip l4 st now = do {
     fm \<leftarrow> fw_expire pow2 (pif_flows manager) now;
     sport \<leftarrow> src_port st l4;
     dport \<leftarrow> dst_port st l4;
     saddr \<leftarrow> src_addr st ip;
     daddr \<leftarrow> dst_addr st ip;
     proto \<leftarrow> next_proto_id st ip;
     if device = pif_wan_device config then do {
       let fid = \<lparr>fw_src_port = dport, fw_dst_port = sport, fw_src_ip = daddr, fw_dst_ip = saddr,
                 fw_protocol = proto\<rparr>;
       (known, dst_device_long, fm) \<leftarrow> fw_get_refresh_flow pow2 fm fid now 0;
       if \<not> known then Some (device, manager\<lparr>pif_flows := fm\<rparr>)
       else Some (ucast dst_device_long, manager\<lparr>pif_flows := fm\<rparr>)
     } else do {
       let fid = \<lparr>fw_src_port = sport, fw_dst_port = dport, fw_src_ip = saddr, fw_dst_ip = daddr,
                 fw_protocol = proto\<rparr>;
       fm \<leftarrow> fw_allocate_or_refresh_flow pow2 fm fid (ucast device) now;
       Some (pif_wan_device config, manager\<lparr>pif_flows := fm\<rparr>)
     }
   }"

definition pif_process_policer ::
  "bool \<Rightarrow> pif_config \<Rightarrow> PifManager \<Rightarrow> u16 \<Rightarrow> int \<Rightarrow> packet_io \<Rightarrow> vigor_time \<Rightarrow> u16 \<Rightarrow> (u16 \<times> PifManager) option" where
  "pif_process_policer pow2 config manager device ip st now packet_length = do {
     (_, manager) \<leftarrow> pif_expire_entries pow2 now (ucast (pif_burst config)) (ucast (pif_rate config)) manager;
     if device = pif_lan_device config then Some (pif_wan_device config, manager)
     else if device = pif_wan_device config then do {
       dst \<leftarrow> dst_addr st ip;
       (fwd, manager) \<leftarrow> pif_check_tb pow2 dst packet_length now manager (ucast (pif_burst config)) (ucast (pif_rate config));
       Some (if fwd then pif_lan_device config else pif_wan_device config, manager)
     } else Some (device, manager)
   }"

definition puf_process_policer ::
  "bool \<Rightarrow> pif_config \<Rightarrow> PifManager \<Rightarrow> u16 \<Rightarrow> int \<Rightarrow> packet_io \<Rightarrow> vigor_time \<Rightarrow> u16 \<Rightarrow> (u16 \<times> PifManager) option" where
  "puf_process_policer pow2 config manager device ip st now packet_length = do {
     (_, manager) \<leftarrow> pif_expire_entries pow2 now (ucast (pif_burst config)) (ucast (pif_rate config)) manager;
     if device = pif_wan_device config then Some (pif_lan_device config, manager)
     else if device = pif_lan_device config then do {
       dst \<leftarrow> dst_addr st ip;
       (fwd, manager) \<leftarrow> pif_check_tb pow2 dst packet_length now manager (ucast (pif_burst config)) (ucast (pif_rate config));
       Some (if fwd then pif_wan_device config else pif_lan_device config, manager)
     } else Some (device, manager)
   }"

text \<open>The handler, for the part of either program that polices.\<close>

definition polifw_process ::
  "(PifManager \<Rightarrow> u16 \<Rightarrow> int \<Rightarrow> packet_io \<Rightarrow> vigor_time \<Rightarrow> u16 \<Rightarrow> (u16 \<times> PifManager) option)
   \<Rightarrow> bool \<Rightarrow> pif_config \<Rightarrow> PifManager \<Rightarrow> u16 \<Rightarrow> packet_io \<Rightarrow> u16 \<Rightarrow> vigor_time
   \<Rightarrow> (u16 \<times> packet_io \<times> PifManager) option" where
  "polifw_process policer pow2 config manager device st packet_length now = do {
     (eth, st) \<leftarrow> nf_then_get_rte_ether_header st;
     (ip_hdr, _, st) \<leftarrow> nf_then_get_rte_ipv4_header eth st;
     case ip_hdr of
       None \<Rightarrow> Some (device, st, manager)
     | Some ip \<Rightarrow> do {
         (l4_hdr, st) \<leftarrow> nf_then_get_tcpudp_header ip st;
         case l4_hdr of
           None \<Rightarrow> Some (device, st, manager)
         | Some l4 \<Rightarrow> do {
             (dst_device_fw, manager) \<leftarrow> pif_process_firewall pow2 config manager device ip l4 st now;
             (dst_device_pol, manager) \<leftarrow> policer manager device ip st now packet_length;
             if dst_device_pol = device \<or> dst_device_fw = device then Some (device, st, manager)
             else do {
               cassert (dst_device_pol = dst_device_fw);
               smac \<leftarrow> arr_get (pif_device_macs config) (uint dst_device_pol);
               b \<leftarrow> st_bytes (pkt st) (eth + 6) smac;
               dmac \<leftarrow> arr_get (pif_endpoint_macs config) (uint dst_device_pol);
               b \<leftarrow> st_bytes b eth dmac;
               Some (dst_device_pol, st\<lparr>pkt := b\<rparr>, manager)
             }
           }
       }
   }"

definition pif_process ::
  "bool \<Rightarrow> pif_config \<Rightarrow> PifManager \<Rightarrow> u16 \<Rightarrow> packet_io \<Rightarrow> u16 \<Rightarrow> vigor_time
   \<Rightarrow> (u16 \<times> packet_io \<times> PifManager) option" where
  "pif_process pow2 config = polifw_process (pif_process_policer pow2 config) pow2 config"

definition puf_process ::
  "bool \<Rightarrow> pif_config \<Rightarrow> PifManager \<Rightarrow> u16 \<Rightarrow> packet_io \<Rightarrow> u16 \<Rightarrow> vigor_time
   \<Rightarrow> (u16 \<times> packet_io \<times> PifManager) option" where
  "puf_process pow2 config = polifw_process (puf_process_policer pow2 config) pow2 config"

section \<open>The specification\<close>

text \<open>
  What the two parts are meant to do together. The firewall is the one of \<open>vigfw/spec.py\<close> and the
  policer the one of \<open>vigpol/spec.py\<close>, except that the first packet to an address is dropped when it
  is larger than the burst size; \<open>limits\<close> names as \<open>wan\<close> the device whose packets are policed.
  A packet is sent when both parts would send it. Both see every packet: one that the policer
  drops has refreshed its flow, and one that the firewall drops has used up tokens.
\<close>

definition pif_pol_spec ::
  "pol_config \<Rightarrow> int \<Rightarrow> u32 emap \<times> DynamicValue list \<Rightarrow> u16 \<Rightarrow> u32 \<Rightarrow> int \<Rightarrow> vigor_time
   \<Rightarrow> u16 option \<times> u32 emap \<times> DynamicValue list" where
  "pif_pol_spec limits idx = (\<lambda>buckets device d sz now. pol_step limits idx buckets device (Some d) sz now)"

definition polifw_spec ::
  "u16 \<Rightarrow> vigor_time \<Rightarrow> pol_config \<Rightarrow> int \<Rightarrow> int \<Rightarrow> (FwFlowId emap \<times> u32 list) \<times> u32 emap \<times> DynamicValue list
   \<Rightarrow> u16 \<Rightarrow> FwFlowId option \<Rightarrow> int \<Rightarrow> vigor_time
   \<Rightarrow> u16 option \<times> (FwFlowId emap \<times> u32 list) \<times> u32 emap \<times> DynamicValue list" where
  "polifw_spec wan exp_time limits fidx pidx = (\<lambda>(flows, buckets) device packet sz now.
     case packet of None \<Rightarrow> (None, flows, buckets)
     | Some p \<Rightarrow>
         (let (out_fw, flows) = fw_spec wan exp_time fidx flows device (Some p) now;
              (out_pol, buckets) = pif_pol_spec limits pidx buckets device (fw_dst_ip p) sz now
          in (if out_fw = None then None else out_pol, flows, buckets)))"

section \<open>The two parts\<close>

lemma pif_limits_sel [simp]:
  "pol_lan_device (pif_limits lan wan burst rate) = lan" "pol_wan_device (pif_limits lan wan burst rate) = wan"
  "pol_rate (pif_limits lan wan burst rate) = ucast rate" "pol_burst (pif_limits lan wan burst rate) = ucast burst"
  by (simp_all add: pif_limits_def)

text \<open>The functions of the policer look at the limits only.\<close>

lemma policer_devices:
  "policer_expire_entries pow2 (pif_limits 0 0 burst rate) = policer_expire_entries pow2 (pif_limits lan wan burst rate)"
  "policer_check_tb pow2 (pif_limits 0 0 burst rate) = policer_check_tb pow2 (pif_limits lan wan burst rate)"
proof -
  have refill: "policer_refill (pif_limits 0 0 burst rate) = policer_refill (pif_limits lan wan burst rate)"
    unfolding fun_eq_iff policer_refill_def pif_limits_sel by simp
  show "policer_check_tb pow2 (pif_limits 0 0 burst rate) = policer_check_tb pow2 (pif_limits lan wan burst rate)"
    unfolding policer_check_tb_def pif_limits_sel refill ..
qed (simp add: fun_eq_iff policer_expire_entries_def)

lemma pif_check_spec:
  assumes cfg: "pol_limits_ok config" and ok: "pol_ok pow2 config em bks s"
    and now: "0 \<le> now" "now < 2 ^ 63" "emap_now em \<le> now" and lan: "pol_lan_device config \<noteq> pol_wan_device config"
    and em: "emap_expire_all em0 (now - pol_exp config) = em"
  shows "\<exists>fwd s' idx out em' bks'. policer_check_tb pow2 config s d sz now = Some (fwd, s') \<and>
     pif_pol_spec config idx (em0, bks) (pol_wan_device config) d (uint sz) now = (out, em', bks') \<and>
     out = (if fwd then Some (pol_lan_device config) else None) \<and> pol_ok pow2 config em' bks' s' \<and> emap_now em' \<le> now"
proof (cases "emap_has em d \<or> \<not> pol_burst config < ucast sz")
  case True
  moreover have "pol_burst config < ucast sz \<longleftrightarrow> uint (pol_burst config) < uint sz" by (simp add: word_less_alt uint_u16_u64)
  ultimately have "\<not> pol_oversized config em0 (pol_wan_device config) (Some d) (uint sz) now"
    using em by (auto simp: pol_oversized_def)
  then have "pif_pol_spec config idx (em0, bks) (pol_wan_device config) d (uint sz) now =
      pol_spec (pol_lan_device config) (pol_wan_device config) (uint (pol_burst config)) (uint (pol_rate config))
        (pol_exp config) idx (em0, bks) (pol_wan_device config) (Some d) (uint sz) now" for idx
    by (simp add: pif_pol_spec_def)
  then show ?thesis using policer_check_spec [OF cfg True ok now lan em] by simp
next
  case False
  then have "policer_check_tb pow2 config s d sz now = Some (False, s)" using policer_check_big [OF ok] by blast
  moreover have "pif_pol_spec config 0 (em0, bks) (pol_wan_device config) d (uint sz) now = (None, em, bks)"
    using False em by (simp add: pif_pol_spec_def pol_oversized_def word_less_alt uint_u16_u64)
  ultimately show ?thesis using ok now by auto
qed

lemma pif_firewall_spec:
  assumes ok: "fw_ok pow2 em devs (pif_flows manager)" and now: "0 \<le> now" "now < 2 ^ 63" "emap_now em \<le> now"
    and p: "fw_packet n st = Some p" "l4_offset n (pkt st) = Some l4"
  shows "\<exists>dst fm idx out em' devs'.
     pif_process_firewall pow2 config manager device 14 l4 st now = Some (dst, manager\<lparr>pif_flows := fm\<rparr>) \<and>
     fw_spec (pif_wan_device config) (fw_expiration (pif_flows manager) * 1000) idx (em, devs) device (Some p) now = (out, em', devs') \<and>
     dst = (case out of None \<Rightarrow> device | Some d \<Rightarrow> d) \<and> fw_ok pow2 em' devs' fm \<and> emap_now em' \<le> now \<and>
     0 \<le> idx \<and> idx < emap_range em \<and> fw_expiration fm = fw_expiration (pif_flows manager)"
proof -
  obtain fm1 where fm1: "fw_expire pow2 (pif_flows manager) now = Some fm1"
    "fw_ok pow2 (emap_expire_all em (now - fw_expiration (pif_flows manager) * 1000)) devs fm1"
    "fw_expiration fm1 = fw_expiration (pif_flows manager)"
    using fw_expire_spec [OF ok now(1,2)] by blast
  have p_eq: "\<lparr>fw_src_port = fw_src_port p, fw_dst_port = fw_dst_port p, fw_src_ip = fw_src_ip p,
      fw_dst_ip = fw_dst_ip p, fw_protocol = fw_protocol p\<rparr> = p" by (cases p) simp
  have run: "pif_process_firewall pow2 config manager device 14 l4 st now = do {
      (dst, _, fm) \<leftarrow> (if device = pif_wan_device config then do {
         (known, d, manager2) \<leftarrow> fw_get_refresh_flow pow2 fm1 (fw_reply p) now 0;
         if \<not> known then Some (device, st, manager2) else Some (ucast d, st, manager2)
       } else do {
         manager2 \<leftarrow> fw_allocate_or_refresh_flow pow2 fm1 p (ucast device) now;
         Some (pif_wan_device config, st, manager2) });
      Some (dst, manager\<lparr>pif_flows := fm\<rparr>) }"
    by (auto simp: pif_process_firewall_def fm1(1) fw_packet_fields [OF p] p_eq fw_reply_def Let_def split: bind_split)
  have "emap_now (emap_expire_all em (now - fw_expiration (pif_flows manager) * 1000)) \<le> now" using now(3) by simp
  from fw_directions [OF fm1(2) this refl, of device "pif_wan_device config" p st] show ?thesis
    unfolding run using fm1(3) by fastforce
qed

text \<open>What the handler relies on: a stage that polices, to the limits of a device.\<close>

locale policing_stage =
  fixes policer :: "PifManager \<Rightarrow> u16 \<Rightarrow> int \<Rightarrow> packet_io \<Rightarrow> vigor_time \<Rightarrow> u16 \<Rightarrow> (u16 \<times> PifManager) option"
    and pow2 :: bool and limits :: pol_config
  assumes stage: "pol_limits_ok limits \<Longrightarrow> pol_lan_device limits \<noteq> pol_wan_device limits \<Longrightarrow>
      pol_ok pow2 limits pem bks (pif_buckets manager) \<Longrightarrow> 0 \<le> now \<Longrightarrow> now < 2 ^ 63 \<Longrightarrow> emap_now pem \<le> now \<Longrightarrow>
      dst_addr st ip = Some d \<Longrightarrow>
      \<exists>dst s idx out pem' bks'. policer manager device ip st now sz = Some (dst, manager\<lparr>pif_buckets := s\<rparr>) \<and>
        pif_pol_spec limits idx (pem, bks) device d (uint sz) now = (out, pem', bks') \<and>
        dst = (case out of None \<Rightarrow> device | Some x \<Rightarrow> x) \<and> pol_ok pow2 limits pem' bks' s \<and> emap_now pem' \<le> now"

text \<open>Both stages are the same code with the roles of the devices exchanged.\<close>

lemma police_spec:
  assumes limits: "limits = pif_limits out_dev police_dev burst rate" "pol_limits_ok limits" "out_dev \<noteq> police_dev"
    and ok: "pol_ok pow2 limits pem bks (pif_buckets manager)" and now: "0 \<le> now" "now < 2 ^ 63" "emap_now pem \<le> now"
    and d: "dst_addr st ip = Some d"
  shows "\<exists>dst s idx out pem' bks'. do {
       (_, manager) \<leftarrow> pif_expire_entries pow2 now burst rate manager;
       if device = out_dev then Some (police_dev, manager)
       else if device = police_dev then do {
         dst \<leftarrow> dst_addr st ip;
         (fwd, manager) \<leftarrow> pif_check_tb pow2 dst sz now manager burst rate;
         Some (if fwd then out_dev else police_dev, manager)
       } else Some (device, manager) } = Some (dst, manager\<lparr>pif_buckets := s\<rparr>) \<and>
     pif_pol_spec limits idx (pem, bks) device d (uint sz) now = (out, pem', bks') \<and>
     dst = (case out of None \<Rightarrow> device | Some x \<Rightarrow> x) \<and> pol_ok pow2 limits pem' bks' s \<and> emap_now pem' \<le> now"
proof -
  note same = policer_devices [of pow2 burst rate out_dev police_dev, folded limits(1)]
  have dev: "pol_lan_device limits = out_dev" "pol_wan_device limits = police_dev" by (simp_all add: limits(1))
  let ?em = "emap_expire_all pem (now - pol_exp limits)"
  obtain k s1 where s1: "policer_expire_entries pow2 limits (pif_buckets manager) now = Some (k, s1)" "pol_ok pow2 limits ?em bks s1"
    using policer_expire_spec [OF limits(2) ok now(1,2)] by blast
  have time: "emap_now ?em \<le> now" using now(3) by simp
  show ?thesis
  proof (cases "device = police_dev")
    case True
    obtain fwd s2 idx out em' bks' where "policer_check_tb pow2 limits s1 d sz now = Some (fwd, s2)"
      "pif_pol_spec limits idx (pem, bks) police_dev d (uint sz) now = (out, em', bks')"
      "out = (if fwd then Some out_dev else None)" "pol_ok pow2 limits em' bks' s2" "emap_now em' \<le> now"
      using pif_check_spec [OF limits(2) s1(2) now(1,2) time _ refl, of d sz] limits(3) unfolding dev by auto
    then show ?thesis
      using True s1(1) d limits(3)
      by (intro exI [of _ "if fwd then out_dev else police_dev"] exI [of _ s2] exI [of _ idx])
        (simp add: pif_expire_entries_def pif_check_tb_def same)
  next
    case False
    then have "pif_pol_spec limits 0 (pem, bks) device d (uint sz) now =
        (if device = out_dev then Some police_dev else None, ?em, bks)"
      using limits(3) by (simp add: pif_pol_spec_def pol_oversized_def pol_spec_def dev)
    then show ?thesis
      using False s1 time
      by (intro exI [of _ "if device = out_dev then police_dev else device"] exI [of _ s1] exI [of _ 0])
        (simp add: pif_expire_entries_def same)
  qed
qed


interpretation up: policing_stage "puf_process_policer pow2 config" pow2
  "pif_limits (pif_wan_device config) (pif_lan_device config) (ucast (pif_burst config)) (ucast (pif_rate config))"
  for pow2 config
  by (unfold_locales, unfold puf_process_policer_def, rule police_spec [OF refl]) simp_all

section \<open>The handler\<close>

text \<open>
  Every open flow belongs to the device of the inside. It is what the assertion in the handler
  relies on, and holds as long as packets come from the two configured devices only.
\<close>

definition flows_inside :: "u16 \<Rightarrow> FwFlowId emap \<Rightarrow> u32 list \<Rightarrow> bool" where
  "flows_inside lan em devs \<longleftrightarrow> (\<forall>k. emap_has em k \<longrightarrow> ucast (devs ! nat (emap_get em k)) = lan)"

lemma flows_inside_keep:
  assumes ok: "fw_ok pow2 em devs manager" and inside: "flows_inside lan em devs"
    and spec: "fw_spec wan t idx (em, devs) device (Some p) now = (out, em', devs')"
    and after: "fw_ok pow2 em' devs' manager'" "0 \<le> idx" "idx < emap_range em"
    and dev: "device = lan \<or> device = wan"
  shows "flows_inside lan em' devs'" "device = wan \<Longrightarrow> out = None \<or> out = Some lan" "device \<noteq> wan \<Longrightarrow> out = Some wan"
proof -
  let ?em = "emap_expire_all em (now - t)"
  note tab = fw_ok_table [OF ok]
  obtain chain m where tab1: "emap_table pow2 ?em chain (fw_fv manager) m" using table_expire [OF tab] by blast
  have old: "ucast (devs ! nat (emap_get ?em k)) = lan" if "emap_has ?em k" for k
    using that inside emap_expire_lookup(4,5) [OF tab] by (auto simp: flows_inside_def)
  show "device = wan \<Longrightarrow> out = None \<or> out = Some lan" "device \<noteq> wan \<Longrightarrow> out = Some wan"
    using spec old by (auto simp: fw_spec_def Let_def split: if_splits)
  consider "em' = ?em" "devs' = devs" | i where "em' = emap_refresh_idx ?em i now" "devs' = devs"
    | (add) "em' = emap_add ?em p idx now" "devs' = devs[nat idx := ucast device]" "device \<noteq> wan"
    using spec by (auto simp: fw_spec_def Let_def split: if_splits)
  then show "flows_inside lan em' devs'"
  proof cases
    case add
    have fresh: "\<not> emap_has_idx ?em idx" using emap_add_fresh fw_ok_table [OF after(1)] add(1) by metis
    have len: "nat idx < length devs" using ok after(2,3) by (auto simp: fw_ok_def)
    have "ucast (devs' ! nat (emap_get em' k)) = lan" if "emap_has em' k" for k
    proof (cases "k = p")
      case True
      have "ucast (ucast device :: u32) = device" by (rule ucast_up_ucast_id) (simp add: is_up)
      then show ?thesis using True add dev len emap_ops_lookup(5) [OF tab1] by simp
    next
      case False
      then have has: "emap_has ?em k" using that add(1) emap_ops_lookup(4) [OF tab1] by simp
      then have "emap_get ?em k \<noteq> idx" "0 \<le> emap_get ?em k"
        using table_facts(1) [OF tab1] table_facts(5) [OF tab1] fresh by blast+
      then have "nat (emap_get ?em k) \<noteq> nat idx" using after(2) by simp
      then show ?thesis using False add(1,2) old [OF has] emap_ops_lookup(5) [OF tab1] by simp
    qed
    then show ?thesis by (simp add: flows_inside_def)
  qed (use old emap_ops_lookup(1,2) [OF tab1] in \<open>auto simp: flows_inside_def\<close>)
qed

definition pif_devices_ok :: "pif_config \<Rightarrow> bool" where
  "pif_devices_ok config \<longleftrightarrow> pif_lan_device config \<noteq> pif_wan_device config \<and>
     (\<forall>d \<in> {pif_lan_device config, pif_wan_device config}.
        uint d < int (length (pif_device_macs config)) \<and> length (pif_device_macs config ! unat d) = 6 \<and>
        uint d < int (length (pif_endpoint_macs config)) \<and> length (pif_endpoint_macs config ! unat d) = 6)"

definition pif_ok ::
  "bool \<Rightarrow> pif_config \<Rightarrow> pol_config \<Rightarrow> FwFlowId emap \<times> u32 list \<Rightarrow> u32 emap \<times> DynamicValue list \<Rightarrow> PifManager \<Rightarrow> vigor_time \<Rightarrow> bool" where
  "pif_ok pow2 config limits = (\<lambda>(em, devs) (pem, bks) manager t.
     fw_ok pow2 em devs (pif_flows manager) \<and> pol_ok pow2 limits pem bks (pif_buckets manager) \<and>
     flows_inside (pif_lan_device config) em devs \<and> emap_now em \<le> t \<and> emap_now pem \<le> t)"

text \<open>A packet as it is sent: the addresses of the link are those of the device it leaves on.\<close>

definition pif_sent :: "pif_config \<Rightarrow> u16 \<Rightarrow> u8 list \<Rightarrow> u8 list" where
  "pif_sent config d b = pif_endpoint_macs config ! unat d @ pif_device_macs config ! unat d @ drop 12 b"

lemma pif_rewrite:
  assumes "pif_devices_ok config" "d \<in> {pif_lan_device config, pif_wan_device config}" "14 \<le> length (pkt st)"
  shows "do {
      smac \<leftarrow> arr_get (pif_device_macs config) (uint d);
      b \<leftarrow> st_bytes (pkt st) (0 + 6) smac;
      dmac \<leftarrow> arr_get (pif_endpoint_macs config) (uint d);
      b \<leftarrow> st_bytes b 0 dmac;
      Some (d, st\<lparr>pkt := b\<rparr>, manager) } = Some (d, st\<lparr>pkt := pif_sent config d (pkt st)\<rparr>, manager)"
proof -
  have d: "uint d < int (length (pif_device_macs config))" "length (pif_device_macs config ! unat d) = 6"
    "uint d < int (length (pif_endpoint_macs config))" "length (pif_endpoint_macs config ! unat d) = 6"
    using assms(1,2) unfolding pif_devices_ok_def by blast+
  then have "arr_get (pif_device_macs config) (uint d) = Some (pif_device_macs config ! unat d)"
    "arr_get (pif_endpoint_macs config) (uint d) = Some (pif_endpoint_macs config ! unat d)"
    by (simp_all add: arr_get_def uint_eq_int_unat)
  then show ?thesis using d assms(3) by (simp add: st_bytes_def pif_sent_def)
qed

lemma pif_packet:
  assumes "fresh_packet n st" "pkt st1 = pkt st" "l4_offset n (pkt st) = Some l4"
  shows "\<exists>p. fw_packet n st = Some p \<and> fw_packet n st1 = Some p \<and> l4_offset n (pkt st1) = Some l4 \<and>
     dst_addr st1 14 = Some (fw_dst_ip p)"
proof -
  have l4: "34 \<le> l4" "l4 + 4 \<le> int (length (pkt st))"
    using l4_offset_range [OF assms(3)] assms(1) by (auto simp: fresh_packet_def io_ok_def)
  obtain p where p: "fw_packet n st = Some p" using header_loads [OF l4] assms(3) by (auto simp: fw_packet_def)
  moreover have "fw_packet n st1 = fw_packet n st" "dst_addr st1 14 = dst_addr st 14"
    using assms(2) by (simp_all add: fw_packet_def src_port_def dst_port_def src_addr_def dst_addr_def next_proto_id_def)
  ultimately show ?thesis using fw_packet_fields(4) [OF p assms(3)] assms(2,3) by simp
qed

context policing_stage
begin

text \<open>Both parts, on one packet: when both send it they agree on the device.\<close>

lemma parts_spec:
  assumes cfg: "pol_limits_ok limits" "pif_lan_device config \<noteq> pif_wan_device config"
    and roles: "(pol_lan_device limits, pol_wan_device limits) \<in>
      {(pif_lan_device config, pif_wan_device config), (pif_wan_device config, pif_lan_device config)}"
    and ok: "pif_ok pow2 config limits (em, devs) (pem, bks) manager now" and now: "0 \<le> now" "now < 2 ^ 63"
    and p: "fw_packet n st = Some p" "l4_offset n (pkt st) = Some l4" "dst_addr st 14 = Some (fw_dst_ip p)"
    and dev: "device = pif_lan_device config \<or> device = pif_wan_device config"
  shows "\<exists>dfw m1 dpol m2 fidx pidx out flows buckets.
     pif_process_firewall pow2 config manager device 14 l4 st now = Some (dfw, m1) \<and>
     policer m1 device 14 st now sz = Some (dpol, m2) \<and>
     polifw_spec (pif_wan_device config) (fw_expiration (pif_flows manager) * 1000) limits fidx pidx ((em, devs), (pem, bks))
       device (Some p) (uint sz) now = (out, flows, buckets) \<and>
     (case out of None \<Rightarrow> dpol = device \<or> dfw = device
      | Some d \<Rightarrow> dpol = d \<and> dfw = d \<and> d \<noteq> device \<and> d \<in> {pif_lan_device config, pif_wan_device config}) \<and>
     pif_ok pow2 config limits flows buckets m2 now \<and>
     fw_expiration (pif_flows m2) = fw_expiration (pif_flows manager)"
proof -
  have fw: "fw_ok pow2 em devs (pif_flows manager)" and pol: "pol_ok pow2 limits pem bks (pif_buckets manager)"
    and inside: "flows_inside (pif_lan_device config) em devs" and times: "emap_now em \<le> now" "emap_now pem \<le> now"
    using ok by (simp_all add: pif_ok_def)
  obtain dfw fm fidx ofw em' devs' where f: "pif_process_firewall pow2 config manager device 14 l4 st now = Some (dfw, manager\<lparr>pif_flows := fm\<rparr>)"
    "fw_spec (pif_wan_device config) (fw_expiration (pif_flows manager) * 1000) fidx (em, devs) device (Some p) now = (ofw, em', devs')"
    "dfw = (case ofw of None \<Rightarrow> device | Some d \<Rightarrow> d)" "fw_ok pow2 em' devs' fm" "emap_now em' \<le> now"
    "0 \<le> fidx" "fidx < emap_range em" "fw_expiration fm = fw_expiration (pif_flows manager)"
    using pif_firewall_spec [OF fw now times(1) p(1,2), of config device] by blast
  note kept = flows_inside_keep [OF fw inside f(2) f(4,6,7) dev]
  let ?m1 = "manager\<lparr>pif_flows := fm\<rparr>"
  have lims: "pol_lan_device limits \<noteq> pol_wan_device limits" using roles cfg(2) by auto
  have "pol_ok pow2 limits pem bks (pif_buckets ?m1)" using pol by simp
  then obtain dpol s pidx opol pem' bks' where q: "policer ?m1 device 14 st now sz = Some (dpol, ?m1\<lparr>pif_buckets := s\<rparr>)"
    "pif_pol_spec limits pidx (pem, bks) device (fw_dst_ip p) (uint sz) now = (opol, pem', bks')"
    "dpol = (case opol of None \<Rightarrow> device | Some x \<Rightarrow> x)" "pol_ok pow2 limits pem' bks' s" "emap_now pem' \<le> now"
    using stage [OF cfg(1) lims _ now times(2) p(3), of bks ?m1 device sz] by blast
  have "opol = None \<or> opol = Some (if device = pif_wan_device config then pif_lan_device config else pif_wan_device config)"
    using q(2) roles dev cfg(2) by (auto simp: pif_pol_spec_def pol_spec_def Let_def split: if_splits)
  then have "case (if ofw = None then None else opol) of None \<Rightarrow> dpol = device \<or> dfw = device
      | Some d \<Rightarrow> dpol = d \<and> dfw = d \<and> d \<noteq> device \<and> d \<in> {pif_lan_device config, pif_wan_device config}"
    using f(3) q(3) kept(2,3) dev cfg(2) by auto
  moreover have "polifw_spec (pif_wan_device config) (fw_expiration (pif_flows manager) * 1000) limits fidx pidx ((em, devs), (pem, bks))
     device (Some p) (uint sz) now = (if ofw = None then None else opol, (em', devs'), pem', bks')"
    using f(2) q(2) by (simp add: polifw_spec_def)
  moreover have "pif_ok pow2 config limits (em', devs') (pem', bks') (?m1\<lparr>pif_buckets := s\<rparr>) now"
    using f(4,5) q(4,5) kept(1) by (simp add: pif_ok_def)
  moreover have "fw_expiration (pif_flows (?m1\<lparr>pif_buckets := s\<rparr>)) = fw_expiration (pif_flows manager)" using f(8) by simp
  ultimately show ?thesis using f(1) q(1) by blast
qed

lemma handler_spec:
  assumes cfg: "pol_limits_ok limits" "pif_devices_ok config"
    and roles: "(pol_lan_device limits, pol_wan_device limits) \<in>
      {(pif_lan_device config, pif_wan_device config), (pif_wan_device config, pif_lan_device config)}"
    and ok: "pif_ok pow2 config limits (em, devs) (pem, bks) manager now" and now: "0 \<le> now" "now < 2 ^ 63"
    and fresh: "fresh_packet n st" and dev: "device = pif_lan_device config \<or> device = pif_wan_device config"
  shows "\<exists>dst st' manager' fidx pidx out flows buckets.
     polifw_process policer pow2 config manager device st sz now = Some (dst, st', manager') \<and>
     polifw_spec (pif_wan_device config) (fw_expiration (pif_flows manager) * 1000) limits fidx pidx ((em, devs), (pem, bks))
       device (fw_packet n st) (uint sz) now = (out, flows, buckets) \<and>
     dst = (case out of None \<Rightarrow> device | Some d \<Rightarrow> d) \<and>
     pkt st' = (case out of None \<Rightarrow> pkt st | Some d \<Rightarrow> pif_sent config d (pkt st)) \<and>
     pif_ok pow2 config limits flows buckets manager' now \<and>
     fw_expiration (pif_flows manager') = fw_expiration (pif_flows manager)"
proof -
  obtain st1 where st1: "nf_headers st = Some (l4_offset n (pkt st), st1)" "pkt st1 = pkt st"
    using nf_headers_value [OF fresh] by blast
  have len: "14 \<le> length (pkt st1)" using fresh st1(2) by (auto simp: fresh_packet_def io_ok_def)
  show ?thesis
  proof (cases "l4_offset n (pkt st)")
    case None
    then have "polifw_process policer pow2 config manager device st sz now = Some (device, st1, manager)"
      by (simp add: polifw_process_def nf_headers_then [OF fresh] st1(1))
    then show ?thesis
      using None st1 ok by (intro exI [of _ device] exI [of _ st1] exI [of _ manager])
        (simp add: polifw_spec_def fw_packet_def)
  next
    case (Some l4)
    then obtain p where p: "fw_packet n st = Some p" "fw_packet n st1 = Some p" "l4_offset n (pkt st1) = Some l4"
      "dst_addr st1 14 = Some (fw_dst_ip p)" using pif_packet [OF fresh st1(2)] by blast
    have ne: "pif_lan_device config \<noteq> pif_wan_device config" using cfg(2) by (simp add: pif_devices_ok_def)
    from parts_spec [OF cfg(1) ne roles ok now p(2-4) dev, of sz] obtain dfw m1 dpol m2 fidx pidx out flows buckets where
      run: "pif_process_firewall pow2 config manager device 14 l4 st1 now = Some (dfw, m1)" "policer m1 device 14 st1 now sz = Some (dpol, m2)"
      and spec: "polifw_spec (pif_wan_device config) (fw_expiration (pif_flows manager) * 1000) limits fidx pidx ((em, devs), (pem, bks))
        device (fw_packet n st) (uint sz) now = (out, flows, buckets)"
      and out: "case out of None \<Rightarrow> dpol = device \<or> dfw = device
        | Some d \<Rightarrow> dpol = d \<and> dfw = d \<and> d \<noteq> device \<and> d \<in> {pif_lan_device config, pif_wan_device config}"
      and ok': "pif_ok pow2 config limits flows buckets m2 now" "fw_expiration (pif_flows m2) = fw_expiration (pif_flows manager)"
      unfolding p(1) by blast
    let ?st = "case out of None \<Rightarrow> st1 | Some d \<Rightarrow> st1\<lparr>pkt := pif_sent config d (pkt st1)\<rparr>"
    have "polifw_process policer pow2 config manager device st sz now = Some (case out of None \<Rightarrow> device | Some d \<Rightarrow> d, ?st, m2)"
      using out pif_rewrite [OF cfg(2) _ len, of _ m2]
      by (auto simp: polifw_process_def nf_headers_then [OF fresh] st1(1) Some run cassert_def split: option.splits)
    moreover have "pkt ?st = (case out of None \<Rightarrow> pkt st | Some d \<Rightarrow> pif_sent config d (pkt st))"
      using st1(2) by (simp split: option.split)
    ultimately show ?thesis using spec ok' by blast
  qed
qed

end

section \<open>Properties\<close>


abbreviation pif_up :: "pif_config \<Rightarrow> pol_config" where
  "pif_up config \<equiv> pif_limits (pif_wan_device config) (pif_lan_device config) (ucast (pif_burst config)) (ucast (pif_rate config))"


text \<open>The same for \<open>vigpoliupfw\<close>, which polices the packets of the inside.\<close>

lemma puf_process_correct:
  assumes "pol_limits_ok (pif_up config)" "pif_devices_ok config"
    "pif_ok pow2 config (pif_up config) (em, devs) (pem, bks) manager now" "0 \<le> now" "now < 2 ^ 63"
    "fresh_packet n st" "device = pif_lan_device config \<or> device = pif_wan_device config"
  shows "\<exists>dst st' manager' fidx pidx out flows buckets.
     puf_process pow2 config manager device st sz now = Some (dst, st', manager') \<and>
     polifw_spec (pif_wan_device config) (fw_expiration (pif_flows manager) * 1000) (pif_up config) fidx pidx ((em, devs), (pem, bks))
       device (fw_packet n st) (uint sz) now = (out, flows, buckets) \<and>
     dst = (case out of None \<Rightarrow> device | Some d \<Rightarrow> d) \<and>
     pkt st' = (case out of None \<Rightarrow> pkt st | Some d \<Rightarrow> pif_sent config d (pkt st)) \<and>
     pif_ok pow2 config (pif_up config) flows buckets manager' now"
proof -
  have "(pol_lan_device (pif_up config), pol_wan_device (pif_up config)) \<in>
      {(pif_lan_device config, pif_wan_device config), (pif_wan_device config, pif_lan_device config)}" by simp
  from up.handler_spec [OF assms(1,2) this assms(3-7), of sz] show ?thesis unfolding puf_process_def by blast
qed

section \<open>What goes wrong\<close>

text \<open>
  The limits lose their high bits in the call: a rate of 65536 bytes per second, which the
  configuration accepts, is a rate of 0, and the first packet divides by zero.
\<close>

lemma pif_rate_truncated:
  assumes "0 \<le> now" "pif_rate config = 65536"
  shows "pif_expire_entries pow2 now (ucast (pif_burst config)) (ucast (pif_rate config)) manager = None"
  using assms by (simp add: pif_expire_entries_def policer_expire_entries_def udiv_def cassert_def)

definition ex_pif_config :: pif_config where
  "ex_pif_config = \<lparr>pif_wan_device = 1, pif_lan_device = 0, pif_rate = 30000, pif_burst = 60000,
     pif_device_macs = [[2, 0, 0, 0, 0, 0], [2, 0, 0, 0, 0, 1]], pif_endpoint_macs = [[2, 0, 0, 0, 1, 0], [2, 0, 0, 0, 1, 1]]\<rparr>"

definition ex_pif_manager :: PifManager where
  "ex_pif_manager = \<lparr>pif_flows = ex_fw_manager, pif_buckets = ex_pol_state\<rparr>"

text \<open>
  A packet from a third device is dropped, but it has opened a flow for that device, and the reply
  from outside fails the assertion that both parts chose the same device.
\<close>

lemma pif_third_device_aborts:
  "case pif_process True ex_pif_config ex_pif_manager 2 ex_packet 60 8 of
     Some (dst, st, manager) \<Rightarrow> dst = 2 \<and> pif_process True ex_pif_config manager 1 ex_fw_reply 60 500 = None
   | None \<Rightarrow> False"
  by code_simp



end
