(* ===== verification/Vighhh.thy ===== *)
theory Vighhh
  imports Vigpol
begin

text \<open>
  The detector of hierarchical heavy hitters, \<open>vighhh\<close>. It keeps one table of token buckets per
  configured prefix length, and charges every packet from outside to the prefixes of its source.
  It reports the longest prefix that has used up its tokens, and forwards everything. The tables
  are those of the policer: \<open>subnet_indexers[i]\<close>, \<open>subnets[i]\<close>, \<open>allocators[i]\<close> and
  \<open>subnet_buckets[i]\<close> are the four fields of element \<open>i\<close> of the list of tables.
\<close>

declare of_nat_unat [simp del]

section \<open>The code\<close>

record hhh_config =
  hh_lan_device :: u16
  hh_wan_device :: u16
  hh_subnets_mask :: u32
  hh_burst :: u64

record hhh_state =
  hh_tables :: "pol_state list"
  hh_threshold_rate :: u64
  hh_n_subnets :: int

definition SWAP_ENDIANNESS_32_BIT :: "u32 \<Rightarrow> u32" where
  "SWAP_ENDIANNESS_32_BIT n =
     (drop_bit 24 n AND 0x000000ff) OR (drop_bit 8 n AND 0x0000ff00) OR
     (push_bit 8 n AND 0x00ff0000) OR (push_bit 24 n AND 0xff000000)"

fun calculate_n_subnets_loop :: "nat \<Rightarrow> u32 \<Rightarrow> u32 \<Rightarrow> u32" where
  "calculate_n_subnets_loop 0 subnets_mask n = n"
| "calculate_n_subnets_loop (Suc b) subnets_mask n =
     calculate_n_subnets_loop b (drop_bit 1 subnets_mask) (if subnets_mask AND 1 \<noteq> 0 then n + 1 else n)"

definition calculate_n_subnets :: "u32 \<Rightarrow> u32" where
  "calculate_n_subnets subnets_mask = calculate_n_subnets_loop 32 subnets_mask 0"

text \<open>The limits of the buckets, for the code that they share with the policer.\<close>

definition hhh_limits :: "hhh_config \<Rightarrow> u64 \<Rightarrow> pol_config" where
  "hhh_limits config rate =
     \<lparr>pol_lan_device = hh_lan_device config, pol_wan_device = hh_wan_device config, pol_rate = rate,
      pol_burst = hh_burst config\<rparr>"

function hhh_expire_loop ::
  "bool \<Rightarrow> vigor_time \<Rightarrow> int \<Rightarrow> int \<Rightarrow> int \<Rightarrow> pol_state list \<Rightarrow> (int \<times> pol_state list) option" where
  "hhh_expire_loop pow2 min_time n i freed tables =
     (if i < n then do {
        t \<leftarrow> arr_get tables i;
        (k, h, m) \<leftarrow> expire_items_single_map pow2 (dyn_heap t) (dyn_keys t) (dyn_map t) min_time;
        freed \<leftarrow> s64 (freed + k);
        tables \<leftarrow> arr_set tables i (t\<lparr>dyn_heap := h, dyn_map := m\<rparr>);
        hhh_expire_loop pow2 min_time n (i + 1) freed tables
      } else Some (freed, tables))"
  by pat_completeness auto
termination
  by (relation "measure (\<lambda>(_, _, n, i, _). nat (n - i))") auto

definition hhh_expire_entries :: "bool \<Rightarrow> hhh_config \<Rightarrow> hhh_state \<Rightarrow> vigor_time \<Rightarrow> (int \<times> hhh_state) option" where
  "hhh_expire_entries pow2 config s time = do {
     cassert (time \<ge> 0);
     q \<leftarrow> udiv (VIGOR_TIME_SECONDS_MULTIPLIER * hh_burst config) (hh_threshold_rate s);
     let min_time = s64_wrap (time - sint q);
     (freed, tables) \<leftarrow> hhh_expire_loop pow2 min_time (hh_n_subnets s) 0 0 (hh_tables s);
     Some (freed, s\<lparr>hh_tables := tables\<rparr>)
   }"

definition hhh_allocate ::
  "bool \<Rightarrow> hhh_config \<Rightarrow> pol_state list \<Rightarrow> u32 \<Rightarrow> int \<Rightarrow> u16 \<Rightarrow> vigor_time \<Rightarrow> (bool \<times> pol_state list) option" where
  "hhh_allocate pow2 config tables masked_src i_subnet sz time = do {
     t \<leftarrow> arr_get tables i_subnet;
     (allocated, index, h) \<leftarrow> dchain_allocate_new_index (dyn_heap t) (- 1) time;
     let t = t\<lparr>dyn_heap := h\<rparr>;
     if allocated = 0 then do {
       tables \<leftarrow> arr_set tables i_subnet t;
       Some (False, tables)
     } else do {
       key \<leftarrow> vector_borrow (dyn_keys t) index;
       value \<leftarrow> vector_borrow (dyn_vals t) index;
       let keys = vector_write (dyn_keys t) key masked_src;
       cassert (hh_burst config \<ge> ucast sz);
       let bks = vector_write (dyn_vals t) value \<lparr>bucket_size = hh_burst config - ucast sz, bucket_time = time\<rparr>;
       m \<leftarrow> map_put pow2 (key_at keys) (dyn_map t) (Slot key) index;
       tables \<leftarrow> arr_set tables i_subnet
         (t\<lparr>dyn_map := m, dyn_keys := vector_return keys index key, dyn_vals := vector_return bks index value\<rparr>);
       Some (True, tables)
     }
   }"

text \<open>
  The loop over the prefix lengths. The bucket is refilled by the lines of the policer. \<open>hh\<close> is
  the heavy hitter found so far with its prefix length; the result is what the function prints
  when it ends, nothing when a table was full.
\<close>

function hhh_update_loop ::
  "bool \<Rightarrow> hhh_config \<Rightarrow> u64 \<Rightarrow> u32 \<Rightarrow> u16 \<Rightarrow> vigor_time \<Rightarrow> int \<Rightarrow> int \<Rightarrow> u32 \<Rightarrow> u32 \<Rightarrow> int \<Rightarrow> (u32 \<times> u8) option
   \<Rightarrow> pol_state list \<Rightarrow> ((u32 \<times> u8) option \<times> pol_state list) option" where
  "hhh_update_loop pow2 config rate src sz time subnet subnet_i msk subnets_mask index hh tables =
     (if subnet < 32 then
        (let msk = drop_bit 1 msk OR 0x80000000 in
         if subnets_mask AND 1 = 0 then
           hhh_update_loop pow2 config rate src sz time (subnet + 1) subnet_i msk (drop_bit 1 subnets_mask) index hh tables
         else
           (let subnet_i = subnet_i + 1; masked_src = src AND SWAP_ENDIANNESS_32_BIT msk in do {
              t \<leftarrow> arr_get tables subnet_i;
              (present, index) \<leftarrow> map_get pow2 (key_at (dyn_keys t)) (dyn_map t) (Ext masked_src) index;
              if present = 0 then do {
                (allocated, tables) \<leftarrow> hhh_allocate pow2 config tables masked_src subnet_i sz time;
                if \<not> allocated then Some (None, tables)
                else hhh_update_loop pow2 config rate src sz time (subnet + 1) subnet_i msk (drop_bit 1 subnets_mask)
                       index hh tables
              } else do {
                (_, h) \<leftarrow> dchain_rejuvenate_index (dyn_heap t) index time;
                slot \<leftarrow> vector_borrow (dyn_vals t) index;
                value \<leftarrow> policer_refill (hhh_limits config rate) (v_data (dyn_vals t) ! slot) time;
                let enough = bucket_size value > ucast sz;
                let value = (if enough then value\<lparr>bucket_size := bucket_size value - ucast sz\<rparr> else value);
                let hh = (if enough then hh else Some (masked_src, word_of_int (subnet + 1)));
                let bks = vector_write (dyn_vals t) slot value;
                tables \<leftarrow> arr_set tables subnet_i (t\<lparr>dyn_heap := h, dyn_vals := vector_return bks index slot\<rparr>);
                hhh_update_loop pow2 config rate src sz time (subnet + 1) subnet_i msk (drop_bit 1 subnets_mask)
                  index hh tables
              }
            }))
      else Some (hh, tables))"
  by pat_completeness auto
termination
  by (relation "measure (\<lambda>(_, _, _, _, _, _, subnet, _). nat (32 - subnet))") auto

declare hhh_expire_loop.simps [simp del] hhh_update_loop.simps [simp del]

definition hhh_update_buckets ::
  "bool \<Rightarrow> hhh_config \<Rightarrow> hhh_state \<Rightarrow> u32 \<Rightarrow> u16 \<Rightarrow> vigor_time \<Rightarrow> ((u32 \<times> u8) option \<times> hhh_state) option" where
  "hhh_update_buckets pow2 config s src sz time = do {
     (hh, tables) \<leftarrow> hhh_update_loop pow2 config (hh_threshold_rate s) src sz time 0 (- 1) 0 (hh_subnets_mask config) (- 1)
       None (hh_tables s);
     Some (hh, s\<lparr>hh_tables := tables\<rparr>)
   }"

text \<open>The handler, with the heavy hitter it reports.\<close>

definition hhh_process ::
  "bool \<Rightarrow> hhh_config \<Rightarrow> hhh_state \<Rightarrow> u16 \<Rightarrow> packet_io \<Rightarrow> u16 \<Rightarrow> vigor_time
   \<Rightarrow> (u16 \<times> packet_io \<times> hhh_state \<times> (u32 \<times> u8) option) option" where
  "hhh_process pow2 config s device st packet_length now = do {
     (eth, st) \<leftarrow> nf_then_get_rte_ether_header st;
     (ip_hdr, _, st) \<leftarrow> nf_then_get_rte_ipv4_header eth st;
     case ip_hdr of
       None \<Rightarrow> Some (device, st, s, None)
     | Some ip \<Rightarrow> do {
         (_, s) \<leftarrow> hhh_expire_entries pow2 config s now;
         if device = hh_lan_device config then Some (hh_wan_device config, st, s, None)
         else if device = hh_wan_device config then do {
           src \<leftarrow> src_addr st ip;
           (hh, s) \<leftarrow> hhh_update_buckets pow2 config s src packet_length now;
           Some (hh_lan_device config, st, s, hh)
         } else Some (device, st, s, None)
       }
   }"

text \<open>
  The state: one table per prefix length, allocated in turn. The rate in bytes per second is
  computed from the capacity of the link and the threshold in floating point, and is an argument,
  as are the contents of fresh memory. The pointer arrays are not checked: storing into one that
  could not be allocated is a fault.
\<close>

record hhh_raw =
  raw_indexer :: "u32 kptr raw_arrays"
  raw_chain_cells :: "nat \<Rightarrow> dchain_cell"
  raw_chain_times :: "nat \<Rightarrow> vigor_time"
  raw_buckets :: "nat \<Rightarrow> DynamicValue"
  raw_subnets :: "nat \<Rightarrow> u32"

definition hhh_alloc_table ::
  "bool \<Rightarrow> (u32 \<Rightarrow> u32) \<Rightarrow> hhh_raw \<Rightarrow> u32 \<Rightarrow> heap \<Rightarrow> (pol_state option \<times> heap) option" where
  "hhh_alloc_table pow2 ip_addr_hash raw capacity h = do {
     (ok, m, h) \<leftarrow> map_allocate pow2 (=) ip_addr_hash capacity (raw_indexer raw) None h;
     if ok = 0 then Some (None, h)
     else do {
       (ok, chain, h) \<leftarrow> dchain_allocate (sint capacity) (raw_chain_cells raw) (raw_chain_times raw) None h;
       if ok = 0 then Some (None, h)
       else do {
         (ok, bks, h) \<leftarrow> vector_allocate 16 capacity (\<lambda>_. \<lparr>bucket_size = 0, bucket_time = 0\<rparr>) (raw_buckets raw) None h;
         if ok = 0 then Some (None, h)
         else do {
           (ok, keys, h) \<leftarrow> vector_allocate 4 capacity (\<lambda>a. a) (raw_subnets raw) None h;
           if ok = 0 then Some (None, h)
           else do {
             m \<leftarrow> m;
             chain \<leftarrow> chain;
             bks \<leftarrow> bks;
             keys \<leftarrow> keys;
             Some (Some \<lparr>dyn_map = m, dyn_keys = keys, dyn_heap = chain, dyn_vals = bks\<rparr>, h)
           }
         }
       }
     }
   }"

fun hhh_alloc_tables ::
  "bool \<Rightarrow> (u32 \<Rightarrow> u32) \<Rightarrow> (nat \<Rightarrow> hhh_raw) \<Rightarrow> u32 \<Rightarrow> nat \<Rightarrow> pol_state list \<Rightarrow> heap
   \<Rightarrow> (pol_state list option \<times> heap) option" where
  "hhh_alloc_tables pow2 ip_addr_hash raw capacity 0 tables h = Some (Some tables, h)"
| "hhh_alloc_tables pow2 ip_addr_hash raw capacity (Suc n) tables h = do {
     (t, h) \<leftarrow> hhh_alloc_table pow2 ip_addr_hash (raw (length tables)) capacity h;
     case t of None \<Rightarrow> Some (None, h)
     | Some t \<Rightarrow> hhh_alloc_tables pow2 ip_addr_hash raw capacity n (tables @ [t]) h
   }"

definition hhh_alloc_state ::
  "bool \<Rightarrow> (u32 \<Rightarrow> u32) \<Rightarrow> (nat \<Rightarrow> hhh_raw) \<Rightarrow> (u64 \<Rightarrow> u8 \<Rightarrow> u64) \<Rightarrow> hhh_state option \<Rightarrow> u64 \<Rightarrow> u8 \<Rightarrow> u32 \<Rightarrow> u32 \<Rightarrow> heap
   \<Rightarrow> (hhh_state option \<times> heap) option" where
  "hhh_alloc_state pow2 ip_addr_hash raw rate_of allocated link_capacity threshold subnets_mask capacity h =
     (case allocated of Some s \<Rightarrow> Some (Some s, h)
      | None \<Rightarrow>
          (case malloc 56 h of (None, h) \<Rightarrow> Some (None, h)
           | (Some _, h) \<Rightarrow>
               (let n = unat (ucast (calculate_n_subnets subnets_mask) :: u8);
                    (p1, h) = malloc (8 * n) h; (p2, h) = malloc (8 * n) h;
                    (p3, h) = malloc (8 * n) h; (p4, h) = malloc (8 * n) h in do {
                  cassert (n = 0 \<or> p1 \<noteq> None \<and> p2 \<noteq> None \<and> p3 \<noteq> None \<and> p4 \<noteq> None);
                  (tables, h) \<leftarrow> hhh_alloc_tables pow2 ip_addr_hash raw capacity n [] h;
                  case tables of None \<Rightarrow> Some (None, h)
                  | Some tables \<Rightarrow>
                      Some (Some \<lparr>hh_tables = tables, hh_threshold_rate = rate_of link_capacity threshold,
                                  hh_n_subnets = int n\<rparr>, h)
                })))"

section \<open>The specification\<close>

text \<open>
  The prefix lengths of the mask from a bit on, and the prefix of an address, in the byte order of
  the packet. \<open>hhh_spec\<close> charges a packet of \<open>sz\<close> bytes to the prefixes of its source, one table
  per length: a known prefix is charged if its bucket holds more than the packet, and is a heavy
  hitter otherwise; a new prefix starts with a full bucket; a full table ends the work without a
  report. \<open>is\<close> are the indexes the code chose for new prefixes.
\<close>

fun hhh_sizes :: "nat \<Rightarrow> int \<Rightarrow> u32 \<Rightarrow> int list" where
  "hhh_sizes 0 k m = []"
| "hhh_sizes (Suc n) k m =
     (if m AND 1 = 0 then hhh_sizes n (k + 1) (drop_bit 1 m) else k # hhh_sizes n (k + 1) (drop_bit 1 m))"


type_synonym hhh_table = "u32 emap \<times> DynamicValue list"



section \<open>The tables\<close>

definition hhh_table_ok :: "bool \<Rightarrow> pol_config \<Rightarrow> vigor_time \<Rightarrow> hhh_table \<Rightarrow> pol_state \<Rightarrow> bool" where
  "hhh_table_ok pow2 limits now = (\<lambda>(em, bks) t. pol_ok pow2 limits em bks t \<and> emap_now em \<le> now)"


section \<open>Charging a packet\<close>










section \<open>The handler\<close>



definition hhh_ok :: "bool \<Rightarrow> hhh_config \<Rightarrow> hhh_table list \<Rightarrow> hhh_state \<Rightarrow> vigor_time \<Rightarrow> bool" where
  "hhh_ok pow2 config ts s now \<longleftrightarrow>
     list_all2 (hhh_table_ok pow2 (hhh_limits config (hh_threshold_rate s)) now) ts (hh_tables s) \<and>
     hh_n_subnets s = int (length (hh_tables s)) \<and>
     length (hh_tables s) = length (hhh_sizes 32 1 (hh_subnets_mask config))"

lemma length_hhh_sizes: "length (hhh_sizes n k m) \<le> n"
  by (induction n arbitrary: k m) (auto intro: le_SucI)





section \<open>The initial state\<close>

text \<open>The prefix lengths are as many as the bits of the mask.\<close>

lemma calculate_n_subnets_sizes: "calculate_n_subnets_loop n m c = c + of_nat (length (hhh_sizes n k m))"
proof (induction n arbitrary: m c k)
  case (Suc n)
  show ?case by (simp add: Suc.IH [of _ _ "k + 1"])
qed simp

lemma hhh_sizes_count: "unat (ucast (calculate_n_subnets m) :: u8) = length (hhh_sizes 32 1 m)"
proof -
  have "length (hhh_sizes 32 1 m) < 2 ^ LENGTH(8)" using length_hhh_sizes [of 32 1 m] by simp
  then show ?thesis
    unfolding calculate_n_subnets_def calculate_n_subnets_sizes [of 32 m 0 1] by (simp add: unsigned_ucast_eq unsigned_take_bit_eq unat_of_nat take_bit_nat_eq_self)
qed

definition hhh_empty :: "nat \<Rightarrow> hhh_table \<Rightarrow> bool" where
  "hhh_empty capacity = (\<lambda>(em, bks). emap_range em = int capacity \<and> emap_now em = 0 \<and> (\<forall>a. \<not> emap_has em a))"

lemma hhh_alloc_table_outcome:
  assumes h: "heap_ok h" and c: "0 < unat capacity" "unat capacity < 140000"
  shows "\<exists>r h'. hhh_alloc_table pow2 hash raw capacity h = Some (r, h') \<and> heap_ok h' \<and>
     (\<forall>t. r = Some t \<longrightarrow> (\<exists>tab. hhh_table_ok pow2 limits 0 tab t \<and> hhh_empty (unat capacity) tab))"
proof -
  obtain ok1 m h1 where one: "map_allocate pow2 (=) hash capacity (raw_indexer raw) None h = Some (ok1, m, h1)" "heap_ok h1"
    "ok1 = 0 \<or> ok1 = 1 \<and> (\<exists>x. m = Some x \<and> m_capacity x = capacity \<and>
        (\<forall>kv. map_wf pow2 kv x \<and> map_contents kv x = Map.empty \<and> map_addrs kv x = Map.empty))"
    using map_allocate_result [OF h c, of pow2 hash "raw_indexer raw"] by blast
  obtain ok2 ch h2 where two: "dchain_allocate (sint capacity) (raw_chain_cells raw) (raw_chain_times raw) None h1 = Some (ok2, ch, h2)"
    "heap_ok h2" "ok2 = 0 \<or> ok2 = 1 \<and> (\<exists>x. ch = Some x \<and> double_chainp (empty_dchain_fp (int (unat capacity)) 0) x)"
    using dchain_allocate_result [OF one(2) c] by blast
  obtain ok3 b h3 where three: "vector_allocate 16 capacity (\<lambda>_. \<lparr>bucket_size = 0, bucket_time = 0\<rparr>) (raw_buckets raw) None h2 = Some (ok3, b, h3)"
    "heap_ok h3" "ok3 = 0 \<or> ok3 = 1 \<and> (\<exists>v. b = Some v \<and> vector_wf v \<and> length (v_data v) = unat capacity)"
    using vector_allocate_result [OF two(2) _ _ c(2), of 16 "\<lambda>_. \<lparr>bucket_size = 0, bucket_time = 0\<rparr>" "raw_buckets raw"] by auto
  obtain ok4 k h4 where four: "vector_allocate 4 capacity (\<lambda>a. a) (raw_subnets raw) None h3 = Some (ok4, k, h4)"
    "heap_ok h4" "ok4 = 0 \<or> ok4 = 1 \<and> (\<exists>v. k = Some v \<and> vector_wf v \<and> v_data v = map (raw_subnets raw) [0..<unat capacity])"
    using vector_allocate_result [OF three(2) _ _ c(2), of 4 "\<lambda>a. a" "raw_subnets raw"] by auto
  show ?thesis
  proof (cases "ok1 = 0 \<or> ok2 = 0 \<or> ok3 = 0 \<or> ok4 = 0")
    case True
    then show ?thesis using one(1,2) two(1,2) three(1,2) four(1,2) by (auto simp: hhh_alloc_table_def)
  next
    case False
    obtain x where x: "m = Some x" "m_capacity x = capacity"
      "\<And>kv. map_wf pow2 kv x \<and> map_contents kv x = Map.empty \<and> map_addrs kv x = Map.empty" using one(3) False by auto
    obtain y where y: "ch = Some y" "double_chainp (empty_dchain_fp (int (unat capacity)) 0) y" using two(3) False by auto
    obtain z where z: "b = Some z" "vector_wf z" "length (v_data z) = unat capacity" using three(3) False by auto
    obtain v where v: "k = Some v" "vector_wf v" "v_data v = map (raw_subnets raw) [0..<unat capacity]" using four(3) False by auto
    let ?em = "emap_of v (empty_dchain_fp (int (unat capacity)) 0)"
    note tab = fresh_table [where raw = "raw_subnets raw" and init = "\<lambda>a. a", OF y(2) v(2,3) x(2,3)]
    let ?t = "\<lparr>dyn_map = x, dyn_keys = v, dyn_heap = y, dyn_vals = z\<rparr>"
    have "hhh_alloc_table pow2 hash raw capacity h = Some (Some ?t, h4)"
      using False one(1) two(1) three(1) four(1) x(1) y(1) z(1) v(1) by (simp add: hhh_alloc_table_def)
    moreover have "hhh_table_ok pow2 limits 0 (?em, v_data z) ?t"
      using tab(1) z by (simp add: hhh_table_ok_def pol_ok_def)
    moreover have "hhh_empty (unat capacity) (?em, v_data z)" using tab(2) by (simp add: hhh_empty_def)
    ultimately show ?thesis using four(2) by blast
  qed
qed

lemma hhh_alloc_tables_outcome:
  assumes "heap_ok h" "0 < unat capacity" "unat capacity < 140000"
    "list_all2 (hhh_table_ok pow2 limits 0) ts tables" "\<forall>t \<in> set ts. hhh_empty (unat capacity) t"
  shows "\<exists>r h'. hhh_alloc_tables pow2 hash raw capacity n tables h = Some (r, h') \<and> heap_ok h' \<and>
     (\<forall>T. r = Some T \<longrightarrow> length T = length tables + n \<and>
        (\<exists>ts'. list_all2 (hhh_table_ok pow2 limits 0) ts' T \<and> (\<forall>t \<in> set ts'. hhh_empty (unat capacity) t)))"
  using assms
proof (induction n arbitrary: tables ts h)
  case 0
  then show ?case by auto
next
  case (Suc n)
  obtain r h1 where one: "hhh_alloc_table pow2 hash (raw (length tables)) capacity h = Some (r, h1)" "heap_ok h1"
    "\<forall>t. r = Some t \<longrightarrow> (\<exists>tab. hhh_table_ok pow2 limits 0 tab t \<and> hhh_empty (unat capacity) tab)"
    using hhh_alloc_table_outcome [OF Suc.prems(1-3)] by blast
  show ?case
  proof (cases r)
    case None
    then show ?thesis using one by simp
  next
    case (Some t)
    then obtain tab where "hhh_table_ok pow2 limits 0 tab t" "hhh_empty (unat capacity) tab" using one(3) by blast
    then have "list_all2 (hhh_table_ok pow2 limits 0) (ts @ [tab]) (tables @ [t])" "\<forall>t \<in> set (ts @ [tab]). hhh_empty (unat capacity) t"
      using Suc.prems(4,5) by (auto intro: list_all2_appendI)
    from Suc.IH [OF one(2) Suc.prems(2,3) this] show ?thesis using one(1) Some by simp
  qed
qed

lemma malloc_heap_ok: "heap_ok h \<Longrightarrow> malloc sz h = (p, h') \<Longrightarrow> heap_ok h'"
  using malloc_Some(3) malloc_None(2) by (cases p) blast+

lemma hhh_alloc_state_ok:
  assumes h: "heap_ok h" and c: "0 < unat capacity" "unat capacity < 140000"
    and run: "hhh_alloc_state pow2 hash raw rate_of None link_capacity threshold (hh_subnets_mask config) capacity h = Some (Some s, h')"
  shows "\<exists>ts. hhh_ok pow2 config ts s 0 \<and> (\<forall>t \<in> set ts. hhh_empty (unat capacity) t) \<and>
     hh_threshold_rate s = rate_of link_capacity threshold"
proof -
  let ?n = "length (hhh_sizes 32 1 (hh_subnets_mask config))"
  obtain b h0 where m0: "malloc 56 h = (Some b, h0)"
    using run by (auto simp: hhh_alloc_state_def split: prod.splits option.splits)
  obtain p1 h1 where m1: "malloc (8 * ?n) h0 = (p1, h1)" by fastforce
  obtain p2 h2 where m2: "malloc (8 * ?n) h1 = (p2, h2)" by fastforce
  obtain p3 h3 where m3: "malloc (8 * ?n) h2 = (p3, h3)" by fastforce
  obtain p4 h4 where m4: "malloc (8 * ?n) h3 = (p4, h4)" by fastforce
  have ok: "heap_ok h4" using malloc_heap_ok h m0 m1 m2 m3 m4 by metis
  obtain tables where t: "hhh_alloc_tables pow2 hash raw capacity ?n [] h4 = Some (Some tables, h')"
    "s = \<lparr>hh_tables = tables, hh_threshold_rate = rate_of link_capacity threshold, hh_n_subnets = int ?n\<rparr>"
    using run m0 m1 m2 m3 m4
    by (auto simp: hhh_alloc_state_def hhh_sizes_count cassert_def Let_def split: option.splits if_splits bind_splits)
  obtain ts where "length tables = ?n"
    "list_all2 (hhh_table_ok pow2 (hhh_limits config (rate_of link_capacity threshold)) 0) ts tables"
    "\<forall>t \<in> set ts. hhh_empty (unat capacity) t"
    using hhh_alloc_tables_outcome [OF ok c, of pow2 _ "[]" "[]" hash raw ?n] t(1) by auto
  then show ?thesis using t(2) by (auto simp: hhh_ok_def)
qed

section \<open>Properties\<close>


definition ex_hhh_config :: hhh_config where
  "ex_hhh_config = \<lparr>hh_lan_device = 0, hh_wan_device = 1, hh_subnets_mask = 0x00800000, hh_burst = 131072\<rparr>"

definition ex_hhh_state :: hhh_state where
  "ex_hhh_state = \<lparr>hh_tables = [ex_pol_state], hh_threshold_rate = 60000, hh_n_subnets = 1\<rparr>"


text \<open>
  The configuration accepts any positive burst size, but the first packet of a prefix that is larger
  than the burst size fails an assertion.
\<close>

lemma hhh_large_packet_aborts:
  "hhh_process True (ex_hhh_config\<lparr>hh_burst := 40\<rparr>) ex_hhh_state 1 ex_packet 60 8 = None"
  by code_simp


end
