(* ===== verification/Lpm.thy ===== *)
theory Lpm
  imports Heap_Alloc
begin

text \<open>
  The table of routes of \<open>libvig/verified/lpm-dir-24-8.c\<close>: one entry for each value of
  the first 24 bits of an address, which is a next hop or the number of a block of 256
  entries for the last 8 bits. The lemmas say what a lookup returns after an update. For
  rules of at most 24 bits, inserted in ascending order as the header demands, the table
  answers with the longest matching prefix. For longer rules it does not: the first rule of
  more than 24 bits in a block hides the shorter rules that covered the rest of the block.
\<close>

declare of_nat_unat [simp del]

unbundle bit_operations_syntax

section \<open>The code\<close>

record lpm_rule =
  rule_ipv4 :: u32
  rule_prefixlen :: u8
  rule_route :: u16

record lpm =
  lpm_24 :: "u16 list"
  lpm_long :: "u16 list"
  lpm_long_index :: u16

definition INVALID :: u16 where
  "INVALID = 0xFFFF"

definition lpm_24_FLAG_MASK :: u16 where
  "lpm_24_FLAG_MASK = 0x8000"

definition lpm_24_MAX_ENTRIES :: nat where
  "lpm_24_MAX_ENTRIES = 16777216"

definition lpm_LONG_MAX_ENTRIES :: nat where
  "lpm_LONG_MAX_ENTRIES = 65536"

definition lpm_LONG_OFFSET_MAX :: u16 where
  "lpm_LONG_OFFSET_MAX = 256"

function fill_invalid_loop :: "u16 list \<Rightarrow> u32 \<Rightarrow> u32 \<Rightarrow> u16 list option" where
  "fill_invalid_loop t sz i =
     (if i = sz then Some t
      else do {
        t \<leftarrow> arr_set t (uint i) INVALID;
        fill_invalid_loop t sz (i + 1)
      })"
  by pat_completeness auto

lemma unat_diff_Suc: "i \<noteq> n \<Longrightarrow> unat (n - (i + 1)) < unat (n - i :: 'a::len word)"
proof -
  assume "i \<noteq> n"
  then have ne: "n - i \<noteq> 0" by simp
  have eq: "n - (i + 1) = (n - i) - 1" by (simp add: algebra_simps)
  have "0 < unat (n - i)" using ne unat_gt_0 by blast
  then show ?thesis unfolding eq unat_minus_one [OF ne] by linarith
qed

termination fill_invalid_loop
  by (relation "measure (\<lambda>(t, sz, i). unat (sz - i))") (auto simp: unat_diff_Suc)

declare fill_invalid_loop.simps [simp del]

definition fill_invalid :: "u16 list \<Rightarrow> u32 \<Rightarrow> u16 list option" where
  "fill_invalid t sz = fill_invalid_loop t sz 0"

definition ip_masks :: "u32 list" where
  "ip_masks = [
     0x00000000, 0x80000000, 0xC0000000, 0xE0000000, 0xF0000000, 0xF8000000,
     0xFC000000, 0xFE000000, 0xFF000000, 0xFF800000, 0xFFC00000, 0xFFE00000,
     0xFFF00000, 0xFFF80000, 0xFFFC0000, 0xFFFE0000, 0xFFFF0000, 0xFFFF8000,
     0xFFFFC000, 0xFFFFE000, 0xFFFFF000, 0xFFFFF800, 0xFFFFFC00, 0xFFFFFE00,
     0xFFFFFF00, 0xFFFFFF80, 0xFFFFFFC0, 0xFFFFFFE0, 0xFFFFFFF0, 0xFFFFFFF8,
     0xFFFFFFFC, 0xFFFFFFFE, 0xFFFFFFFF]"

definition build_mask_from_prefixlen :: "u8 \<Rightarrow> u32 option" where
  "build_mask_from_prefixlen prefixlen = arr_get ip_masks (uint prefixlen)"

definition lpm_24_extract_first_index :: "u32 \<Rightarrow> u32" where
  "lpm_24_extract_first_index data = drop_bit 8 data"

definition compute_rule_size :: "u8 \<Rightarrow> u32 option" where
  "compute_rule_size prefixlen =
     (if prefixlen < 25 then
        arr_get [0x1000000, 0x800000, 0x400000, 0x200000, 0x100000,
                 0x80000,   0x40000,  0x20000,  0x10000,  0x8000,
                 0x4000,    0x2000,   0x1000,   0x800,    0x400,
                 0x200,     0x100,    0x80,     0x40,     0x20,
                 0x10,      0x8,      0x4,      0x2,      0x1] (uint prefixlen)
      else arr_get [0x80, 0x40, 0x20, 0x10, 0x8, 0x4, 0x2, 0x1] (uint prefixlen - 25))"

definition lpm_24_entry_flag :: "u16 \<Rightarrow> bool" where
  "lpm_24_entry_flag entry \<longleftrightarrow> drop_bit 15 entry = 1"

definition lpm_24_entry_set_flag :: "u16 \<Rightarrow> u16" where
  "lpm_24_entry_set_flag entry = entry OR lpm_24_FLAG_MASK"

definition lpm_long_extract_first_index :: "u32 \<Rightarrow> u8 \<Rightarrow> u8 \<Rightarrow> u16 option" where
  "lpm_long_extract_first_index data prefixlen base_index = do {
     mask \<leftarrow> build_mask_from_prefixlen prefixlen;
     let masked_data = data AND mask;
     let last_byte = (ucast (masked_data AND 0xFF) :: u8);
     Some (ucast base_index * 256 + ucast last_byte)
   }"

text \<open>
  \<open>raw_24\<close> and \<open>raw_long\<close> are what the two new tables hold. The table comes with the
  numbers of its three blocks, for \<open>lpm_free\<close>.
\<close>

type_synonym lpm_ptr = "lpm \<times> nat \<times> nat \<times> nat"

definition lpm_allocate ::
  "(nat \<Rightarrow> u16) \<Rightarrow> (nat \<Rightarrow> u16) \<Rightarrow> lpm_ptr option \<Rightarrow> heap \<Rightarrow> (int \<times> lpm_ptr option \<times> heap) option" where
  "lpm_allocate raw_24 raw_long lpm_out h =
     (case malloc 24 h of
        (None, h) \<Rightarrow> Some (0, lpm_out, h)
      | (Some p, h) \<Rightarrow>
          (case malloc (lpm_24_MAX_ENTRIES * 2) h of
             (None, h) \<Rightarrow> do {
               h \<leftarrow> free p h;
               Some (0, lpm_out, h)
             }
           | (Some q, h) \<Rightarrow>
               (case malloc (lpm_LONG_MAX_ENTRIES * 2) h of
                  (None, h) \<Rightarrow> do {
                    h \<leftarrow> free q h;
                    h \<leftarrow> free p h;
                    Some (0, lpm_out, h)
                  }
                | (Some r, h) \<Rightarrow> do {
                    t_24 \<leftarrow> fill_invalid (map raw_24 [0..<lpm_24_MAX_ENTRIES]) (of_nat lpm_24_MAX_ENTRIES);
                    t_l \<leftarrow> fill_invalid (map raw_long [0..<lpm_LONG_MAX_ENTRIES]) (of_nat lpm_LONG_MAX_ENTRIES);
                    Some (1, Some (\<lparr>lpm_24 = t_24, lpm_long = t_l, lpm_long_index = 0\<rparr>, p, q, r), h)
                  })))"

definition lpm_free :: "lpm_ptr \<Rightarrow> heap \<Rightarrow> heap option" where
  "lpm_free = (\<lambda>(_, p, q, r) h. do {
     h \<leftarrow> free q h;
     h \<leftarrow> free r h;
     free p h
   })"

definition lpm_lookup_elem :: "lpm \<Rightarrow> u32 \<Rightarrow> u16 option" where
  "lpm_lookup_elem t prefix = do {
     let index = lpm_24_extract_first_index prefix;
     value \<leftarrow> arr_get (lpm_24 t) (uint index);
     if value \<noteq> INVALID \<and> lpm_24_entry_flag value then do {
       let extracted_index = (ucast (value AND 0xFF) :: u8);
       index_long \<leftarrow> lpm_long_extract_first_index prefix 32 extracted_index;
       value_long \<leftarrow> arr_get (lpm_long t) (uint index_long);
       if value_long = INVALID then Some INVALID else Some value_long
     } else if value = INVALID then Some INVALID else Some value
   }"

text \<open>The loops that store a value from one index up to another.\<close>

function lpm_store_loop :: "u16 list \<Rightarrow> u16 \<Rightarrow> u32 \<Rightarrow> u32 \<Rightarrow> u16 list option" where
  "lpm_store_loop t value last_index i =
     (if i = last_index then Some t
      else do {
        t \<leftarrow> arr_set t (uint i) value;
        lpm_store_loop t value last_index (i + 1)
      })"
  by pat_completeness auto
termination
  by (relation "measure (\<lambda>(t, value, last_index, i). unat (last_index - i))") (auto simp: unat_diff_Suc)

declare lpm_store_loop.simps [simp del]

definition lpm_update_elem :: "lpm \<Rightarrow> u32 \<Rightarrow> u8 \<Rightarrow> u16 \<Rightarrow> (int \<times> lpm) option" where
  "lpm_update_elem t prefix prefixlen value = do {
     mask \<leftarrow> build_mask_from_prefixlen prefixlen;
     let masked_ip = prefix AND mask;
     if prefixlen < 25 then do {
       let first_index = lpm_24_extract_first_index masked_ip;
       rule_size \<leftarrow> compute_rule_size prefixlen;
       let last_index = first_index + rule_size;
       t24 \<leftarrow> lpm_store_loop (lpm_24 t) value last_index first_index;
       Some (1, t\<lparr>lpm_24 := t24\<rparr>)
     } else do {
       let lpm_24_index = lpm_24_extract_first_index prefix;
       lpm_24_value \<leftarrow> arr_get (lpm_24 t) (uint lpm_24_index);
       let need_new_index = (if lpm_24_value = INVALID then True else \<not> lpm_24_entry_flag lpm_24_value);
       if need_new_index \<and> lpm_LONG_OFFSET_MAX \<le> lpm_long_index t then Some (0, t)
       else do {
         (t, base_index) \<leftarrow>
           (if need_new_index then do {
              let base_index = (ucast (lpm_long_index t) :: u8);
              let t = t\<lparr>lpm_long_index := lpm_long_index t + 1\<rparr>;
              t24 \<leftarrow> arr_set (lpm_24 t) (uint lpm_24_index) (lpm_24_entry_set_flag (ucast base_index));
              Some (t\<lparr>lpm_24 := t24\<rparr>, base_index)
            } else Some (t, ucast (lpm_24_value AND 0x7FFF)));
         index \<leftarrow> lpm_long_extract_first_index prefix prefixlen base_index;
         let first_index = (ucast index :: u32);
         rule_size \<leftarrow> compute_rule_size prefixlen;
         let last_index = first_index + rule_size;
         tl \<leftarrow> lpm_store_loop (lpm_long t) value last_index first_index;
         Some (1, t\<lparr>lpm_long := tl\<rparr>)
       }
     }
   }"

section \<open>Masks and ranges\<close>

lemma ip_masks_eq: "p \<le> 32 \<Longrightarrow> ip_masks ! p = NOT (mask (32 - p))"
proof -
  have "\<forall>p \<in> set [0..<33]. ip_masks ! p = NOT (mask (32 - p))" by code_simp
  then show "p \<le> 32 \<Longrightarrow> ip_masks ! p = NOT (mask (32 - p))" by simp
qed

lemma unat_and_not_mask: "unat (w AND NOT (mask n) :: 'a::len word) = unat w div 2 ^ n * 2 ^ n"
proof -
  have "w AND NOT (mask n) = push_bit n (drop_bit n w)" by (rule bit_word_eqI) (auto simp: bit_simps)
  then have "uint (w AND NOT (mask n)) = take_bit LENGTH('a) (push_bit n (drop_bit n (uint w)))"
    using uint_bounded [of w] by (simp add: unsigned_push_bit_eq unsigned_drop_bit_eq take_bit_int_eq_self)
  also have "push_bit n (drop_bit n (uint w)) = uint w div 2 ^ n * 2 ^ n" by (simp add: push_bit_eq_mult drop_bit_eq_div)
  also have "take_bit LENGTH('a) (uint w div 2 ^ n * 2 ^ n) = uint w div 2 ^ n * 2 ^ n"
  proof -
    have "uint w div 2 ^ n * 2 ^ n \<le> uint w" by (simp add: minus_mod_eq_div_mult [symmetric])
    then have "uint w div 2 ^ n * 2 ^ n < 2 ^ LENGTH('a)" using uint_bounded [of w] by (rule le_less_trans)
    moreover have "0 \<le> uint w div 2 ^ n * 2 ^ n" by (simp add: pos_imp_zdiv_nonneg_iff zero_le_mult_iff)
    ultimately show ?thesis by (intro take_bit_int_eq_self)
  qed
  finally have "int (unat (w AND NOT (mask n))) = int (unat w div 2 ^ n * 2 ^ n)"
    by (simp add: uint_eq_int_unat of_nat_div)
  then show ?thesis by (simp only: of_nat_eq_iff)
qed

lemma build_mask:
  assumes "unat p \<le> 32"
  shows "\<exists>m. build_mask_from_prefixlen p = Some m \<and>
     (\<forall>w. unat (w AND m) = unat w div 2 ^ (32 - unat p) * 2 ^ (32 - unat p))"
proof -
  have "build_mask_from_prefixlen p = Some (ip_masks ! unat p)"
    using assms by (simp add: build_mask_from_prefixlen_def arr_get_uint ip_masks_def)
  then show ?thesis by (simp add: ip_masks_eq [OF assms] unat_and_not_mask)
qed

lemma rule_size:
  assumes "unat p \<le> 32"
  shows "\<exists>s. compute_rule_size p = Some s \<and> unat s = (if unat p < 25 then 2 ^ (24 - unat p) else 2 ^ (32 - unat p))"
proof -
  have "\<forall>p \<in> set [0..<33]. case compute_rule_size (of_nat p) of None \<Rightarrow> False
      | Some s \<Rightarrow> uint s = (if p < 25 then 2 ^ (24 - p) else 2 ^ (32 - p))" by code_simp
  then have "case compute_rule_size (of_nat (unat p)) of None \<Rightarrow> False
      | Some s \<Rightarrow> uint s = (if unat p < 25 then 2 ^ (24 - unat p) else 2 ^ (32 - unat p))" using assms by simp
  then obtain s where s: "compute_rule_size p = Some s"
    "uint s = (if unat p < 25 then 2 ^ (24 - unat p) else 2 ^ (32 - unat p))"
    unfolding word_of_nat_unat by (auto split: option.splits)
  then have "int (unat s) = int (if unat p < 25 then 2 ^ (24 - unat p) else 2 ^ (32 - unat p))"
    by (simp add: uint_eq_int_unat)
  then show ?thesis using s(1) of_nat_eq_iff by blast
qed

text \<open>The indexes of the addresses that match a prefix.\<close>

definition lpm_match :: "u32 \<Rightarrow> u32 \<Rightarrow> u8 \<Rightarrow> bool" where
  "lpm_match ip prefix prefixlen \<longleftrightarrow>
     drop_bit (32 - unat prefixlen) ip = drop_bit (32 - unat prefixlen) prefix"

lemma unat_drop_bit: "unat (drop_bit n w) = unat w div 2 ^ n"
  unfolding unat_drop_bit_eq by (rule drop_bit_eq_div)

lemma lpm_match_div:
  "lpm_match ip prefix p \<longleftrightarrow> unat ip div 2 ^ (32 - unat p) = unat prefix div 2 ^ (32 - unat p)"
  by (simp add: lpm_match_def word_unat_eq_iff unat_drop_bit)

lemma block_iff: "0 < (n :: nat) \<Longrightarrow> a div n = b \<longleftrightarrow> b * n \<le> a \<and> a < b * n + n"
  by (metis add.commute div_nat_eqI dividend_less_times_div div_times_less_eq_dividend mult.commute mult_Suc)

lemma short_range:
  assumes "p \<le> 24" "first = (x div 2 ^ (32 - p) * 2 ^ (32 - p)) div 256"
  shows "first \<le> y div 256 \<and> y div 256 < first + 2 ^ (24 - p) \<longleftrightarrow> y div 2 ^ (32 - p) = x div (2 ^ (32 - p) :: nat)"
    "x < 2 ^ 32 \<Longrightarrow> first + 2 ^ (24 - p) \<le> 2 ^ 24"
proof -
  have e: "(2 :: nat) ^ (32 - p) = 2 ^ (24 - p) * 256"
    using assms(1) power_add [of "2 :: nat" "24 - p" 8] by (simp add: le_diff_conv2)
  have f: "first = x div 2 ^ (32 - p) * 2 ^ (24 - p)" unfolding assms(2) e by (simp add: mult.assoc [symmetric])
  moreover have "y div 2 ^ (32 - p) = y div 256 div 2 ^ (24 - p)" unfolding e by (simp add: div_mult2_eq mult.commute)
  ultimately show "first \<le> y div 256 \<and> y div 256 < first + 2 ^ (24 - p) \<longleftrightarrow> y div 2 ^ (32 - p) = x div 2 ^ (32 - p)"
    using block_iff [of "2 ^ (24 - p)" "y div 256" "x div 2 ^ (32 - p)"] by auto
  assume "x < 2 ^ 32"
  moreover have "(2 :: nat) ^ 32 = 2 ^ p * 2 ^ (32 - p)" "(2 :: nat) ^ 24 = 2 ^ p * 2 ^ (24 - p)"
    using assms(1) by (simp_all flip: power_add)
  ultimately have "x div 2 ^ (32 - p) + 1 \<le> 2 ^ p" by (metis Suc_eq_plus1 Suc_leI less_mult_imp_div_less)
  then have "(x div 2 ^ (32 - p) + 1) * 2 ^ (24 - p) \<le> 2 ^ p * 2 ^ (24 - p)" by (rule mult_le_mono1)
  then show "first + 2 ^ (24 - p) \<le> 2 ^ 24" unfolding f \<open>(2 :: nat) ^ 24 = 2 ^ p * 2 ^ (24 - p)\<close> by simp
qed

lemma long_range:
  assumes "25 \<le> p" "p \<le> 32" "s = (x div 2 ^ (32 - p) * 2 ^ (32 - p)) mod 256" "y div 256 = x div 256"
  shows "s \<le> y mod 256 \<and> y mod 256 < s + 2 ^ (32 - p) \<longleftrightarrow> y div 2 ^ (32 - p) = x div (2 ^ (32 - p) :: nat)"
    "s + 2 ^ (32 - p) \<le> 256"
proof -
  let ?n = "2 ^ (32 - p) :: nat" and ?k = "2 ^ (p - 24) :: nat"
  have e: "256 = ?k * ?n" using assms(1,2) power_add [of "2 :: nat" "p - 24" "32 - p"] by simp
  have d: "z div 256 = z div ?n div ?k" for z unfolding e mult.commute [of ?k] by (rule div_mult2_eq)
  have s: "s = x div ?n mod ?k * ?n" unfolding assms(3) e by (simp add: mult_mod_left [symmetric])
  have y: "y mod 256 div ?n = y div ?n mod ?k" unfolding e by (simp add: mod_mult2_eq mult.commute [of ?k])
  have "y div ?n = x div ?n \<longleftrightarrow> y div ?n mod ?k = x div ?n mod ?k"
    using d [of x] d [of y] assms(4) by (metis mult_div_mod_eq)
  then show "s \<le> y mod 256 \<and> y mod 256 < s + ?n \<longleftrightarrow> y div ?n = x div ?n"
    using block_iff [of ?n "y mod 256" "x div ?n mod ?k"] y s by auto
  have "x div ?n mod ?k + 1 \<le> ?k" by (simp add: Suc_leI)
  then have "(x div ?n mod ?k + 1) * ?n \<le> ?k * ?n" by (rule mult_le_mono1)
  then show "s + ?n \<le> 256" unfolding s e by simp
qed

section \<open>The stores\<close>

lemma lpm_store_loop_run:
  assumes "m < 2 ^ 32" "m \<le> length t"
  shows "i \<le> m \<Longrightarrow> \<exists>t'. lpm_store_loop t v (of_nat m) (of_nat i) = Some t' \<and> length t' = length t \<and>
     (\<forall>k < length t. t' ! k = (if i \<le> k \<and> k < m then v else t ! k))"
  using assms(2)
proof (induction "m - i" arbitrary: i t)
  case 0
  then show ?case by (auto simp: lpm_store_loop.simps [of _ _ _ "of_nat i"])
next
  case (Suc n)
  then have i: "i < m" "n = m - Suc i" "Suc i \<le> m" by simp_all
  have "(of_nat i :: u32) \<noteq> of_nat m" using i(1) assms(1) by (simp add: word_unat_eq_iff unat_of_nat)
  moreover have "uint (of_nat i :: u32) = int i" using i(1) assms(1) by (simp add: uint_eq_int_unat unat_of_nat)
  ultimately have "lpm_store_loop t v (of_nat m) (of_nat i) = lpm_store_loop (t[i := v]) v (of_nat m) (of_nat (Suc i))"
    using i(1) Suc.prems(2) by (simp add: lpm_store_loop.simps [of _ _ _ "of_nat i"] arr_set_nth add.commute [of 1])
  moreover obtain t' where "lpm_store_loop (t[i := v]) v (of_nat m) (of_nat (Suc i)) = Some t'" "length t' = length t"
    "\<forall>k < length t. t' ! k = (if Suc i \<le> k \<and> k < m then v else (t[i := v]) ! k)"
    using Suc(1) [OF i(2,3), of "t[i := v]"] Suc.prems(2) by auto
  ultimately show ?case using i(1) Suc.prems(2) by (auto simp: nth_list_update)
qed

lemma fill_invalid_loop_store: "fill_invalid_loop t sz i = lpm_store_loop t INVALID sz i"
  by (induction t sz i rule: fill_invalid_loop.induct)
    (simp add: fill_invalid_loop.simps [of _ _ i for i] lpm_store_loop.simps [of _ _ _ i for i] cong: Option.bind_cong)

lemma fill_invalid_run:
  assumes "length t < 2 ^ 32"
  shows "fill_invalid t (of_nat (length t)) = Some (replicate (length t) INVALID)"
proof -
  obtain t' where "lpm_store_loop t INVALID (of_nat (length t)) (of_nat 0) = Some t'" "length t' = length t"
    "\<forall>k < length t. t' ! k = INVALID"
    using lpm_store_loop_run [of "length t" t 0 INVALID] assms by auto
  moreover from this have "t' = replicate (length t) INVALID" by (intro nth_equalityI) auto
  ultimately show ?thesis by (simp add: fill_invalid_def fill_invalid_loop_store)
qed

section \<open>Entries\<close>

definition lpm_long_entry :: "u16 \<Rightarrow> bool" where
  "lpm_long_entry v \<longleftrightarrow> v \<noteq> INVALID \<and> lpm_24_entry_flag v"

definition lpm_bucket :: "u16 \<Rightarrow> nat" where
  "lpm_bucket v = unat v mod 256"

lemma unat_bounded: "unat (w :: 'a::len word) < 2 ^ LENGTH('a)"
proof -
  have "int (unat w) < int (2 ^ LENGTH('a))" using uint_bounded [of w] by (simp add: uint_eq_int_unat)
  then show ?thesis by (simp only: of_nat_less_iff)
qed

lemma entry_flag_unat: "lpm_24_entry_flag v \<longleftrightarrow> 32768 \<le> unat v"
proof -
  have "unat v < 65536" using unat_bounded [of v] by simp
  then show ?thesis
    unfolding lpm_24_entry_flag_def word_unat_eq_iff unat_drop_bit by (simp add: block_iff)
qed

lemma unat_and_mask: "unat (w AND mask n) = unat w mod 2 ^ n"
  unfolding take_bit_eq_mask [symmetric] unsigned_take_bit_eq by (rule take_bit_eq_mod)

lemma low_byte_u32: "unat (ucast (w AND 0xFF :: u32) :: u8) = unat w mod 256"
proof -
  have "unat (w AND 0xFF) = unat w mod 256" using unat_and_mask [of w 8] by (simp add: mask_eq_exp_minus_1)
  then show ?thesis by (simp add: unsigned_ucast_eq take_bit_eq_mod)
qed

lemma low_byte_u16:
  "unat (ucast (w AND 0xFF :: u16) :: u8) = lpm_bucket w" "unat (ucast (w AND 0x7FFF :: u16) :: u8) = lpm_bucket w"
proof -
  have "unat (w AND 0xFF) = unat w mod 256" "unat (w AND 0x7FFF) = unat w mod 32768"
    using unat_and_mask [of w 8] unat_and_mask [of w 15] by (simp_all add: mask_eq_exp_minus_1)
  moreover have "x mod 32768 mod 256 = x mod (256 :: nat)" for x by (rule mod_mod_cancel) simp
  ultimately show "unat (ucast (w AND 0xFF :: u16) :: u8) = lpm_bucket w"
    "unat (ucast (w AND 0x7FFF :: u16) :: u8) = lpm_bucket w"
    by (simp_all add: unsigned_ucast_eq take_bit_eq_mod lpm_bucket_def)
qed

lemma set_flag_entry:
  assumes "unat b < 256"
  shows "unat (lpm_24_entry_set_flag b) = 32768 + unat b"
proof -
  have "\<not> (bit b n \<and> bit lpm_24_FLAG_MASK n)" for n
  proof
    assume bits: "bit b n \<and> bit lpm_24_FLAG_MASK n"
    have eq: "lpm_24_FLAG_MASK = push_bit 15 1" by (simp add: lpm_24_FLAG_MASK_def)
    have "n = 15" using bits unfolding eq bit_push_bit_iff bit_1_iff by auto
    then have "bit (unat b) 15" using bits by (simp add: bit_unsigned_iff)
    then show False using assms by (simp add: bit_iff_odd)
  qed
  then have "b OR lpm_24_FLAG_MASK = b + lpm_24_FLAG_MASK" by (intro disjunctive_add [symmetric]) auto
  then show ?thesis using assms by (simp add: lpm_24_entry_set_flag_def unat_word_ariths lpm_24_FLAG_MASK_def)
qed

lemma unat_two_bytes: "unat (ucast a * 256 + ucast b :: u16) = unat a * 256 + unat b" for a b :: u8
proof -
  have "unat a < 256" "unat b < 256" using unat_bounded [of a] unat_bounded [of b] by simp_all
  then show ?thesis by (simp add: unat_word_ariths unsigned_ucast_eq take_bit_nat_eq_self)
qed

lemma long_first_index:
  assumes "unat p \<le> 32"
  shows "\<exists>r. lpm_long_extract_first_index data p base = Some r \<and>
     unat r = unat base * 256 + unat data div 2 ^ (32 - unat p) * 2 ^ (32 - unat p) mod 256"
proof -
  obtain m where m: "build_mask_from_prefixlen p = Some m" "unat (data AND m) = unat data div 2 ^ (32 - unat p) * 2 ^ (32 - unat p)"
    using build_mask [OF assms] by blast
  let ?b = "ucast ((data AND m) AND 0xFF) :: u8"
  show ?thesis
    using m low_byte_u32 [of "data AND m"] unat_two_bytes [of base ?b] by (simp add: lpm_long_extract_first_index_def Let_def)
qed

section \<open>The invariant and the route of an address\<close>

text \<open>
  Every block is used by one entry only, blocks that are not used yet are empty, and their
  number fits into a byte.
\<close>

definition lpm_wf :: "lpm \<Rightarrow> bool" where
  "lpm_wf t \<longleftrightarrow>
     length (lpm_24 t) = lpm_24_MAX_ENTRIES \<and> length (lpm_long t) = lpm_LONG_MAX_ENTRIES \<and>
     unat (lpm_long_index t) \<le> 256 \<and>
     (\<forall>i < lpm_24_MAX_ENTRIES. lpm_long_entry (lpm_24 t ! i) \<longrightarrow> lpm_bucket (lpm_24 t ! i) < unat (lpm_long_index t)) \<and>
     (\<forall>i < lpm_24_MAX_ENTRIES. \<forall>j < lpm_24_MAX_ENTRIES. lpm_long_entry (lpm_24 t ! i) \<longrightarrow> lpm_long_entry (lpm_24 t ! j) \<longrightarrow>
        lpm_bucket (lpm_24 t ! i) = lpm_bucket (lpm_24 t ! j) \<longrightarrow> i = j) \<and>
     (\<forall>k < lpm_LONG_MAX_ENTRIES. unat (lpm_long_index t) * 256 \<le> k \<longrightarrow> lpm_long t ! k = INVALID)"

definition lpm_entry :: "lpm \<Rightarrow> u32 \<Rightarrow> u16" where
  "lpm_entry t ip = lpm_24 t ! (unat ip div 256)"

definition lpm_route :: "lpm \<Rightarrow> u32 \<Rightarrow> u16" where
  "lpm_route t ip =
     (if lpm_long_entry (lpm_entry t ip) then lpm_long t ! (lpm_bucket (lpm_entry t ip) * 256 + unat ip mod 256)
      else lpm_entry t ip)"

lemma index_24:
  "unat (lpm_24_extract_first_index ip) = unat ip div 256" "unat ip div 256 < lpm_24_MAX_ENTRIES" for ip :: u32
proof -
  show "unat (lpm_24_extract_first_index ip) = unat ip div 256"
    using unat_drop_bit [of 8 ip] by (simp add: lpm_24_extract_first_index_def)
  show "unat ip div 256 < lpm_24_MAX_ENTRIES"
    using unat_bounded [of ip] by (simp add: lpm_24_MAX_ENTRIES_def less_mult_imp_div_less)
qed

lemma bucket_cell: "b < 256 \<Longrightarrow> o' < 256 \<Longrightarrow> b * 256 + o' < lpm_LONG_MAX_ENTRIES"
  by (simp add: lpm_LONG_MAX_ENTRIES_def)

lemma lpm_lookup_route:
  assumes "lpm_wf t"
  shows "lpm_lookup_elem t ip = Some (lpm_route t ip)"
proof -
  have get: "arr_get (lpm_24 t) (uint (lpm_24_extract_first_index ip)) = Some (lpm_entry t ip)"
    using assms index_24 by (subst arr_get_uint) (simp_all add: lpm_wf_def lpm_entry_def)
  let ?b = "lpm_bucket (lpm_entry t ip)"
  have b: "unat (ucast (lpm_entry t ip AND 0xFF) :: u8) = ?b" by (rule low_byte_u16)
  obtain r where r: "lpm_long_extract_first_index ip 32 (ucast (lpm_entry t ip AND 0xFF)) = Some r" "unat r = ?b * 256 + unat ip mod 256"
    using long_first_index [of 32 ip "ucast (lpm_entry t ip AND 0xFF)"] b by auto
  have "unat r < length (lpm_long t)" using r(2) assms bucket_cell [of ?b "unat ip mod 256"] by (simp add: lpm_wf_def lpm_bucket_def)
  then have "arr_get (lpm_long t) (uint r) = Some (lpm_long t ! (?b * 256 + unat ip mod 256))"
    using r(2) by (simp add: arr_get_uint)
  then show ?thesis using get r(1) by (simp add: lpm_lookup_elem_def lpm_route_def lpm_long_entry_def Let_def)
qed

section \<open>Rules of at most 24 bits\<close>

lemma lpm_update_short:
  assumes wf: "lpm_wf t" and p: "unat p \<le> 24" and v: "v < 0x8000"
  shows "\<exists>t'. lpm_update_elem t prefix p v = Some (1, t') \<and> lpm_wf t' \<and>
     (\<forall>ip. lpm_route t' ip = (if lpm_match ip prefix p then v else lpm_route t ip)) \<and>
     (\<forall>ip. lpm_long_entry (lpm_entry t' ip) \<longleftrightarrow> \<not> lpm_match ip prefix p \<and> lpm_long_entry (lpm_entry t ip))"
proof -
  obtain m where m: "build_mask_from_prefixlen p = Some m" "unat (prefix AND m) = unat prefix div 2 ^ (32 - unat p) * 2 ^ (32 - unat p)"
    using build_mask [of p] p by auto
  define first where "first = unat prefix div 2 ^ (32 - unat p) * 2 ^ (32 - unat p) div 256"
  obtain s where s: "compute_rule_size p = Some s" "unat s = 2 ^ (24 - unat p)" using rule_size [of p] p by auto
  have fi: "unat (lpm_24_extract_first_index (prefix AND m)) = first" by (simp add: index_24 m(2) first_def)
  note range = short_range [OF p first_def]
  have fits: "first + 2 ^ (24 - unat p) \<le> lpm_24_MAX_ENTRIES"
    using range(2) unat_bounded [of prefix] by (simp add: lpm_24_MAX_ENTRIES_def)
  have w: "lpm_24_extract_first_index (prefix AND m) = of_nat first"
    "s = 2 ^ (24 - unat p)"
    using fi s(2) word_of_nat_unat [of "lpm_24_extract_first_index (prefix AND m)"] word_of_nat_unat [of s] by simp_all
  have len: "length (lpm_24 t) = lpm_24_MAX_ENTRIES" using wf by (simp add: lpm_wf_def)
  obtain t24 where t24: "lpm_store_loop (lpm_24 t) v (of_nat (first + 2 ^ (24 - unat p))) (of_nat first) = Some t24"
    "length t24 = lpm_24_MAX_ENTRIES"
    "\<forall>k < lpm_24_MAX_ENTRIES. t24 ! k = (if first \<le> k \<and> k < first + 2 ^ (24 - unat p) then v else lpm_24 t ! k)"
    using lpm_store_loop_run [of "first + 2 ^ (24 - unat p)" "lpm_24 t" first v] fits len by (auto simp: lpm_24_MAX_ENTRIES_def)
  let ?t = "t\<lparr>lpm_24 := t24\<rparr>"
  have run: "lpm_update_elem t prefix p v = Some (1, ?t)"
    using m(1) s(1) p t24(1) by (simp add: lpm_update_elem_def Let_def w word_less_nat_alt)
  have nolong: "\<not> lpm_long_entry v" using v by (simp add: lpm_long_entry_def entry_flag_unat word_less_nat_alt)
  have entry: "lpm_entry ?t ip = (if lpm_match ip prefix p then v else lpm_entry t ip)" for ip
    using t24(3) index_24(2) [of ip] range(1) [of "unat ip"] by (simp add: lpm_entry_def lpm_match_div)
  have "lpm_wf ?t" using wf t24(2,3) nolong by (auto simp: lpm_wf_def)
  then show ?thesis using run entry nolong by (auto simp: lpm_route_def)
qed

section \<open>Rules of more than 24 bits\<close>

definition same_block :: "u32 \<Rightarrow> u32 \<Rightarrow> bool" where
  "same_block ip prefix \<longleftrightarrow> unat ip div 256 = unat prefix div 256"

lemma match_same_block:
  assumes "25 \<le> unat p" "unat p \<le> 32" "lpm_match ip prefix p"
  shows "same_block ip prefix"
proof -
  have e: "256 = (2 :: nat) ^ (32 - unat p) * 2 ^ (unat p - 24)" using assms(1,2) by (simp flip: power_add)
  show ?thesis using assms(3) unfolding same_block_def lpm_match_div e by (simp add: div_mult2_eq)
qed

lemma lpm_wfD:
  assumes "lpm_wf t"
  shows "length (lpm_24 t) = lpm_24_MAX_ENTRIES" "length (lpm_long t) = lpm_LONG_MAX_ENTRIES" "unat (lpm_long_index t) \<le> 256"
    "lpm_long_entry (lpm_entry t ip) \<Longrightarrow> lpm_bucket (lpm_entry t ip) < unat (lpm_long_index t)"
    "lpm_long_entry (lpm_entry t ip) \<Longrightarrow> lpm_long_entry (lpm_entry t ip') \<Longrightarrow>
       lpm_bucket (lpm_entry t ip) = lpm_bucket (lpm_entry t ip') \<Longrightarrow> same_block ip ip'"
    "k < lpm_LONG_MAX_ENTRIES \<Longrightarrow> unat (lpm_long_index t) * 256 \<le> k \<Longrightarrow> lpm_long t ! k = INVALID"
  using assms index_24(2) by (auto simp: lpm_wf_def lpm_entry_def same_block_def)

lemma block_cell:
  fixes b c d o' n :: nat
  assumes "d < 256" "o' + n \<le> 256"
  shows "b * 256 + o' \<le> c * 256 + d \<and> c * 256 + d < b * 256 + o' + n \<longleftrightarrow> c = b \<and> o' \<le> d \<and> d < o' + n"
proof (cases c b rule: linorder_cases)
  case less
  then have "(c + 1) * 256 \<le> b * 256" by (intro mult_right_mono) simp_all
  then show ?thesis using less assms by auto
next
  case greater
  then have "(b + 1) * 256 \<le> c * 256" by (intro mult_right_mono) simp_all
  then show ?thesis using greater assms by auto
qed simp

text \<open>Storing a rule in the block of its first 24 bits.\<close>

lemma lpm_store_long:
  assumes wf: "lpm_wf t" and p: "25 \<le> unat p" "unat p \<le> 32" and long: "lpm_long_entry (lpm_entry t prefix)"
    and base: "unat base = lpm_bucket (lpm_entry t prefix)"
  shows "\<exists>r s tl. lpm_long_extract_first_index prefix p base = Some r \<and> compute_rule_size p = Some s \<and>
     lpm_store_loop (lpm_long t) v (ucast r + s) (ucast r) = Some tl \<and> lpm_wf (t\<lparr>lpm_long := tl\<rparr>) \<and>
     (\<forall>ip. lpm_route (t\<lparr>lpm_long := tl\<rparr>) ip = (if lpm_match ip prefix p then v else lpm_route t ip))"
proof -
  define b where "b = lpm_bucket (lpm_entry t prefix)"
  define o' where "o' = unat prefix div 2 ^ (32 - unat p) * 2 ^ (32 - unat p) mod 256"
  define n where "n = (2 :: nat) ^ (32 - unat p)"
  obtain r where r: "lpm_long_extract_first_index prefix p base = Some r" "unat r = b * 256 + o'"
    using long_first_index [OF p(2), of prefix base] base by (auto simp: b_def o'_def)
  obtain s where s: "compute_rule_size p = Some s" "unat s = n" using rule_size [OF p(2)] p(1) by (auto simp: n_def)
  have b: "b < unat (lpm_long_index t)" "b < 256" using lpm_wfD(4) [OF wf long] by (auto simp: b_def lpm_bucket_def)
  have fit: "o' + n \<le> 256" using long_range(2) [OF p o'_def refl] by (simp add: n_def)
  then have "b * 256 + o' + n \<le> 65536" using b(2) by linarith
  then have lim: "b * 256 + o' + n \<le> length (lpm_long t)" "b * 256 + o' + n < 2 ^ 32"
    using lpm_wfD(2) [OF wf] by (simp_all add: lpm_LONG_MAX_ENTRIES_def)
  have "unat (ucast r :: u32) = unat r" using unat_bounded [of r] by (simp add: unsigned_ucast_eq take_bit_nat_eq_self)
  then have w: "ucast r = (of_nat (b * 256 + o') :: u32)" "ucast r + s = of_nat (b * 256 + o' + n)"
    using word_of_nat_unat [of "ucast r :: u32"] word_of_nat_unat [of s] r(2) s(2) by simp_all
  obtain tl where tl: "lpm_store_loop (lpm_long t) v (of_nat (b * 256 + o' + n)) (of_nat (b * 256 + o')) = Some tl"
    "length tl = lpm_LONG_MAX_ENTRIES"
    "\<forall>k < lpm_LONG_MAX_ENTRIES. tl ! k = (if b * 256 + o' \<le> k \<and> k < b * 256 + o' + n then v else lpm_long t ! k)"
    using lpm_store_loop_run [OF lim(2,1), of "b * 256 + o'" v] lpm_wfD(2) [OF wf] by auto
  let ?t = "t\<lparr>lpm_long := tl\<rparr>"
  have entry: "lpm_entry ?t ip = lpm_entry t ip" for ip by (simp add: lpm_entry_def)
  have "lpm_wf ?t"
  proof -
    have "tl ! k = INVALID" if "k < lpm_LONG_MAX_ENTRIES" "unat (lpm_long_index t) * 256 \<le> k" for k
      using that tl(3) b(1) fit lpm_wfD(6) [OF wf that] by auto
    then show ?thesis using wf tl(2) by (simp add: lpm_wf_def)
  qed
  moreover have "lpm_route ?t ip = (if lpm_match ip prefix p then v else lpm_route t ip)" for ip
  proof (cases "lpm_long_entry (lpm_entry t ip)")
    case False
    then have "\<not> same_block ip prefix" using long by (auto simp: same_block_def lpm_entry_def)
    then show ?thesis using False match_same_block [OF p] by (auto simp: lpm_route_def entry)
  next
    case True
    define c where "c = lpm_bucket (lpm_entry t ip)"
    have c: "c < 256" by (simp add: c_def lpm_bucket_def)
    have cell: "tl ! (c * 256 + unat ip mod 256) =
        (if b * 256 + o' \<le> c * 256 + unat ip mod 256 \<and> c * 256 + unat ip mod 256 < b * 256 + o' + n then v
         else lpm_long t ! (c * 256 + unat ip mod 256))"
      using tl(3) bucket_cell [OF c, of "unat ip mod 256"] by simp
    have "unat ip mod 256 < 256" by simp
    then have inside: "b * 256 + o' \<le> c * 256 + unat ip mod 256 \<and> c * 256 + unat ip mod 256 < b * 256 + o' + n \<longleftrightarrow>
        c = b \<and> o' \<le> unat ip mod 256 \<and> unat ip mod 256 < o' + n" using fit by (intro block_cell)
    have "c = b \<longleftrightarrow> same_block ip prefix"
      using lpm_wfD(5) [OF wf True long] by (auto simp: b_def c_def same_block_def lpm_entry_def)
    then have "c = b \<and> o' \<le> unat ip mod 256 \<and> unat ip mod 256 < o' + n \<longleftrightarrow> lpm_match ip prefix p"
      using long_range(1) [OF p o'_def, of "unat ip"] match_same_block [OF p, of ip prefix]
      by (auto simp: same_block_def lpm_match_div n_def)
    then show ?thesis using True cell inside by (simp add: lpm_route_def entry c_def [symmetric])
  qed
  ultimately show ?thesis using r(1) s(1) tl(1) unfolding w [symmetric] by blast
qed

text \<open>Starting a block: the entry that was there is lost.\<close>

lemma lpm_new_block:
  assumes wf: "lpm_wf t" and short: "\<not> lpm_long_entry (lpm_entry t prefix)" and room: "unat (lpm_long_index t) < 256"
    and t1: "t1 = t\<lparr>lpm_long_index := lpm_long_index t + 1,
      lpm_24 := (lpm_24 t)[unat prefix div 256 := lpm_24_entry_set_flag (ucast (ucast (lpm_long_index t) :: u8))]\<rparr>"
  shows "lpm_wf t1" "lpm_long_entry (lpm_entry t1 prefix)" "lpm_bucket (lpm_entry t1 prefix) = unat (lpm_long_index t)"
    "lpm_route t1 ip = (if same_block ip prefix then INVALID else lpm_route t ip)"
    "lpm_long_entry (lpm_entry t1 ip) \<longleftrightarrow> same_block ip prefix \<or> lpm_long_entry (lpm_entry t ip)"
proof -
  define i where "i = unat prefix div 256"
  define L where "L = unat (lpm_long_index t)"
  define e where "e = lpm_24_entry_set_flag (ucast (ucast (lpm_long_index t) :: u8))"
  have i: "i < lpm_24_MAX_ENTRIES" using index_24(2) by (simp add: i_def)
  have "unat (ucast (ucast (lpm_long_index t) :: u8) :: u16) = L"
    using room by (simp add: unsigned_ucast_eq unsigned_take_bit_eq take_bit_nat_eq_self L_def)
  then have e: "unat e = 32768 + L" using set_flag_entry [of "ucast (ucast (lpm_long_index t) :: u8)"] room by (simp add: e_def L_def)
  have "(32768 + L) mod 256 = (L + 128 * 256) mod 256" by (simp add: add.commute)
  also have "\<dots> = L" using room by (simp only: mod_mult_self1) (simp add: L_def)
  finally have eb: "lpm_long_entry e" "lpm_bucket e = L"
    using e room by (auto simp: lpm_long_entry_def entry_flag_unat INVALID_def lpm_bucket_def L_def)
  have L1: "unat (lpm_long_index t1) = L + 1" using room by (simp add: t1 L_def unat_word_ariths)
  have entry: "lpm_entry t1 ip = (if same_block ip prefix then e else lpm_entry t ip)" for ip
    using lpm_wfD(1) [OF wf] i by (auto simp: lpm_entry_def t1 e_def same_block_def i_def nth_list_update)
  show "lpm_long_entry (lpm_entry t1 prefix)" "lpm_bucket (lpm_entry t1 prefix) = unat (lpm_long_index t)"
    using entry [of prefix] eb by (simp_all add: same_block_def L_def)
  show "lpm_long_entry (lpm_entry t1 ip) \<longleftrightarrow> same_block ip prefix \<or> lpm_long_entry (lpm_entry t ip)"
    using entry [of ip] eb by simp
  have "lpm_long t ! (L * 256 + unat ip mod 256) = INVALID"
    using lpm_wfD(6) [OF wf] bucket_cell [of L "unat ip mod 256"] room by (simp add: L_def)
  then show "lpm_route t1 ip = (if same_block ip prefix then INVALID else lpm_route t ip)"
    using entry [of ip] eb by (simp add: lpm_route_def) (simp add: t1)
  have old: "lpm_bucket (lpm_24 t ! j) < L" if "j < lpm_24_MAX_ENTRIES" "lpm_long_entry (lpm_24 t ! j)" for j
    using wf that by (auto simp: lpm_wf_def L_def)
  have t24: "lpm_24 t1 = (lpm_24 t)[i := e]" "lpm_long t1 = lpm_long t" by (simp_all add: t1 i_def e_def)
  show "lpm_wf t1"
    unfolding lpm_wf_def L1 t24
  proof (intro conjI allI impI)
    show "length ((lpm_24 t)[i := e]) = lpm_24_MAX_ENTRIES" "length (lpm_long t) = lpm_LONG_MAX_ENTRIES" "L + 1 \<le> 256"
      using lpm_wfD(1,2) [OF wf] room by (simp_all add: L_def)
    fix j assume j: "j < lpm_24_MAX_ENTRIES" "lpm_long_entry ((lpm_24 t)[i := e] ! j)"
    then show "lpm_bucket ((lpm_24 t)[i := e] ! j) < L + 1"
      using old [of j] eb lpm_wfD(1) [OF wf] by (cases "j = i") auto
    fix k assume k: "k < lpm_24_MAX_ENTRIES" "lpm_long_entry ((lpm_24 t)[i := e] ! k)"
      "lpm_bucket ((lpm_24 t)[i := e] ! j) = lpm_bucket ((lpm_24 t)[i := e] ! k)"
    show "j = k"
    proof (cases "j = i \<or> k = i")
      case True
      then show ?thesis using j k old [of j] old [of k] eb lpm_wfD(1) [OF wf] by (cases "j = i"; cases "k = i") auto
    next
      case False
      then show ?thesis using j k wf by (auto simp: lpm_wf_def)
    qed
  next
    fix k assume "k < lpm_LONG_MAX_ENTRIES" "(L + 1) * 256 \<le> k"
    then show "lpm_long t ! k = INVALID" using lpm_wfD(6) [OF wf, of k] by (simp add: L_def)
  qed
qed

lemma lpm_update_long:
  assumes wf: "lpm_wf t" and p: "25 \<le> unat p" "unat p \<le> 32"
  shows "if lpm_long_entry (lpm_entry t prefix) \<or> unat (lpm_long_index t) < 256
    then \<exists>t'. lpm_update_elem t prefix p v = Some (1, t') \<and> lpm_wf t' \<and>
      (\<forall>ip. lpm_route t' ip =
         (if lpm_match ip prefix p then v
          else if same_block ip prefix \<and> \<not> lpm_long_entry (lpm_entry t prefix) then INVALID
          else lpm_route t ip))
    else lpm_update_elem t prefix p v = Some (0, t)"
proof -
  obtain m where m: "build_mask_from_prefixlen p = Some m" using build_mask [of p] p by auto
  have get: "arr_get (lpm_24 t) (uint (lpm_24_extract_first_index prefix)) = Some (lpm_entry t prefix)"
    using lpm_wfD(1) [OF wf] index_24 by (subst arr_get_uint) (simp_all add: lpm_entry_def)
  have p24: "\<not> p < 25" using p by (simp add: word_less_nat_alt)
  have need: "(if lpm_entry t prefix = INVALID then True else \<not> lpm_24_entry_flag (lpm_entry t prefix)) \<longleftrightarrow>
      \<not> lpm_long_entry (lpm_entry t prefix)" by (auto simp: lpm_long_entry_def)
  have off: "lpm_LONG_OFFSET_MAX \<le> lpm_long_index t \<longleftrightarrow> \<not> unat (lpm_long_index t) < 256"
    by (simp add: lpm_LONG_OFFSET_MAX_def word_le_nat_alt not_less)
  consider (long) "lpm_long_entry (lpm_entry t prefix)"
    | (new) "\<not> lpm_long_entry (lpm_entry t prefix)" "unat (lpm_long_index t) < 256"
    | (full) "\<not> lpm_long_entry (lpm_entry t prefix)" "\<not> unat (lpm_long_index t) < 256" by blast
  then show ?thesis
  proof cases
    case long
    have "unat (ucast (lpm_entry t prefix AND 0x7FFF) :: u8) = lpm_bucket (lpm_entry t prefix)" by (rule low_byte_u16)
    from lpm_store_long [OF wf p long this, of v] show ?thesis
      using m get p24 need long by (auto simp: lpm_update_elem_def Let_def)
  next
    case new
    define t1 where "t1 = t\<lparr>lpm_long_index := lpm_long_index t + 1,
      lpm_24 := (lpm_24 t)[unat prefix div 256 := lpm_24_entry_set_flag (ucast (ucast (lpm_long_index t) :: u8))]\<rparr>"
    note block = lpm_new_block [OF wf new t1_def]
    have set: "arr_set (lpm_24 t) (uint (lpm_24_extract_first_index prefix)) x = Some ((lpm_24 t)[unat prefix div 256 := x])" for x
      using lpm_wfD(1) [OF wf] index_24 by (simp add: arr_set_def uint_eq_int_unat)
    have "unat (ucast (lpm_long_index t) :: u8) = lpm_bucket (lpm_entry t1 prefix)"
      using new by (simp add: block(3) unsigned_ucast_eq take_bit_nat_eq_self)
    from lpm_store_long [OF block(1) p block(2) this, of v] show ?thesis
      using m get p24 need new off set block(4) by (auto simp: lpm_update_elem_def Let_def t1_def)
  next
    case full
    then show ?thesis using m get p24 need off by (simp add: lpm_update_elem_def Let_def)
  qed
qed

lemma lpm_update_short_index:
  assumes "unat p \<le> 24" "lpm_update_elem t prefix p v = Some (r, t')"
  shows "lpm_long_index t' = lpm_long_index t"
  using assms by (auto simp: lpm_update_elem_def Let_def word_less_nat_alt bind_eq_Some_conv)

section \<open>The empty table\<close>

definition lpm_empty :: lpm where
  "lpm_empty = \<lparr>lpm_24 = replicate lpm_24_MAX_ENTRIES INVALID, lpm_long = replicate lpm_LONG_MAX_ENTRIES INVALID, lpm_long_index = 0\<rparr>"

lemma lpm_empty_table:
  "lpm_wf lpm_empty" "lpm_route lpm_empty ip = INVALID" "\<not> lpm_long_entry (lpm_entry lpm_empty ip)"
proof -
  have "\<not> lpm_long_entry INVALID" by (simp add: lpm_long_entry_def)
  moreover have "lpm_entry lpm_empty ip = INVALID" for ip using index_24(2) by (simp add: lpm_entry_def lpm_empty_def)
  ultimately show "lpm_wf lpm_empty" "lpm_route lpm_empty ip = INVALID" "\<not> lpm_long_entry (lpm_entry lpm_empty ip)"
    by (simp_all add: lpm_wf_def lpm_empty_def lpm_route_def)
qed

lemma lpm_allocate_outcome:
  assumes ok: "heap_ok h"
  shows "alloc_outcome h lpm_out
     (\<lambda>out h'. out = Some (lpm_empty, fresh h, fresh h + 1, fresh h + 2) \<and>
        live h' = (live h)(fresh h \<mapsto> 24, fresh h + 1 \<mapsto> lpm_24_MAX_ENTRIES * 2, fresh h + 2 \<mapsto> lpm_LONG_MAX_ENTRIES * 2))
     (lpm_allocate raw_24 raw_long lpm_out h)"
proof -
  note fr = heap_ok_fresh(2) [OF ok] heap_ok_fresh(1) [OF ok, of 1] heap_ok_fresh(1) [OF ok, of 2]
  have bound: "lpm_24_MAX_ENTRIES < 2 ^ 32" "lpm_LONG_MAX_ENTRIES < 2 ^ 32"
    by (simp_all add: lpm_24_MAX_ENTRIES_def lpm_LONG_MAX_ENTRIES_def)
  have fill: "fill_invalid (map raw [0..<n]) (of_nat n) = Some (replicate n INVALID)" if "n < 2 ^ 32" for raw n
    using fill_invalid_run [of "map raw [0..<n]"] that by simp
  show ?thesis
    unfolding lpm_allocate_def fill [OF bound(1)] fill [OF bound(2)] bind.bind_lunit
    by (intro alloc_outcome_malloc [OF ok] alloc_outcome_malloc; (assumption | simp add: run_simps)?)
      (use fr in \<open>auto simp: alloc_outcome_def lpm_empty_def fun_upd_twist fun_upd_idem intro!: heap_ok_restore [OF ok]\<close>)
qed

lemma lpm_free_restores:
  assumes ok: "heap_ok h" and live: "live h' = (live h)(fresh h \<mapsto> a, fresh h + 1 \<mapsto> b, fresh h + 2 \<mapsto> c)"
  shows "\<exists>h''. lpm_free (t, fresh h, fresh h + 1, fresh h + 2) h' = Some h'' \<and> live h'' = live h"
proof -
  note fr = heap_ok_fresh(2) [OF ok] heap_ok_fresh(1) [OF ok, of 1] heap_ok_fresh(1) [OF ok, of 2]
  show ?thesis using fr live by (auto simp: lpm_free_def free_def fun_upd_twist fun_upd_idem)
qed

section \<open>Tables loaded from a list of rules\<close>

primrec load_rules :: "('t \<Rightarrow> 'r \<Rightarrow> 't option) \<Rightarrow> 'r list \<Rightarrow> 't \<Rightarrow> 't option" where
  "load_rules insert_rule [] t = Some t"
| "load_rules insert_rule (r # rs) t = do { t \<leftarrow> insert_rule t r; load_rules insert_rule rs t }"

text \<open>
  What a client that loads rules relies on: an admissible rule is stored, and afterwards it decides for the
  addresses it matches and for no other.
\<close>

locale prefix_table =
  fixes insert_rule :: "'t \<Rightarrow> 'r \<Rightarrow> 't option"
    and lookup :: "'t \<Rightarrow> 'a \<Rightarrow> 'v option"
    and wf_table :: "'t \<Rightarrow> bool"
    and admissible :: "'r \<Rightarrow> bool"
    and covers :: "'r \<Rightarrow> 'a \<Rightarrow> bool"
    and outcome :: "'r \<Rightarrow> 'v"
    and bits :: "'r \<Rightarrow> nat"
  assumes insert_lookup: "wf_table t \<Longrightarrow> admissible r \<Longrightarrow>
    \<exists>t'. insert_rule t r = Some t' \<and> wf_table t' \<and>
      (\<forall>a. lookup t' a = (if covers r a then Some (outcome r) else lookup t a))"
begin

lemma load_longest:
  assumes "wf_table t" "\<And>r. r \<in> set rs \<Longrightarrow> admissible r" "sorted (map bits rs)"
  shows "\<exists>t'. load_rules insert_rule rs t = Some t' \<and> wf_table t' \<and>
    (\<forall>a. (lookup t' a = lookup t a \<and> (\<forall>r \<in> set rs. \<not> covers r a)) \<or>
      (\<exists>r \<in> set rs. covers r a \<and> lookup t' a = Some (outcome r) \<and> (\<forall>s \<in> set rs. covers s a \<longrightarrow> bits s \<le> bits r)))"
  using assms
proof (induction rs arbitrary: t)
  case (Cons r rs)
  obtain t1 where t1: "insert_rule t r = Some t1" "wf_table t1"
    "\<forall>a. lookup t1 a = (if covers r a then Some (outcome r) else lookup t a)"
    using insert_lookup Cons.prems(1,2) by (metis list.set_intros(1))
  obtain t' where t': "load_rules insert_rule rs t1 = Some t'" "wf_table t'"
    and last: "\<And>a. (lookup t' a = lookup t1 a \<and> (\<forall>r \<in> set rs. \<not> covers r a)) \<or>
      (\<exists>r \<in> set rs. covers r a \<and> lookup t' a = Some (outcome r) \<and> (\<forall>s \<in> set rs. covers s a \<longrightarrow> bits s \<le> bits r))"
    using Cons.IH [OF t1(2)] Cons.prems(2,3) by auto
  have "(lookup t' a = lookup t a \<and> (\<forall>r \<in> set (r # rs). \<not> covers r a)) \<or>
      (\<exists>q \<in> set (r # rs). covers q a \<and> lookup t' a = Some (outcome q) \<and> (\<forall>s \<in> set (r # rs). covers s a \<longrightarrow> bits s \<le> bits q))" for a
    using last [of a] t1(3) Cons.prems(3) by auto
  then show ?case using t1(1) t' by auto
qed simp

end

text \<open>One call of \<open>lpm_update_elem\<close>, with a fault where it reports failure.\<close>

definition lpm_insert :: "lpm \<Rightarrow> u32 \<times> u8 \<times> u16 \<Rightarrow> lpm option" where
  "lpm_insert t = (\<lambda>(prefix, prefixlen, value). do {
     (ret, t) \<leftarrow> lpm_update_elem t prefix prefixlen value;
     cassert (ret = 1);
     Some t
   })"

interpretation dir24: prefix_table lpm_insert lpm_lookup_elem lpm_wf "\<lambda>(_, p, v). unat p \<le> 24 \<and> v < 0x8000"
  "\<lambda>(prefix, p, _) ip. lpm_match ip prefix p" "\<lambda>(_, _, v). v" "\<lambda>(_, p, _). unat p"
proof unfold_locales
  fix t :: lpm and r :: "u32 \<times> u8 \<times> u16"
  assume wf: "lpm_wf t" and r: "case r of (_, p, v) \<Rightarrow> unat p \<le> 24 \<and> v < 0x8000"
  obtain q p v where rr: "r = (q, p, v)" by (cases r)
  obtain t' where "lpm_update_elem t q p v = Some (1, t')" "lpm_wf t'"
    "\<forall>ip. lpm_route t' ip = (if lpm_match ip q p then v else lpm_route t ip)"
    using lpm_update_short [OF wf, of p v q] r by (auto simp: rr)
  then show "\<exists>t'. lpm_insert t r = Some t' \<and> lpm_wf t' \<and> (\<forall>ip. lpm_lookup_elem t' ip =
      (if (case r of (prefix, p, _) \<Rightarrow> \<lambda>ip. lpm_match ip prefix p) ip then Some (case r of (_, _, v) \<Rightarrow> v) else lpm_lookup_elem t ip))"
    using wf by (auto simp: rr lpm_insert_def lpm_lookup_route cassert_def)
qed

section \<open>Properties\<close>

text \<open>
  C30. For every table the code can reach, every prefix and every prefix length up to 32,
  \<^const>\<open>lpm_update_elem\<close> returns.  It returns 0, the table unchanged, exactly when the rule needs a block of
  the second table and all 256 are taken.  Otherwise it returns 1 and the new table is again well formed; a lookup
  of an address the rule matches then gives the rule's value, and any other lookup is as before, except in the
  block of 256 addresses a rule of more than 24 bits is the first to open, where it gives \<^const>\<open>INVALID\<close>.
\<close>

theorem lpm_update_lookup:
  assumes "lpm_wf t" "unat prefixlen \<le> 32" "v < 0x8000"
  shows "\<exists>ret t'. lpm_update_elem t prefix prefixlen v = Some (ret, t') \<and> lpm_wf t' \<and>
     (if 24 < unat prefixlen \<and> \<not> lpm_long_entry (lpm_entry t prefix) \<and> lpm_LONG_OFFSET_MAX \<le> lpm_long_index t
      then ret = 0 \<and> t' = t
      else ret = 1 \<and> (\<forall>ip. lpm_lookup_elem t' ip =
        (if lpm_match ip prefix prefixlen then Some v
         else if 24 < unat prefixlen \<and> same_block ip prefix \<and> \<not> lpm_long_entry (lpm_entry t prefix) then Some INVALID
         else lpm_lookup_elem t ip)))"
proof (cases "unat prefixlen \<le> 24")
  case True
  then show ?thesis using lpm_update_short [OF assms(1) True assms(3), of prefix] assms(1) by (auto simp: lpm_lookup_route)
next
  case False
  have off: "lpm_LONG_OFFSET_MAX \<le> lpm_long_index t \<longleftrightarrow> \<not> unat (lpm_long_index t) < 256"
    by (simp add: lpm_LONG_OFFSET_MAX_def word_le_nat_alt not_less)
  show ?thesis
  proof (cases "lpm_long_entry (lpm_entry t prefix) \<or> unat (lpm_long_index t) < 256")
    case True
    then obtain t' where "lpm_update_elem t prefix prefixlen v = Some (1, t')" "lpm_wf t'"
      "\<forall>ip. lpm_route t' ip = (if lpm_match ip prefix prefixlen then v
         else if same_block ip prefix \<and> \<not> lpm_long_entry (lpm_entry t prefix) then INVALID else lpm_route t ip)"
      using lpm_update_long [OF assms(1) _ assms(2), of prefix v] False by auto
    then show ?thesis using assms(1) True off False by (auto simp: lpm_lookup_route)
  next
    case full: False
    then have "lpm_update_elem t prefix prefixlen v = Some (0, t)"
      using lpm_update_long [OF assms(1) _ assms(2), of prefix v] False by auto
    then show ?thesis using assms(1) full off False by simp
  qed
qed

theorem lpm_update_lookup_witness:
  "\<exists>ret t'. lpm_update_elem lpm_empty 0x0A000080 25 7 = Some (ret, t') \<and> lpm_lookup_elem t' 0x0A0000FF = Some 7 \<and>
     lpm_lookup_elem t' 0x0A000001 = Some INVALID"
proof -
  have "\<not> lpm_LONG_OFFSET_MAX \<le> lpm_long_index lpm_empty" "lpm_match 0x0A0000FF 0x0A000080 25"
    "\<not> lpm_match 0x0A000001 0x0A000080 25" "same_block 0x0A000001 0x0A000080"
    by (simp_all add: lpm_LONG_OFFSET_MAX_def lpm_empty_def lpm_match_div same_block_def)
  then show ?thesis using lpm_update_lookup [OF lpm_empty_table(1), of 25 7 "0x0A000080"] lpm_empty_table(3) by auto
qed

text \<open>
  C29. Rules of at most 24 bits loaded from the shortest to the longest into a new table are all accepted, and
  every lookup then gives the value of a matching rule of the greatest length, or \<^const>\<open>INVALID\<close> when no rule
  matches.
\<close>

theorem lpm_longest_prefix:
  assumes "\<forall>(prefix, prefixlen, value) \<in> set rules. unat prefixlen \<le> 24 \<and> value < 0x8000"
    and "sorted (map (\<lambda>(_, prefixlen, _). unat prefixlen) rules)"
  shows "\<exists>t. load_rules lpm_insert rules lpm_empty = Some t \<and>
     (\<forall>ip. (lpm_lookup_elem t ip = Some INVALID \<and> (\<forall>(q, p, v) \<in> set rules. \<not> lpm_match ip q p)) \<or>
       (\<exists>(q, p, v) \<in> set rules. lpm_match ip q p \<and> lpm_lookup_elem t ip = Some v \<and>
          (\<forall>(q', p', v') \<in> set rules. lpm_match ip q' p' \<longrightarrow> p' \<le> p)))"
proof -
  have empty: "lpm_lookup_elem lpm_empty ip = Some INVALID" for ip by (simp add: lpm_lookup_route lpm_empty_table)
  show ?thesis
    using dir24.load_longest [OF lpm_empty_table(1) _ assms(2)] assms(1)
    by (fastforce simp: empty word_le_nat_alt)
qed

theorem lpm_longest_prefix_witness:
  "\<exists>t. load_rules lpm_insert [(0, 0, 1), (0x0A000000, 8, 2), (0x0A010000, 16, 3)] lpm_empty = Some t \<and>
     lpm_lookup_elem t 0x0A010203 = Some 3 \<and> lpm_lookup_elem t 0x0A020203 = Some 2 \<and> lpm_lookup_elem t 0x0B000001 = Some 1"
proof -
  let ?rules = "[(0, 0, 1), (0x0A000000, 8, 2), (0x0A010000, 16, 3)] :: (u32 \<times> u8 \<times> u16) list"
  have m: "lpm_match 0x0A010203 0x0A010000 16" "lpm_match 0x0A020203 0x0A000000 8" "\<not> lpm_match 0x0A020203 0x0A010000 16"
    "lpm_match 0x0B000001 0 0" "\<not> lpm_match 0x0B000001 0x0A000000 8" "\<not> lpm_match 0x0B000001 0x0A010000 16"
    by (simp_all add: lpm_match_div)
  obtain t where t: "load_rules lpm_insert ?rules lpm_empty = Some t"
    "\<And>ip. (lpm_lookup_elem t ip = Some INVALID \<and> (\<forall>(q, p, v) \<in> set ?rules. \<not> lpm_match ip q p)) \<or>
       (\<exists>(q, p, v) \<in> set ?rules. lpm_match ip q p \<and> lpm_lookup_elem t ip = Some v \<and>
          (\<forall>(q', p', v') \<in> set ?rules. lpm_match ip q' p' \<longrightarrow> p' \<le> p))"
    using lpm_longest_prefix [of ?rules] by auto
  show ?thesis using t(1) t(2) [of "0x0A010203"] t(2) [of "0x0A020203"] t(2) [of "0x0B000001"] m
    by (intro exI [of _ t]) auto
qed

text \<open>
  The first rule of more than 24 bits in a block opens the block empty: the route that covered the rest of the
  block is gone.  Here \<open>10.0.0.0/8\<close> is stored before \<open>10.0.0.128/25\<close>, and \<open>10.0.0.1\<close> no longer has a route.
\<close>

lemma lpm_long_rule_hides_route:
  "\<exists>t t'. lpm_update_elem lpm_empty 0x0A000000 8 1 = Some (1, t) \<and> lpm_lookup_elem t 0x0A000001 = Some 1 \<and>
     lpm_update_elem t 0x0A000080 25 2 = Some (1, t') \<and> \<not> lpm_match 0x0A000001 0x0A000080 25 \<and>
     lpm_lookup_elem t' 0x0A000001 = Some INVALID"
proof -
  have m: "lpm_match 0x0A000001 0x0A000000 8" "\<not> lpm_match 0x0A000001 0x0A000080 25"
    "lpm_match 0x0A000080 0x0A000000 8" "same_block 0x0A000001 0x0A000080"
    by (simp_all add: lpm_match_div same_block_def)
  obtain t where t: "lpm_update_elem lpm_empty 0x0A000000 8 1 = Some (1, t)" "lpm_wf t" "lpm_route t 0x0A000001 = 1"
    "\<not> lpm_long_entry (lpm_entry t 0x0A000080)"
    using lpm_update_short [OF lpm_empty_table(1), of 8 1 "0x0A000000"] m by auto
  have "lpm_long_index t = 0" using lpm_update_short_index [OF _ t(1)] by (simp add: lpm_empty_def)
  with t obtain t' where "lpm_update_elem t 0x0A000080 25 2 = Some (1, t')" "lpm_wf t'" "lpm_route t' 0x0A000001 = INVALID"
    using lpm_update_long [OF t(2), of 25 "0x0A000080" 2] m by auto
  then show ?thesis using t m by (auto simp: lpm_lookup_route)
qed

end
