(* ===== verification/Double_Map.thy ===== *)
theory Double_Map
  imports Flow_Table
begin

text \<open>
  The map with two keys of \<open>libvig/verified/double-map.c\<close> and the expiration of its entries,
  \<open>expire_items\<close> of \<open>libvig/verified/expirator.c\<close>. A value is stored at an index, and both
  its keys, which are parts of the value, lead to the index through a hash table each.

  The functions that the caller supplies are fields of the record: the equality and the hash of
  the keys, the copy and the destruction of a value, and the two keys of a value. The tables hold
  pointers into the array of the values; \<open>value_key\<close> reads the key behind a pointer.

  The abstract map is that of \<open>double-map.h\<close>. The representation \<open>dmappingp\<close> is made of one
  \<open>key_half\<close> for each table, so that each fact about a table is proved once.
\<close>

declare of_nat_unat [simp del]

section \<open>The code\<close>

record ('k1, 'k2, 'v) DoubleMap =
  dm_value_size :: int
  dm_cpy :: "'v \<Rightarrow> 'v"
  dm_dstr :: "'v \<Rightarrow> 'v"
  dm_values :: "'v list"
  dm_tab_a :: "'k1 kptr htab"
  dm_eq_a :: "'k1 \<Rightarrow> 'k1 \<Rightarrow> bool"
  dm_hsh_a :: "'k1 \<Rightarrow> u32"
  dm_tab_b :: "'k2 kptr htab"
  dm_eq_b :: "'k2 \<Rightarrow> 'k2 \<Rightarrow> bool"
  dm_hsh_b :: "'k2 \<Rightarrow> u32"
  dm_vk1 :: "'v \<Rightarrow> 'k1"
  dm_vk2 :: "'v \<Rightarrow> 'k2"
  dm_n_vals :: u32
  dm_capacity :: u32
  dm_keys_capacity :: u32

fun value_key :: "('v \<Rightarrow> 'k) \<Rightarrow> 'v list \<Rightarrow> 'k kptr \<Rightarrow> 'k" where
  "value_key vk vs (Ext k) = k"
| "value_key vk vs (Slot i) = vk (vs ! i)"

text \<open>
  The blocks of \<open>dmap_allocate\<close>: each \<open>malloc\<close> that fails frees the blocks obtained before
  it, the newest first.
\<close>

fun free_all :: "nat list \<Rightarrow> heap \<Rightarrow> heap option" where
  "free_all [] h = Some h"
| "free_all (b # bs) h = do { h \<leftarrow> free b h; free_all bs h }"

fun malloc_all :: "nat list \<Rightarrow> nat list \<Rightarrow> heap \<Rightarrow> (bool \<times> heap) option" where
  "malloc_all got [] h = Some (True, h)"
| "malloc_all got (sz # szs) h =
     (case malloc sz h of
        (None, h) \<Rightarrow> do { h \<leftarrow> free_all got h; Some (False, h) }
      | (Some b, h) \<Rightarrow> malloc_all (b # got) szs h)"

text \<open>The sizes of the twelve blocks in the order of the code.\<close>

definition dmap_blocks :: "int \<Rightarrow> u32 \<Rightarrow> u32 \<Rightarrow> nat list" where
  "dmap_blocks value_size capacity keys_capacity =
     (let ints = size_t (4 * sint keys_capacity); ptrs = size_t (8 * sint keys_capacity)
      in [176, unat ((word_of_int value_size :: u32) * capacity),
          ints, ptrs, ints, ints, ints, ints, ptrs, ints, ints, ints])"

definition raw_htab :: "'p raw_arrays \<Rightarrow> u32 \<Rightarrow> 'p htab" where
  "raw_htab raw capacity =
     (let ints = size_t (4 * sint capacity); ptrs = size_t (8 * sint capacity)
      in \<lparr>busybits = map (raw_int raw) [0..<ints div 4], keyps = map (raw_ptr raw) [0..<ptrs div 8],
          k_hashes = map (raw_word raw) [0..<ints div 4], chns = map (raw_int raw) [0..<ints div 4],
          vals = map (raw_int raw) [0..<ints div 4]\<rparr>)"

definition dmap_allocate ::
  "bool \<Rightarrow> ('k1 \<Rightarrow> 'k1 \<Rightarrow> bool) \<Rightarrow> ('k1 \<Rightarrow> u32) \<Rightarrow> ('k2 \<Rightarrow> 'k2 \<Rightarrow> bool) \<Rightarrow> ('k2 \<Rightarrow> u32) \<Rightarrow> int \<Rightarrow> ('v \<Rightarrow> 'v) \<Rightarrow> ('v \<Rightarrow> 'v)
   \<Rightarrow> ('v \<Rightarrow> 'k1) \<Rightarrow> ('v \<Rightarrow> 'k2) \<Rightarrow> u32 \<Rightarrow> u32 \<Rightarrow> (nat \<Rightarrow> 'v) \<Rightarrow> 'k1 kptr raw_arrays \<Rightarrow> 'k2 kptr raw_arrays
   \<Rightarrow> ('k1, 'k2, 'v) DoubleMap option \<Rightarrow> heap \<Rightarrow> (int \<times> ('k1, 'k2, 'v) DoubleMap option \<times> heap) option" where
  "dmap_allocate pow2 eq_a hsh_a eq_b hsh_b value_size v_cpy v_destr vk1 vk2 capacity keys_capacity raw raw_a raw_b map_out h =
     (if pow2 \<and> (keys_capacity = 0 \<or> and keys_capacity (keys_capacity - 1) \<noteq> 0) then Some (0, map_out, h)
      else do {
        (done, h) \<leftarrow> malloc_all [] (dmap_blocks value_size capacity keys_capacity) h;
        if \<not> done then Some (0, map_out, h)
        else do {
          tab_a \<leftarrow> map_impl_init (raw_htab raw_a keys_capacity) keys_capacity;
          tab_b \<leftarrow> map_impl_init (raw_htab raw_b keys_capacity) keys_capacity;
          Some (1, Some
            \<lparr>dm_value_size = value_size, dm_cpy = v_cpy, dm_dstr = v_destr,
             dm_values = map raw [0..<unat ((word_of_int value_size :: u32) * capacity) div nat value_size],
             dm_tab_a = tab_a, dm_eq_a = eq_a, dm_hsh_a = hsh_a, dm_tab_b = tab_b, dm_eq_b = eq_b, dm_hsh_b = hsh_b,
             dm_vk1 = vk1, dm_vk2 = vk2, dm_n_vals = 0, dm_capacity = capacity, dm_keys_capacity = keys_capacity\<rparr>, h)
        }
      })"

definition dmap_get_a :: "bool \<Rightarrow> ('k1, 'k2, 'v) DoubleMap \<Rightarrow> 'k1 kptr \<Rightarrow> int \<Rightarrow> (int \<times> int) option" where
  "dmap_get_a pow2 m key index =
     (let kv = value_key (dm_vk1 m) (dm_values m);
          hash = dm_hsh_a m (kv key)
      in map_impl_get (map_probe pow2) (dm_tab_a m) key (\<lambda>p q. dm_eq_a m (kv p) (kv q)) hash index (dm_keys_capacity m))"

definition dmap_get_b :: "bool \<Rightarrow> ('k1, 'k2, 'v) DoubleMap \<Rightarrow> 'k2 kptr \<Rightarrow> int \<Rightarrow> (int \<times> int) option" where
  "dmap_get_b pow2 m key index =
     (let kv = value_key (dm_vk2 m) (dm_values m);
          hash = dm_hsh_b m (kv key)
      in map_impl_get (map_probe pow2) (dm_tab_b m) key (\<lambda>p q. dm_eq_b m (kv p) (kv q)) hash index (dm_keys_capacity m))"

text \<open>\<open>map->values + index * map->value_size\<close>, as the number of a value in the array.\<close>

definition dmap_my_value :: "('k1, 'k2, 'v) DoubleMap \<Rightarrow> int \<Rightarrow> nat option" where
  "dmap_my_value m index = do {
     off \<leftarrow> s32 (index * dm_value_size m);
     if 0 \<le> off \<and> off < int (length (dm_values m)) * dm_value_size m then Some (nat (off div dm_value_size m)) else None
   }"

text \<open>
  The keys are extracted as pointers into the value; packing them back (\<open>pk\<close>) changes no byte.
\<close>

definition dmap_put :: "bool \<Rightarrow> ('k1, 'k2, 'v) DoubleMap \<Rightarrow> 'v \<Rightarrow> int \<Rightarrow> (int \<times> ('k1, 'k2, 'v) DoubleMap) option" where
  "dmap_put pow2 m v index = do {
     my_value \<leftarrow> dmap_my_value m index;
     let m = m\<lparr>dm_values := (dm_values m)[my_value := dm_cpy m v]\<rparr>;
     let key_a = Slot my_value;
     let key_b = Slot my_value;
     let hash1 = dm_hsh_a m (value_key (dm_vk1 m) (dm_values m) key_a);
     tab_a \<leftarrow> map_impl_put (map_probe pow2) (dm_tab_a m) key_a hash1 index (dm_keys_capacity m);
     let hash2 = dm_hsh_b m (value_key (dm_vk2 m) (dm_values m) key_b);
     tab_b \<leftarrow> map_impl_put (map_probe pow2) (dm_tab_b m) key_b hash2 index (dm_keys_capacity m);
     Some (1, m\<lparr>dm_tab_a := tab_a, dm_tab_b := tab_b, dm_n_vals := dm_n_vals m + 1\<rparr>)
   }"

definition dmap_get_value :: "('k1, 'k2, 'v) DoubleMap \<Rightarrow> int \<Rightarrow> 'v option" where
  "dmap_get_value m index = do {
     my_value \<leftarrow> dmap_my_value m index;
     Some (dm_cpy m (dm_values m ! my_value))
   }"

definition dmap_erase :: "bool \<Rightarrow> ('k1, 'k2, 'v) DoubleMap \<Rightarrow> int \<Rightarrow> (int \<times> ('k1, 'k2, 'v) DoubleMap) option" where
  "dmap_erase pow2 m index = do {
     my_value \<leftarrow> dmap_my_value m index;
     let key_a = Slot my_value;
     let key_b = Slot my_value;
     let kv1 = value_key (dm_vk1 m) (dm_values m);
     let hash1 = dm_hsh_a m (kv1 key_a);
     (out_key_a, tab_a) \<leftarrow> map_impl_erase (map_probe pow2) (dm_tab_a m) key_a
        (\<lambda>p q. dm_eq_a m (kv1 p) (kv1 q)) hash1 (dm_keys_capacity m) key_a;
     let kv2 = value_key (dm_vk2 m) (dm_values m);
     let hash2 = dm_hsh_b m (kv2 key_b);
     (out_key_b, tab_b) \<leftarrow> map_impl_erase (map_probe pow2) (dm_tab_b m) key_b
        (\<lambda>p q. dm_eq_b m (kv2 p) (kv2 q)) hash2 (dm_keys_capacity m) key_b;
     Some (1, m\<lparr>dm_tab_a := tab_a, dm_tab_b := tab_b,
                dm_values := (dm_values m)[my_value := dm_dstr m (dm_values m ! my_value)],
                dm_n_vals := dm_n_vals m - 1\<rparr>)
   }"

definition dmap_size :: "('k1, 'k2, 'v) DoubleMap \<Rightarrow> u32" where
  "dmap_size m = dm_n_vals m"

partial_function (option) expire_items_loop ::
  "bool \<Rightarrow> DoubleChain \<Rightarrow> ('k1, 'k2, 'v) DoubleMap \<Rightarrow> vigor_time \<Rightarrow> int \<Rightarrow> int
   \<Rightarrow> (int \<times> DoubleChain \<times> ('k1, 'k2, 'v) DoubleMap) option" where
  "expire_items_loop pow2 chain m time index count = do {
     (ret, index, chain) \<leftarrow> dchain_expire_one_index chain index time;
     if ret \<noteq> 0 then do {
       (ret, m) \<leftarrow> dmap_erase pow2 m index;
       count \<leftarrow> s32 (count + 1);
       expire_items_loop pow2 chain m time index count
     } else Some (count, chain, m)
   }"

declare expire_items_loop.simps [code]

definition expire_items ::
  "bool \<Rightarrow> DoubleChain \<Rightarrow> ('k1, 'k2, 'v) DoubleMap \<Rightarrow> vigor_time
   \<Rightarrow> (int \<times> DoubleChain \<times> ('k1, 'k2, 'v) DoubleMap) option" where
  "expire_items pow2 chain m time = expire_items_loop pow2 chain m time (- 1) 0"

section \<open>The abstract map\<close>

datatype ('k1, 'k2, 'v) dmap = dmap "'k1 \<Rightarrow> int option" "'k2 \<Rightarrow> int option" "'v option list"

definition empty_dmap_fp :: "u32 \<Rightarrow> ('k1, 'k2, 'v) dmap" where
  "empty_dmap_fp capacity = dmap Map.empty Map.empty (replicate (unat capacity) None)"

fun dmap_put_fp :: "('k1, 'k2, 'v) dmap \<Rightarrow> int \<Rightarrow> 'v \<Rightarrow> ('v \<Rightarrow> 'k1) \<Rightarrow> ('v \<Rightarrow> 'k2) \<Rightarrow> ('k1, 'k2, 'v) dmap" where
  "dmap_put_fp (dmap ma mb val_arr) index v vk1 vk2 =
     dmap (ma(vk1 v \<mapsto> index)) (mb(vk2 v \<mapsto> index)) (val_arr[nat index := Some v])"

fun dmap_erase_fp :: "('k1, 'k2, 'v) dmap \<Rightarrow> int \<Rightarrow> ('v \<Rightarrow> 'k1) \<Rightarrow> ('v \<Rightarrow> 'k2) \<Rightarrow> ('k1, 'k2, 'v) dmap" where
  "dmap_erase_fp (dmap ma mb val_arr) index vk1 vk2 =
     dmap (ma(vk1 (the (val_arr ! nat index)) := None)) (mb(vk2 (the (val_arr ! nat index)) := None))
       (val_arr[nat index := None])"

fun dmap_erase_all_fp ::
  "('k1, 'k2, 'v) dmap \<Rightarrow> int list \<Rightarrow> ('v \<Rightarrow> 'k1) \<Rightarrow> ('v \<Rightarrow> 'k2) \<Rightarrow> ('k1, 'k2, 'v) dmap" where
  "dmap_erase_all_fp m [] vk1 vk2 = m"
| "dmap_erase_all_fp m (h # t) vk1 vk2 = dmap_erase_fp (dmap_erase_all_fp m t vk1 vk2) h vk1 vk2"

fun dmap_get_k1_fp :: "('k1, 'k2, 'v) dmap \<Rightarrow> 'k1 \<Rightarrow> int" where
  "dmap_get_k1_fp (dmap ma mb val_arr) k1 = the (ma k1)"

fun dmap_has_k1_fp :: "('k1, 'k2, 'v) dmap \<Rightarrow> 'k1 \<Rightarrow> bool" where
  "dmap_has_k1_fp (dmap ma mb val_arr) k1 \<longleftrightarrow> ma k1 \<noteq> None"

fun dmap_get_k2_fp :: "('k1, 'k2, 'v) dmap \<Rightarrow> 'k2 \<Rightarrow> int" where
  "dmap_get_k2_fp (dmap ma mb val_arr) k2 = the (mb k2)"

fun dmap_has_k2_fp :: "('k1, 'k2, 'v) dmap \<Rightarrow> 'k2 \<Rightarrow> bool" where
  "dmap_has_k2_fp (dmap ma mb val_arr) k2 \<longleftrightarrow> mb k2 \<noteq> None"

fun dmap_get_val_fp :: "('k1, 'k2, 'v) dmap \<Rightarrow> int \<Rightarrow> 'v" where
  "dmap_get_val_fp (dmap ma mb val_arr) index = the (val_arr ! nat index)"

fun dmap_cap_fp :: "('k1, 'k2, 'v) dmap \<Rightarrow> int" where
  "dmap_cap_fp (dmap ma mb val_arr) = int (length val_arr)"

fun dmap_index_used_fp :: "('k1, 'k2, 'v) dmap \<Rightarrow> int \<Rightarrow> bool" where
  "dmap_index_used_fp (dmap ma mb val_arr) index \<longleftrightarrow>
     0 \<le> index \<and> index < int (length val_arr) \<and> val_arr ! nat index \<noteq> None"

fun nonempty_indexes_fp :: "'v option list \<Rightarrow> int \<Rightarrow> int list" where
  "nonempty_indexes_fp [] start = []"
| "nonempty_indexes_fp (h # t) start =
     (case h of None \<Rightarrow> nonempty_indexes_fp t (start + 1) | Some x \<Rightarrow> start # nonempty_indexes_fp t (start + 1))"

fun dmap_indexes_used_fp :: "('k1, 'k2, 'v) dmap \<Rightarrow> int list" where
  "dmap_indexes_used_fp (dmap ma mb val_arr) = nonempty_indexes_fp val_arr 0"

definition dmap_size_fp :: "('k1, 'k2, 'v) dmap \<Rightarrow> int" where
  "dmap_size_fp m = int (length (dmap_indexes_used_fp m))"

section \<open>One of the two tables\<close>

text \<open>
  \<open>used\<close> are the values in use, \<open>mem\<close> the array of the values and \<open>f\<close> the map of the keys.
\<close>

definition key_half ::
  "u32 \<Rightarrow> ('k \<Rightarrow> u32) \<Rightarrow> ('v \<Rightarrow> 'k) \<Rightarrow> 'v option list \<Rightarrow> 'v list \<Rightarrow> ('k \<Rightarrow> int option) \<Rightarrow> 'k kptr htab \<Rightarrow> bool" where
  "key_half c hsh vk used mem f t \<longleftrightarrow>
     htab_wf (value_key vk mem) hsh (unat c) t \<and> htab_map (value_key vk mem) t = f \<and>
     htab_addrs (value_key vk mem) t = (\<lambda>k. map_option (\<lambda>i. Slot (nat i)) (f k)) \<and>
     (\<forall>k j. f k = Some j \<longleftrightarrow> (\<exists>i v. j = int i \<and> i < length used \<and> used ! i = Some v \<and> vk v = k)) \<and>
     (\<forall>i < length used. \<forall>v. used ! i = Some v \<longrightarrow> mem ! i = v)"

lemma key_half_map:
  assumes "key_half c hsh vk used mem f t"
  shows "f k = Some j \<longleftrightarrow> (\<exists>i v. j = int i \<and> i < length used \<and> used ! i = Some v \<and> vk v = k)"
  using assms by (simp add: key_half_def)

lemma key_halfD:
  assumes "key_half c hsh vk used mem f t"
  shows "htab_wf (value_key vk mem) hsh (unat c) t" "htab_map (value_key vk mem) t = f"
    "htab_addrs (value_key vk mem) t = (\<lambda>k. map_option (\<lambda>i. Slot (nat i)) (f k))"
    "i < length used \<Longrightarrow> used ! i = Some v \<Longrightarrow> mem ! i = v"
    "i < length used \<Longrightarrow> used ! i = Some v \<Longrightarrow> f (vk v) = Some (int i)"
  using assms by (auto simp: key_half_def)

lemma key_half_get:
  assumes "key_half c hsh vk used mem f t" "map_cap_ok pow2 c"
  shows "map_impl_get (map_probe pow2) t p (\<lambda>p q. value_key vk mem p = value_key vk mem q) (hsh (value_key vk mem p)) index c =
     Some (case f (value_key vk mem p) of None \<Rightarrow> (0, index) | Some i \<Rightarrow> (1, i))"
  using map_probes.map_impl_get_spec [OF assms(2), of "value_key vk mem" hsh t] assms(1) by (simp add: key_half_def)

text \<open>A value that is not in use may change.\<close>

lemma key_half_memory:
  assumes half: "key_half c hsh vk used mem f t" and i: "used ! i = None"
  shows "key_half c hsh vk used (mem[i := x]) f t"
proof -
  let ?kv = "value_key vk mem" and ?kv' = "value_key vk (mem[i := x])"
  have wf: "htab_wf ?kv hsh (unat c) t" using half by (simp add: key_half_def)
  have "?kv (keyps t ! j) = ?kv' (keyps t ! j)" if "j \<in> set (busy_slots t)" for j
  proof -
    have "distinct (map (\<lambda>j. ?kv (keyps t ! j)) (busy_slots t))" using wf by (simp add: htab_wf_def)
    then have "htab_addrs ?kv t (?kv (keyps t ! j)) = Some (keyps t ! j)"
      using that slot_of_Some [of ?kv t "?kv (keyps t ! j)" j] by (simp add: htab_addrs_slot)
    then have "map_option (\<lambda>i. Slot (nat i)) (f (?kv (keyps t ! j))) = Some (keyps t ! j)"
      by (simp only: key_halfD(3) [OF half])
    then obtain l where "f (?kv (keyps t ! j)) = Some l" "Slot (nat l) = keyps t ! j"
      unfolding map_option_eq_Some by blast
    note l = this(2) [symmetric] this(1)
    then have "used ! nat l \<noteq> None" using key_half_map [OF half] by auto
    then have "nat l \<noteq> i" using i by auto
    then show ?thesis using l(1) by simp
  qed
  moreover have "mem[i := x] ! l = v" if "l < length used" "used ! l = Some v" for l v
    using key_halfD(4) [OF half that] that(2) i by (cases "l = i") auto
  ultimately show ?thesis using half htab_memory_cong [of t ?kv ?kv'] by (simp add: key_half_def)
qed

lemma key_half_room:
  assumes half: "key_half c hsh vk used mem f t" and cap: "map_cap_ok pow2 c"
    and i: "i < length used" "used ! i = None" "length used \<le> unat c"
  shows "length (busy_slots t) < unat c"
proof -
  let ?m = "\<lparr>m_tab = t, m_capacity = c, m_size = of_nat (length (busy_slots t)), m_keys_eq = (=), m_khash = hsh\<rparr>"
  have wf: "map_wf pow2 (value_key vk mem) ?m" and dom: "map_contents (value_key vk mem) ?m = f"
    using half cap by (simp_all add: map_wf_def map_contents_def key_half_def)
  have "inj_on (\<lambda>k. nat (the (f k))) (dom f)"
  proof (rule inj_onI)
    fix k l assume "k \<in> dom f" "l \<in> dom f" "nat (the (f k)) = nat (the (f l))"
    then obtain i j v w where "f k = Some (int i)" "used ! i = Some v" "vk v = k" "f l = Some (int j)" "used ! j = Some w" "vk w = l" "i = j"
      using key_half_map [OF half] by fastforce
    then show "k = l" by simp
  qed
  moreover have "(\<lambda>k. nat (the (f k))) ` dom f \<subseteq> {..<length used} - {i}"
  proof
    fix j assume "j \<in> (\<lambda>k. nat (the (f k))) ` dom f"
    then obtain k l where "f k = Some l" "j = nat l" by auto
    then show "j \<in> {..<length used} - {i}" using key_half_map [OF half, of k l] i(2) by auto
  qed
  ultimately have "card (dom f) \<le> card ({..<length used} - {i})" by (intro card_inj_on_le) auto
  then have "card (dom f) < unat c" using i by simp
  then show ?thesis using map_room_card [OF wf] by (simp add: dom map_room_def)
qed

lemma other_slot:
  assumes "\<And>w. x = Some w \<Longrightarrow> vk w \<noteq> k" "\<And>w. used ! i = Some w \<Longrightarrow> vk w \<noteq> k"
  shows "(\<exists>l w. j = int l \<and> l < length (used[i := x]) \<and> used[i := x] ! l = Some w \<and> vk w = k) \<longleftrightarrow>
    (\<exists>l w. j = int l \<and> l < length used \<and> used ! l = Some w \<and> vk w = k)" (is "?L \<longleftrightarrow> ?R")
proof
  assume ?L
  then obtain l w where "j = int l" "l < length used" "used[i := x] ! l = Some w" "vk w = k" by auto
  then show ?R using assms(1) by (cases "l = i") auto
next
  assume ?R
  then obtain l w where "j = int l" "l < length used" "used ! l = Some w" "vk w = k" by auto
  then show ?L using assms(2) by (cases "l = i") auto
qed

lemma key_half_put:
  assumes half: "key_half c hsh vk used mem f t" and cap: "map_cap_ok pow2 c"
    and i: "i < length used" "used ! i = None" "length used \<le> unat c" "length mem = length used" and new: "f (vk v) = None"
  shows "\<exists>t'. map_impl_put (map_probe pow2) t (Slot i) (hsh (vk v)) (int i) c = Some t' \<and>
     key_half c hsh vk (used[i := Some v]) (mem[i := v]) (f(vk v \<mapsto> int i)) t'"
proof -
  let ?mem = "mem[i := v]"
  have half': "key_half c hsh vk used ?mem f t" by (rule key_half_memory [OF half i(2)])
  have kv: "value_key vk ?mem (Slot i) = vk v" using i by simp
  obtain t' where t': "map_impl_put (map_probe pow2) t (Slot i) (hsh (vk v)) (int i) c = Some t'"
    "htab_wf (value_key vk ?mem) hsh (unat c) t'"
    "htab_map (value_key vk ?mem) t' = f(vk v \<mapsto> int i)"
    "htab_addrs (value_key vk ?mem) t' = (\<lambda>k. map_option (\<lambda>i. Slot (nat i)) (f k))(vk v \<mapsto> Slot i)"
    using map_probes.map_impl_put_spec [OF cap, of "value_key vk ?mem" hsh t "Slot i" "int i", unfolded kv]
      key_half_room [OF half cap i(1-3)] half' new by (auto simp: key_half_def)
  have "(f(vk v \<mapsto> int i)) k = Some j \<longleftrightarrow>
      (\<exists>l w. j = int l \<and> l < length (used[i := Some v]) \<and> used[i := Some v] ! l = Some w \<and> vk w = k)" for k j
  proof (cases "k = vk v")
    case True
    have "vk w \<noteq> vk v" if "l < length used" "used ! l = Some w" for l w
      using new key_half_map [OF half, of "vk v" "int l"] that by auto
    then show ?thesis using True i(1) by (auto simp: nth_list_update split: if_splits)
  next
    case False
    have "(\<exists>l w. j = int l \<and> l < length (used[i := Some v]) \<and> used[i := Some v] ! l = Some w \<and> vk w = k) \<longleftrightarrow>
        (\<exists>l w. j = int l \<and> l < length used \<and> used ! l = Some w \<and> vk w = k)"
      by (rule other_slot) (use False i in auto)
    then show ?thesis using False key_half_map [OF half, of k j] by simp
  qed
  moreover have "\<forall>l < length (used[i := Some v]). \<forall>w. used[i := Some v] ! l = Some w \<longrightarrow> ?mem ! l = w"
    using half' i by (auto simp: key_half_def nth_list_update)
  ultimately show ?thesis using t' by (auto simp: key_half_def fun_eq_iff)
qed

lemma key_half_erase:
  assumes half: "key_half c hsh vk used mem f t" and cap: "map_cap_ok pow2 c"
    and i: "i < length used" "used ! i = Some v"
  shows "\<exists>t'. map_impl_erase (map_probe pow2) t (Slot i) (\<lambda>p q. value_key vk mem p = value_key vk mem q) (hsh (vk v)) c trash = Some (Slot i, t') \<and>
     key_half c hsh vk (used[i := None]) (mem[i := x]) (f(vk v := None)) t'"
proof -
  have kv: "value_key vk mem (Slot i) = vk v" using half i by (simp add: key_half_def)
  have fi: "f (vk v) = Some (int i)" using key_halfD(5) [OF half i] .
  obtain p t' where t': "map_impl_erase (map_probe pow2) t (Slot i) (\<lambda>p q. value_key vk mem p = value_key vk mem q) (hsh (vk v)) c trash = Some (p, t')"
    "htab_addrs (value_key vk mem) t (vk v) = Some p"
    "htab_wf (value_key vk mem) hsh (unat c) t'" "htab_map (value_key vk mem) t' = f(vk v := None)"
    "htab_addrs (value_key vk mem) t' = (\<lambda>k. map_option (\<lambda>i. Slot (nat i)) (f k))(vk v := None)"
    using map_probes.map_impl_erase_spec [OF cap, of "value_key vk mem" hsh t "\<lambda>p q. value_key vk mem p = value_key vk mem q" "Slot i" trash, unfolded kv] key_halfD(1-3) [OF half] fi
    by auto
  have "(f(vk v := None)) k = Some j \<longleftrightarrow>
      (\<exists>l w. j = int l \<and> l < length (used[i := None]) \<and> used[i := None] ! l = Some w \<and> vk w = k)" for k j
  proof (cases "k = vk v")
    case True
    have "l = i" if "l < length used" "used ! l = Some w" "vk w = vk v" for l w
      using fi key_half_map [OF half, of "vk v" "int l"] that by auto
    then show ?thesis using True i(1) by (auto simp: nth_list_update split: if_splits)
  next
    case False
    have "(\<exists>l w. j = int l \<and> l < length (used[i := None]) \<and> used[i := None] ! l = Some w \<and> vk w = k) \<longleftrightarrow>
        (\<exists>l w. j = int l \<and> l < length used \<and> used ! l = Some w \<and> vk w = k)"
      by (rule other_slot) (use False i in auto)
    then show ?thesis using False key_half_map [OF half, of k j] by simp
  qed
  moreover have "\<forall>l < length (used[i := None]). \<forall>w. used[i := None] ! l = Some w \<longrightarrow> mem ! l = w"
    using key_halfD(4) [OF half] i by (metis length_list_update nth_list_update option.distinct(1))
  ultimately have "key_half c hsh vk (used[i := None]) mem (f(vk v := None)) t'"
    using t'(3-5) by (auto simp: key_half_def fun_eq_iff)
  then have "key_half c hsh vk (used[i := None]) (mem[i := x]) (f(vk v := None)) t'"
    by (rule key_half_memory) (use i in simp)
  moreover have "p = Slot i" using t'(2) fi by (simp add: key_halfD(3) [OF half])
  ultimately show ?thesis using t'(1) by auto
qed

section \<open>The representation\<close>

fun dmappingp :: "bool \<Rightarrow> ('k1, 'k2, 'v) dmap \<Rightarrow> ('k1, 'k2, 'v) DoubleMap \<Rightarrow> bool" where
  "dmappingp pow2 (dmap ma mb used) m \<longleftrightarrow>
     map_cap_ok pow2 (dm_keys_capacity m) \<and> unat (dm_capacity m) = length used \<and>
     length (dm_values m) = length used \<and> length used \<le> unat (dm_keys_capacity m) \<and>
     0 < dm_value_size m \<and> int (length used) * dm_value_size m < 2 ^ 31 \<and>
     dm_cpy m = (\<lambda>v. v) \<and> dm_eq_a m = (=) \<and> dm_eq_b m = (=) \<and>
     key_half (dm_keys_capacity m) (dm_hsh_a m) (dm_vk1 m) used (dm_values m) ma (dm_tab_a m) \<and>
     key_half (dm_keys_capacity m) (dm_hsh_b m) (dm_vk2 m) used (dm_values m) mb (dm_tab_b m) \<and>
     dm_n_vals m = of_nat (length (nonempty_indexes_fp used 0))"

lemma dmap_my_value_slot:
  assumes "dmappingp pow2 d m" "0 \<le> index" "index < dmap_cap_fp d"
  shows "dmap_my_value m index = Some (nat index)"
proof -
  obtain ma mb used where d: "d = dmap ma mb used" by (cases d)
  let ?s = "dm_value_size m"
  have s: "0 < ?s" "int (length used) * ?s < 2 ^ 31" "length (dm_values m) = length used" using assms(1) by (simp_all add: d)
  have "index * ?s < int (length used) * ?s" using s(1) assms(3) by (simp add: d)
  then have "index * ?s < 2 ^ 31" using s(2) by linarith
  moreover have "0 \<le> index * ?s" using s(1) assms(2) by simp
  ultimately show ?thesis using s assms(3) by (simp add: dmap_my_value_def s32_def d)
qed

lemma nonempty_indexes_update:
  assumes "i < length xs"
  shows "xs ! i = None \<Longrightarrow> length (nonempty_indexes_fp (xs[i := Some v]) s) = Suc (length (nonempty_indexes_fp xs s))"
    "xs ! i \<noteq> None \<Longrightarrow> Suc (length (nonempty_indexes_fp (xs[i := None]) s)) = length (nonempty_indexes_fp xs s)"
  using assms by (induction xs arbitrary: i s) (auto simp: nth_Cons split: option.splits nat.splits)

lemma dmap_get_spec:
  assumes "dmappingp pow2 d m"
  shows "dmap_get_a pow2 m p index = (let k = value_key (dm_vk1 m) (dm_values m) p in
       Some (if dmap_has_k1_fp d k then (1, dmap_get_k1_fp d k) else (0, index)))"
    "dmap_get_b pow2 m q index = (let k = value_key (dm_vk2 m) (dm_values m) q in
       Some (if dmap_has_k2_fp d k then (1, dmap_get_k2_fp d k) else (0, index)))"
proof -
  obtain ma mb used where d: "d = dmap ma mb used" by (cases d)
  note half = key_half_get [of "dm_keys_capacity m" _ _ used "dm_values m"]
  show "dmap_get_a pow2 m p index = (let k = value_key (dm_vk1 m) (dm_values m) p in
       Some (if dmap_has_k1_fp d k then (1, dmap_get_k1_fp d k) else (0, index)))"
    using assms half [of "dm_hsh_a m" "dm_vk1 m" ma "dm_tab_a m" pow2 p index]
    by (auto simp: d dmap_get_a_def Let_def split: option.splits)
  show "dmap_get_b pow2 m q index = (let k = value_key (dm_vk2 m) (dm_values m) q in
       Some (if dmap_has_k2_fp d k then (1, dmap_get_k2_fp d k) else (0, index)))"
    using assms half [of "dm_hsh_b m" "dm_vk2 m" mb "dm_tab_b m" pow2 q index]
    by (auto simp: d dmap_get_b_def Let_def split: option.splits)
qed

lemma dmap_put_spec:
  assumes rep: "dmappingp pow2 d m" and i: "0 \<le> index" "index < dmap_cap_fp d" "\<not> dmap_index_used_fp d index"
    and new: "\<not> dmap_has_k1_fp d (dm_vk1 m v)" "\<not> dmap_has_k2_fp d (dm_vk2 m v)"
  shows "\<exists>m'. dmap_put pow2 m v index = Some (1, m') \<and> dmappingp pow2 (dmap_put_fp d index v (dm_vk1 m) (dm_vk2 m)) m' \<and>
     dm_vk1 m' = dm_vk1 m \<and> dm_vk2 m' = dm_vk2 m"
proof -
  obtain ma mb used where d: "d = dmap ma mb used" by (cases d)
  define n where "n = nat index"
  have n: "n < length used" "used ! n = None" "index = int n" using i by (auto simp: d n_def)
  have slot: "dmap_my_value m index = Some n" using dmap_my_value_slot [OF rep i(1,2)] by (simp add: n_def)
  have cap: "map_cap_ok pow2 (dm_keys_capacity m)" "length used \<le> unat (dm_keys_capacity m)" "length (dm_values m) = length used"
    "dm_cpy m = (\<lambda>v. v)" using rep by (simp_all add: d)
  obtain ta where ta: "map_impl_put (map_probe pow2) (dm_tab_a m) (Slot n) (dm_hsh_a m (dm_vk1 m v)) (int n) (dm_keys_capacity m) = Some ta"
    "key_half (dm_keys_capacity m) (dm_hsh_a m) (dm_vk1 m) (used[n := Some v]) ((dm_values m)[n := v]) (ma(dm_vk1 m v \<mapsto> int n)) ta"
    using key_half_put [of "dm_keys_capacity m" "dm_hsh_a m" "dm_vk1 m" used "dm_values m" ma "dm_tab_a m" pow2 n v] rep new n
    by (auto simp: d)
  obtain tb where tb: "map_impl_put (map_probe pow2) (dm_tab_b m) (Slot n) (dm_hsh_b m (dm_vk2 m v)) (int n) (dm_keys_capacity m) = Some tb"
    "key_half (dm_keys_capacity m) (dm_hsh_b m) (dm_vk2 m) (used[n := Some v]) ((dm_values m)[n := v]) (mb(dm_vk2 m v \<mapsto> int n)) tb"
    using key_half_put [of "dm_keys_capacity m" "dm_hsh_b m" "dm_vk2 m" used "dm_values m" mb "dm_tab_b m" pow2 n v] rep new n
    by (auto simp: d)
  have "length (nonempty_indexes_fp (used[n := Some v]) 0) = Suc (length (nonempty_indexes_fp used 0))"
    using n by (intro nonempty_indexes_update) auto
  then show ?thesis
    using slot cap ta tb rep n by (simp add: dmap_put_def Let_def d add.commute)
qed

lemma dmap_erase_spec:
  assumes rep: "dmappingp pow2 d m" and used: "dmap_index_used_fp d index"
  shows "\<exists>m'. dmap_erase pow2 m index = Some (1, m') \<and> dmappingp pow2 (dmap_erase_fp d index (dm_vk1 m) (dm_vk2 m)) m' \<and>
     dm_vk1 m' = dm_vk1 m \<and> dm_vk2 m' = dm_vk2 m"
proof -
  obtain ma mb us where d: "d = dmap ma mb us" by (cases d)
  define n where "n = nat index"
  obtain v where n: "n < length us" "us ! n = Some v" using used by (auto simp: d n_def)
  have slot: "dmap_my_value m index = Some n" using dmap_my_value_slot [OF rep, of index] used by (auto simp: d n_def)
  have half: "key_half (dm_keys_capacity m) (dm_hsh_a m) (dm_vk1 m) us (dm_values m) ma (dm_tab_a m)"
    "key_half (dm_keys_capacity m) (dm_hsh_b m) (dm_vk2 m) us (dm_values m) mb (dm_tab_b m)"
    and cap: "map_cap_ok pow2 (dm_keys_capacity m)" "dm_eq_a m = (=)" "dm_eq_b m = (=)"
    using rep by (simp_all add: d)
  have mem: "dm_values m ! n = v" by (rule key_halfD(4) [OF half(1) n])
  let ?x = "dm_dstr m v"
  obtain ta where ta: "map_impl_erase (map_probe pow2) (dm_tab_a m) (Slot n)
      (\<lambda>p q. value_key (dm_vk1 m) (dm_values m) p = value_key (dm_vk1 m) (dm_values m) q) (dm_hsh_a m (dm_vk1 m v)) (dm_keys_capacity m) (Slot n) = Some (Slot n, ta)"
    "key_half (dm_keys_capacity m) (dm_hsh_a m) (dm_vk1 m) (us[n := None]) ((dm_values m)[n := ?x]) (ma(dm_vk1 m v := None)) ta"
    using key_half_erase [OF half(1) cap(1) n] by blast
  obtain tb where tb: "map_impl_erase (map_probe pow2) (dm_tab_b m) (Slot n)
      (\<lambda>p q. value_key (dm_vk2 m) (dm_values m) p = value_key (dm_vk2 m) (dm_values m) q) (dm_hsh_b m (dm_vk2 m v)) (dm_keys_capacity m) (Slot n) = Some (Slot n, tb)"
    "key_half (dm_keys_capacity m) (dm_hsh_b m) (dm_vk2 m) (us[n := None]) ((dm_values m)[n := ?x]) (mb(dm_vk2 m v := None)) tb"
    using key_half_erase [OF half(2) cap(1) n] by blast
  have "Suc (length (nonempty_indexes_fp (us[n := None]) 0)) = length (nonempty_indexes_fp us 0)"
    using n by (intro nonempty_indexes_update) auto
  then have "of_nat (length (nonempty_indexes_fp us 0)) - 1 = (of_nat (length (nonempty_indexes_fp (us[n := None]) 0)) :: u32)"
    by (metis of_nat_Suc add_diff_cancel_left')
  then show ?thesis
    using slot mem cap ta tb rep n(2) by (simp add: dmap_erase_def Let_def d n_def [symmetric])
qed

lemma dmap_get_value_spec:
  assumes rep: "dmappingp pow2 d m" and used: "dmap_index_used_fp d index"
  shows "dmap_get_value m index = Some (dmap_get_val_fp d index)"
proof -
  obtain ma mb us where d: "d = dmap ma mb us" by (cases d)
  obtain v where n: "nat index < length us" "us ! nat index = Some v" using used by (auto simp: d)
  have half: "key_half (dm_keys_capacity m) (dm_hsh_a m) (dm_vk1 m) us (dm_values m) ma (dm_tab_a m)"
    "dm_cpy m = (\<lambda>v. v)" using rep by (simp_all add: d)
  show ?thesis
    using dmap_my_value_slot [OF rep, of index] used n key_halfD(4) [OF half(1) n] half(2) by (simp add: dmap_get_value_def d)
qed

lemma nonempty_indexes_length: "length (nonempty_indexes_fp xs s) \<le> length xs"
  by (induction xs arbitrary: s) (auto split: option.splits intro: le_SucI)

lemma dmap_size_spec:
  assumes "dmappingp pow2 d m"
  shows "uint (dmap_size m) = dmap_size_fp d"
proof -
  obtain ma mb us where d: "d = dmap ma mb us" by (cases d)
  have "length (nonempty_indexes_fp us 0) < 2 ^ 32"
    using assms nonempty_indexes_length [of us 0] unsigned_less [of "dm_capacity m", where 'a = nat] by (simp add: d)
  then show ?thesis using assms
    by (simp add: d dmap_size_def dmap_size_fp_def uint_eq_int_unat unat_of_nat_small)
qed

section \<open>Expiring\<close>

definition dmap_dchain_coherent :: "('k1, 'k2, 'v) dmap \<Rightarrow> dchain \<Rightarrow> bool" where
  "dmap_dchain_coherent d ch \<longleftrightarrow>
     dmap_cap_fp d = dchain_index_range_fp ch \<and> (\<forall>i. dmap_index_used_fp d i \<longleftrightarrow> dchain_allocated_fp ch i)"

lemma dmap_erase_params [simp]: "dmap_cap_fp (dmap_erase_fp d i vk1 vk2) = dmap_cap_fp d"
  by (cases d) simp

lemma dmap_erase_used:
  assumes "0 \<le> i"
  shows "dmap_index_used_fp (dmap_erase_fp d i vk1 vk2) j \<longleftrightarrow> dmap_index_used_fp d j \<and> j \<noteq> i"
  using assms by (cases d; cases "j = i") (auto simp: nth_list_update_neq)

lemma dmap_erase_swap:
  assumes "i \<noteq> j" "0 \<le> i" "0 \<le> j"
  shows "dmap_erase_fp (dmap_erase_fp d i vk1 vk2) j vk1 vk2 = dmap_erase_fp (dmap_erase_fp d j vk1 vk2) i vk1 vk2"
  using assms by (cases d) (simp add: nth_list_update eq_nat_nat_iff list_update_swap fun_upd_twist fun_eq_iff)

lemma dmap_erase_all_swap:
  assumes "i \<notin> set is" "0 \<le> i" "\<And>j. j \<in> set is \<Longrightarrow> 0 \<le> j"
  shows "dmap_erase_fp (dmap_erase_all_fp d is vk1 vk2) i vk1 vk2 = dmap_erase_all_fp (dmap_erase_fp d i vk1 vk2) is vk1 vk2"
  using assms
proof (induction "is")
  case (Cons a "is")
  then show ?case using dmap_erase_swap [of a i "dmap_erase_all_fp d is vk1 vk2" vk1 vk2] by simp
qed simp

lemma dmap_coherent_erase:
  assumes co: "dmap_dchain_coherent d ch" and rep: "double_chainp ch chain" and i: "dchain_allocated_fp ch i"
  shows "dmap_dchain_coherent (dmap_erase_fp d i vk1 vk2) (dchain_remove_index_fp ch i)"
proof -
  have "0 \<le> i" using co i by (cases d) (auto simp: dmap_dchain_coherent_def)
  moreover have "dchain_allocated_fp (dchain_remove_index_fp ch i) j \<longleftrightarrow> dchain_allocated_fp ch j \<and> j \<noteq> i" for j
    using double_chainp_range(2) [OF rep] by (auto simp: dchain_allocated_indexes)
  ultimately show ?thesis using co by (auto simp: dmap_dchain_coherent_def dmap_erase_used)
qed

definition expire_ok ::
  "bool \<Rightarrow> ('v \<Rightarrow> 'k1) \<Rightarrow> ('v \<Rightarrow> 'k2) \<Rightarrow> vigor_time \<Rightarrow> ('k1, 'k2, 'v) dmap \<Rightarrow> dchain \<Rightarrow> DoubleChain \<Rightarrow> ('k1, 'k2, 'v) DoubleMap \<Rightarrow> bool" where
  "expire_ok pow2 vk1 vk2 time final ch chain m \<longleftrightarrow>
     double_chainp ch chain \<and> dm_vk1 m = vk1 \<and> dm_vk2 m = vk2 \<and>
     (\<exists>d. dmappingp pow2 d m \<and> dmap_dchain_coherent d ch \<and>
       dmap_erase_all_fp d (dchain_get_expired_indexes_fp ch time) vk1 vk2 = final)"

lemma expired_indexes_subset: "set (dchain_get_expired_indexes_fp ch time) \<subseteq> set (dchain_indexes_fp ch)"
  by (cases ch) auto

lemma expire_ok_erase:
  assumes ok: "expire_ok pow2 vk1 vk2 time final ch chain m"
    and ne: "\<not> dchain_is_empty_fp ch" "dchain_get_oldest_time_fp ch < time"
    and chain': "double_chainp (dchain_remove_index_fp ch (dchain_get_oldest_index_fp ch)) chain'"
  shows "\<exists>m'. dmap_erase pow2 m (dchain_get_oldest_index_fp ch) = Some (1, m') \<and>
     expire_ok pow2 vk1 vk2 time final (dchain_remove_index_fp ch (dchain_get_oldest_index_fp ch)) chain' m'"
proof -
  let ?i = "dchain_get_oldest_index_fp ch"
  let ?es = "dchain_get_expired_indexes_fp (dchain_remove_index_fp ch ?i) time"
  obtain d where rep: "double_chainp ch chain" and d: "dmappingp pow2 d m" "dmap_dchain_coherent d ch"
    "dmap_erase_all_fp d (dchain_get_expired_indexes_fp ch time) vk1 vk2 = final" and vk: "dm_vk1 m = vk1" "dm_vk2 m = vk2"
    using ok by (auto simp: expire_ok_def)
  have i: "dchain_allocated_fp ch ?i" using dchain_oldest_allocated ne(1) .
  have es: "set ?es \<subseteq> set (dchain_indexes_fp ch) - {?i}"
    using expired_indexes_subset [of "dchain_remove_index_fp ch ?i" time] double_chainp_range(2) [OF rep] by auto
  have pos: "0 \<le> j" if "j \<in> set (dchain_indexes_fp ch)" for j
    using double_chainp_range(5) [OF rep, of j] that by (simp add: dchain_allocated_indexes)
  have "dmap_erase_all_fp (dmap_erase_fp d ?i vk1 vk2) ?es vk1 vk2 = dmap_erase_fp (dmap_erase_all_fp d ?es vk1 vk2) ?i vk1 vk2"
    using es pos i by (intro dmap_erase_all_swap [symmetric]) (auto simp: dchain_allocated_indexes)
  then have "dmap_erase_all_fp (dmap_erase_fp d ?i vk1 vk2) ?es vk1 vk2 = final"
    using d(3) by (simp add: dchain_expire_step(2) [OF ne])
  moreover obtain m' where "dmap_erase pow2 m ?i = Some (1, m')" "dmappingp pow2 (dmap_erase_fp d ?i vk1 vk2) m'"
    "dm_vk1 m' = vk1" "dm_vk2 m' = vk2"
    using dmap_erase_spec [OF d(1), of ?i] d(2) i vk by (auto simp: dmap_dchain_coherent_def)
  moreover have "dmap_dchain_coherent (dmap_erase_fp d ?i vk1 vk2) (dchain_remove_index_fp ch ?i)"
    by (rule dmap_coherent_erase [OF d(2) rep i])
  ultimately show ?thesis using chain' by (auto simp: expire_ok_def)
qed

interpretation double_map: expiration "expire_ok pow2 vk1 vk2 time final"
  "\<lambda>m i. do { (ret, m) \<leftarrow> dmap_erase pow2 m i; Some m }" "\<lambda>chain m. expire_items_loop pow2 chain m time" time
  for pow2 vk1 vk2 time final
proof
  fix ch chain chain' m index count
  show "double_chainp ch chain" if "expire_ok pow2 vk1 vk2 time final ch chain m" using that by (simp add: expire_ok_def)
  let ?i = "dchain_get_oldest_index_fp ch"
  show "\<exists>s'. do { (ret, m) \<leftarrow> dmap_erase pow2 m ?i; Some m } = Some s' \<and>
      expire_ok pow2 vk1 vk2 time final (dchain_remove_index_fp ch ?i) chain' s'"
    if "expire_ok pow2 vk1 vk2 time final ch chain m" "\<not> dchain_is_empty_fp ch" "dchain_get_oldest_time_fp ch < time"
      "double_chainp (dchain_remove_index_fp ch ?i) chain'"
    using expire_ok_erase [OF that] by auto
  show "expire_items_loop pow2 chain m time index count = do {
      (ret, index, chain) \<leftarrow> dchain_expire_one_index chain index time;
      if ret \<noteq> 0 then do {
        m \<leftarrow> do { (ret, m) \<leftarrow> dmap_erase pow2 m index; Some m };
        count \<leftarrow> s32 (count + 1);
        expire_items_loop pow2 chain m time index count
      } else Some (count, chain, m)
    }"
    by (subst expire_items_loop.simps) (simp add: case_prod_unfold cong: if_cong)
qed

lemma expire_items_spec:
  assumes "dmappingp pow2 d m" "double_chainp ch chain" "dmap_dchain_coherent d ch"
  shows "\<exists>chain' m' d'. expire_items pow2 chain m time =
      Some (int (length (dchain_get_expired_indexes_fp ch time)), chain', m') \<and>
    double_chainp (dchain_expire_old_indexes_fp ch time) chain' \<and>
    dmappingp pow2 d' m' \<and> dmap_dchain_coherent d' (dchain_expire_old_indexes_fp ch time) \<and>
    d' = dmap_erase_all_fp d (dchain_get_expired_indexes_fp ch time) (dm_vk1 m) (dm_vk2 m)"
proof -
  let ?final = "dmap_erase_all_fp d (dchain_get_expired_indexes_fp ch time) (dm_vk1 m) (dm_vk2 m)"
  obtain ma mb us where d: "d = dmap ma mb us" by (cases d)
  have ok: "expire_ok pow2 (dm_vk1 m) (dm_vk2 m) time ?final ch chain m"
    using assms by (auto simp: expire_ok_def)
  have "int (length us) * 1 \<le> int (length us) * dm_value_size m" using assms(1) by (intro mult_left_mono) (simp_all add: d)
  then have "int (length us) < 2 ^ 31" using assms(1) by (simp add: d)
  then have len: "0 + int (length (dchain_indexes_fp ch)) < 2 ^ 31"
    using double_chainp_range(4) [OF assms(2)] assms(3) by (simp add: d dmap_dchain_coherent_def)
  have exp: "dchain_get_expired_indexes_fp (dchain_expire_old_indexes_fp ch time) time = []"
    using double_chainp_range(2) [OF assms(2)] by (cases ch) (simp add: foldl_remove_filter filter_empty_conv)
  obtain chain' m' where run: "expire_items pow2 chain m time = Some (int (length (dchain_get_expired_indexes_fp ch time)), chain', m')"
    and ok': "expire_ok pow2 (dm_vk1 m) (dm_vk2 m) time ?final (dchain_expire_old_indexes_fp ch time) chain' m'"
    using double_map.run_expires [OF ok order_refl len, of "- 1"] by (auto simp: expire_items_def)
  then obtain d' where "dmappingp pow2 d' m'" "dmap_dchain_coherent d' (dchain_expire_old_indexes_fp ch time)" "d' = ?final"
    unfolding expire_ok_def exp by auto
  then show ?thesis using run ok' by (auto simp: expire_ok_def)
qed

section \<open>Allocation\<close>

lemma malloc_all_outcome:
  assumes "heap_ok h0" "heap_ok h" "fresh h0 \<le> fresh h"
    "\<And>h'. live h' = live h \<Longrightarrow> \<exists>h''. free_all got h' = Some h'' \<and> live h'' = live h0 \<and> fresh h'' = fresh h'"
  shows "\<exists>got_all h'. malloc_all got szs h = Some (got_all, h') \<and> heap_ok h' \<and> (\<not> got_all \<longrightarrow> live h' = live h0)"
  using assms(2-)
proof (induction szs arbitrary: got h)
  case (Cons sz szs)
  from Cons.prems(1) show ?case
  proof (cases rule: malloc_cases [where sz = sz])
    case (fail h1)
    then obtain h2 where "free_all got h1 = Some h2" "live h2 = live h0" "fresh h2 = fresh h1"
      using Cons.prems(3) by blast
    moreover have "heap_ok h2" using assms(1) Cons.prems(2) calculation fail by (simp add: heap_ok_def)
    ultimately show ?thesis using fail by auto
  next
    case (ok h1)
    have "\<exists>h''. free_all (fresh h # got) h' = Some h'' \<and> live h'' = live h0 \<and> fresh h'' = fresh h'"
      if h': "live h' = live h1" for h'
    proof -
      let ?h = "h'\<lparr>live := (live h')(fresh h := None)\<rparr>"
      have "live ?h = live h" using h' ok Cons.prems(1) by (auto simp: heap_ok_def)
      then show ?thesis using Cons.prems(3) [of ?h] h' ok by (simp add: free_def)
    qed
    from Cons.IH [OF ok(4) _ this] show ?thesis using ok(1,3) Cons.prems(2) by simp
  qed
qed auto

lemma raw_htab_init:
  assumes "0 < unat c" "unat c < 140000"
  shows "\<exists>t. map_impl_init (raw_htab raw c) c = Some t \<and> htab_wf kv hsh (unat c) t \<and> htab_map kv t = Map.empty \<and> htab_addrs kv t = Map.empty"
proof -
  have sint: "sint c = int (unat c)" using assms by (intro sint_eq_unat_small) simp
  show ?thesis
    using map_impl_init_spec [of c "raw_htab raw c" kv hsh] assms
    by (auto simp: raw_htab_def Let_def sint size_t_def nat_mult_distrib)
qed

lemma dmap_allocate_outcome:
  assumes ok: "heap_ok h" and size: "0 < value_size" "value_size < 4096"
    and cap: "0 < unat capacity" "unat capacity \<le> unat keys_capacity" "unat keys_capacity < 140000"
  shows "alloc_outcome h map_out
     (\<lambda>out h'. \<exists>m. out = Some m \<and> dmappingp pow2 (empty_dmap_fp capacity) m \<and> dm_vk1 m = vk1 \<and> dm_vk2 m = vk2)
     (dmap_allocate pow2 (=) hsh_a (=) hsh_b value_size (\<lambda>v. v) v_destr vk1 vk2 capacity keys_capacity raw raw_a raw_b map_out h)"
proof (cases "pow2 \<and> (keys_capacity = 0 \<or> and keys_capacity (keys_capacity - 1) \<noteq> 0)")
  case True
  then show ?thesis using ok by (simp add: dmap_allocate_def alloc_outcome_fail)
next
  case False
  let ?c = "unat keys_capacity"
  have capk: "map_cap_ok pow2 keys_capacity" using False cap by (auto simp: map_cap_ok_def)
  have "int (unat capacity) * value_size \<le> 140000 * 4096" using size cap by (intro mult_mono) auto
  then have fits: "int (unat capacity) * value_size < 2 ^ 31" by simp
  have "unat (word_of_int value_size :: u32) = nat value_size" using size by (simp add: unat_eq_nat_uint uint_word_of_int)
  moreover have "nat value_size * unat capacity < 2 ^ 32"
    using fits size by (simp add: mult.commute flip: of_nat_less_iff [where 'a = int])
  ultimately have "unat ((word_of_int value_size :: u32) * capacity) = nat value_size * unat capacity"
    by (simp add: unat_word_ariths)
  then have n: "unat ((word_of_int value_size :: u32) * capacity) div nat value_size = unat capacity" using size by simp
  let ?mem = "map raw [0..<unat capacity]"
  obtain ta where ta: "map_impl_init (raw_htab raw_a keys_capacity) keys_capacity = Some ta"
    "htab_wf (value_key vk1 ?mem) hsh_a ?c ta" "htab_map (value_key vk1 ?mem) ta = Map.empty" "htab_addrs (value_key vk1 ?mem) ta = Map.empty"
    using raw_htab_init [of keys_capacity raw_a "value_key vk1 ?mem" hsh_a] cap by auto
  obtain tb where tb: "map_impl_init (raw_htab raw_b keys_capacity) keys_capacity = Some tb"
    "htab_wf (value_key vk2 ?mem) hsh_b ?c tb" "htab_map (value_key vk2 ?mem) tb = Map.empty" "htab_addrs (value_key vk2 ?mem) tb = Map.empty"
    using raw_htab_init [of keys_capacity raw_b "value_key vk2 ?mem" hsh_b] cap by auto
  have none: "nonempty_indexes_fp (replicate k None) s = []" for k s by (induction k arbitrary: s) simp_all
  have "key_half keys_capacity hsh_a vk1 (replicate (unat capacity) None) ?mem Map.empty ta"
    "key_half keys_capacity hsh_b vk2 (replicate (unat capacity) None) ?mem Map.empty tb"
    using ta(2-) tb(2-) by (simp_all add: key_half_def)
  moreover obtain got h' where "malloc_all [] (dmap_blocks value_size capacity keys_capacity) h = Some (got, h')"
    "heap_ok h'" "\<not> got \<longrightarrow> live h' = live h"
    using malloc_all_outcome [OF ok ok, of "[]" "dmap_blocks value_size capacity keys_capacity"] by auto
  ultimately show ?thesis
    using ta(1) tb(1) False capk size fits cap n
    by (auto simp: dmap_allocate_def alloc_outcome_def empty_dmap_fp_def none)
qed

section \<open>Properties\<close>

text \<open>A map of three values over the chain \<open>ex_chain\<close>, whose values are their own keys.\<close>

definition ex_dmap :: "(nat, nat, nat) DoubleMap" where
  "ex_dmap =
     \<lparr>dm_value_size = 4, dm_cpy = (\<lambda>v. v), dm_dstr = (\<lambda>v. 0), dm_values = [10, 11, 10],
      dm_tab_a = m_tab (ex_flows 10 11), dm_eq_a = (=), dm_hsh_a = m_khash (ex_flows 10 11),
      dm_tab_b = m_tab (ex_flows 10 11), dm_eq_b = (=), dm_hsh_b = m_khash (ex_flows 10 11),
      dm_vk1 = (\<lambda>v. v), dm_vk2 = (\<lambda>v. v), dm_n_vals = 2, dm_capacity = 3, dm_keys_capacity = 4\<rparr>"

abbreviation ex_keys :: "nat \<Rightarrow> int option" where
  "ex_keys \<equiv> [10 \<mapsto> 0, 11 \<mapsto> 1]"

lemma ex_dmap_ok:
  "dmappingp True (dmap ex_keys ex_keys [Some 10, Some 11, None]) ex_dmap"
  "dmap_dchain_coherent (dmap ex_keys ex_keys [Some 10, Some 11, None]) (dchain [(0, 5), (1, 7)] 3 0 7)"
proof -
  have kv: "value_key (\<lambda>v. v) [10, 11, 10] = key_at (ex_vector 10 (11 :: nat))"
  proof
    fix p show "value_key (\<lambda>v. v) [10, 11, 10] p = key_at (ex_vector 10 (11 :: nat)) p" by (cases p) (simp_all add: ex_vector_def)
  qed
  have wf: "map_wf True (key_at (ex_vector 10 11)) (ex_flows 10 (11 :: nat))" by (rule ex_flows_wf) simp
  have "htab_map (key_at (ex_vector 10 11)) (m_tab (ex_flows 10 (11 :: nat))) = ex_keys"
    "htab_addrs (key_at (ex_vector 10 11)) (m_tab (ex_flows 10 (11 :: nat))) = (\<lambda>k. map_option (\<lambda>i. Slot (nat i)) (ex_keys k))"
    using ex_flows_slots [of 10 "11 :: nat"] by (auto simp: htab_map_def htab_addrs_def ex_flows_def ex_vector_def fun_eq_iff)
  moreover have "ex_keys k = Some j \<longleftrightarrow> (\<exists>i v. j = int i \<and> i < 3 \<and> [Some 10, Some 11, None] ! i = Some v \<and> v = k)" for k j
  proof
    assume "ex_keys k = Some j"
    then consider "k = 10" "j = 0" | "k = 11" "j = 1" by (auto split: if_splits)
    then show "\<exists>i v. j = int i \<and> i < 3 \<and> [Some 10, Some 11, None] ! i = Some v \<and> v = k"
      by cases (auto intro: exI [of _ "0 :: nat"] exI [of _ "1 :: nat"])
  next
    assume "\<exists>i v. j = int i \<and> i < 3 \<and> [Some 10, Some 11, None] ! i = Some v \<and> v = k"
    then obtain i where i: "j = int i" "i < 3" "[Some 10, Some 11, None] ! i = Some k" by auto
    then consider "i = 0" | "i = 1" | "i = 2" by linarith
    then show "ex_keys k = Some j" by cases (use i in auto)
  qed
  ultimately have "key_half 4 (m_khash (ex_flows 10 11)) (\<lambda>v. v) [Some 10, Some 11, None] [10, 11, 10] ex_keys (m_tab (ex_flows 10 11))"
    using wf by (auto simp: key_half_def kv map_wf_def less_Suc_eq) (simp_all add: ex_flows_def)
  then show "dmappingp True (dmap ex_keys ex_keys [Some 10, Some 11, None]) ex_dmap"
    using wf by (simp add: ex_dmap_def map_wf_def map_cap_ok_def)
  show "dmap_dchain_coherent (dmap ex_keys ex_keys [Some 10, Some 11, None]) (dchain [(0, 5), (1, 7)] 3 0 7)"
    by (auto simp: dmap_dchain_coherent_def less_Suc_eq nth_Cons split: nat.splits)
qed

text \<open>
  C37. \<^const>\<open>dmap_put\<close> of a value whose keys are both new at a free index succeeds and is the abstract
  insertion; afterwards both keys lead to the index, the value is found there, every other key
  leads where it did, and the size is one more.
\<close>

theorem dmap_put_correct:
  assumes "dmappingp pow2 d m" "0 \<le> index" "index < dmap_cap_fp d" "\<not> dmap_index_used_fp d index"
    "\<not> dmap_has_k1_fp d (dm_vk1 m v)" "\<not> dmap_has_k2_fp d (dm_vk2 m v)"
  shows "\<exists>m'. dmap_put pow2 m v index = Some (1, m') \<and>
     dmappingp pow2 (dmap_put_fp d index v (dm_vk1 m) (dm_vk2 m)) m' \<and>
     dmap_get_value m' index = Some v \<and> dmap_size m' = dmap_size m + 1 \<and>
     (\<forall>k i. dmap_get_a pow2 m' (Ext k) i = (if k = dm_vk1 m v then Some (1, index) else dmap_get_a pow2 m (Ext k) i)) \<and>
     (\<forall>k i. dmap_get_b pow2 m' (Ext k) i = (if k = dm_vk2 m v then Some (1, index) else dmap_get_b pow2 m (Ext k) i))"
proof -
  obtain ma mb us where d: "d = dmap ma mb us" by (cases d)
  obtain m' where m': "dmap_put pow2 m v index = Some (1, m')"
    "dmappingp pow2 (dmap_put_fp d index v (dm_vk1 m) (dm_vk2 m)) m'"
    using dmap_put_spec [OF assms] by blast
  have "dmap_get_value m' index = Some v" using dmap_get_value_spec [OF m'(2), of index] assms(2-4) by (simp add: d)
  moreover have "dmap_size m' = dmap_size m + 1"
    using m'(1) by (auto simp: dmap_put_def dmap_size_def Let_def split: bind_splits)
  ultimately show ?thesis
    using m' dmap_get_spec [OF m'(2)] dmap_get_spec [OF assms(1)] by (auto simp: d Let_def)
qed

theorem dmap_put_correct_witness:
  "\<exists>m'. dmap_put True ex_dmap 12 2 = Some (1, m') \<and> dmap_get_value m' 2 = Some 12 \<and> dmap_get_a True m' (Ext 12) 0 = Some (1, 2)"
  using dmap_put_correct [OF ex_dmap_ok(1), of 2 12] by (auto simp: ex_dmap_def)

text \<open>
  C36. \<^const>\<open>expire_items\<close> on a map and an allocator with the same indexes in use terminates without a fault, returns
  how many entries were older than the given time, and erases exactly these from both.
\<close>

theorem expire_items_correct:
  assumes "dmappingp pow2 d m" "double_chainp ch chain" "dmap_dchain_coherent d ch"
  shows "\<exists>chain' m'. expire_items pow2 chain m time =
      Some (int (length (dchain_get_expired_indexes_fp ch time)), chain', m') \<and>
    double_chainp (dchain_expire_old_indexes_fp ch time) chain' \<and>
    dmappingp pow2 (dmap_erase_all_fp d (dchain_get_expired_indexes_fp ch time) (dm_vk1 m) (dm_vk2 m)) m' \<and>
    dmap_dchain_coherent (dmap_erase_all_fp d (dchain_get_expired_indexes_fp ch time) (dm_vk1 m) (dm_vk2 m))
      (dchain_expire_old_indexes_fp ch time)"
  using expire_items_spec [OF assms, of time] by blast

theorem expire_items_correct_witness:
  "\<exists>chain' m'. expire_items True ex_chain ex_dmap 6 = Some (1, chain', m') \<and> double_chainp (dchain [(1, 7)] 3 0 7) chain'"
  using expire_items_correct [OF ex_dmap_ok(1) ex_chain_ok ex_dmap_ok(2), of 6] by auto

end
