(* ===== verification/Sketch.thy ===== *)
theory Sketch
  imports Emap
begin

text \<open>
  The sketch of \<open>libvig/unverified/sketch.c\<close>, which counts by a few hashes of a key. The rows
  share one map from hashes to indexes and one vector of counters; row \<open>i\<close> has its own allocator
  and owns the counters from \<open>i * capacity\<close> on. The CRC instruction and the hash of the keys are
  arguments. Loops over the rows are \<open>for_upto\<close>.
\<close>

declare of_nat_unat [simp del]

section \<open>Counting loops\<close>

primrec for_upto :: "nat \<Rightarrow> (nat \<Rightarrow> 's \<Rightarrow> 's option) \<Rightarrow> 's \<Rightarrow> 's option" where
  "for_upto 0 body s = Some s"
| "for_upto (Suc n) body s = do { s \<leftarrow> for_upto n body s; body n s }"

lemma for_upto_inv:
  assumes "I 0 s" "\<And>i s. i < n \<Longrightarrow> I i s \<Longrightarrow> \<exists>s'. body i s = Some s' \<and> I (Suc i) s'"
  shows "\<exists>s'. for_upto n body s = Some s' \<and> I n s'"
  using assms(2)
proof (induction n)
  case 0
  then show ?case using assms(1) by simp
next
  case (Suc n)
  then obtain t where t: "for_upto n body s = Some t" "I n t" by (metis less_SucI)
  then show ?case using Suc.prems [of n t] by simp
qed

section \<open>The code\<close>

definition SKETCH_HASHES :: nat where
  "SKETCH_HASHES = 8"

definition SKETCH_SALTS :: "u32 list" where
  "SKETCH_SALTS =
    [0x9b78350f, 0x9bcf144c, 0x8ab29a3e, 0x34d48bf5, 0x78e47449, 0xd6e4af1d,
     0x32ed75e2, 0xb1eb5a08, 0x9cc7fbdf, 0x65b811ea, 0x41fd5ed9, 0x2e6a6782,
     0x3549661d, 0xbb211240, 0x78daa2ae, 0x8ce2d11f, 0x52911493, 0xc2497bd5,
     0x83c232dd, 0x3e413e9f, 0x8831d191, 0x6770ac67, 0xcd1c9141, 0xad35861a,
     0xb79cd83d, 0xce3ec91f, 0x360942d1, 0x905000fa, 0x28bb469a, 0xdb239a17,
     0x615cf3ae, 0xec9f7807, 0x271dcc3c, 0x47b98e44, 0x33ff4a71, 0x02a063f8,
     0xb051ebf2, 0x6f938d98, 0x2279abc3, 0xd55b01db, 0xaa99e301, 0x95d0587c,
     0xaee8684e, 0x24574971, 0x4b1e79a6, 0x4a646938, 0xa68d67f4, 0xb87839e6,
     0x8e3d388b, 0xed2af964, 0x541b83e3, 0xcb7fc8da, 0xe1140f8c, 0xe9724fd6,
     0x616a78fa, 0x610cd51c, 0x10f9173e, 0x8e180857, 0xa8f0b843, 0xd429a973,
     0xceee91e5, 0x1d4c6b18, 0x2a80e6df, 0x396f4d23]"

record Sketch =
  sk_clients :: "(u32 kptr, u32) vmap"
  sk_keys :: "u32 Vector"
  sk_buckets :: "u32 Vector"
  sk_allocators :: "DoubleChain list"
  sk_capacity :: u32
  sk_threshold :: u16
  sk_hashes :: "u32 list"
  sk_present :: "int list"
  sk_indexes :: "int list"

partial_function (option) find_next_power_loop :: "u32 \<Rightarrow> u32 \<Rightarrow> u32 option" where
  "find_next_power_loop n d = (if n < d then find_next_power_loop (n * 2) d else Some n)"

declare find_next_power_loop.simps [code]

definition find_next_power_of_2_bigger_than :: "u32 \<Rightarrow> u32 option" where
  "find_next_power_of_2_bigger_than d = do {
     cassert (d \<le> 0x80000000);
     find_next_power_loop 1 d
   }"

definition hash_hash :: "(u32 \<Rightarrow> u32 \<Rightarrow> u32) \<Rightarrow> u32 \<Rightarrow> u32" where
  "hash_hash crc32 v = crc32 0 v"

text \<open>
  Allocation. The contents of fresh memory are arguments; \<open>bucket_allocate\<close> leaves them as they
  are. What was allocated before a failure is not released.
\<close>

record sketch_raw =
  raw_clients :: "u32 kptr raw_arrays"
  raw_sk_keys :: "nat \<Rightarrow> u32"
  raw_sk_buckets :: "nat \<Rightarrow> u32"
  raw_sk_cells :: "nat \<Rightarrow> nat \<Rightarrow> dchain_cell"
  raw_sk_times :: "nat \<Rightarrow> nat \<Rightarrow> vigor_time"
  raw_hashes :: "u32 list"
  raw_present :: "int list"
  raw_indexes :: "int list"

fun sketch_allocators ::
  "sketch_raw \<Rightarrow> u32 \<Rightarrow> nat \<Rightarrow> DoubleChain list \<Rightarrow> heap \<Rightarrow> (DoubleChain list option \<times> heap) option" where
  "sketch_allocators raw capacity 0 allocs h = Some (Some allocs, h)"
| "sketch_allocators raw capacity (Suc n) allocs h = do {
     (ok, chain, h) \<leftarrow> dchain_allocate (sint capacity) (raw_sk_cells raw (length allocs)) (raw_sk_times raw (length allocs)) None h;
     if ok = 0 then Some (None, h)
     else do {
       chain \<leftarrow> chain;
       sketch_allocators raw capacity n (allocs @ [chain]) h
     }
   }"

definition sketch_allocate ::
  "bool \<Rightarrow> (u32 \<Rightarrow> u32 \<Rightarrow> u32) \<Rightarrow> sketch_raw \<Rightarrow> u32 \<Rightarrow> u16 \<Rightarrow> heap \<Rightarrow> (Sketch option \<times> heap) option" where
  "sketch_allocate pow2 crc32 raw capacity threshold h =
     (case malloc 200 h of (None, h) \<Rightarrow> Some (None, h)
      | (Some _, h) \<Rightarrow> do {
          total \<leftarrow> find_next_power_of_2_bigger_than (capacity * of_nat SKETCH_HASHES);
          (ok, clients, h) \<leftarrow> map_allocate pow2 (=) (hash_hash crc32) total (raw_clients raw) None h;
          if ok = 0 then Some (None, h)
          else do {
            (ok, keys, h) \<leftarrow> vector_allocate 4 total (\<lambda>_. 0) (raw_sk_keys raw) None h;
            if ok = 0 then Some (None, h)
            else do {
              (ok, buckets, h) \<leftarrow> vector_allocate 4 total (\<lambda>b. b) (raw_sk_buckets raw) None h;
              if ok = 0 then Some (None, h)
              else do {
                (allocs, h) \<leftarrow> sketch_allocators raw capacity SKETCH_HASHES [] h;
                case allocs of None \<Rightarrow> Some (None, h)
                | Some allocs \<Rightarrow> do {
                    clients \<leftarrow> clients;
                    keys \<leftarrow> keys;
                    buckets \<leftarrow> buckets;
                    Some (Some \<lparr>sk_clients = clients, sk_keys = keys, sk_buckets = buckets, sk_allocators = allocs,
                            sk_capacity = capacity, sk_threshold = threshold, sk_hashes = raw_hashes raw,
                            sk_present = raw_present raw, sk_indexes = raw_indexes raw\<rparr>, h)
                  }
              }
            }
          }
        })"

definition sketch_compute_body :: "(u32 \<Rightarrow> u32 \<Rightarrow> u32) \<Rightarrow> u32 \<Rightarrow> nat \<Rightarrow> Sketch \<Rightarrow> Sketch option" where
  "sketch_compute_body crc32 kh i sketch = do {
     indexes \<leftarrow> arr_set (sk_indexes sketch) (int i) (- 1);
     present \<leftarrow> arr_set (sk_present sketch) (int i) 0;
     salt \<leftarrow> arr_get SKETCH_SALTS (int i);
     let hash = crc32 (crc32 0 salt) kh;
     cassert (sk_capacity sketch \<noteq> 0);
     hashes \<leftarrow> arr_set (sk_hashes sketch) (int i) (hash mod sk_capacity sketch);
     Some (sketch\<lparr>sk_indexes := indexes, sk_present := present, sk_hashes := hashes\<rparr>)
   }"

definition sketch_compute_hashes :: "(u32 \<Rightarrow> u32 \<Rightarrow> u32) \<Rightarrow> ('k \<Rightarrow> u32) \<Rightarrow> Sketch \<Rightarrow> 'k \<Rightarrow> Sketch option" where
  "sketch_compute_hashes crc32 kh sketch key = for_upto SKETCH_HASHES (sketch_compute_body crc32 (kh key)) sketch"

definition sketch_refresh_body :: "bool \<Rightarrow> vigor_time \<Rightarrow> nat \<Rightarrow> Sketch \<Rightarrow> Sketch option" where
  "sketch_refresh_body pow2 now i sketch = do {
     hash \<leftarrow> arr_get (sk_hashes sketch) (int i);
     index \<leftarrow> arr_get (sk_indexes sketch) (int i);
     (_, index) \<leftarrow> map_get pow2 (key_at (sk_keys sketch)) (sk_clients sketch) (Ext hash) index;
     indexes \<leftarrow> arr_set (sk_indexes sketch) (int i) index;
     chain \<leftarrow> arr_get (sk_allocators sketch) (int i);
     (_, chain) \<leftarrow> dchain_rejuvenate_index chain index now;
     allocs \<leftarrow> arr_set (sk_allocators sketch) (int i) chain;
     Some (sketch\<lparr>sk_indexes := indexes, sk_allocators := allocs\<rparr>)
   }"

definition sketch_refresh :: "bool \<Rightarrow> Sketch \<Rightarrow> vigor_time \<Rightarrow> Sketch option" where
  "sketch_refresh pow2 sketch now = for_upto SKETCH_HASHES (sketch_refresh_body pow2 now) sketch"

text \<open>\<open>index + capacity * i\<close> is computed without sign and converted to \<open>int\<close>.\<close>

definition sketch_offset :: "Sketch \<Rightarrow> int \<Rightarrow> nat \<Rightarrow> int" where
  "sketch_offset sketch index i = sint (word_of_int index + sk_capacity sketch * of_nat i)"

definition sketch_fetch_body ::
  "bool \<Rightarrow> nat \<Rightarrow> bool \<times> u32 \<times> Sketch \<Rightarrow> (bool \<times> u32 \<times> Sketch) option" where
  "sketch_fetch_body pow2 i = (\<lambda>(bucket_min_set, bucket_min, sketch). do {
     hash \<leftarrow> arr_get (sk_hashes sketch) (int i);
     index \<leftarrow> arr_get (sk_indexes sketch) (int i);
     (found, index) \<leftarrow> map_get pow2 (key_at (sk_keys sketch)) (sk_clients sketch) (Ext hash) index;
     present \<leftarrow> arr_set (sk_present sketch) (int i) found;
     indexes \<leftarrow> arr_set (sk_indexes sketch) (int i) index;
     let sketch = sketch\<lparr>sk_present := present, sk_indexes := indexes\<rparr>;
     if found = 0 then Some (bucket_min_set, bucket_min, sketch)
     else do {
       slot \<leftarrow> vector_borrow (sk_buckets sketch) (sketch_offset sketch index i);
       let value = v_data (sk_buckets sketch) ! slot;
       if \<not> bucket_min_set \<or> bucket_min > value then Some (True, value, sketch)
       else Some (bucket_min_set, bucket_min, sketch)
     }
   })"

definition sketch_fetch :: "bool \<Rightarrow> Sketch \<Rightarrow> (bool \<times> Sketch) option" where
  "sketch_fetch pow2 sketch = do {
     (bucket_min_set, bucket_min, sketch) \<leftarrow> for_upto SKETCH_HASHES (sketch_fetch_body pow2) (False, 0, sketch);
     Some (bucket_min_set \<and> bucket_min > ucast (sk_threshold sketch), sketch)
   }"

text \<open>
  The loop over the rows in \<open>sketch_touch_buckets\<close> returns in both branches of its body, so it
  ends with the row it begins with, row 0.
\<close>

definition sketch_touch_row :: "bool \<Rightarrow> vigor_time \<Rightarrow> nat \<Rightarrow> Sketch \<Rightarrow> (bool \<times> Sketch) option" where
  "sketch_touch_row pow2 now i sketch = do {
     hash \<leftarrow> arr_get (sk_hashes sketch) (int i);
     chain \<leftarrow> arr_get (sk_allocators sketch) (int i);
     (present, bucket_index) \<leftarrow> map_get pow2 (key_at (sk_keys sketch)) (sk_clients sketch) (Ext hash) (- 1);
     if present = 0 then do {
       (allocated, bucket_index, chain) \<leftarrow> dchain_allocate_new_index chain bucket_index now;
       allocs \<leftarrow> arr_set (sk_allocators sketch) (int i) chain;
       let sketch = sketch\<lparr>sk_allocators := allocs\<rparr>;
       if allocated = 0 then Some (False, sketch)
       else do {
         let offseted = sketch_offset sketch bucket_index i;
         saved_hash \<leftarrow> vector_borrow (sk_keys sketch) offseted;
         saved_bucket \<leftarrow> vector_borrow (sk_buckets sketch) offseted;
         let keys = vector_write (sk_keys sketch) saved_hash hash;
         let buckets = vector_write (sk_buckets sketch) saved_bucket 0;
         clients \<leftarrow> map_put pow2 (key_at keys) (sk_clients sketch) (Slot saved_hash) bucket_index;
         Some (True, sketch\<lparr>sk_clients := clients, sk_keys := vector_return keys offseted saved_hash,
                 sk_buckets := vector_return buckets offseted saved_bucket\<rparr>)
       }
     } else do {
       (_, chain) \<leftarrow> dchain_rejuvenate_index chain bucket_index now;
       allocs \<leftarrow> arr_set (sk_allocators sketch) (int i) chain;
       let offseted = sketch_offset sketch bucket_index i;
       bucket \<leftarrow> vector_borrow (sk_buckets sketch) offseted;
       let buckets = vector_write (sk_buckets sketch) bucket (v_data (sk_buckets sketch) ! bucket + 1);
       Some (True, sketch\<lparr>sk_allocators := allocs, sk_buckets := vector_return buckets offseted bucket\<rparr>)
     }
   }"

definition sketch_touch_buckets :: "bool \<Rightarrow> Sketch \<Rightarrow> vigor_time \<Rightarrow> (bool \<times> Sketch) option" where
  "sketch_touch_buckets pow2 sketch now = sketch_touch_row pow2 now 0 sketch"

partial_function (option) sketch_expire_loop ::
  "bool \<Rightarrow> u32 Vector \<Rightarrow> int \<Rightarrow> vigor_time \<Rightarrow> int \<Rightarrow> DoubleChain \<Rightarrow> (u32 kptr, u32) vmap
   \<Rightarrow> (int \<times> DoubleChain \<times> (u32 kptr, u32) vmap) option" where
  "sketch_expire_loop pow2 keys offset time index chain clients = do {
     (ret, index, chain) \<leftarrow> dchain_expire_one_index chain index time;
     if ret \<noteq> 0 then do {
       at \<leftarrow> s32 (index + offset);
       key \<leftarrow> vector_borrow keys at;
       (_, clients) \<leftarrow> map_erase pow2 (key_at keys) clients (Slot key) (Slot key);
       sketch_expire_loop pow2 keys offset time index chain clients
     } else Some (index, chain, clients)
   }"

declare sketch_expire_loop.simps [code]

definition sketch_expire_body :: "bool \<Rightarrow> vigor_time \<Rightarrow> nat \<Rightarrow> int \<times> Sketch \<Rightarrow> (int \<times> Sketch) option" where
  "sketch_expire_body pow2 time i = (\<lambda>(index, sketch). do {
     chain \<leftarrow> arr_get (sk_allocators sketch) (int i);
     (index, chain, clients) \<leftarrow> sketch_expire_loop pow2 (sk_keys sketch) (sint (of_nat i * sk_capacity sketch)) time index
       chain (sk_clients sketch);
     allocs \<leftarrow> arr_set (sk_allocators sketch) (int i) chain;
     Some (index, sketch\<lparr>sk_allocators := allocs, sk_clients := clients\<rparr>)
   })"

definition sketch_expire :: "bool \<Rightarrow> Sketch \<Rightarrow> vigor_time \<Rightarrow> Sketch option" where
  "sketch_expire pow2 sketch time = do {
     (_, sketch) \<leftarrow> for_upto SKETCH_HASHES (sketch_expire_body pow2 time) (- 1, sketch);
     Some sketch
   }"

section \<open>Sizes\<close>

lemma unat_pow2_u32: "k < 32 \<Longrightarrow> unat (2 ^ k :: u32) = 2 ^ k"
  using unat_of_nat_small [of "2 ^ k", where 'a = 32] power_strict_increasing [of k 32 "2 :: nat"] by simp

lemma find_next_power_loop_run:
  assumes "k \<le> 31" "d \<le> 0x80000000" "k = 0 \<or> 2 ^ (k - 1) < unat d"
  shows "\<exists>j \<le> 31. find_next_power_loop (2 ^ k) d = Some (2 ^ j) \<and> unat d \<le> 2 ^ j \<and> (j = 0 \<or> 2 ^ (j - 1) < unat d)"
  using assms
proof (induction "31 - k" arbitrary: k)
  case 0
  then have "k = 31" "unat d \<le> 2 ^ 31" by (simp_all add: word_le_nat_alt)
  then have "\<not> 2 ^ k < d" by (simp add: word_less_nat_alt)
  then have "find_next_power_loop (2 ^ k) d = Some (2 ^ k)" by (subst find_next_power_loop.simps) simp
  then show ?case using \<open>k = 31\<close> \<open>unat d \<le> 2 ^ 31\<close> 0 by (intro exI [of _ 31]) auto
next
  case (Suc n)
  show ?case
  proof (cases "2 ^ k < d")
    case True
    then have "2 ^ k < unat d" using Suc.hyps(2) unat_pow2_u32 [of k] by (simp add: word_less_nat_alt)
    then have "\<exists>j \<le> 31. find_next_power_loop (2 ^ Suc k) d = Some (2 ^ j) \<and> unat d \<le> 2 ^ j \<and> (j = 0 \<or> 2 ^ (j - 1) < unat d)"
      using Suc.hyps(2) Suc.prems(2) by (intro Suc.hyps(1)) auto
    then show ?thesis using True by (subst find_next_power_loop.simps) (simp add: mult.commute)
  next
    case False
    then have "unat d \<le> 2 ^ k" using Suc.hyps(2) unat_pow2_u32 [of k] by (simp add: word_less_nat_alt)
    then show ?thesis using False Suc.prems by (subst find_next_power_loop.simps) auto
  qed
qed

text \<open>The loop ends, with the smallest power of two that is not below its argument.\<close>

lemma find_next_power_correct:
  assumes "d \<le> 0x80000000"
  shows "\<exists>j \<le> 31. find_next_power_of_2_bigger_than d = Some (2 ^ j) \<and> unat d \<le> 2 ^ j \<and> (j = 0 \<or> 2 ^ (j - 1) < unat d)"
  using find_next_power_loop_run [of 0 d] assms by (simp add: find_next_power_of_2_bigger_than_def cassert_def)

section \<open>The state of a sketch\<close>

text \<open>
  Only row 0 is ever filled: the map, the vector of the hashes and the first allocator are a table of
  the hashes, which stands for \<open>em\<close>; the other allocators stay empty.
\<close>

definition sketch_ok :: "bool \<Rightarrow> u32 emap \<Rightarrow> u32 list \<Rightarrow> Sketch \<Rightarrow> vigor_time \<Rightarrow> bool" where
  "sketch_ok pow2 em bks sk now \<longleftrightarrow>
     length (sk_allocators sk) = 8 \<and>
     emap_table pow2 em (sk_allocators sk ! 0) (sk_keys sk) (sk_clients sk) \<and>
     emap_range em = int (unat (sk_capacity sk)) \<and> emap_now em \<le> now \<and>
     vector_wf (sk_buckets sk) \<and> v_data (sk_buckets sk) = bks \<and>
     8 * unat (sk_capacity sk) \<le> length bks \<and> 8 * unat (sk_capacity sk) \<le> length (v_data (sk_keys sk)) \<and>
     (\<forall>i. 0 < i \<and> i < 8 \<longrightarrow> double_chainp (empty_dchain_fp (int (unat (sk_capacity sk))) 0) (sk_allocators sk ! i)) \<and>
     length (sk_hashes sk) = 8 \<and> length (sk_present sk) = 8 \<and> length (sk_indexes sk) = 8"

lemma sketch_table: "sketch_ok pow2 em bks sk now \<Longrightarrow> emap_table pow2 em (sk_allocators sk ! 0) (sk_keys sk) (sk_clients sk)"
  by (simp add: sketch_ok_def)

lemma sketch_capacity:
  assumes "sketch_ok pow2 em bks sk now"
  shows "0 < unat (sk_capacity sk)" "8 * unat (sk_capacity sk) \<le> 140000"
  using assms table_facts(9) [OF sketch_table [OF assms]] by (auto simp: sketch_ok_def vector_wf_def)

lemma sketch_index:
  assumes "sketch_ok pow2 em bks sk now" "emap_has em k"
  shows "0 \<le> emap_get em k" "emap_get em k < int (unat (sk_capacity sk))" "emap_has_idx em (emap_get em k)"
  using table_facts(1) [OF sketch_table [OF assms(1)] assms(2)] table_facts(5) [OF sketch_table [OF assms(1)]] assms(1)
  by (auto simp: sketch_ok_def)

lemma sketch_offset_eq:
  assumes "0 \<le> index" "index < int (unat (sk_capacity sk))" "i < 8" "8 * unat (sk_capacity sk) \<le> 140000"
  shows "sketch_offset sk index i = index + int (unat (sk_capacity sk) * i)"
proof -
  have le: "unat (sk_capacity sk) * i \<le> 140000" using assms(3,4) mult_le_mono2 [of i 7 "unat (sk_capacity sk)"] by linarith
  have "word_of_int index + sk_capacity sk * of_nat i = (of_nat (nat index + unat (sk_capacity sk) * i) :: u32)"
    using assms(1) by (simp add: word_of_nat_unat of_nat_unat)
  moreover have "unat (of_nat (nat index + unat (sk_capacity sk) * i) :: u32) = nat index + unat (sk_capacity sk) * i"
    using le assms by (intro unat_of_nat_small) simp
  ultimately show ?thesis
    unfolding sketch_offset_def using assms(1,2,4) le by (subst sint_eq_unat_small) auto
qed

lemma sketch_cell:
  assumes ok: "sketch_ok pow2 em bks sk now" and i: "i < 8" and "0 \<le> index" "index < int (unat (sk_capacity sk))"
  shows "vector_borrow (sk_buckets sk) (sketch_offset sk index i) = Some (nat index + unat (sk_capacity sk) * i)"
    "nat index + unat (sk_capacity sk) * i < length bks"
proof -
  have "nat index + unat (sk_capacity sk) * i < 8 * unat (sk_capacity sk)"
    using assms(3,4) mult_le_mono2 [of i 7 "unat (sk_capacity sk)"] i by linarith
  then show "nat index + unat (sk_capacity sk) * i < length bks" using ok by (simp add: sketch_ok_def)
  then show "vector_borrow (sk_buckets sk) (sketch_offset sk index i) = Some (nat index + unat (sk_capacity sk) * i)"
    unfolding sketch_offset_eq [OF assms(3,4) i sketch_capacity(2) [OF ok]]
    using vector_borrow_spec [of "sk_buckets sk" "index + int (unat (sk_capacity sk) * i)"] ok assms(3)
    by (simp add: sketch_ok_def nat_add_distrib nat_mult_distrib del: of_nat_mult)
qed

section \<open>The operations\<close>

definition sketch_hash :: "(u32 \<Rightarrow> u32 \<Rightarrow> u32) \<Rightarrow> u32 \<Rightarrow> u32 \<Rightarrow> nat \<Rightarrow> u32" where
  "sketch_hash crc32 capacity kh i = crc32 (crc32 0 (SKETCH_SALTS ! i)) kh mod capacity"

lemma sketch_compute_run:
  assumes ok: "sketch_ok pow2 em bks sk now"
  shows "sketch_compute_hashes crc32 kh sk key = Some (sk\<lparr>sk_hashes := map (sketch_hash crc32 (sk_capacity sk) (kh key)) [0..<8],
    sk_present := replicate 8 0, sk_indexes := replicate 8 (- 1)\<rparr>)"
proof -
  let ?hs = "map (sketch_hash crc32 (sk_capacity sk) (kh key)) [0..<8]"
  let ?I = "\<lambda>n t. \<exists>hs ps is. t = sk\<lparr>sk_hashes := hs, sk_present := ps, sk_indexes := is\<rparr> \<and> length hs = 8 \<and> length ps = 8 \<and> length is = 8 \<and>
    (\<forall>j<n. hs ! j = ?hs ! j \<and> ps ! j = 0 \<and> is ! j = - 1)"
  have cap: "sk_capacity sk \<noteq> 0" using sketch_capacity(1) [OF ok] by auto
  have salts: "length SKETCH_SALTS = 64" by (simp add: SKETCH_SALTS_def)
  have "?I 0 sk" using ok by (intro exI [of _ "sk_hashes sk"] exI [of _ "sk_present sk"] exI [of _ "sk_indexes sk"]) (simp add: sketch_ok_def)
  then have "\<exists>t. for_upto 8 (sketch_compute_body crc32 (kh key)) sk = Some t \<and> ?I 8 t"
  proof (rule for_upto_inv)
    fix i t assume i: "i < 8" and "?I i t"
    then obtain hs ps "is" where t: "t = sk\<lparr>sk_hashes := hs, sk_present := ps, sk_indexes := is\<rparr>" "length hs = 8" "length ps = 8" "length is = 8"
      "\<forall>j<i. hs ! j = ?hs ! j \<and> ps ! j = 0 \<and> is ! j = - 1" by blast
    have "sketch_compute_body crc32 (kh key) i t = Some (sk\<lparr>sk_hashes := hs[i := ?hs ! i], sk_present := ps[i := 0], sk_indexes := is[i := - 1]\<rparr>)"
      using i t(2-4) cap salts by (simp add: sketch_compute_body_def t(1) arr_get_def arr_set_def sketch_hash_def cassert_def)
    moreover have "\<forall>j<Suc i. hs[i := ?hs ! i] ! j = ?hs ! j \<and> ps[i := 0] ! j = 0 \<and> is[i := - 1] ! j = - 1"
      using i t(2-5) by (auto simp: nth_list_update less_Suc_eq simp del: nth_map)
    ultimately show "\<exists>t'. sketch_compute_body crc32 (kh key) i t = Some t' \<and> ?I (Suc i) t'"
      using t(2-4) by (intro exI conjI) (assumption | simp only: length_list_update refl)+
  qed
  then obtain hs ps "is" where r: "for_upto 8 (sketch_compute_body crc32 (kh key)) sk = Some (sk\<lparr>sk_hashes := hs, sk_present := ps, sk_indexes := is\<rparr>)"
    "length hs = 8" "length ps = 8" "length is = 8" "\<forall>j<8. hs ! j = ?hs ! j \<and> ps ! j = 0 \<and> is ! j = - 1" by blast
  have "hs = ?hs" "ps = replicate 8 0" "is = replicate 8 (- 1)"
    using r(2-5) by (auto intro!: nth_equalityI simp del: nth_map)
  then show ?thesis using r(1) by (simp add: sketch_compute_hashes_def SKETCH_HASHES_def)
qed

lemma sketch_ok_scratch:
  assumes "sketch_ok pow2 em bks sk now" "length hs = 8" "length ps = 8" "length is = 8"
  shows "sketch_ok pow2 em bks (sk\<lparr>sk_hashes := hs, sk_present := ps, sk_indexes := is\<rparr>) now"
  using assms by (simp add: sketch_ok_def)

text \<open>An index that is not in use is not rejuvenated; neither is \<open>-1\<close>, which leads to the head of the free list.\<close>

lemma rejuvenate_missing:
  assumes "double_chainp ch chain"
  shows "dchain_rejuvenate_index chain (- 1) t = Some (0, chain)"
proof -
  obtain al fl n where links: "dchain_links (ch_cells chain) al fl n"
    using assms by (auto simp: double_chainp_def dchainip_def)
  have "path (pv (ch_cells chain)) (1 # fl @ [1])" "0 \<notin> set (fl @ [1])" "1 < int (length (ch_cells chain))"
    using links dchain_links_member [OF links, of 0] by (auto simp: dchain_links_def)
  then have "pv (ch_cells chain) 1 = hd (fl @ [1])" "hd (fl @ [1]) \<noteq> 0" "1 < int (length (ch_cells chain))"
    using hd_in_set [of "fl @ [1]"] by (auto simp: path_Cons)
  then show ?thesis
    using dchain_links_heads(3) [OF links]
    by (simp add: dchain_rejuvenate_index_def dchain_impl_rejuvenate_index_def run_simps)
qed

lemma sketch_ok_mono: "sketch_ok pow2 em bks sk now \<Longrightarrow> now \<le> now' \<Longrightarrow> sketch_ok pow2 em bks sk now'"
  by (simp add: sketch_ok_def)

text \<open>What a lookup of the hash of row \<open>i\<close> finds, and the counter it leads to.\<close>

definition sketch_count :: "u32 emap \<Rightarrow> u32 list \<Rightarrow> u32 \<Rightarrow> u32 list \<Rightarrow> nat \<Rightarrow> u32" where
  "sketch_count em bks capacity hashes i = bks ! (nat (emap_get em (hashes ! i)) + unat capacity * i)"

definition sketch_counts :: "u32 emap \<Rightarrow> u32 list \<Rightarrow> u32 \<Rightarrow> u32 list \<Rightarrow> nat \<Rightarrow> u32 list" where
  "sketch_counts em bks capacity hashes n =
     map (sketch_count em bks capacity hashes) (filter (\<lambda>i. emap_has em (hashes ! i)) [0..<n])"

lemma Min_snoc: "xs \<noteq> [] \<Longrightarrow> Min (set (xs @ [x])) = min (Min (set xs)) (x :: 'a :: linorder)"
  by (simp add: min.commute)

text \<open>Two sketches that differ in what the lookups left in memory.\<close>

definition same_sketch :: "Sketch \<Rightarrow> Sketch \<Rightarrow> bool" where
  "same_sketch sk t \<longleftrightarrow> sk_hashes t = sk_hashes sk \<and> sk_capacity t = sk_capacity sk \<and> sk_threshold t = sk_threshold sk"

lemma sketch_fetch_step:
  assumes ok: "sketch_ok pow2 em bks t now" and same: "same_sketch sk t" and i: "i < 8"
    and b: "b \<longleftrightarrow> sketch_counts em bks (sk_capacity sk) (sk_hashes sk) i \<noteq> []" "b \<longrightarrow> v = Min (set (sketch_counts em bks (sk_capacity sk) (sk_hashes sk) i))"
  shows "\<exists>b' v' t'. sketch_fetch_body pow2 i (b, v, t) = Some (b', v', t') \<and> sketch_ok pow2 em bks t' now \<and> same_sketch sk t' \<and>
    (b' \<longleftrightarrow> sketch_counts em bks (sk_capacity sk) (sk_hashes sk) (Suc i) \<noteq> []) \<and> (b' \<longrightarrow> v' = Min (set (sketch_counts em bks (sk_capacity sk) (sk_hashes sk) (Suc i))))"
proof -
  let ?vs = "sketch_counts em bks (sk_capacity sk) (sk_hashes sk)" and ?h = "sk_hashes t ! i"
  have len: "length (sk_hashes t) = 8" "length (sk_present t) = 8" "length (sk_indexes t) = 8" using ok by (simp_all add: sketch_ok_def)
  have h: "sk_hashes sk ! i = ?h" using same by (simp add: same_sketch_def)
  show ?thesis
  proof (cases "emap_has em ?h")
    case False
    then have vs: "?vs (Suc i) = ?vs i" using h by (simp add: sketch_counts_def)
    let ?t = "t\<lparr>sk_present := (sk_present t)[i := 0], sk_indexes := (sk_indexes t)[i := sk_indexes t ! i]\<rparr>"
    have "sketch_fetch_body pow2 i (b, v, t) = Some (b, v, ?t)"
      using i len False table_get [OF sketch_table [OF ok]] by (simp add: sketch_fetch_body_def arr_get_def arr_set_def)
    moreover have "sketch_ok pow2 em bks ?t now" "same_sketch sk ?t" using ok same by (simp_all add: sketch_ok_def same_sketch_def)
    ultimately show ?thesis unfolding vs using b by blast
  next
    case True
    let ?j = "emap_get em ?h" and ?c = "sketch_count em bks (sk_capacity sk) (sk_hashes sk) i"
    have vs: "?vs (Suc i) = ?vs i @ [?c]" using True h by (simp add: sketch_counts_def)
    let ?t = "t\<lparr>sk_present := (sk_present t)[i := 1], sk_indexes := (sk_indexes t)[i := ?j]\<rparr>"
    have ok': "sketch_ok pow2 em bks ?t now" "same_sketch sk ?t" using ok same by (simp_all add: sketch_ok_def same_sketch_def)
    have "vector_borrow (sk_buckets ?t) (sketch_offset ?t ?j i) = Some (nat ?j + unat (sk_capacity ?t) * i)"
      using sketch_cell(1) [OF ok'(1) i] sketch_index [OF ok True] by simp
    moreover have "v_data (sk_buckets t) ! (nat ?j + unat (sk_capacity t) * i) = ?c"
      using ok same h by (simp add: sketch_ok_def same_sketch_def sketch_count_def)
    ultimately have run: "sketch_fetch_body pow2 i (b, v, t) = Some (if \<not> b \<or> ?c < v then (True, ?c, ?t) else (b, v, ?t))"
      using i len True table_get [OF sketch_table [OF ok]] by (simp add: sketch_fetch_body_def arr_get_def arr_set_def)
    have "(if \<not> b \<or> ?c < v then ?c else v) = Min (set (?vs (Suc i)))"
    proof (cases b)
      case False
      then show ?thesis using b(1) by (simp add: vs)
    next
      case True
      then have "Min (set (?vs (Suc i))) = min v ?c" unfolding vs using b Min_snoc [of "?vs i" ?c] by simp
      then show ?thesis using True by (simp only: min_def not_True_eq_False simp_thms not_le split: if_split) auto
    qed
    then show ?thesis using run ok' vs by (cases "\<not> b \<or> ?c < v") auto
  qed
qed

text \<open>A key is over the threshold when the smallest counter that it leads to is.\<close>

definition sketch_over :: "u32 emap \<Rightarrow> u32 list \<Rightarrow> u32 \<Rightarrow> u16 \<Rightarrow> u32 list \<Rightarrow> bool" where
  "sketch_over em bks capacity threshold hashes \<longleftrightarrow>
     sketch_counts em bks capacity hashes 8 \<noteq> [] \<and> ucast threshold < Min (set (sketch_counts em bks capacity hashes 8))"

lemma sketch_fetch_run:
  assumes ok: "sketch_ok pow2 em bks sk now"
  shows "\<exists>sk'. sketch_fetch pow2 sk = Some (sketch_over em bks (sk_capacity sk) (sk_threshold sk) (sk_hashes sk), sk') \<and>
    sketch_ok pow2 em bks sk' now \<and> same_sketch sk sk'"
proof -
  let ?vs = "sketch_counts em bks (sk_capacity sk) (sk_hashes sk)"
  let ?I = "\<lambda>n (b, v, t). sketch_ok pow2 em bks t now \<and> same_sketch sk t \<and> (b \<longleftrightarrow> ?vs n \<noteq> []) \<and> (b \<longrightarrow> v = Min (set (?vs n)))"
  have "?I 0 (False, 0, sk)" using ok by (simp add: sketch_counts_def same_sketch_def)
  then have "\<exists>r. for_upto 8 (sketch_fetch_body pow2) (False, 0, sk) = Some r \<and> ?I 8 r"
  proof (rule for_upto_inv)
    fix i r assume i: "i < 8" and "?I i r"
    then show "\<exists>r'. sketch_fetch_body pow2 i r = Some r' \<and> ?I (Suc i) r'"
      using sketch_fetch_step [OF _ _ i] by (cases r) fastforce
  qed
  then obtain b v t where r: "for_upto 8 (sketch_fetch_body pow2) (False, 0, sk) = Some (b, v, t)" "sketch_ok pow2 em bks t now" "same_sketch sk t"
    "b \<longleftrightarrow> ?vs 8 \<noteq> []" "b \<longrightarrow> v = Min (set (?vs 8))" by auto
  then have "sketch_fetch pow2 sk = Some (sketch_over em bks (sk_capacity sk) (sk_threshold sk) (sk_hashes sk), t)"
    by (auto simp: sketch_fetch_def sketch_over_def SKETCH_HASHES_def same_sketch_def)
  then show ?thesis using r(2,3) by blast
qed

lemma sketch_empty_row:
  assumes "sketch_ok pow2 em bks sk now" "0 < i" "i < 8"
  shows "double_chainp (empty_dchain_fp (int (unat (sk_capacity sk))) 0) (sk_allocators sk ! i)"
  using assms by (simp add: sketch_ok_def)

text \<open>
  Refreshing moves the hash of row 0 to the present when it is there. The lookups of the other
  rows have no effect: their allocators are empty.
\<close>

definition sketch_refreshed :: "u32 emap \<Rightarrow> u32 \<Rightarrow> vigor_time \<Rightarrow> u32 emap" where
  "sketch_refreshed em h now = (if emap_has em h then emap_refresh_idx em (emap_get em h) now else em)"

lemma sketch_refreshed_lookup:
  assumes "emap_table pow2 em chain vector m"
  shows "emap_has (sketch_refreshed em h t) k \<longleftrightarrow> emap_has em k" "emap_get (sketch_refreshed em h t) k = emap_get em k"
  using emap_ops_lookup(1,2) [OF assms] by (simp_all add: sketch_refreshed_def)

lemma sketch_refresh_first:
  assumes ok: "sketch_ok pow2 em bks sk now" "emap_now em \<le> t" "now \<le> t" and init: "sk_indexes sk ! 0 = - 1"
  shows "\<exists>sk'. sketch_refresh_body pow2 t 0 sk = Some sk' \<and> sketch_ok pow2 (sketch_refreshed em (sk_hashes sk ! 0) t) bks sk' t \<and>
    same_sketch sk sk' \<and> (\<forall>j>0. sk_indexes sk' ! j = sk_indexes sk ! j)"
proof -
  let ?h = "sk_hashes sk ! 0" and ?d = "sk_allocators sk ! 0"
  note tab = sketch_table [OF ok(1)]
  have len: "length (sk_hashes sk) = 8" "length (sk_indexes sk) = 8" "length (sk_allocators sk) = 8" using ok by (simp_all add: sketch_ok_def)
  show ?thesis
  proof (cases "emap_has em ?h")
    case False
    obtain ch where "double_chainp ch ?d" using tab by (auto simp: emap_table_def flow_table_ok_def)
    note miss = rejuvenate_missing [OF this, of t]
    let ?t = "sk\<lparr>sk_indexes := (sk_indexes sk)[0 := - 1], sk_allocators := (sk_allocators sk)[0 := ?d]\<rparr>"
    have "sketch_refresh_body pow2 t 0 sk = Some ?t"
      using len False table_get [OF tab] miss init by (simp add: sketch_refresh_body_def arr_get_def arr_set_def)
    moreover have "sketch_ok pow2 em bks ?t t" using ok len by (simp add: sketch_ok_def)
    ultimately show ?thesis using False by (simp add: sketch_refreshed_def same_sketch_def)
  next
    case True
    let ?j = "emap_get em ?h"
    obtain d where d: "dchain_rejuvenate_index ?d ?j t = Some (1, d)" "emap_table pow2 (emap_refresh_idx em ?j t) d (sk_keys sk) (sk_clients sk)"
      using table_refresh [OF tab table_facts(1) [OF tab True] ok(2)] by blast
    let ?t = "sk\<lparr>sk_indexes := (sk_indexes sk)[0 := ?j], sk_allocators := (sk_allocators sk)[0 := d]\<rparr>"
    have "sketch_refresh_body pow2 t 0 sk = Some ?t"
      using len True table_get [OF tab] d(1) by (simp add: sketch_refresh_body_def arr_get_def arr_set_def)
    moreover have "emap_now (emap_refresh_idx em ?j t) \<le> t" "emap_range (emap_refresh_idx em ?j t) = emap_range em"
      by (cases "emap_chain em"; simp)+
    then have "sketch_ok pow2 (emap_refresh_idx em ?j t) bks ?t t" using ok len d(2) by (simp add: sketch_ok_def)
    ultimately show ?thesis using True by (simp add: sketch_refreshed_def same_sketch_def)
  qed
qed

lemma sketch_refresh_other:
  assumes ok: "sketch_ok pow2 em bks sk now" and i: "0 < i" "i < 8" "sk_indexes sk ! i = - 1"
  shows "\<exists>sk'. sketch_refresh_body pow2 t i sk = Some sk' \<and> sketch_ok pow2 em bks sk' now \<and>
    same_sketch sk sk' \<and> (\<forall>j>i. sk_indexes sk' ! j = sk_indexes sk ! j)"
proof -
  let ?h = "sk_hashes sk ! i" and ?d = "sk_allocators sk ! i"
  let ?j = "if emap_has em ?h then emap_get em ?h else - 1"
  note tab = sketch_table [OF ok] and row = sketch_empty_row [OF ok i(1,2)]
  have len: "length (sk_hashes sk) = 8" "length (sk_indexes sk) = 8" "length (sk_allocators sk) = 8" using ok by (simp_all add: sketch_ok_def)
  have "dchain_rejuvenate_index ?d ?j t = Some (0, ?d)"
    using rejuvenate_missing [OF row] dchain_index_free(2) [OF row] sketch_index(1,2) [OF ok] by simp
  then have "sketch_refresh_body pow2 t i sk = Some (sk\<lparr>sk_indexes := (sk_indexes sk)[i := ?j], sk_allocators := (sk_allocators sk)[i := ?d]\<rparr>)"
    using len i table_get [OF tab] by (cases "emap_has em ?h") (simp_all add: sketch_refresh_body_def arr_get_def arr_set_def)
  moreover have "sketch_ok pow2 em bks (sk\<lparr>sk_indexes := (sk_indexes sk)[i := ?j], sk_allocators := (sk_allocators sk)[i := ?d]\<rparr>) now"
    using ok by (simp add: sketch_ok_def)
  ultimately show ?thesis by (simp add: same_sketch_def)
qed

lemma sketch_refresh_run:
  assumes ok: "sketch_ok pow2 em bks sk now" "now \<le> t" and init: "sk_indexes sk = replicate 8 (- 1)"
  shows "\<exists>sk'. sketch_refresh pow2 sk t = Some sk' \<and> sketch_ok pow2 (sketch_refreshed em (sk_hashes sk ! 0) t) bks sk' t \<and> same_sketch sk sk'"
proof -
  let ?em = "sketch_refreshed em (sk_hashes sk ! 0) t"
  let ?I = "\<lambda>n r. (if n = 0 then r = sk else sketch_ok pow2 ?em bks r t) \<and> same_sketch sk r \<and> (\<forall>j. n \<le> j \<and> j < 8 \<longrightarrow> sk_indexes r ! j = - 1)"
  have "?I 0 sk" using init by (simp add: same_sketch_def)
  then have "\<exists>r. for_upto 8 (sketch_refresh_body pow2 t) sk = Some r \<and> ?I 8 r"
  proof (rule for_upto_inv)
    fix i r assume i: "i < 8" and I: "?I i r"
    show "\<exists>r'. sketch_refresh_body pow2 t i r = Some r' \<and> ?I (Suc i) r'"
    proof (cases "i = 0")
      case True
      have "emap_now em \<le> t" using ok by (simp add: sketch_ok_def)
      then obtain r' where "sketch_refresh_body pow2 t 0 sk = Some r'" "sketch_ok pow2 ?em bks r' t" "same_sketch sk r'" "\<forall>j>0. sk_indexes r' ! j = sk_indexes sk ! j"
        using sketch_refresh_first [OF ok(1) _ ok(2)] init by auto
      then show ?thesis using True I init by auto
    next
      case False
      then obtain r' where "sketch_refresh_body pow2 t i r = Some r'" "sketch_ok pow2 ?em bks r' t" "same_sketch r r'" "\<forall>j>i. sk_indexes r' ! j = sk_indexes r ! j"
        using sketch_refresh_other [of pow2 ?em bks r t i t] i I by auto
      then show ?thesis using I by (auto simp: same_sketch_def)
    qed
  qed
  then show ?thesis by (auto simp: sketch_refresh_def SKETCH_HASHES_def)
qed

text \<open>
  Touching counts in row 0 only: a hash that is there gets one more, a new hash gets the counter 0
  at a free index, and when there is none nothing happens.
\<close>

lemma sketch_touch_cases:
  assumes ok: "sketch_ok pow2 em bks sk now" "now \<le> t" and h: "h = sk_hashes sk ! 0"
  shows "emap_has em h \<Longrightarrow> \<exists>sk'. sketch_touch_buckets pow2 sk t = Some (True, sk') \<and> same_sketch sk sk' \<and>
      sketch_ok pow2 (emap_refresh_idx em (emap_get em h) t) (bks[nat (emap_get em h) := bks ! nat (emap_get em h) + 1]) sk' t"
    "\<not> emap_has em h \<Longrightarrow> emap_full em \<Longrightarrow> \<exists>sk'. sketch_touch_buckets pow2 sk t = Some (False, sk') \<and> same_sketch sk sk' \<and> sketch_ok pow2 em bks sk' t"
    "\<not> emap_has em h \<Longrightarrow> \<not> emap_full em \<Longrightarrow> \<exists>i sk'. sketch_touch_buckets pow2 sk t = Some (True, sk') \<and> same_sketch sk sk' \<and>
      \<not> emap_has_idx em i \<and> 0 \<le> i \<and> i < emap_range em \<and> sketch_ok pow2 (emap_add em h i t) (bks[nat i := 0]) sk' t"
proof -
  let ?d = "sk_allocators sk ! 0"
  note tab = sketch_table [OF ok(1)]
  have len: "length (sk_hashes sk) = 8" "length (sk_indexes sk) = 8" "length (sk_allocators sk) = 8" using ok by (simp_all add: sketch_ok_def)
  have now: "emap_now em \<le> t" and range: "emap_range em = int (unat (sk_capacity sk))" and bks: "v_data (sk_buckets sk) = bks" "vector_wf (sk_buckets sk)"
    using ok by (simp_all add: sketch_ok_def)
  note run = sketch_touch_buckets_def sketch_touch_row_def arr_get_def arr_set_def h [symmetric] len
  have off: "sketch_offset sk i 0 = i" "vector_borrow (sk_buckets sk) i = Some (nat i)" if "0 \<le> i" "i < emap_range em" for i
    using sketch_offset_eq [of i sk 0] sketch_cell(1) [OF ok(1), of 0 i] that range sketch_capacity(2) [OF ok(1)] by simp_all
  show "\<exists>sk'. sketch_touch_buckets pow2 sk t = Some (True, sk') \<and> same_sketch sk sk' \<and>
      sketch_ok pow2 (emap_refresh_idx em (emap_get em h) t) (bks[nat (emap_get em h) := bks ! nat (emap_get em h) + 1]) sk' t"
    if has: "emap_has em h"
  proof -
    let ?j = "emap_get em h"
    have j: "0 \<le> ?j" "?j < emap_range em" using sketch_index [OF ok(1) has] range by simp_all
    obtain d where d: "dchain_rejuvenate_index ?d ?j t = Some (1, d)" "emap_table pow2 (emap_refresh_idx em ?j t) d (sk_keys sk) (sk_clients sk)"
      using table_refresh [OF tab table_facts(1) [OF tab has] now] by blast
    let ?t = "sk\<lparr>sk_allocators := (sk_allocators sk)[0 := d], sk_buckets := vector_write (sk_buckets sk) (nat ?j) (bks ! nat ?j + 1)\<rparr>"
    have "sketch_touch_buckets pow2 sk t = Some (True, ?t)"
      using has table_get [OF tab] d(1) off [OF j] bks by (simp add: run)
    moreover have "emap_now (emap_refresh_idx em ?j t) \<le> t" "emap_range (emap_refresh_idx em ?j t) = emap_range em"
      by (cases "emap_chain em"; simp)+
    then have "sketch_ok pow2 (emap_refresh_idx em ?j t) (bks[nat ?j := bks ! nat ?j + 1]) ?t t" using ok(1) d(2) bks by (simp add: sketch_ok_def)
    ultimately show ?thesis by (auto simp: same_sketch_def)
  qed
  show "\<exists>sk'. sketch_touch_buckets pow2 sk t = Some (False, sk') \<and> same_sketch sk sk' \<and> sketch_ok pow2 em bks sk' t"
    if "\<not> emap_has em h" "emap_full em"
  proof -
    have "sketch_touch_buckets pow2 sk t = Some (False, sk\<lparr>sk_allocators := (sk_allocators sk)[0 := ?d]\<rparr>)"
      using that table_get [OF tab] table_full [OF tab] by (simp add: run)
    then show ?thesis using ok by (auto simp: same_sketch_def sketch_ok_def)
  qed
  show "\<exists>i sk'. sketch_touch_buckets pow2 sk t = Some (True, sk') \<and> same_sketch sk sk' \<and>
      \<not> emap_has_idx em i \<and> 0 \<le> i \<and> i < emap_range em \<and> sketch_ok pow2 (emap_add em h i t) (bks[nat i := 0]) sk' t"
    if new: "\<not> emap_has em h" "\<not> emap_full em"
  proof -
    obtain i d m where a: "dchain_allocate_new_index ?d (- 1) t = Some (1, i, d)" "vector_borrow (sk_keys sk) i = Some (nat i)"
      "map_put pow2 (key_at (vector_write (sk_keys sk) (nat i) h)) (sk_clients sk) (Slot (nat i)) i = Some m"
      "\<not> emap_has_idx em i" "0 \<le> i" "i < emap_range em" "emap_table pow2 (emap_add em h i t) d (vector_write (sk_keys sk) (nat i) h) m"
      using table_add [OF tab new(2,1) now] by blast
    let ?t = "sk\<lparr>sk_allocators := (sk_allocators sk)[0 := d], sk_clients := m, sk_keys := vector_write (sk_keys sk) (nat i) h,
      sk_buckets := vector_write (sk_buckets sk) (nat i) 0\<rparr>"
    have "sketch_offset (sk\<lparr>sk_allocators := (sk_allocators sk)[0 := d]\<rparr>) i 0 = sketch_offset sk i 0" by (simp add: sketch_offset_def)
    then have "sketch_touch_buckets pow2 sk t = Some (True, ?t)"
      using new table_get [OF tab] a(1-3) off [OF a(5,6)] by (simp add: run)
    moreover have "emap_now (emap_add em h i t) \<le> t" "emap_range (emap_add em h i t) = emap_range em"
      by (cases "emap_chain em"; simp)+
    then have "sketch_ok pow2 (emap_add em h i t) (bks[nat i := 0]) ?t t" using ok(1) a(7) bks by (simp add: sketch_ok_def)
    ultimately show ?thesis using a(4-6) by (auto simp: same_sketch_def)
  qed
qed

definition sketch_touched :: "u32 emap \<Rightarrow> u32 list \<Rightarrow> u32 \<Rightarrow> int \<Rightarrow> vigor_time \<Rightarrow> u32 emap \<times> u32 list" where
  "sketch_touched em bks h idx now =
     (if emap_has em h then
        (emap_refresh_idx em (emap_get em h) now, bks[nat (emap_get em h) := bks ! nat (emap_get em h) + 1])
      else if emap_full em then (em, bks)
      else (emap_add em h idx now, bks[nat idx := 0]))"

lemma sketch_touch_run:
  assumes "sketch_ok pow2 em bks sk now" "now \<le> t"
  shows "\<exists>r sk' idx em' bks'. sketch_touch_buckets pow2 sk t = Some (r, sk') \<and> same_sketch sk sk' \<and>
    sketch_touched em bks (sk_hashes sk ! 0) idx t = (em', bks') \<and> sketch_ok pow2 em' bks' sk' t"
proof -
  note run = sketch_touch_cases [OF assms refl]
  consider "emap_has em (sk_hashes sk ! 0)" | "\<not> emap_has em (sk_hashes sk ! 0)" "emap_full em"
    | "\<not> emap_has em (sk_hashes sk ! 0)" "\<not> emap_full em" by blast
  then show ?thesis
  proof cases
    case 1
    then show ?thesis using run(1) by (auto simp: sketch_touched_def)
  next
    case 2
    then show ?thesis using run(2) by (auto simp: sketch_touched_def)
  next
    case 3
    then show ?thesis using run(3) by (fastforce simp: sketch_touched_def)
  qed
qed

text \<open>The loop of row 0 does what the expirator does; those of the other rows have nothing to do.\<close>

lemma vector_borrow_s32:
  assumes "vector_borrow v j = Some k" "vector_wf v"
  shows "s32 j = Some j"
proof -
  have r: "0 \<le> j * v_elem_size v" "j * v_elem_size v < 2 ^ 31" "0 < v_elem_size v"
    using assms by (auto simp: vector_borrow_def vector_wf_def s32_def split: if_splits)
  then have "0 \<le> j" by (simp add: zero_le_mult_iff)
  moreover have "j * 1 \<le> j * v_elem_size v" using r(3) \<open>0 \<le> j\<close> by (intro mult_left_mono) auto
  ultimately show ?thesis using r(2) by (simp add: s32_def)
qed

lemma sketch_expire_loop_eq:
  assumes "expire_items_single_map_loop pow2 d keys m time index count = Some r"
  shows "vector_wf keys \<Longrightarrow> \<exists>k d' m' i. r = (k, d', m') \<and> sketch_expire_loop pow2 keys 0 time index d m = Some (i, d', m')"
proof (rule expire_items_single_map_loop.raw_induct [where P = "\<lambda>pow2 d keys m time index count r.
      vector_wf keys \<longrightarrow> (\<exists>k d' m' i. r = (k, d', m') \<and> sketch_expire_loop pow2 keys 0 time index d m = Some (i, d', m'))",
      OF _ assms, rule_format])
  fix f pow2 d keys m time index count r
  assume IH: "\<And>pow2 d keys m time index count r. f pow2 d keys m time index count = Some r \<Longrightarrow> vector_wf keys \<Longrightarrow>
      \<exists>k d' m' i. r = (k, d', m') \<and> sketch_expire_loop pow2 keys 0 time index d m = Some (i, d', m')"
    and run: "do {
       (ret, index, d) \<leftarrow> dchain_expire_one_index d index time;
       if ret \<noteq> 0 then do {
         key \<leftarrow> vector_borrow keys index;
         (key, m) \<leftarrow> map_erase pow2 (key_at keys) m (Slot key) (Slot key);
         count \<leftarrow> s32 (count + 1);
         f pow2 d keys m time index count
       } else Some (count, d, m)
     } = Some r"
    and wf: "vector_wf keys"
  obtain ret j d' where e: "dchain_expire_one_index d index time = Some (ret, j, d')" using run by (auto simp: bind_Some_conv)
  show "\<exists>k d' m' i. r = (k, d', m') \<and> sketch_expire_loop pow2 keys 0 time index d m = Some (i, d', m')"
  proof (cases "ret = 0")
    case True
    then show ?thesis using run e by (subst sketch_expire_loop.simps) auto
  next
    case False
    then obtain key x m' count' where b: "vector_borrow keys j = Some key" "map_erase pow2 (key_at keys) m (Slot key) (Slot key) = Some (x, m')"
      "f pow2 d' keys m' time j count' = Some r"
      using run e by (auto simp: bind_Some_conv)
    have "sketch_expire_loop pow2 keys 0 time index d m = sketch_expire_loop pow2 keys 0 time j d' m'"
      using False e b(1,2) vector_borrow_s32 [OF b(1) wf] by (subst sketch_expire_loop.simps) simp
    then show ?thesis using IH [OF b(3) wf] by simp
  qed
qed

lemma sketch_expire_run:
  assumes ok: "sketch_ok pow2 em bks sk now"
  shows "\<exists>sk'. sketch_expire pow2 sk t = Some sk' \<and> sketch_ok pow2 (emap_expire_all em t) bks sk' now \<and> same_sketch sk sk'"
proof -
  let ?em = "emap_expire_all em t"
  let ?I = "\<lambda>n (i, r). (if n = (0 :: nat) then i = (- 1 :: int) \<and> r = sk else sketch_ok pow2 ?em bks r now) \<and> same_sketch sk r"
  have "?I 0 (- 1, sk)" by (simp add: same_sketch_def)
  then have "\<exists>r. for_upto 8 (sketch_expire_body pow2 t) (- 1, sk) = Some r \<and> ?I 8 r"
  proof (rule for_upto_inv)
    fix n x assume n: "n < 8" and "?I n x"
    then obtain i r where x: "x = (i, r)" and I: "if n = 0 then i = - 1 \<and> r = sk else sketch_ok pow2 ?em bks r now" "same_sketch sk r" by (cases x) auto
    show "\<exists>y. sketch_expire_body pow2 t n x = Some y \<and> ?I (Suc n) y"
    proof (cases "n = 0")
      case True
      then have r: "i = - 1" "r = sk" using I by simp_all
      note tab = sketch_table [OF ok]
      obtain k d m where e: "expire_items_single_map_loop pow2 (sk_allocators sk ! 0) (sk_keys sk) (sk_clients sk) t (- 1) 0 = Some (k, d, m)"
        "emap_table pow2 ?em d (sk_keys sk) m" using table_expire [OF tab, of t] unfolding expire_items_single_map_def by blast
      obtain j where "sketch_expire_loop pow2 (sk_keys sk) 0 t (- 1) (sk_allocators sk ! 0) (sk_clients sk) = Some (j, d, m)"
        using sketch_expire_loop_eq [OF e(1) table_facts(8) [OF tab]] by blast
      moreover have "sk_allocators sk \<noteq> []" using ok by (auto simp: sketch_ok_def)
      ultimately have "sketch_expire_body pow2 t n x = Some (j, sk\<lparr>sk_allocators := (sk_allocators sk)[0 := d], sk_clients := m\<rparr>)"
        by (simp add: x r True sketch_expire_body_def arr_get_def arr_set_def)
      moreover have "emap_now ?em = emap_now em" "emap_range ?em = emap_range em" by (cases "emap_chain em"; simp)+
      then have "sketch_ok pow2 ?em bks (sk\<lparr>sk_allocators := (sk_allocators sk)[0 := d], sk_clients := m\<rparr>) now"
        using ok e(2) by (simp add: sketch_ok_def)
      ultimately show ?thesis by (simp add: same_sketch_def)
    next
      case False
      then have r: "sketch_ok pow2 ?em bks r now" using I by simp
      obtain j where "dchain_expire_one_index (sk_allocators r ! n) i t = Some (0, j, sk_allocators r ! n)"
        using dchain_expire_one_index_refines(2) [OF sketch_empty_row [OF r _ n], of t i] False by auto
      then have "sketch_expire_body pow2 t n x = Some (j, r\<lparr>sk_allocators := (sk_allocators r)[n := sk_allocators r ! n], sk_clients := sk_clients r\<rparr>)"
        using n r by (simp add: x sketch_expire_body_def sketch_expire_loop.simps arr_get_def arr_set_def sketch_ok_def)
      moreover have "sketch_ok pow2 ?em bks (r\<lparr>sk_allocators := (sk_allocators r)[n := sk_allocators r ! n], sk_clients := sk_clients r\<rparr>) now"
        using r by (simp add: sketch_ok_def)
      ultimately show ?thesis using I(2) by (simp add: same_sketch_def)
    qed
  qed
  then show ?thesis by (auto simp: sketch_expire_def SKETCH_HASHES_def)
qed

section \<open>Allocation\<close>

lemma sketch_allocators_run:
  assumes "heap_ok h" "0 < unat capacity" "unat capacity < 140000"
    "\<forall>c\<in>set cs. double_chainp (empty_dchain_fp (int (unat capacity)) 0) c"
  shows "\<exists>r h'. sketch_allocators raw capacity n cs h = Some (r, h') \<and> heap_ok h' \<and>
    (\<forall>ds. r = Some ds \<longrightarrow> length ds = length cs + n \<and> (\<forall>c\<in>set ds. double_chainp (empty_dchain_fp (int (unat capacity)) 0) c))"
  using assms
proof (induction n arbitrary: cs h)
  case (Suc n)
  obtain ok out h1 where a: "dchain_allocate (sint capacity) (raw_sk_cells raw (length cs)) (raw_sk_times raw (length cs)) None h = Some (ok, out, h1)"
    "heap_ok h1" "ok = 0 \<or> ok = 1 \<and> (\<exists>c. out = Some c \<and> double_chainp (empty_dchain_fp (int (unat capacity)) 0) c)"
    using dchain_allocate_result [OF Suc.prems(1-3)] by blast
  show ?case
  proof (cases "ok = 0")
    case True
    then show ?thesis using a by simp
  next
    case False
    then obtain c where c: "out = Some c" "double_chainp (empty_dchain_fp (int (unat capacity)) 0) c" using a(3) by blast
    have "\<forall>x\<in>set (cs @ [c]). double_chainp (empty_dchain_fp (int (unat capacity)) 0) x" using c(2) Suc.prems(4) by simp
    from Suc.IH [OF a(2) Suc.prems(2,3) this] show ?thesis using False a(1) c(1) by simp
  qed
qed simp

text \<open>
  A sketch that was allocated is well formed and knows no hash. Its counters hold what the memory held
  before.
\<close>

lemma sketch_allocate_ok:
  assumes h: "heap_ok h" and c: "0 < unat capacity" "unat capacity < 8192"
    and raw: "length (raw_hashes raw) = 8" "length (raw_present raw) = 8" "length (raw_indexes raw) = 8"
  shows "\<exists>r h'. sketch_allocate pow2 crc32 raw capacity threshold h = Some (r, h') \<and> heap_ok h' \<and>
    (\<forall>sk. r = Some sk \<longrightarrow> sk_capacity sk = capacity \<and> sk_threshold sk = threshold \<and>
      (\<exists>em bks. sketch_ok pow2 em bks sk 0 \<and> (\<forall>k. \<not> emap_has em k)))"
proof -
  have "unat (capacity * of_nat SKETCH_HASHES) = 8 * unat capacity"
    using c(2) by (simp add: SKETCH_HASHES_def unat_word_ariths)
  then obtain j where j: "j \<le> 31" "find_next_power_of_2_bigger_than (capacity * of_nat SKETCH_HASHES) = Some (2 ^ j)"
    "8 * unat capacity \<le> 2 ^ j" "j = 0 \<or> 2 ^ (j - 1) < 8 * unat capacity"
    using find_next_power_correct [of "capacity * of_nat SKETCH_HASHES"] c(2) by (auto simp: word_le_nat_alt)
  let ?N = "2 ^ j :: u32"
  have "j = 0 \<or> 2 ^ (j - 1) < (2 :: nat) ^ 16" using j(4) c(2) by auto
  then have "j \<le> 16" using power_less_imp_less_exp [of "2 :: nat" "j - 1" 16] by linarith
  then have N: "unat ?N = 2 ^ j" "0 < unat ?N" "unat ?N < 140000"
    using unat_pow2_u32 [of j] power_increasing [of j 16 "2 :: nat"] by auto
  have cap: "unat capacity < 140000" using c(2) by simp
  obtain p h0 where m: "malloc 200 h = (p, h0)" "heap_ok h0"
    using malloc_Some(3) malloc_None(2) h by (metis option.exhaust surj_pair)
  obtain ok1 m h1 where one: "map_allocate pow2 (=) (hash_hash crc32) ?N (raw_clients raw) None h0 = Some (ok1, m, h1)" "heap_ok h1"
    "ok1 = 0 \<or> ok1 = 1 \<and> (\<exists>x. m = Some x \<and> m_capacity x = ?N \<and>
        (\<forall>kv. map_wf pow2 kv x \<and> map_contents kv x = Map.empty \<and> map_addrs kv x = Map.empty))"
    using map_allocate_result [OF m(2) N(2,3), of pow2 "hash_hash crc32" "raw_clients raw"] by blast
  obtain ok2 k h2 where two: "vector_allocate 4 ?N (\<lambda>_. 0) (raw_sk_keys raw) None h1 = Some (ok2, k, h2)" "heap_ok h2"
    "ok2 = 0 \<or> ok2 = 1 \<and> (\<exists>v. k = Some v \<and> vector_wf v \<and> length (v_data v) = unat ?N)"
    using vector_allocate_result [OF one(2) _ _ N(3), of 4 "\<lambda>_. 0" "raw_sk_keys raw"] by auto
  obtain ok3 b h3 where three: "vector_allocate 4 ?N (\<lambda>b. b) (raw_sk_buckets raw) None h2 = Some (ok3, b, h3)" "heap_ok h3"
    "ok3 = 0 \<or> ok3 = 1 \<and> (\<exists>v. b = Some v \<and> vector_wf v \<and> length (v_data v) = unat ?N)"
    using vector_allocate_result [OF two(2) _ _ N(3), of 4 "\<lambda>b. b" "raw_sk_buckets raw"] by auto
  obtain ds h4 where four: "sketch_allocators raw capacity SKETCH_HASHES [] h3 = Some (ds, h4)" "heap_ok h4"
    "\<forall>d. ds = Some d \<longrightarrow> length d = 8 \<and> (\<forall>c\<in>set d. double_chainp (empty_dchain_fp (int (unat capacity)) 0) c)"
    using sketch_allocators_run [OF three(2) c(1) cap, of "[]" raw SKETCH_HASHES] by (auto simp: SKETCH_HASHES_def)
  show ?thesis
  proof (cases "p = None \<or> ok1 = 0 \<or> ok2 = 0 \<or> ok3 = 0 \<or> ds = None")
    case True
    then show ?thesis
      using m one(1,2) two(1,2) three(1,2) four(1,2) j(2) by (auto simp: sketch_allocate_def split: option.splits)
  next
    case False
    obtain x where x: "m = Some x" "m_capacity x = ?N"
      "\<And>kv. map_wf pow2 kv x \<and> map_contents kv x = Map.empty \<and> map_addrs kv x = Map.empty" using one(3) False by auto
    obtain y where y: "k = Some y" "vector_wf y" "length (v_data y) = unat ?N" using two(3) False by auto
    obtain z where z: "b = Some z" "vector_wf z" "length (v_data z) = unat ?N" using three(3) False by auto
    obtain d where d: "ds = Some d" "length d = 8" "\<forall>c\<in>set d. double_chainp (empty_dchain_fp (int (unat capacity)) 0) c"
      using four(3) False by auto
    let ?em = "emap_of y (empty_dchain_fp (int (unat capacity)) 0)"
    let ?sk = "\<lparr>sk_clients = x, sk_keys = y, sk_buckets = z, sk_allocators = d, sk_capacity = capacity, sk_threshold = threshold,
      sk_hashes = raw_hashes raw, sk_present = raw_present raw, sk_indexes = raw_indexes raw\<rparr>"
    have d0: "double_chainp (dchain [] (int (unat capacity)) 0 0) (d ! i)" if "i < 8" for i using d(2,3) that by simp
    have "emap_table pow2 ?em (d ! 0) y x"
      using d0 [of 0] x y N(1) j(3) by (intro emap_table_of) (simp add: flow_table_ok_def flow_index_def fun_eq_iff)
    then have "sketch_ok pow2 ?em (v_data z) ?sk 0" using d(2) d0 y z N(1) j(3) raw by (simp add: sketch_ok_def)
    moreover have "\<not> emap_has ?em key" for key by (simp add: emap_of_def flow_index_def)
    moreover have "sketch_allocate pow2 crc32 raw capacity threshold h = Some (Some ?sk, h4)"
      using False m one(1) two(1) three(1) four(1) j(2) x(1) y(1) z(1) d(1) by (auto simp: sketch_allocate_def)
    ultimately show ?thesis using four(2) by auto
  qed
qed

end
