(* ===== verification/Main_Loop.thy ===== *)
theory Main_Loop
  imports Vignat Vigfw Vigpol Vigbridge Viglb
begin

text \<open>
  The worker of \<open>nf.c\<close>, which receives packets one at a time, hands each to the network function
  and sends, floods or frees it, and the clock of \<open>libvig/verified/vigor-time.c\<close>. The functions of
  DPDK and of the C library it calls are the fields of the record \<open>dpdk\<close>, over a state of their own.
  A worker that has called \<open>abort\<close> is \<open>Aborted\<close>, which is not a fault. The worker never ends; \<open>worker_main\<close> gives its
  first rounds, and the results are stated for every number of rounds.

  The locale \<open>network_function\<close> is what the worker relies on: a handler that, on a packet that has
  just been received, does not fail, keeps its state and leaves only chunks that start with the
  packet. The handlers of the NAT, the firewall, the policer, the bridge and the load balancer are
  shown to satisfy it.
\<close>

declare of_nat_unat [simp del]

section \<open>The code\<close>

record mbuf =
  mb_port :: u16
  mb_pkt_len :: u32
  mb_data :: "u8 list"

record 'd dpdk =
  rte_eth_dev_count_avail :: "'d \<Rightarrow> u16"
  rte_eth_rx_burst :: "u16 \<Rightarrow> 'd \<Rightarrow> mbuf option \<times> 'd"
  rte_eth_tx_burst :: "u16 \<Rightarrow> mbuf \<Rightarrow> 'd \<Rightarrow> bool \<times> 'd"
  rte_pktmbuf_free :: "mbuf \<Rightarrow> 'd \<Rightarrow> 'd"
  rte_mbuf_refcnt_set :: "mbuf \<Rightarrow> u16 \<Rightarrow> 'd \<Rightarrow> 'd"
  clock_gettime :: "'d \<Rightarrow> (int \<times> int) \<times> 'd"

type_synonym 's handler = "'s \<Rightarrow> u16 \<Rightarrow> packet_io \<Rightarrow> u16 \<Rightarrow> vigor_time \<Rightarrow> (int \<times> packet_io \<times> 's) option"

text \<open>The product is computed in 64 bits without a sign and then stored in a signed time.\<close>

definition current_time :: "'d dpdk \<Rightarrow> 'd \<Rightarrow> vigor_time \<times> 'd" where
  "current_time os d =
     (let ((tv_sec, tv_nsec), d) = clock_gettime os d in (s64_wrap (tv_sec * 1000000000 + tv_nsec), d))"

function flood_loop :: "'d dpdk \<Rightarrow> mbuf \<Rightarrow> u16 \<Rightarrow> u16 \<Rightarrow> u16 \<Rightarrow> int \<Rightarrow> 'd \<Rightarrow> int \<times> 'd" where
  "flood_loop os packet nb_devices skip_device device total_sent d =
     (if device < nb_devices then
        let (sent, d) = (if device \<noteq> skip_device then rte_eth_tx_burst os device packet d else (False, d))
        in flood_loop os packet nb_devices skip_device (device + 1) (if sent then total_sent + 1 else total_sent) d
      else (total_sent, d))"
  by pat_completeness auto
termination
  by (relation "measure (\<lambda>(os, packet, nb, skip, device, total, d). unat nb - unat device)")
    (auto simp: unat_Suc_less word_less_nat_alt intro!: diff_less_mono2)

declare flood_loop.simps [simp del]

definition flood :: "'d dpdk \<Rightarrow> mbuf \<Rightarrow> u16 \<Rightarrow> 'd \<Rightarrow> 'd" where
  "flood os packet nb_devices d = (
     let d = rte_mbuf_refcnt_set os packet (nb_devices - 1) d;
         (total_sent, d) = flood_loop os packet nb_devices (mb_port packet) 0 0 d
     in if total_sent \<noteq> uint nb_devices - 1
        then rte_pktmbuf_free os packet (rte_mbuf_refcnt_set os packet 1 d)
        else d)"

text \<open>
  The state of the worker: that of the devices, that of the network function, and the globals of
  \<open>packet-io.c\<close>. \<open>drops\<close> says whether \<open>VIGOR_ALLOW_DROPS\<close> is defined.
\<close>

record ('d, 's) worker =
  w_dev :: 'd
  w_nf :: 's
  w_io :: packet_io

datatype 'a exit = Aborted | Running 'a

definition worker_send :: "'d dpdk \<Rightarrow> bool \<Rightarrow> u16 \<Rightarrow> u16 \<Rightarrow> mbuf \<Rightarrow> u16 \<Rightarrow> 'd \<Rightarrow> 'd exit" where
  "worker_send os drops VIGOR_DEVICE VIGOR_DEVICES_COUNT mbuf dst_device d =
     (if dst_device = VIGOR_DEVICE then Running (rte_pktmbuf_free os mbuf d)
      else if uint dst_device = FLOOD_FRAME then Running (flood os mbuf VIGOR_DEVICES_COUNT d)
      else case rte_eth_tx_burst os dst_device mbuf d of
             (True, d) \<Rightarrow> Running d
           | (False, d) \<Rightarrow> if drops then Running (rte_pktmbuf_free os mbuf d) else Aborted)"

definition worker_device ::
  "'d dpdk \<Rightarrow> 's handler \<Rightarrow> bool \<Rightarrow> vigor_time \<Rightarrow> u16 \<Rightarrow> u16 \<Rightarrow> ('d, 's) worker \<Rightarrow> ('d, 's) worker exit option" where
  "worker_device os nf_process drops VIGOR_NOW VIGOR_DEVICES_COUNT VIGOR_DEVICE w =
     (case rte_eth_rx_burst os VIGOR_DEVICE (w_dev w) of
        (None, d) \<Rightarrow> Some (Running (w\<lparr>w_dev := d\<rparr>))
      | (Some mbuf, d) \<Rightarrow> do {
          let io = packet_state_total_length (mb_pkt_len mbuf) ((w_io w)\<lparr>pkt := mb_data mbuf\<rparr>);
          (dst, io, s) \<leftarrow> nf_process (w_nf w) (mb_port mbuf) io (ucast (mb_pkt_len mbuf)) VIGOR_NOW;
          let dst_device = word_of_int dst;
          let io = nf_return_all_chunks io;
          case worker_send os drops VIGOR_DEVICE VIGOR_DEVICES_COUNT (mbuf\<lparr>mb_data := pkt io\<rparr>) dst_device d of
            Aborted \<Rightarrow> Some Aborted
          | Running d \<Rightarrow> Some (Running \<lparr>w_dev = d, w_nf = s, w_io = io\<rparr>)
        })"

function worker_devices ::
  "'d dpdk \<Rightarrow> 's handler \<Rightarrow> bool \<Rightarrow> vigor_time \<Rightarrow> u16 \<Rightarrow> u16 \<Rightarrow> ('d, 's) worker \<Rightarrow> ('d, 's) worker exit option" where
  "worker_devices os nf_process drops VIGOR_NOW VIGOR_DEVICES_COUNT VIGOR_DEVICE w =
     (if VIGOR_DEVICE < VIGOR_DEVICES_COUNT then do {
        r \<leftarrow> worker_device os nf_process drops VIGOR_NOW VIGOR_DEVICES_COUNT VIGOR_DEVICE w;
        case r of Aborted \<Rightarrow> Some Aborted
        | Running w \<Rightarrow> worker_devices os nf_process drops VIGOR_NOW VIGOR_DEVICES_COUNT (VIGOR_DEVICE + 1) w
      } else Some (Running w))"
  by pat_completeness auto
termination
  by (relation "measure (\<lambda>(os, nf_process, drops, now, count, device, w). unat count - unat device)")
    (auto simp: unat_Suc_less word_less_nat_alt intro!: diff_less_mono2)

declare worker_devices.simps [simp del]

definition worker_round :: "'d dpdk \<Rightarrow> 's handler \<Rightarrow> bool \<Rightarrow> ('d, 's) worker \<Rightarrow> ('d, 's) worker exit option" where
  "worker_round os nf_process drops w = (
     let (VIGOR_NOW, d) = current_time os (w_dev w) in
     worker_devices os nf_process drops VIGOR_NOW (rte_eth_dev_count_avail os d) 0 (w\<lparr>w_dev := d\<rparr>))"

primrec worker_main :: "nat \<Rightarrow> 'd dpdk \<Rightarrow> 's handler \<Rightarrow> bool \<Rightarrow> ('d, 's) worker \<Rightarrow> ('d, 's) worker exit option" where
  "worker_main 0 os nf_process drops w = Some (Running w)"
| "worker_main (Suc n) os nf_process drops w = do {
     r \<leftarrow> worker_round os nf_process drops w;
     case r of Aborted \<Rightarrow> Some Aborted | Running w \<Rightarrow> worker_main n os nf_process drops w
   }"

text \<open>
  The round with batches, for exactly two devices: \<open>rx\<close> and \<open>tx\<close> are \<open>rte_eth_rx_burst\<close> and
  \<open>rte_eth_tx_burst\<close> on up to \<open>VIGOR_BATCH_SIZE\<close> packets, and \<open>tx\<close> says how many were accepted.
\<close>

fun batch_process ::
  "'d dpdk \<Rightarrow> 's handler \<Rightarrow> u16 \<Rightarrow> mbuf list \<Rightarrow> mbuf list \<Rightarrow> ('d, 's) worker \<Rightarrow> (mbuf list \<times> ('d, 's) worker) option" where
  "batch_process os nf_process VIGOR_DEVICE [] mbufs_to_send w = Some (mbufs_to_send, w)"
| "batch_process os nf_process VIGOR_DEVICE (mbuf # mbufs) mbufs_to_send w = do {
     let io = packet_state_total_length (mb_pkt_len mbuf) ((w_io w)\<lparr>pkt := mb_data mbuf\<rparr>);
     let (VIGOR_NOW, d) = current_time os (w_dev w);
     (dst, io, s) \<leftarrow> nf_process (w_nf w) (mb_port mbuf) io (ucast (mb_pkt_len mbuf)) VIGOR_NOW;
     let dst_device = word_of_int dst;
     let io = nf_return_all_chunks io;
     let mbuf = mbuf\<lparr>mb_data := pkt io\<rparr>;
     if dst_device = VIGOR_DEVICE
     then batch_process os nf_process VIGOR_DEVICE mbufs mbufs_to_send \<lparr>w_dev = rte_pktmbuf_free os mbuf d, w_nf = s, w_io = io\<rparr>
     else batch_process os nf_process VIGOR_DEVICE mbufs (mbufs_to_send @ [mbuf]) \<lparr>w_dev = d, w_nf = s, w_io = io\<rparr>
   }"

text \<open>The packets that were not sent are freed by their number in \<open>mbufs\<close>, not in \<open>mbufs_to_send\<close>.\<close>

fun batch_free :: "'d dpdk \<Rightarrow> mbuf list \<Rightarrow> nat list \<Rightarrow> 'd \<Rightarrow> 'd" where
  "batch_free os mbufs [] d = d"
| "batch_free os mbufs (n # ns) d = batch_free os mbufs ns (rte_pktmbuf_free os (mbufs ! n) d)"

definition batch_device ::
  "'d dpdk \<Rightarrow> (u16 \<Rightarrow> 'd \<Rightarrow> mbuf list \<times> 'd) \<Rightarrow> (u16 \<Rightarrow> mbuf list \<Rightarrow> 'd \<Rightarrow> nat \<times> 'd) \<Rightarrow> 's handler \<Rightarrow> u16 \<Rightarrow> ('d, 's) worker \<Rightarrow> ('d, 's) worker option" where
  "batch_device os rx tx nf_process VIGOR_DEVICE w = do {
     let (mbufs, d) = rx VIGOR_DEVICE (w_dev w);
     (mbufs_to_send, w) \<leftarrow> batch_process os nf_process VIGOR_DEVICE mbufs [] (w\<lparr>w_dev := d\<rparr>);
     let (sent_count, d) = tx (1 - VIGOR_DEVICE) mbufs_to_send (w_dev w);
     Some (w\<lparr>w_dev := batch_free os mbufs [sent_count..<length mbufs_to_send] d\<rparr>)
   }"

text \<open>The set up of the devices; the functions of DPDK return 0 when they succeed.\<close>

record 'd eth_setup =
  rte_eth_dev_configure :: "u16 \<Rightarrow> 'd \<Rightarrow> int \<times> 'd"
  rte_eth_tx_queue_setup :: "u16 \<Rightarrow> 'd \<Rightarrow> int \<times> 'd"
  rte_eth_rx_queue_setup :: "u16 \<Rightarrow> 'd \<Rightarrow> int \<times> 'd"
  rte_eth_dev_start :: "u16 \<Rightarrow> 'd \<Rightarrow> int \<times> 'd"
  rte_eth_promiscuous_enable :: "u16 \<Rightarrow> 'd \<Rightarrow> 'd"
  rte_eth_promiscuous_get :: "u16 \<Rightarrow> 'd \<Rightarrow> int"

definition nf_init_device :: "'d eth_setup \<Rightarrow> u16 \<Rightarrow> 'd \<Rightarrow> int \<times> 'd" where
  "nf_init_device os device d = (
     let (retval, d) = rte_eth_dev_configure os device d in
     if retval \<noteq> 0 then (retval, d) else
     let (retval, d) = rte_eth_tx_queue_setup os device d in
     if retval \<noteq> 0 then (retval, d) else
     let (retval, d) = rte_eth_rx_queue_setup os device d in
     if retval \<noteq> 0 then (retval, d) else
     let (retval, d) = rte_eth_dev_start os device d in
     if retval \<noteq> 0 then (retval, d) else
     let d = rte_eth_promiscuous_enable os device d in
     if rte_eth_promiscuous_get os device d \<noteq> 1 then (retval, d) else (0, d))"

text \<open>The loop of \<open>main\<close> over the devices; \<open>rte_exit\<close> ends the program and gives no state.\<close>

function init_devices :: "'d eth_setup \<Rightarrow> u16 \<Rightarrow> u16 \<Rightarrow> 'd \<Rightarrow> 'd option" where
  "init_devices os nb_devices device d =
     (if device < nb_devices then
        case nf_init_device os device d of (ret, d) \<Rightarrow>
          if ret = 0 then init_devices os nb_devices (device + 1) d else None
      else Some d)"
  by pat_completeness auto
termination
  by (relation "measure (\<lambda>(os, nb, device, d). unat nb - unat device)")
    (auto simp: unat_Suc_less word_less_nat_alt intro!: diff_less_mono2)

declare init_devices.simps [simp del]

section \<open>What DPDK promises\<close>

text \<open>
  \<open>clock d\<close> is the last time the clock has shown, in nanoseconds. The clock does not go back and
  the other functions do not set it; a packet comes from the device it is received on, is not longer
  than its buffer, has an Ethernet header and satisfies \<open>arrives\<close>. A device may refuse a packet to send:
  \<open>refuses\<close> says that it ever does.
\<close>

definition refuses :: "'d dpdk \<Rightarrow> bool" where
  "refuses os \<longleftrightarrow> (\<exists>device m d. \<not> fst (rte_eth_tx_burst os device m d))"

definition dpdk_ok :: "'d dpdk \<Rightarrow> (mbuf \<Rightarrow> bool) \<Rightarrow> ('d \<Rightarrow> int) \<Rightarrow> bool" where
  "dpdk_ok os arrives clock \<longleftrightarrow>
     (\<forall>d sec nsec d'. clock_gettime os d = ((sec, nsec), d') \<longrightarrow>
        clock d \<le> sec * 1000000000 + nsec \<and> sec * 1000000000 + nsec < 2 ^ 63 \<and> clock d' = sec * 1000000000 + nsec) \<and>
     (\<forall>device d m d'. rte_eth_rx_burst os device d = (m, d') \<longrightarrow> clock d' = clock d) \<and>
     (\<forall>device d m d'. rte_eth_rx_burst os device d = (Some m, d') \<longrightarrow>
        mb_port m = device \<and> 14 \<le> uint (mb_pkt_len m) \<and> uint (mb_pkt_len m) \<le> int (length (mb_data m)) \<and> arrives m) \<and>
     (\<forall>device m d sent d'. rte_eth_tx_burst os device m d = (sent, d') \<longrightarrow> clock d' = clock d) \<and>
     (\<forall>m d. clock (rte_pktmbuf_free os m d) = clock d) \<and>
     (\<forall>m n d. clock (rte_mbuf_refcnt_set os m n d) = clock d)"

lemma dpdk_okD:
  assumes "dpdk_ok os arrives clock"
  shows "clock_gettime os d = ((sec, nsec), d') \<Longrightarrow>
      clock d \<le> sec * 1000000000 + nsec \<and> sec * 1000000000 + nsec < 2 ^ 63 \<and> clock d' = sec * 1000000000 + nsec"
    "rte_eth_rx_burst os device d = (mo, d') \<Longrightarrow> clock d' = clock d"
    "rte_eth_rx_burst os device d = (Some m, d') \<Longrightarrow>
        mb_port m = device \<and> 14 \<le> uint (mb_pkt_len m) \<and> uint (mb_pkt_len m) \<le> int (length (mb_data m)) \<and> arrives m"
    "rte_eth_tx_burst os device m d = (sent, d') \<Longrightarrow> clock d' = clock d"
    "clock (rte_pktmbuf_free os m d) = clock d" "clock (rte_mbuf_refcnt_set os m n d) = clock d"
  using assms by (simp_all add: dpdk_ok_def) metis

lemma current_time_ok:
  assumes "dpdk_ok os arrives clock" "0 \<le> clock d"
  shows "\<exists>now d'. current_time os d = (now, d') \<and> clock d \<le> now \<and> now < 2 ^ 63 \<and> clock d' = now"
proof -
  obtain sec nsec d' where t: "clock_gettime os d = ((sec, nsec), d')" by (metis surj_pair)
  from dpdk_okD(1) [OF assms(1) t] show ?thesis using assms(2) t by (simp add: current_time_def s64_wrap_id)
qed

lemma flood_loop_clock:
  assumes "dpdk_ok os arrives clock"
  shows "clock (snd (flood_loop os m nb skip device sent_count d)) = clock d"
proof (induction "unat nb - unat device" arbitrary: device sent_count d rule: less_induct)
  case less
  show ?case
  proof (cases "device < nb")
    case True
    then have dec: "unat nb - unat (device + 1) < unat nb - unat device"
      by (simp add: unat_Suc_less word_less_nat_alt)
    obtain sent d1 where tx: "(if device \<noteq> skip then rte_eth_tx_burst os device m d else (False, d)) = (sent, d1)"
      by (metis surj_pair)
    then have "clock d1 = clock d" using dpdk_okD(4) [OF assms, of device m d sent d1] by (auto split: if_splits)
    then show ?thesis using True less [OF dec, of _ d1] tx by (subst flood_loop.simps) simp
  qed (simp add: flood_loop.simps)
qed

lemma flood_clock:
  assumes "dpdk_ok os arrives clock"
  shows "clock (flood os m nb d) = clock d"
  using flood_loop_clock [OF assms, of m nb "mb_port m" 0 0 "rte_mbuf_refcnt_set os m (nb - 1) d"]
  by (simp add: flood_def Let_def case_prod_unfold dpdk_okD(5,6) [OF assms])

lemma worker_send_ok:
  assumes "dpdk_ok os arrives clock"
  shows "case worker_send os drops device count m dst d of Aborted \<Rightarrow> \<not> drops \<and> refuses os | Running d' \<Rightarrow> clock d' = clock d"
proof -
  obtain sent d' where tx: "rte_eth_tx_burst os dst m d = (sent, d')" by (metis surj_pair)
  have "\<not> sent \<Longrightarrow> refuses os" using tx unfolding refuses_def by (metis fst_conv)
  then show ?thesis
    using tx dpdk_okD(4) [OF assms tx]
    by (auto simp: worker_send_def dpdk_okD(5) [OF assms] flood_clock [OF assms] split: bool.splits)
qed

section \<open>Chunks\<close>

text \<open>Between two packets no chunk is borrowed and reading is at the start.\<close>

definition io_idle :: "packet_io \<Rightarrow> bool" where
  "io_idle st \<longleftrightarrow> chunks_borrowed st = [] \<and> global_read_length st = 0"

definition chunks_ok :: "packet_io \<Rightarrow> bool" where
  "chunks_ok st \<longleftrightarrow> io_idle st \<or> (\<exists>cs. chunks_borrowed st = 0 # cs)"

lemma return_all_idle: "chunks_ok st \<Longrightarrow> io_idle (nf_return_all_chunks st)"
  using nf_return_all_chunks_eq [of st 0]
  by (auto simp: chunks_ok_def io_idle_def nf_return_all_chunks.simps [of st])

named_theorems chunk_steps

lemma chunks_ok_pkt [simp]: "chunks_ok (st\<lparr>pkt := b\<rparr>) = chunks_ok st"
  by (simp add: chunks_ok_def io_idle_def)

lemma chunks_ok_borrow [chunk_steps]: "nf_borrow_next_chunk len st = Some (c, st') \<Longrightarrow> chunks_ok st \<Longrightarrow> chunks_ok st'"
  by (auto simp: nf_borrow_next_chunk_def packet_borrow_next_chunk_def chunks_ok_def io_idle_def split: bind_splits)

lemma chunks_ok_headers [chunk_steps]:
  "nf_then_get_rte_ether_header st = Some (e, st') \<Longrightarrow> chunks_ok st \<Longrightarrow> chunks_ok st'"
  "nf_then_get_rte_ipv4_header e st = Some (ip, opts, st') \<Longrightarrow> chunks_ok st \<Longrightarrow> chunks_ok st'"
  "nf_then_get_tcpudp_header i st = Some (l4, st') \<Longrightarrow> chunks_ok st \<Longrightarrow> chunks_ok st'"
  by (auto simp: nf_then_get_rte_ether_header_def nf_then_get_rte_ipv4_header_def nf_then_get_tcpudp_header_def Let_def
      split: bind_splits if_splits dest!: chunks_ok_borrow)

lemma nat_chunks:
  "nat_from_wan manager ip l4 st now = Some (dst, st', manager') \<Longrightarrow> chunks_ok st \<Longrightarrow> chunks_ok st'"
  "nat_from_lan pow2 config manager device ip l4 st now = Some (dst, st', manager') \<Longrightarrow> chunks_ok st \<Longrightarrow> chunks_ok st'"
  "nat_send config cks eth ip l4 dst_device st = Some st' \<Longrightarrow> chunks_ok st \<Longrightarrow> chunks_ok st'"
  by (auto simp: nat_from_wan_def nat_from_lan_def nat_send_def Let_def split: bind_splits option.splits if_splits)

lemma nat_process_chunks:
  "nat_process pow2 config cks manager device st now = Some (dst, st', manager') \<Longrightarrow> chunks_ok st \<Longrightarrow> chunks_ok st'"
  unfolding nat_process_def
  by (auto split: bind_splits option.splits if_splits dest!: chunk_steps nat_chunks)

lemma fw_process_chunks:
  "fw_process pow2 wan manager device st now = Some (dst, st', manager') \<Longrightarrow> chunks_ok st \<Longrightarrow> chunks_ok st'"
  unfolding fw_process_def
  by (auto split: bind_splits option.splits if_splits dest!: chunk_steps)

lemma pol_process_chunks:
  "pol_process pow2 config s device st len now = Some (dst, st', s') \<Longrightarrow> chunks_ok st \<Longrightarrow> chunks_ok st'"
  unfolding pol_process_def
  by (auto split: bind_splits option.splits if_splits dest!: chunk_steps)

lemma bridge_process_chunks:
  "bridge_process pow2 e s device st now = Some (dst, st', s') \<Longrightarrow> chunks_ok st \<Longrightarrow> chunks_ok st'"
  unfolding bridge_process_def
  by (auto split: bind_splits option.splits if_splits dest!: chunk_steps)

lemma lb_process_chunks:
  "lb_process pow2 config cks flow_hash raw b device st now = Some (dst, st', b') \<Longrightarrow> chunks_ok st \<Longrightarrow> chunks_ok st'"
  unfolding lb_process_def Let_def
  by (auto split: bind_splits option.splits if_splits dest!: chunk_steps)

section \<open>The worker and its network function\<close>

text \<open>
  \<open>good s t\<close> says that the state of the network function is in order and mentions no time after \<open>t\<close>.
\<close>

definition worker_ready :: "('s \<Rightarrow> vigor_time \<Rightarrow> bool) \<Rightarrow> ('d \<Rightarrow> int) \<Rightarrow> ('d, 's) worker \<Rightarrow> bool" where
  "worker_ready good clock w \<longleftrightarrow>
     (\<exists>t. t \<le> clock (w_dev w) \<and> good (w_nf w) t) \<and> io_idle (w_io w) \<and> 0 \<le> clock (w_dev w)"

text \<open>
  How a part of the worker may end: it runs on, in order, or it has aborted because a device refused a
  packet, which only the build without \<open>VIGOR_ALLOW_DROPS\<close> does.
\<close>

definition worker_outcome ::
  "('s \<Rightarrow> vigor_time \<Rightarrow> bool) \<Rightarrow> ('d \<Rightarrow> int) \<Rightarrow> 'd dpdk \<Rightarrow> bool \<Rightarrow> (int \<Rightarrow> bool) \<Rightarrow> ('d, 's) worker exit option \<Rightarrow> bool" where
  "worker_outcome good clock os drops time r \<longleftrightarrow>
     (case r of None \<Rightarrow> False | Some Aborted \<Rightarrow> \<not> drops \<and> refuses os
      | Some (Running w) \<Rightarrow> worker_ready good clock w \<and> time (clock (w_dev w)))"

lemma worker_outcome_simps [simp]:
  "\<not> worker_outcome good clock os drops time None"
  "worker_outcome good clock os drops time (Some Aborted) \<longleftrightarrow> \<not> drops \<and> refuses os"
  "worker_outcome good clock os drops time (Some (Running w)) \<longleftrightarrow> worker_ready good clock w \<and> time (clock (w_dev w))"
  by (simp_all add: worker_outcome_def)

lemma worker_outcome_then:
  assumes "worker_outcome good clock os drops time r"
    and "\<And>w. worker_ready good clock w \<Longrightarrow> time (clock (w_dev w)) \<Longrightarrow> worker_outcome good clock os drops time' (f w)"
  shows "worker_outcome good clock os drops time' (do { r \<leftarrow> r; case r of Aborted \<Rightarrow> Some Aborted | Running w \<Rightarrow> f w })"
  using assms by (auto simp: worker_outcome_def [of _ _ _ _ _ r] split: option.splits exit.splits)

locale network_function =
  fixes nf_process :: "'s handler" and good :: "'s \<Rightarrow> vigor_time \<Rightarrow> bool" and arrives :: "mbuf \<Rightarrow> bool"
  assumes process_ok: "good s t \<Longrightarrow> t \<le> now \<Longrightarrow> 0 \<le> now \<Longrightarrow> now < 2 ^ 63 \<Longrightarrow> arrives m \<Longrightarrow> mb_port m \<noteq> - 1 \<Longrightarrow>
    fresh_packet (uint (mb_pkt_len m)) io \<Longrightarrow> pkt io = mb_data m \<Longrightarrow>
    \<exists>dst io' s'. nf_process s (mb_port m) io (ucast (mb_pkt_len m)) now = Some (dst, io', s') \<and> good s' now \<and> chunks_ok io'"
begin

lemma device_ready:
  assumes os: "dpdk_ok os arrives clock" and ready: "worker_ready good clock w" and now: "clock (w_dev w) = now" "now < 2 ^ 63"
    and device: "device < count"
  shows "worker_outcome good clock os drops ((=) now) (worker_device os nf_process drops now count device w)"
proof -
  obtain t where t: "t \<le> now" "good (w_nf w) t" "io_idle (w_io w)" "0 \<le> now" using ready now by (auto simp: worker_ready_def)
  obtain mo d where rx: "rte_eth_rx_burst os device (w_dev w) = (mo, d)" by (metis surj_pair)
  have d: "clock d = now" using dpdk_okD(2) [OF os rx] now by simp
  show ?thesis
  proof (cases mo)
    case None
    then show ?thesis using rx d t by (auto simp: worker_device_def worker_ready_def)
  next
    case (Some m)
    have m: "mb_port m = device" "14 \<le> uint (mb_pkt_len m)" "uint (mb_pkt_len m) \<le> int (length (mb_data m))" "arrives m"
      using dpdk_okD(3) [OF os rx [unfolded Some]] by simp_all
    let ?io = "packet_state_total_length (mb_pkt_len m) ((w_io w)\<lparr>pkt := mb_data m\<rparr>)"
    have "uint (mb_pkt_len m) < 2 ^ 32" using unsigned_less [of "mb_pkt_len m", where 'a = int] by simp
    then have io: "fresh_packet (uint (mb_pkt_len m)) ?io" "pkt ?io = mb_data m"
      using m t(3) by (simp_all add: fresh_packet_def io_ok_def packet_state_total_length_def io_idle_def unsigned_ucast_eq take_bit_int_eq_self)
    have "mb_port m \<noteq> - 1" using device m(1) word_order.extremum_strict by (metis)
    then obtain dst io' s' where run: "nf_process (w_nf w) (mb_port m) ?io (ucast (mb_pkt_len m)) now = Some (dst, io', s')"
      "good s' now" "chunks_ok io'"
      using process_ok [OF t(2,1,4) now(2) m(4) _ io] by blast
    have "case worker_send os drops device count (m\<lparr>mb_data := pkt (nf_return_all_chunks io')\<rparr>) (word_of_int dst) d of
        Aborted \<Rightarrow> \<not> drops \<and> refuses os | Running d' \<Rightarrow> clock d' = now"
      using worker_send_ok [OF os] d by metis
    then show ?thesis
      using rx Some run t(4) return_all_idle [OF run(3)]
      by (auto simp: worker_device_def worker_ready_def Let_def split: exit.splits)
  qed
qed

lemma devices_ready:
  assumes os: "dpdk_ok os arrives clock" and now: "now < 2 ^ 63"
  shows "worker_ready good clock w \<Longrightarrow> now = clock (w_dev w) \<Longrightarrow>
     worker_outcome good clock os drops ((=) now) (worker_devices os nf_process drops now count device w)"
proof (induction "unat count - unat device" arbitrary: device w rule: less_induct)
  case less
  show ?case
  proof (cases "device < count")
    case True
    have "unat count - unat (device + 1) < unat count - unat device"
      using True by (simp add: unat_Suc_less word_less_nat_alt)
    note rest = less(1) [OF this]
    have "worker_outcome good clock os drops ((=) now) (worker_device os nf_process drops now count device w)"
      by (rule device_ready [OF os less(2) less(3) [symmetric] now True])
    from worker_outcome_then [OF this rest] show ?thesis using True by (subst worker_devices.simps) simp
  qed (use less in \<open>simp add: worker_devices.simps\<close>)
qed

lemma round_ready:
  assumes os: "dpdk_ok os arrives clock" and ready: "worker_ready good clock w"
  shows "worker_outcome good clock os drops ((\<le>) (clock (w_dev w))) (worker_round os nf_process drops w)"
proof -
  obtain now d where t: "current_time os (w_dev w) = (now, d)" "clock (w_dev w) \<le> now" "now < 2 ^ 63" "clock d = now"
    using current_time_ok [OF os, of "w_dev w"] ready by (auto simp: worker_ready_def)
  have "worker_ready good clock (w\<lparr>w_dev := d\<rparr>)" using ready t by (auto simp: worker_ready_def intro: order_trans)
  from devices_ready [OF os t(3) this, of drops "rte_eth_dev_count_avail os d" 0] t show ?thesis
    by (auto simp: worker_round_def worker_outcome_def split: option.splits exit.splits)
qed

lemma main_ready:
  assumes os: "dpdk_ok os arrives clock" and ready: "worker_ready good clock w"
  shows "worker_outcome good clock os drops ((\<le>) (clock (w_dev w))) (worker_main n os nf_process drops w)"
  using ready
proof (induction n arbitrary: w)
  case (Suc n)
  have "worker_outcome good clock os drops ((\<le>) (clock (w_dev w))) (worker_main n os nf_process drops w1)"
    if "worker_ready good clock w1" "clock (w_dev w) \<le> clock (w_dev w1)" for w1
    using Suc.IH [OF that(1)] that(2) by (auto simp: worker_outcome_def split: option.splits exit.splits)
  from worker_outcome_then [OF round_ready [OF os Suc(2), of drops] this] show ?case by simp
qed simp

end

section \<open>The handlers\<close>

text \<open>The handlers that return a \<open>uint16_t\<close> as an \<open>int\<close>.\<close>

definition handler ::
  "('s \<Rightarrow> u16 \<Rightarrow> packet_io \<Rightarrow> u16 \<Rightarrow> vigor_time \<Rightarrow> (u16 \<times> packet_io \<times> 's) option) \<Rightarrow> 's handler" where
  "handler f s device io len now = do { (dst, io, s) \<leftarrow> f s device io len now; Some (uint dst, io, s) }"

definition fw_inv :: "bool \<Rightarrow> FwManager \<Rightarrow> vigor_time \<Rightarrow> bool" where
  "fw_inv pow2 manager t \<longleftrightarrow> (\<exists>em devs. fw_ok pow2 em devs manager \<and> emap_now em \<le> t)"

lemma fresh_chunks: "fresh_packet n io \<Longrightarrow> chunks_ok io"
  by (simp add: fresh_packet_def chunks_ok_def io_idle_def)

interpretation fw_nf: network_function "handler (\<lambda>s device io _ now. fw_process pow2 wan s device io now)" "fw_inv pow2" "\<lambda>_. True"
  for pow2 wan
proof
  fix s t now m io
  assume inv: "fw_inv pow2 s t" and now: "t \<le> now" "0 \<le> now" "now < 2 ^ 63" and io: "fresh_packet (uint (mb_pkt_len m)) io"
  obtain em devs where ok: "fw_ok pow2 em devs s" "emap_now em \<le> now" using inv now(1) by (auto simp: fw_inv_def)
  obtain dst io' s' em' devs' where run: "fw_process pow2 wan s (mb_port m) io now = Some (dst, io', s')"
    "fw_ok pow2 em' devs' s'" "emap_now em' \<le> now"
    using fw_process_spec [OF ok(1) now(2,3) ok(2) io, of wan "mb_port m"] by blast
  then show "\<exists>dst io' s'. handler (\<lambda>s device io _ now. fw_process pow2 wan s device io now) s (mb_port m) io (ucast (mb_pkt_len m)) now = Some (dst, io', s') \<and>
      fw_inv pow2 s' now \<and> chunks_ok io'"
    using fw_process_chunks [OF run(1) fresh_chunks [OF io]] by (auto simp: handler_def fw_inv_def)
qed

definition pol_inv :: "bool \<Rightarrow> pol_config \<Rightarrow> pol_state \<Rightarrow> vigor_time \<Rightarrow> bool" where
  "pol_inv pow2 config s t \<longleftrightarrow> pol_limits_ok config \<and> pol_lan_device config \<noteq> pol_wan_device config \<and>
     (\<exists>em bks. pol_ok pow2 config em bks s \<and> emap_now em \<le> t)"

interpretation pol_nf: network_function "handler (pol_process pow2 config)" "pol_inv pow2 config" "\<lambda>_. True" for pow2 config
proof
  fix s t now m io
  assume inv: "pol_inv pow2 config s t" and now: "t \<le> now" "0 \<le> now" "now < 2 ^ 63" and io: "fresh_packet (uint (mb_pkt_len m)) io"
  obtain em bks where ok: "pol_limits_ok config" "pol_ok pow2 config em bks s" "emap_now em \<le> now" "pol_lan_device config \<noteq> pol_wan_device config"
    using inv now(1) by (auto simp: pol_inv_def)
  obtain dst io' s' em' bks' where run: "pol_process pow2 config s (mb_port m) io (ucast (mb_pkt_len m)) now = Some (dst, io', s')"
    "pol_ok pow2 config em' bks' s'" "emap_now em' \<le> now"
    using pol_process_spec [OF ok(1,2) now(2,3) ok(3,4) io, of "mb_port m" "ucast (mb_pkt_len m)"] by blast
  then show "\<exists>dst io' s'. handler (pol_process pow2 config) s (mb_port m) io (ucast (mb_pkt_len m)) now = Some (dst, io', s') \<and>
      pol_inv pow2 config s' now \<and> chunks_ok io'"
    using ok pol_process_chunks [OF run(1) fresh_chunks [OF io]] by (auto simp: handler_def pol_inv_def)
qed

definition br_inv :: "bool \<Rightarrow> br_state \<Rightarrow> vigor_time \<Rightarrow> bool" where
  "br_inv pow2 s t \<longleftrightarrow> (\<exists>em devs stat. br_ok pow2 em devs stat s \<and> emap_now em \<le> t \<and> br_devices_ok devs stat)"

interpretation br_nf: network_function "\<lambda>s device io _ now. bridge_process pow2 e s device io now" "br_inv pow2" "\<lambda>_. True" for pow2 e
proof
  fix s t now m io
  assume inv: "br_inv pow2 s t" and now: "t \<le> now" "0 \<le> now" "now < 2 ^ 63" and port: "mb_port m \<noteq> - 1"
    and io: "fresh_packet (uint (mb_pkt_len m)) io"
  obtain em devs stat where ok: "br_ok pow2 em devs stat s" "emap_now em \<le> now" "br_devices_ok devs stat"
    using inv now(1) by (auto simp: br_inv_def)
  obtain saddr daddr where "frame_addrs io saddr daddr" using frame_addrs_ok [of io] io by (auto simp: fresh_packet_def io_ok_def)
  then obtain dst io' s' em' devs' where run: "bridge_process pow2 e s (mb_port m) io now = Some (dst, io', s')"
    "br_ok pow2 em' devs' stat s'" "emap_now em' \<le> now" "br_devices_ok devs' stat"
    using bridge_process_spec [OF ok(1) now(2,3) ok(2,3) port io, of saddr daddr e] by blast
  then show "\<exists>dst io' s'. bridge_process pow2 e s (mb_port m) io now = Some (dst, io', s') \<and> br_inv pow2 s' now \<and> chunks_ok io'"
    using bridge_process_chunks [OF run(1) fresh_chunks [OF io]] by (auto simp: br_inv_def)
qed

text \<open>
  For the NAT and the load balancer the ports of the devices are configured and the buffer has room
  for the checksum; the NAT needs a port it may look up, see \<open>flow_manager_get_external\<close>.
\<close>

definition mbuf_packet :: "mbuf \<Rightarrow> packet_io" where
  "mbuf_packet m = \<lparr>pkt = mb_data m, global_total_length = 0, global_read_length = 0, chunks_borrowed = []\<rparr>"

definition nat_arrives :: "nat_config \<Rightarrow> u16 \<Rightarrow> int \<Rightarrow> mbuf \<Rightarrow> bool" where
  "nat_arrives config start_port max_flows m \<longleftrightarrow>
     uint (mb_port m) < int (length (device_macs config)) \<and> uint (mb_pkt_len m) + 14 \<le> int (length (mb_data m)) \<and>
     (case nat_packet (uint (mb_pkt_len m)) (mbuf_packet m) (mb_port m) of None \<Rightarrow> True
      | Some p \<Rightarrow> fl_internal_device p = wan_device config \<longrightarrow>
          uint start_port \<le> uint (fl_dst_port p) \<and> uint (fl_dst_port p) - uint start_port < max_flows)"

definition nat_inv :: "bool \<Rightarrow> nat_config \<Rightarrow> u16 \<Rightarrow> int \<Rightarrow> FlowManager \<Rightarrow> vigor_time \<Rightarrow> bool" where
  "nat_inv pow2 config start_port max_flows manager t \<longleftrightarrow> nat_config_ok config \<and> nat_start_port manager = start_port \<and>
     (\<exists>ch. nat_ok pow2 ch manager \<and> nat_devices_ok config ch manager \<and> dchain_high_fp ch \<le> t \<and> dchain_index_range_fp ch = max_flows)"

lemma nat_packet_pkt: "pkt st' = pkt st \<Longrightarrow> nat_packet n st' device = nat_packet n st device"
  using packet_flow_pkt [of st' st] by (simp add: nat_packet_def)

interpretation nat_nf: network_function "handler (\<lambda>s device io _ now. nat_process pow2 config cks s device io now)"
  "nat_inv pow2 config start_port max_flows" "nat_arrives config start_port max_flows" for pow2 config cks start_port max_flows
proof
  fix s t now m io
  assume inv: "nat_inv pow2 config start_port max_flows s t" and now: "t \<le> now" "0 \<le> now" "now < 2 ^ 63"
    and m: "nat_arrives config start_port max_flows m" and io: "fresh_packet (uint (mb_pkt_len m)) io" "pkt io = mb_data m"
  obtain ch where ch: "nat_ok pow2 ch s" "nat_devices_ok config ch s" "dchain_high_fp ch \<le> t" "dchain_index_range_fp ch = max_flows"
    using inv by (auto simp: nat_inv_def)
  then have ok: "nat_state_ok pow2 config ch s now" "nat_start_port s = start_port" "dchain_index_range_fp ch = max_flows" "nat_config_ok config"
    using inv now by (simp_all add: nat_inv_def nat_state_ok_def)
  have "nat_packet (uint (mb_pkt_len m)) io (mb_port m) = nat_packet (uint (mb_pkt_len m)) (mbuf_packet m) (mb_port m)"
    using io(2) by (intro nat_packet_pkt) (simp add: mbuf_packet_def)
  then have port: "nat_port_ok config ch s (nat_packet (uint (mb_pkt_len m)) io (mb_port m))"
    and room: "uint (mb_port m) < int (length (device_macs config))" "uint (mb_pkt_len m) + 14 \<le> int (length (pkt io))"
    using m ok(2,3) io(2) by (auto simp: nat_arrives_def nat_port_ok_def split: option.splits)
  obtain dst io' s' ch' em' where run: "nat_process pow2 config cks s (mb_port m) io now = Some (dst, io', s')"
    "nat_next pow2 config ch s now em' ch' s'"
    using nat_process_spec [OF ok(1) room(1) io(1) room(2) port, of cks] by blast
  then have "nat_inv pow2 config start_port max_flows s' now" using ok by (auto simp: nat_inv_def nat_next_def)
  then show "\<exists>dst io' s'. handler (\<lambda>s device io _ now. nat_process pow2 config cks s device io now) s (mb_port m) io (ucast (mb_pkt_len m)) now = Some (dst, io', s') \<and>
      nat_inv pow2 config start_port max_flows s' now \<and> chunks_ok io'"
    using run(1) nat_process_chunks [OF run(1) fresh_chunks [OF io(1)]] by (simp add: handler_def)
qed

definition lb_arrives :: "lb_config \<Rightarrow> mbuf \<Rightarrow> bool" where
  "lb_arrives config m \<longleftrightarrow>
     uint (mb_port m) < int (length (lb_device_macs config)) \<and> uint (mb_pkt_len m) + 14 \<le> int (length (mb_data m))"

definition lb_inv :: "bool \<Rightarrow> lb_config \<Rightarrow> LoadBalancer \<Rightarrow> vigor_time \<Rightarrow> bool" where
  "lb_inv pow2 config b t \<longleftrightarrow> (\<exists>S. lb_state_ok pow2 config S b t)"

interpretation lb_nf: network_function "handler (\<lambda>s device io _ now. lb_process pow2 config cks flow_hash raw s device io now)"
  "lb_inv pow2 config" "lb_arrives config" for pow2 config cks flow_hash raw
proof
  fix s t now m io
  assume inv: "lb_inv pow2 config s t" and now: "t \<le> now" "0 \<le> now" "now < 2 ^ 63"
    and m: "lb_arrives config m" and io: "fresh_packet (uint (mb_pkt_len m)) io" "pkt io = mb_data m"
  obtain fe ids bks be where "lb_state_ok pow2 config (fe, ids, bks, be) s t" using inv by (auto simp: lb_inv_def)
  then have ok: "lb_state_ok pow2 config (fe, ids, bks, be) s now" using now(1) by (simp add: lb_state_ok_def)
  obtain smac daddr where "frame_addrs io smac daddr" using frame_addrs_ok [of io] io(1) by (auto simp: fresh_packet_def io_ok_def)
  then have mac: "ether_s_addr io 0 = Some (addr_bytes smac)" by (simp add: frame_addrs_def)
  have room: "uint (mb_port m) < int (length (lb_device_macs config))" "uint (mb_pkt_len m) + 14 \<le> int (length (pkt io))"
    using m io(2) by (simp_all add: lb_arrives_def)
  obtain dst io' s' S' where run: "lb_process pow2 config cks flow_hash raw s (mb_port m) io now = Some (dst, io', s')"
    "lb_state_ok pow2 config S' s' now"
    using lb_process_spec [OF ok now(2,3) room(1) io(1) room(2) mac, of cks flow_hash raw] by blast
  then show "\<exists>dst io' s'. handler (\<lambda>s device io _ now. lb_process pow2 config cks flow_hash raw s device io now) s (mb_port m) io (ucast (mb_pkt_len m)) now = Some (dst, io', s') \<and>
      lb_inv pow2 config s' now \<and> chunks_ok io'"
    using lb_process_chunks [OF run(1) fresh_chunks [OF io(1)]] by (cases S') (auto simp: handler_def lb_inv_def)
qed

section \<open>Flooding\<close>

text \<open>A packet sent to some devices in turn.\<close>

definition tx_all :: "'d dpdk \<Rightarrow> mbuf \<Rightarrow> nat list \<Rightarrow> 'd \<Rightarrow> 'd" where
  "tx_all os m devices d = foldl (\<lambda>d device. snd (rte_eth_tx_burst os (of_nat device) m d)) d devices"

lemma flood_loop_run:
  assumes tx: "\<And>device d. fst (rte_eth_tx_burst os device m d)" and k: "k \<le> unat nb"
  shows "flood_loop os m nb skip (of_nat k) sent_count d =
     (sent_count + int (length (filter (\<lambda>i. i \<noteq> unat skip) [k..<unat nb])), tx_all os m (filter (\<lambda>i. i \<noteq> unat skip) [k..<unat nb]) d)"
  using k
proof (induction "unat nb - k" arbitrary: k sent_count d)
  case 0
  then have "k = unat nb" by simp
  then show ?case using word_of_nat_unat [of nb] by (simp add: flood_loop.simps tx_all_def)
next
  case (Suc n)
  have small: "k < 2 ^ LENGTH(16)" using Suc(2) unsigned_less [of nb, where 'a = nat] by linarith
  then have uk: "unat (of_nat k :: u16) = k" by (simp add: unat_of_nat_small)
  then have lt: "(of_nat k :: u16) < nb" using Suc(2) by (simp add: word_less_nat_alt)
  have skip: "(of_nat k :: u16) = skip \<longleftrightarrow> k = unat skip" using uk word_of_nat_unat [of skip] by auto
  have upt: "[k..<unat nb] = k # [Suc k..<unat nb]" using Suc(2) by (simp add: upt_rec)
  have next_k: "(of_nat k :: u16) + 1 = of_nat (Suc k)" by simp
  have IH: "flood_loop os m nb skip (of_nat (Suc k)) c d =
     (c + int (length (filter (\<lambda>i. i \<noteq> unat skip) [Suc k..<unat nb])), tx_all os m (filter (\<lambda>i. i \<noteq> unat skip) [Suc k..<unat nb]) d)" for c d
    using Suc(1) [of "Suc k"] Suc(2,3) by simp
  show ?case
    using tx [of "of_nat k" d] lt skip unfolding upt
    by (subst flood_loop.simps) (auto simp: next_k IH tx_all_def case_prod_unfold simp del: of_nat_Suc)
qed

lemma flood_run:
  assumes tx: "\<And>device d. fst (rte_eth_tx_burst os device m d)" and port: "mb_port m < nb"
  shows "flood os m nb d = tx_all os m (filter (\<lambda>i. i \<noteq> unat (mb_port m)) [0..<unat nb]) (rte_mbuf_refcnt_set os m (nb - 1) d)"
proof -
  let ?others = "filter (\<lambda>i. i \<noteq> unat (mb_port m)) [0..<unat nb]"
  have "length ?others = card (set ?others)" by (rule distinct_card [symmetric]) simp
  also have "set ?others = {0..<unat nb} - {unat (mb_port m)}" by auto
  also have "card \<dots> = unat nb - 1" using port by (subst card_Diff_singleton) (simp_all add: word_less_nat_alt)
  finally have "int (length ?others) = uint nb - 1" using port by (simp add: uint_eq_int_unat word_less_nat_alt)
  then show ?thesis
    using flood_loop_run [OF tx, of 0 nb "mb_port m" 0] by (simp add: flood_def Let_def)
qed

section \<open>Properties\<close>

text \<open>
  Two devices that deliver the packets of a list, each to the device it is for, over a clock that
  stands at 9; and a device layer that writes down the calls and refuses some packets.
\<close>

definition ex_os :: "(mbuf \<Rightarrow> bool) \<Rightarrow> mbuf list dpdk" where
  "ex_os arrives =
     \<lparr>rte_eth_dev_count_avail = (\<lambda>d. 2),
      rte_eth_rx_burst = (\<lambda>device d. case d of [] \<Rightarrow> (None, []) | m # ms \<Rightarrow>
        if mb_port m = device \<and> 14 \<le> uint (mb_pkt_len m) \<and> uint (mb_pkt_len m) \<le> int (length (mb_data m)) \<and> arrives m
        then (Some m, ms) else (None, m # ms)),
      rte_eth_tx_burst = (\<lambda>device m d. (True, d)), rte_pktmbuf_free = (\<lambda>m d. d),
      rte_mbuf_refcnt_set = (\<lambda>m n d. d), clock_gettime = (\<lambda>d. ((0, 9), d))\<rparr>"

lemma ex_os_ok: "dpdk_ok (ex_os arrives) arrives (\<lambda>_. 9)"
  by (auto simp: dpdk_ok_def ex_os_def split: list.splits if_splits)

lemma ex_os_accepts: "fst (rte_eth_tx_burst (ex_os arrives) device m d)"
  by (simp add: ex_os_def)

lemma exit_running:
  assumes "\<exists>r. x = Some r \<and> (case r of Aborted \<Rightarrow> A | Running w \<Rightarrow> P w)" "\<not> A"
  shows "\<exists>w. x = Some (Running w) \<and> P w"
  using assms by (auto split: exit.splits) (metis exit.exhaust)

definition ex_mbuf :: "u16 \<Rightarrow> mbuf" where
  "ex_mbuf port = \<lparr>mb_port = port, mb_pkt_len = 60, mb_data = pkt ex_packet\<rparr>"

datatype call = Tx u16 bool | Free | Refcnt u16

definition log_os :: "(u16 \<Rightarrow> bool) \<Rightarrow> call list dpdk" where
  "log_os accepts =
     \<lparr>rte_eth_dev_count_avail = (\<lambda>d. 3), rte_eth_rx_burst = (\<lambda>device d. (None, d)),
      rte_eth_tx_burst = (\<lambda>device m d. (accepts device, d @ [Tx device (accepts device)])),
      rte_pktmbuf_free = (\<lambda>m d. d @ [Free]), rte_mbuf_refcnt_set = (\<lambda>m n d. d @ [Refcnt n]),
      clock_gettime = (\<lambda>d. ((0, 9), d))\<rparr>"

text \<open>
  C11. The worker with the firewall never faults: whatever packets with an Ethernet header arrive, on whatever
  devices, and whether or not the devices accept what is sent, every number of rounds ends without a fault. The
  worker runs on, in a state in which the tables of the firewall are coherent, mention no time in the future, and
  no chunk of a packet is left borrowed; or it has called \<open>abort\<close>, which happens only in the build without
  \<open>VIGOR_ALLOW_DROPS\<close>, and only if a device refuses a packet.
\<close>

theorem fw_worker_never_faults:
  assumes "dpdk_ok os (\<lambda>_. True) clock" "fw_ok pow2 em devs (w_nf w)" "emap_now em \<le> clock (w_dev w)"
    "0 \<le> clock (w_dev w)" "io_idle (w_io w)"
  shows "\<exists>r. worker_main n os (handler (\<lambda>s device io _ now. fw_process pow2 wan s device io now)) drops w = Some r \<and>
     (case r of Aborted \<Rightarrow> \<not> drops \<and> (\<exists>device m d. \<not> fst (rte_eth_tx_burst os device m d))
      | Running w' \<Rightarrow> (\<exists>em' devs'. fw_ok pow2 em' devs' (w_nf w') \<and> emap_now em' \<le> clock (w_dev w')) \<and>
          io_idle (w_io w') \<and> clock (w_dev w) \<le> clock (w_dev w'))"
proof -
  have "worker_ready (fw_inv pow2) clock w" using assms(2-) by (auto simp: worker_ready_def fw_inv_def)
  from fw_nf.main_ready [OF assms(1) this, where drops = drops and n = n and wan = wan] show ?thesis
    by (auto simp: worker_outcome_def worker_ready_def fw_inv_def refuses_def split: option.splits exit.splits intro: order_trans)
qed

text \<open>
  C12. The worker with the NAT never faults on packets from configured devices, in buffers with room
  for the checksum, whose destination port is one the NAT may look up when they come from outside, whether or
  not the devices accept what is sent: every number of rounds ends, and the worker runs on with a coherent flow
  table, or it has called \<open>abort\<close>, in the build without \<open>VIGOR_ALLOW_DROPS\<close> and because a device refused a packet.
\<close>

theorem nat_worker_never_faults:
  assumes "dpdk_ok os (nat_arrives config (nat_start_port (w_nf w)) (dchain_index_range_fp ch)) clock"
    "nat_state_ok pow2 config ch (w_nf w) (clock (w_dev w))" "io_idle (w_io w)"
  shows "\<exists>r. worker_main n os (handler (\<lambda>s device io _ now. nat_process pow2 config cks s device io now)) drops w = Some r \<and>
     (case r of Aborted \<Rightarrow> \<not> drops \<and> (\<exists>device m d. \<not> fst (rte_eth_tx_burst os device m d))
      | Running w' \<Rightarrow> (\<exists>ch'. nat_ok pow2 ch' (w_nf w') \<and> dchain_high_fp ch' \<le> clock (w_dev w')) \<and>
          io_idle (w_io w') \<and> clock (w_dev w) \<le> clock (w_dev w'))"
proof -
  have "worker_ready (nat_inv pow2 config (nat_start_port (w_nf w)) (dchain_index_range_fp ch)) clock w"
    using assms(2,3) by (auto simp: worker_ready_def nat_inv_def nat_state_ok_def)
  from nat_nf.main_ready [OF assms(1) this, where drops = drops and n = n and cks = cks] show ?thesis
    by (auto simp: worker_outcome_def worker_ready_def nat_inv_def refuses_def split: option.splits exit.splits intro: order_trans)
qed

text \<open>
  C18. A flooded packet goes to every device but its own, once each, in the order of the devices, and
  is not freed, when the devices accept it.
\<close>

theorem flood_reaches_all:
  assumes "\<And>device d. fst (rte_eth_tx_burst os device m d)" "mb_port m < nb"
  shows "flood os m nb d =
     tx_all os m (filter (\<lambda>i. i \<noteq> unat (mb_port m)) [0..<unat nb]) (rte_mbuf_refcnt_set os m (nb - 1) d)"
  using assms by (rule flood_run)

theorem fw_worker_never_faults_witness:
  "\<exists>w'. worker_main 5 (ex_os (\<lambda>_. True)) (handler (\<lambda>s device io _ now. fw_process True 1 s device io now)) False
     \<lparr>w_dev = [ex_mbuf 0, ex_mbuf 1], w_nf = ex_fw_manager, w_io = ex_packet\<rparr> = Some (Running w') \<and> io_idle (w_io w')"
proof -
  let ?w = "\<lparr>w_dev = [ex_mbuf 0, ex_mbuf 1], w_nf = ex_fw_manager, w_io = ex_packet\<rparr>"
  have "io_idle ex_packet" by (simp add: io_idle_def ex_packet_def)
  then show ?thesis
    using exit_running [OF fw_worker_never_faults [OF ex_os_ok, of True ex_fw_emap "[0, 0, 0]" ?w 5 1 False]] ex_fw_ok ex_fw_now
    by (auto simp: ex_os_accepts)
qed

theorem nat_worker_never_faults_witness:
  "\<exists>w'. worker_main 5 (ex_os (nat_arrives ex_nat_config 5 3))
     (handler (\<lambda>s device io _ now. nat_process True ex_nat_config \<lparr>rte_ipv4_udptcp_cksum = (\<lambda>_ _ _. 0), rte_ipv4_cksum = (\<lambda>_ _. 0)\<rparr> s device io now)) False
     \<lparr>w_dev = [ex_mbuf 0], w_nf = ex_manager, w_io = ex_packet\<rparr> = Some (Running w') \<and> io_idle (w_io w')"
proof -
  let ?w = "\<lparr>w_dev = [ex_mbuf 0], w_nf = ex_manager, w_io = ex_packet\<rparr>"
  let ?cks = "\<lparr>rte_ipv4_udptcp_cksum = (\<lambda>_ _ _. 0), rte_ipv4_cksum = (\<lambda>_ _. 0)\<rparr>"
  have "io_idle ex_packet" "nat_start_port ex_manager = 5" by (simp_all add: io_idle_def ex_packet_def ex_manager_def)
  then show ?thesis
    using exit_running [OF nat_worker_never_faults [of "ex_os (nat_arrives ex_nat_config 5 3)" ex_nat_config ?w ex_ch "\<lambda>_. 9" True 5 ?cks False]]
      ex_os_ok ex_nat_state_ok [of 9]
    by (auto simp: ex_os_accepts)
qed

theorem flood_reaches_all_witness:
  "flood (log_os (\<lambda>_. True)) (ex_mbuf 1) 3 [] = [Refcnt 2, Tx 0 True, Tx 2 True]"
proof -
  have "[0..<3] = [0, 1, 2 :: nat]" by (simp add: upt_rec)
  then show ?thesis
    using flood_reaches_all [of "log_os (\<lambda>_. True)" "ex_mbuf 1" 3 "[]"]
    by (simp add: log_os_def ex_mbuf_def tx_all_def)
qed

text \<open>
  When only some devices accept the packet, \<open>flood\<close> sets the number of references to one and frees the
  packet, although the devices that accepted it still refer to it.
\<close>

lemma flood_frees_sent_packet:
  "flood (log_os (\<lambda>device. device = 0)) (ex_mbuf 1) 3 [] = [Refcnt 2, Tx 0 True, Tx 2 False, Refcnt 1, Free]"
  by (simp add: flood_def Let_def log_os_def ex_mbuf_def flood_loop.simps)

text \<open>
  In a batch of three packets of which the first is dropped and none of the others is accepted, the
  first is freed twice and the last not at all.
\<close>

lemma batch_frees_twice:
  "map_option w_dev (batch_device
      \<lparr>rte_eth_dev_count_avail = (\<lambda>d. 2), rte_eth_rx_burst = (\<lambda>device d. (None, d)), rte_eth_tx_burst = (\<lambda>device m d. (False, d)),
       rte_pktmbuf_free = (\<lambda>m d. d @ [mb_pkt_len m]), rte_mbuf_refcnt_set = (\<lambda>m n d. d), clock_gettime = (\<lambda>d. ((0, 9), d))\<rparr>
      (\<lambda>device d. (map (\<lambda>len. \<lparr>mb_port = 0, mb_pkt_len = len, mb_data = pkt ex_packet\<rparr>) [60, 61, 62], d))
      (\<lambda>device ms d. (0, d)) (\<lambda>s device io len now. Some (if len = 60 then 0 else 1, io, s)) 0
      \<lparr>w_dev = [], w_nf = (), w_io = ex_packet\<rparr>) = Some [60, 60, 61]"
  by code_simp

text \<open>A device on which the promiscuous mode could not be enabled counts as initialised.\<close>

lemma promiscuous_failure_ignored:
  "init_devices
     \<lparr>rte_eth_dev_configure = (\<lambda>device d. (0, d)), rte_eth_tx_queue_setup = (\<lambda>device d. (0, d)),
      rte_eth_rx_queue_setup = (\<lambda>device d. (0, d)), rte_eth_dev_start = (\<lambda>device d. (0, d)),
      rte_eth_promiscuous_enable = (\<lambda>device d. d), rte_eth_promiscuous_get = (\<lambda>device d. 0)\<rparr> 1 0 () = Some ()"
  by (simp add: init_devices.simps nf_init_device_def)

end
