(* ===== verification/Nf_Lock.thy ===== *)
theory Nf_Lock
  imports Prelude
begin

text \<open>
  The reader and writer lock of the parallel programs, \<open>synthesized/boilerplate/locks.c\<close>, and the part
  of its worker that uses it. Every core runs the worker; the cores interleave at every access to the lock
  and at every operation of the handler on the shared tables. The atomic counters of DPDK are the
  parameter \<open>rte_atomic32\<close>, with their documented behaviour as the hypothesis \<open>atomics_ok\<close>; a
  sequentially consistent memory is assumed.
\<close>

section \<open>The lock\<close>

record 'a rte_atomic32 =
  at_init :: "'a \<Rightarrow> 'a"
  at_clear :: "'a \<Rightarrow> 'a"
  at_test_and_set :: "'a \<Rightarrow> bool \<times> 'a"

record 'a nf_lock =
  tokens :: "'a list"
  write_token :: 'a

definition token_clear :: "'a rte_atomic32 \<Rightarrow> nat \<Rightarrow> 'a nf_lock \<Rightarrow> 'a nf_lock option" where
  "token_clear A lcore_id nfl = do {
     t \<leftarrow> arr_get (tokens nfl) (int lcore_id);
     ts \<leftarrow> arr_set (tokens nfl) (int lcore_id) (at_clear A t);
     Some (nfl\<lparr>tokens := ts\<rparr>)
   }"

definition token_test_and_set :: "'a rte_atomic32 \<Rightarrow> nat \<Rightarrow> 'a nf_lock \<Rightarrow> (bool \<times> 'a nf_lock) option" where
  "token_test_and_set A lcore_id nfl = do {
     t \<leftarrow> arr_get (tokens nfl) (int lcore_id);
     let (ok, t) = at_test_and_set A t;
     ts \<leftarrow> arr_set (tokens nfl) (int lcore_id) t;
     Some (ok, nfl\<lparr>tokens := ts\<rparr>)
   }"

text \<open>The block of \<open>rte_malloc\<close> is \<open>block\<close>; the code does not check that there is one.\<close>

fun nf_lock_init_loop :: "'a rte_atomic32 \<Rightarrow> nat list \<Rightarrow> 'a list \<Rightarrow> 'a list option" where
  "nf_lock_init_loop A [] ts = Some ts"
| "nf_lock_init_loop A (lcore_id # lcores) ts = do {
     t \<leftarrow> arr_get ts (int lcore_id);
     ts \<leftarrow> arr_set ts (int lcore_id) (at_init A t);
     nf_lock_init_loop A lcores ts
   }"

definition nf_lock_init :: "'a rte_atomic32 \<Rightarrow> nat list \<Rightarrow> 'a list option \<Rightarrow> 'a nf_lock \<Rightarrow> 'a nf_lock option" where
  "nf_lock_init A lcores block nfl = do {
     ts \<leftarrow> block;
     ts \<leftarrow> nf_lock_init_loop A lcores ts;
     Some (nfl\<lparr>tokens := ts, write_token := at_init A (write_token nfl)\<rparr>)
   }"

section \<open>The cores\<close>

text \<open>
  Where a core is: before the set up of its worker, taking the next packet, in the loop of
  \<open>nf_lock_block_writes\<close>, in the handler in read mode, in the three parts of \<open>nf_lock_write_lock\<close>, in
  the handler in write mode, in the two parts of \<open>nf_lock_write_unlock\<close>, or in \<open>nf_lock_allow_writes\<close>.
  The loops over the cores carry what is left to visit.
\<close>

datatype lock_pc = Boot | Receive | BlockWrites | ReadSection | ClearOwn | TakeWrite | TakeTokens "nat list"
  | WriteSection | ReleaseTokens "nat list" | ReleaseWrite | AllowWrites

record core =
  pc :: lock_pc
  write_attempt :: bool
  write_state :: bool
  dst_device :: u16

record ('a, 's, 'u) cores =
  lock :: "'a nf_lock"
  core_at :: "nat \<Rightarrow> core"
  shared :: 's
  entries :: 'u

text \<open>
  What the handler does next: an operation that only reads, one with a guard that makes the tables \<open>shared\<close>
  what it says (maps, allocation and expiry), one without a guard, or return. The operations without a guard
  write the entries of vectors, through the pointer of \<open>vector_locks_borrow\<close>, and what a core has in
  \<open>dchain_locks_rejuvenate_index\<close>; the state they write is \<open>entries\<close>.
\<close>

datatype ('s, 'u) nf_event = Lookup | Update 's | Store 'u | Return u16

definition goto :: "nat \<Rightarrow> lock_pc \<Rightarrow> ('a, 's, 'u) cores \<Rightarrow> ('a, 's, 'u) cores" where
  "goto c p \<sigma> = \<sigma>\<lparr>core_at := (core_at \<sigma>)(c := (core_at \<sigma> c)\<lparr>pc := p\<rparr>)\<rparr>"

text \<open>The guard of the operations that have one: without the right to write they only ask for it.\<close>

definition guarded_update :: "nat \<Rightarrow> 's \<Rightarrow> ('a, 's, 'u) cores \<Rightarrow> ('a, 's, 'u) cores" where
  "guarded_update c s \<sigma> =
     (if \<not> write_state (core_at \<sigma> c) then \<sigma>\<lparr>core_at := (core_at \<sigma>)(c := (core_at \<sigma> c)\<lparr>write_attempt := True\<rparr>)\<rparr>
      else \<sigma>\<lparr>shared := s\<rparr>)"

definition unguarded_store :: "'u \<Rightarrow> ('a, 's, 'u) cores \<Rightarrow> ('a, 's, 'u) cores" where
  "unguarded_store u \<sigma> = \<sigma>\<lparr>entries := u\<rparr>"

text \<open>
  The handler in read mode, and what the worker does when it returns. In write mode the result is
  assigned to a second variable of the same name, declared in the inner block.
\<close>

fun read_section :: "nat \<Rightarrow> ('s, 'u) nf_event \<Rightarrow> ('a, 's, 'u) cores \<Rightarrow> ('a, 's, 'u) cores" where
  "read_section c Lookup \<sigma> = \<sigma>"
| "read_section c (Update s) \<sigma> = guarded_update c s \<sigma>"
| "read_section c (Store u) \<sigma> = unguarded_store u \<sigma>"
| "read_section c (Return d) \<sigma> =
     (let k = (core_at \<sigma> c)\<lparr>dst_device := d\<rparr> in
      \<sigma>\<lparr>core_at := (core_at \<sigma>)(c := if write_attempt k then k\<lparr>write_state := True, pc := ClearOwn\<rparr> else k\<lparr>pc := AllowWrites\<rparr>)\<rparr>)"

fun write_section :: "nat list \<Rightarrow> nat \<Rightarrow> ('s, 'u) nf_event \<Rightarrow> ('a, 's, 'u) cores \<Rightarrow> ('a, 's, 'u) cores" where
  "write_section lcores c Lookup \<sigma> = \<sigma>"
| "write_section lcores c (Update s) \<sigma> = guarded_update c s \<sigma>"
| "write_section lcores c (Store u) \<sigma> = unguarded_store u \<sigma>"
| "write_section lcores c (Return d) \<sigma> = goto c (ReleaseTokens lcores) \<sigma>"

definition worker_step ::
  "'a rte_atomic32 \<Rightarrow> nat list \<Rightarrow> 'a list option \<Rightarrow> nat \<Rightarrow> ('s, 'u) nf_event \<Rightarrow> ('a, 's, 'u) cores \<Rightarrow> ('a, 's, 'u) cores option" where
  "worker_step A lcores block c ev \<sigma> =
     (case pc (core_at \<sigma> c) of
        Boot \<Rightarrow> do {
          l \<leftarrow> nf_lock_init A lcores block (lock \<sigma>);
          Some (goto c Receive (\<sigma>\<lparr>lock := l\<rparr>))
        }
      | Receive \<Rightarrow>
          Some (goto c BlockWrites (\<sigma>\<lparr>core_at := (core_at \<sigma>)(c := (core_at \<sigma> c)\<lparr>write_attempt := False, write_state := False\<rparr>)\<rparr>))
      | BlockWrites \<Rightarrow> do {
          (ok, l) \<leftarrow> token_test_and_set A c (lock \<sigma>);
          Some (goto c (if ok then ReadSection else BlockWrites) (\<sigma>\<lparr>lock := l\<rparr>))
        }
      | ReadSection \<Rightarrow> Some (read_section c ev \<sigma>)
      | ClearOwn \<Rightarrow> do {
          l \<leftarrow> token_clear A c (lock \<sigma>);
          Some (goto c TakeWrite (\<sigma>\<lparr>lock := l\<rparr>))
        }
      | TakeWrite \<Rightarrow>
          (let (ok, t) = at_test_and_set A (write_token (lock \<sigma>)) in
           Some (goto c (if ok then TakeTokens lcores else TakeWrite) (\<sigma>\<lparr>lock := (lock \<sigma>)\<lparr>write_token := t\<rparr>\<rparr>)))
      | TakeTokens ts \<Rightarrow> (case ts of
            [] \<Rightarrow> Some (goto c WriteSection \<sigma>)
          | t # ts' \<Rightarrow> do {
              (ok, l) \<leftarrow> token_test_and_set A t (lock \<sigma>);
              Some (goto c (TakeTokens (if ok then ts' else ts)) (\<sigma>\<lparr>lock := l\<rparr>))
            })
      | WriteSection \<Rightarrow> Some (write_section lcores c ev \<sigma>)
      | ReleaseTokens ts \<Rightarrow> (case ts of
            [] \<Rightarrow> Some (goto c ReleaseWrite \<sigma>)
          | t # ts' \<Rightarrow> do {
              l \<leftarrow> token_clear A t (lock \<sigma>);
              Some (goto c (ReleaseTokens ts') (\<sigma>\<lparr>lock := l\<rparr>))
            })
      | ReleaseWrite \<Rightarrow>
          Some (goto c Receive (\<sigma>\<lparr>lock := (lock \<sigma>)\<lparr>write_token := at_clear A (write_token (lock \<sigma>))\<rparr>\<rparr>))
      | AllowWrites \<Rightarrow> do {
          l \<leftarrow> token_clear A c (lock \<sigma>);
          Some (goto c Receive (\<sigma>\<lparr>lock := l\<rparr>))
        })"

text \<open>Runs: any core takes the next step, and its handler does anything.\<close>

inductive reaches :: "'a rte_atomic32 \<Rightarrow> nat list \<Rightarrow> 'a list option \<Rightarrow> ('a, 's, 'u) cores \<Rightarrow> ('a, 's, 'u) cores \<Rightarrow> bool"
  for A :: "'a rte_atomic32" and lcores block \<sigma> where
  reaches_refl: "reaches A lcores block \<sigma> \<sigma>"
| reaches_step: "reaches A lcores block \<sigma> \<sigma>' \<Longrightarrow> c \<in> set lcores \<Longrightarrow> worker_step A lcores block c ev \<sigma>' = Some \<sigma>''
    \<Longrightarrow> reaches A lcores block \<sigma> \<sigma>''"

text \<open>A schedule, run as a function.\<close>

fun run_schedule :: "'a rte_atomic32 \<Rightarrow> nat list \<Rightarrow> 'a list option \<Rightarrow> (nat \<times> ('s, 'u) nf_event) list \<Rightarrow> ('a, 's, 'u) cores \<Rightarrow> ('a, 's, 'u) cores option" where
  "run_schedule A lcores block [] \<sigma> = Some \<sigma>"
| "run_schedule A lcores block ((c, ev) # es) \<sigma> = do {
     \<sigma> \<leftarrow> worker_step A lcores block c ev \<sigma>;
     run_schedule A lcores block es \<sigma>
   }"

section \<open>Who holds which counter\<close>

definition atomics_ok :: "'a rte_atomic32 \<Rightarrow> ('a \<Rightarrow> bool) \<Rightarrow> bool" where
  "atomics_ok A is_set \<longleftrightarrow>
     (\<forall>v. \<not> is_set (at_init A v)) \<and> (\<forall>v. \<not> is_set (at_clear A v)) \<and>
     (\<forall>v. fst (at_test_and_set A v) = (\<not> is_set v)) \<and> (\<forall>v. is_set (snd (at_test_and_set A v)))"

text \<open>\<open>Some t\<close> is the token of the core \<open>t\<close>, \<open>None\<close> is the write token.\<close>

fun holds :: "nat list \<Rightarrow> nat \<Rightarrow> lock_pc \<Rightarrow> nat option set" where
  "holds lcores c Boot = {}"
| "holds lcores c Receive = {}"
| "holds lcores c BlockWrites = {}"
| "holds lcores c ReadSection = {Some c}"
| "holds lcores c ClearOwn = {Some c}"
| "holds lcores c TakeWrite = {}"
| "holds lcores c (TakeTokens ts) = insert None (Some ` (set lcores - set ts))"
| "holds lcores c WriteSection = insert None (Some ` set lcores)"
| "holds lcores c (ReleaseTokens ts) = insert None (Some ` set ts)"
| "holds lcores c ReleaseWrite = {None}"
| "holds lcores c AllowWrites = {Some c}"

fun taken :: "('a \<Rightarrow> bool) \<Rightarrow> 'a nf_lock \<Rightarrow> nat option \<Rightarrow> bool" where
  "taken is_set l (Some t) = is_set (tokens l ! t)"
| "taken is_set l None = is_set (write_token l)"

definition resources :: "nat list \<Rightarrow> nat option set" where
  "resources lcores = insert None (Some ` set lcores)"

text \<open>A counter is set exactly while one core holds it.\<close>

definition owners_ok :: "nat set \<Rightarrow> 'r set \<Rightarrow> ('r \<Rightarrow> bool) \<Rightarrow> (nat \<Rightarrow> 'r set) \<Rightarrow> bool" where
  "owners_ok C R T H \<longleftrightarrow>
     (\<forall>r\<in>R. T r = (\<exists>c\<in>C. r \<in> H c)) \<and> (\<forall>c\<in>C. \<forall>c'\<in>C. c \<noteq> c' \<longrightarrow> H c \<inter> H c' = {})"

lemma owners_okI:
  assumes "\<And>r. r \<in> R \<Longrightarrow> T r = (\<exists>c\<in>C. r \<in> H c)" "\<And>c c' r. c \<in> C \<Longrightarrow> c' \<in> C \<Longrightarrow> r \<in> H c \<Longrightarrow> r \<in> H c' \<Longrightarrow> c = c'"
  shows "owners_ok C R T H"
  using assms by (fastforce simp: owners_ok_def)

lemma owners_okD:
  assumes "owners_ok C R T H"
  shows "r \<in> R \<Longrightarrow> T r = (\<exists>c\<in>C. r \<in> H c)" "c \<in> C \<Longrightarrow> c' \<in> C \<Longrightarrow> r \<in> H c \<Longrightarrow> r \<in> H c' \<Longrightarrow> c = c'"
  using assms by (auto simp: owners_ok_def)

lemma owners_acquire:
  assumes ok: "owners_ok C R T H" and c: "c \<in> C" and r: "r \<in> R" "\<not> T r"
    and T': "\<And>r'. r' \<in> R \<Longrightarrow> T' r' = (r' = r \<or> T r')" and H': "\<And>c'. H' c' = (if c' = c then insert r (H c) else H c')"
  shows "owners_ok C R T' H'"
proof (rule owners_okI)
  have free: "r \<notin> H c'" if "c' \<in> C" for c' using owners_okD(1) [OF ok r(1)] r(2) that by blast
  show "T' r' = (\<exists>c\<in>C. r' \<in> H' c)" if "r' \<in> R" for r'
    using T' [OF that] owners_okD(1) [OF ok that] c by (auto simp: H')
  show "c1 = c2" if "c1 \<in> C" "c2 \<in> C" "r' \<in> H' c1" "r' \<in> H' c2" for c1 c2 r'
    using that free owners_okD(2) [OF ok, of c1 c2 r'] by (auto simp: H' split: if_splits)
qed

lemma owners_release:
  assumes ok: "owners_ok C R T H" and c: "c \<in> C" "r \<in> H c"
    and T': "\<And>r'. r' \<in> R \<Longrightarrow> T' r' = (r' \<noteq> r \<and> T r')" and H': "\<And>c'. H' c' = (if c' = c then H c - {r} else H c')"
  shows "owners_ok C R T' H'"
proof (rule owners_okI)
  have H: "r' \<in> H' c' \<longleftrightarrow> r' \<in> H c' \<and> r' \<noteq> r" if "c' \<in> C" for c' r'
    using owners_okD(2) [OF ok c(1) that c(2)] by (auto simp: H')
  show "T' r' = (\<exists>c\<in>C. r' \<in> H' c)" if "r' \<in> R" for r'
    using T' [OF that] owners_okD(1) [OF ok that] by (auto simp: H)
  show "c1 = c2" if "c1 \<in> C" "c2 \<in> C" "r' \<in> H' c1" "r' \<in> H' c2" for c1 c2 r'
    using that owners_okD(2) [OF ok, of c1 c2 r'] by (auto simp: H)
qed

text \<open>The invariant of the running cores.\<close>

fun pc_ok :: "nat list \<Rightarrow> lock_pc \<Rightarrow> bool" where
  "pc_ok lcores Boot = False"
| "pc_ok lcores (TakeTokens ts) = (set ts \<subseteq> set lcores \<and> distinct ts)"
| "pc_ok lcores (ReleaseTokens ts) = (set ts \<subseteq> set lcores \<and> distinct ts)"
| "pc_ok lcores _ = True"

fun mode_ok :: "lock_pc \<Rightarrow> bool \<Rightarrow> bool" where
  "mode_ok BlockWrites w = (\<not> w)"
| "mode_ok ReadSection w = (\<not> w)"
| "mode_ok ClearOwn w = w"
| "mode_ok TakeWrite w = w"
| "mode_ok (TakeTokens ts) w = w"
| "mode_ok WriteSection w = w"
| "mode_ok _ w = True"

definition cores_ok :: "('a \<Rightarrow> bool) \<Rightarrow> nat list \<Rightarrow> ('a, 's, 'u) cores \<Rightarrow> bool" where
  "cores_ok is_set lcores \<sigma> \<longleftrightarrow>
     owners_ok (set lcores) (resources lcores) (taken is_set (lock \<sigma>)) (\<lambda>c. holds lcores c (pc (core_at \<sigma> c))) \<and>
     (\<forall>c\<in>set lcores. pc_ok lcores (pc (core_at \<sigma> c)) \<and> c < length (tokens (lock \<sigma>)) \<and>
        mode_ok (pc (core_at \<sigma> c)) (write_state (core_at \<sigma> c)))"

section \<open>Every step keeps it\<close>

lemma token_clear_run:
  assumes "atomics_ok A is_set" "t < length (tokens l)"
  shows "\<exists>l'. token_clear A t l = Some l' \<and> length (tokens l') = length (tokens l) \<and> write_token l' = write_token l \<and>
    (\<forall>t'. t' < length (tokens l) \<longrightarrow> taken is_set l' (Some t') = (t' \<noteq> t \<and> taken is_set l (Some t')))"
  using assms by (auto simp: token_clear_def run_simps nth_list_update atomics_ok_def)

lemma token_test_and_set_run:
  assumes "atomics_ok A is_set" "t < length (tokens l)"
  shows "\<exists>l'. token_test_and_set A t l = Some (\<not> taken is_set l (Some t), l') \<and> length (tokens l') = length (tokens l) \<and>
    write_token l' = write_token l \<and>
    (\<forall>t'. t' < length (tokens l) \<longrightarrow> taken is_set l' (Some t') = (t' = t \<or> taken is_set l (Some t')))"
  using assms by (auto simp: token_test_and_set_def run_simps nth_list_update atomics_ok_def split: prod.splits) (metis fst_conv snd_conv)+

lemma cores_okD:
  assumes "cores_ok is_set lcores \<sigma>"
  shows "owners_ok (set lcores) (resources lcores) (taken is_set (lock \<sigma>)) (\<lambda>c. holds lcores c (pc (core_at \<sigma> c)))"
    "c \<in> set lcores \<Longrightarrow> pc_ok lcores (pc (core_at \<sigma> c))" "c \<in> set lcores \<Longrightarrow> c < length (tokens (lock \<sigma>))"
    "c \<in> set lcores \<Longrightarrow> mode_ok (pc (core_at \<sigma> c)) (write_state (core_at \<sigma> c))"
  using assms by (auto simp: cores_ok_def)

lemma cores_okI:
  assumes "cores_ok is_set lcores \<sigma>" "c \<in> set lcores" "core_at \<sigma>' = (core_at \<sigma>)(c := k)"
    and "length (tokens (lock \<sigma>')) = length (tokens (lock \<sigma>))" "pc_ok lcores (pc k)" "mode_ok (pc k) (write_state k)"
    and "owners_ok (set lcores) (resources lcores) (taken is_set (lock \<sigma>'))
       (\<lambda>c'. if c' = c then holds lcores c (pc k) else holds lcores c' (pc (core_at \<sigma> c')))"
  shows "cores_ok is_set lcores \<sigma>'"
proof -
  have "(\<lambda>c'. holds lcores c' (pc (core_at \<sigma>' c'))) = (\<lambda>c'. if c' = c then holds lcores c (pc k) else holds lcores c' (pc (core_at \<sigma> c')))"
    by (simp add: assms(3) fun_eq_iff)
  then show ?thesis using assms by (auto simp: cores_ok_def)
qed

lemma cores_ok_stay:
  assumes "cores_ok is_set lcores \<sigma>" "c \<in> set lcores" "core_at \<sigma>' = (core_at \<sigma>)(c := k)"
    and "length (tokens (lock \<sigma>')) = length (tokens (lock \<sigma>))" "pc_ok lcores (pc k)" "mode_ok (pc k) (write_state k)"
    and "\<And>r. r \<in> resources lcores \<Longrightarrow> taken is_set (lock \<sigma>') r = taken is_set (lock \<sigma>) r"
    and "holds lcores c (pc k) = holds lcores c (pc (core_at \<sigma> c))"
  shows "cores_ok is_set lcores \<sigma>'"
proof (rule cores_okI [OF assms(1-6)])
  have same: "(\<lambda>c'. if c' = c then holds lcores c (pc k) else holds lcores c' (pc (core_at \<sigma> c'))) = (\<lambda>c. holds lcores c (pc (core_at \<sigma> c)))"
    by (simp add: assms(8) fun_eq_iff)
  show "owners_ok (set lcores) (resources lcores) (taken is_set (lock \<sigma>'))
       (\<lambda>c'. if c' = c then holds lcores c (pc k) else holds lcores c' (pc (core_at \<sigma> c')))"
    unfolding same using assms(1,7) by (simp add: cores_ok_def owners_ok_def)
qed

lemma cores_ok_acquire:
  assumes "cores_ok is_set lcores \<sigma>" "c \<in> set lcores" "core_at \<sigma>' = (core_at \<sigma>)(c := k)"
    and "length (tokens (lock \<sigma>')) = length (tokens (lock \<sigma>))" "pc_ok lcores (pc k)" "mode_ok (pc k) (write_state k)"
    and "r \<in> resources lcores" "\<not> taken is_set (lock \<sigma>) r"
    and "\<And>r'. r' \<in> resources lcores \<Longrightarrow> taken is_set (lock \<sigma>') r' = (r' = r \<or> taken is_set (lock \<sigma>) r')"
    and "holds lcores c (pc k) = insert r (holds lcores c (pc (core_at \<sigma> c)))"
  shows "cores_ok is_set lcores \<sigma>'"
proof (rule cores_okI [OF assms(1-6)])
  show "owners_ok (set lcores) (resources lcores) (taken is_set (lock \<sigma>'))
       (\<lambda>c'. if c' = c then holds lcores c (pc k) else holds lcores c' (pc (core_at \<sigma> c')))"
    by (rule owners_acquire [OF cores_okD(1) [OF assms(1)] assms(2,7,8)]) (simp_all add: assms(9,10))
qed

lemma cores_ok_release:
  assumes "cores_ok is_set lcores \<sigma>" "c \<in> set lcores" "core_at \<sigma>' = (core_at \<sigma>)(c := k)"
    and "length (tokens (lock \<sigma>')) = length (tokens (lock \<sigma>))" "pc_ok lcores (pc k)" "mode_ok (pc k) (write_state k)"
    and "r \<in> holds lcores c (pc (core_at \<sigma> c))"
    and "\<And>r'. r' \<in> resources lcores \<Longrightarrow> taken is_set (lock \<sigma>') r' = (r' \<noteq> r \<and> taken is_set (lock \<sigma>) r')"
    and "holds lcores c (pc k) = holds lcores c (pc (core_at \<sigma> c)) - {r}"
  shows "cores_ok is_set lcores \<sigma>'"
proof (rule cores_okI [OF assms(1-6)])
  show "owners_ok (set lcores) (resources lcores) (taken is_set (lock \<sigma>'))
       (\<lambda>c'. if c' = c then holds lcores c (pc k) else holds lcores c' (pc (core_at \<sigma> c')))"
    by (rule owners_release [OF cores_okD(1) [OF assms(1)] assms(2,7)]) (simp_all add: assms(8,9))
qed

text \<open>One lemma for each way the worker touches the lock.\<close>

lemma step_take_token:
  assumes ok: "atomics_ok A is_set" "cores_ok is_set lcores \<sigma>" and c: "c \<in> set lcores" "t \<in> set lcores"
    and p: "pc_ok lcores p" "mode_ok p (write_state (core_at \<sigma> c))"
    "holds lcores c p = insert (Some t) (holds lcores c (pc (core_at \<sigma> c)))"
    and q: "q = pc (core_at \<sigma> c)"
  shows "\<exists>l. token_test_and_set A t (lock \<sigma>) = Some (\<not> taken is_set (lock \<sigma>) (Some t), l) \<and>
    cores_ok is_set lcores (goto c (if \<not> taken is_set (lock \<sigma>) (Some t) then p else q) (\<sigma>\<lparr>lock := l\<rparr>))"
proof -
  obtain l where l: "token_test_and_set A t (lock \<sigma>) = Some (\<not> taken is_set (lock \<sigma>) (Some t), l)"
    "length (tokens l) = length (tokens (lock \<sigma>))" "write_token l = write_token (lock \<sigma>)"
    "\<And>t'. t' < length (tokens (lock \<sigma>)) \<Longrightarrow> taken is_set l (Some t') = (t' = t \<or> taken is_set (lock \<sigma>) (Some t'))"
    using token_test_and_set_run [OF ok(1) cores_okD(3) [OF ok(2) c(2)]] by blast
  have T: "taken is_set l r = (r = Some t \<or> taken is_set (lock \<sigma>) r)" if "r \<in> resources lcores" for r
    using that l(3,4) cores_okD(3) [OF ok(2)] by (cases r) (auto simp: resources_def)
  have "cores_ok is_set lcores (goto c (if \<not> taken is_set (lock \<sigma>) (Some t) then p else q) (\<sigma>\<lparr>lock := l\<rparr>))"
  proof (cases "taken is_set (lock \<sigma>) (Some t)")
    case True
    then show ?thesis
      using l(2) cores_okD(2,4) [OF ok(2) c(1)] q T
      by (intro cores_ok_stay [OF ok(2) c(1), where k = "(core_at \<sigma> c)\<lparr>pc := q\<rparr>"]) (auto simp: goto_def)
  next
    case False
    then show ?thesis
      using l(2) p T c(2)
      by (intro cores_ok_acquire [OF ok(2) c(1), where k = "(core_at \<sigma> c)\<lparr>pc := p\<rparr>" and r = "Some t"])
        (auto simp: goto_def resources_def)
  qed
  with l(1) show ?thesis by blast
qed

lemma step_clear_token:
  assumes ok: "atomics_ok A is_set" "cores_ok is_set lcores \<sigma>" and c: "c \<in> set lcores" "t \<in> set lcores"
    and p: "pc_ok lcores p" "mode_ok p (write_state (core_at \<sigma> c))" "Some t \<in> holds lcores c (pc (core_at \<sigma> c))"
    "holds lcores c p = holds lcores c (pc (core_at \<sigma> c)) - {Some t}"
  shows "\<exists>l. token_clear A t (lock \<sigma>) = Some l \<and> cores_ok is_set lcores (goto c p (\<sigma>\<lparr>lock := l\<rparr>))"
proof -
  obtain l where l: "token_clear A t (lock \<sigma>) = Some l"
    "length (tokens l) = length (tokens (lock \<sigma>))" "write_token l = write_token (lock \<sigma>)"
    "\<And>t'. t' < length (tokens (lock \<sigma>)) \<Longrightarrow> taken is_set l (Some t') = (t' \<noteq> t \<and> taken is_set (lock \<sigma>) (Some t'))"
    using token_clear_run [OF ok(1) cores_okD(3) [OF ok(2) c(2)]] by blast
  have T: "taken is_set l r = (r \<noteq> Some t \<and> taken is_set (lock \<sigma>) r)" if "r \<in> resources lcores" for r
    using that l(3,4) cores_okD(3) [OF ok(2)] by (cases r) (auto simp: resources_def)
  have "cores_ok is_set lcores (goto c p (\<sigma>\<lparr>lock := l\<rparr>))"
    using l(2) p T by (intro cores_ok_release [OF ok(2) c(1), where k = "(core_at \<sigma> c)\<lparr>pc := p\<rparr>" and r = "Some t"])
      (auto simp: goto_def)
  with l(1) show ?thesis by blast
qed

lemma step_sections:
  assumes "cores_ok is_set lcores \<sigma>" "c \<in> set lcores" "distinct lcores"
  shows "pc (core_at \<sigma> c) = ReadSection \<Longrightarrow> cores_ok is_set lcores (read_section c ev \<sigma>)"
    "pc (core_at \<sigma> c) = WriteSection \<Longrightarrow> cores_ok is_set lcores (write_section lcores c ev \<sigma>)"
proof -
  assume pc: "pc (core_at \<sigma> c) = ReadSection"
  let ?k = "core_at (read_section c ev \<sigma>) c"
  have "core_at (read_section c ev \<sigma>) = (core_at \<sigma>)(c := ?k)" "lock (read_section c ev \<sigma>) = lock \<sigma>"
    "pc ?k = ReadSection \<and> \<not> write_state ?k \<or> pc ?k = ClearOwn \<and> write_state ?k \<or> pc ?k = AllowWrites"
    using cores_okD(4) [OF assms(1,2)] pc by (cases ev; auto simp: guarded_update_def unguarded_store_def Let_def)+
  then show "cores_ok is_set lcores (read_section c ev \<sigma>)"
    by (intro cores_ok_stay [OF assms(1,2), where k = ?k]) (auto simp: pc)
next
  assume pc: "pc (core_at \<sigma> c) = WriteSection"
  let ?k = "core_at (write_section lcores c ev \<sigma>) c"
  have "core_at (write_section lcores c ev \<sigma>) = (core_at \<sigma>)(c := ?k)" "lock (write_section lcores c ev \<sigma>) = lock \<sigma>"
    "pc ?k = WriteSection \<and> write_state ?k \<or> pc ?k = ReleaseTokens lcores"
    using cores_okD(4) [OF assms(1,2)] pc by (cases ev; auto simp: guarded_update_def unguarded_store_def goto_def)+
  then show "cores_ok is_set lcores (write_section lcores c ev \<sigma>)"
    using assms(3) by (intro cores_ok_stay [OF assms(1,2), where k = ?k]) (auto simp: pc)
qed

lemma step_write_token:
  assumes ok: "atomics_ok A is_set" "cores_ok is_set lcores \<sigma>" and c: "c \<in> set lcores" "distinct lcores"
  shows "pc (core_at \<sigma> c) = TakeWrite \<Longrightarrow>
      cores_ok is_set lcores (goto c (if fst (at_test_and_set A (write_token (lock \<sigma>))) then TakeTokens lcores else TakeWrite)
        (\<sigma>\<lparr>lock := (lock \<sigma>)\<lparr>write_token := snd (at_test_and_set A (write_token (lock \<sigma>)))\<rparr>\<rparr>))"
    "pc (core_at \<sigma> c) = ReleaseWrite \<Longrightarrow>
      cores_ok is_set lcores (goto c Receive (\<sigma>\<lparr>lock := (lock \<sigma>)\<lparr>write_token := at_clear A (write_token (lock \<sigma>))\<rparr>\<rparr>))"
proof -
  have T: "taken is_set ((lock \<sigma>)\<lparr>write_token := w\<rparr>) r = (case r of None \<Rightarrow> is_set w | Some t \<Rightarrow> taken is_set (lock \<sigma>) r)" for w r
    by (cases r) auto
  have A: "fst (at_test_and_set A v) = (\<not> is_set v)" "is_set (snd (at_test_and_set A v))" "\<not> is_set (at_clear A v)" for v
    using ok(1) by (auto simp: atomics_ok_def)
  assume pc: "pc (core_at \<sigma> c) = TakeWrite"
  have m: "write_state (core_at \<sigma> c)" using cores_okD(4) [OF ok(2) c(1)] pc by simp
  show "cores_ok is_set lcores (goto c (if fst (at_test_and_set A (write_token (lock \<sigma>))) then TakeTokens lcores else TakeWrite)
        (\<sigma>\<lparr>lock := (lock \<sigma>)\<lparr>write_token := snd (at_test_and_set A (write_token (lock \<sigma>)))\<rparr>\<rparr>))"
  proof (cases "is_set (write_token (lock \<sigma>))")
    case True
    then show ?thesis
      using pc m by (intro cores_ok_stay [OF ok(2) c(1), where k = "(core_at \<sigma> c)\<lparr>pc := TakeWrite\<rparr>"])
        (auto simp: goto_def A T split: option.splits)
  next
    case False
    then show ?thesis
      using pc m c(2) by (intro cores_ok_acquire [OF ok(2) c(1), where k = "(core_at \<sigma> c)\<lparr>pc := TakeTokens lcores\<rparr>" and r = None])
        (auto simp: goto_def A T resources_def split: option.splits)
  qed
next
  assume pc: "pc (core_at \<sigma> c) = ReleaseWrite"
  have T: "taken is_set ((lock \<sigma>)\<lparr>write_token := at_clear A w\<rparr>) r = (r \<noteq> None \<and> taken is_set (lock \<sigma>) r)" for w r
    using ok(1) by (cases r) (auto simp: atomics_ok_def)
  show "cores_ok is_set lcores (goto c Receive (\<sigma>\<lparr>lock := (lock \<sigma>)\<lparr>write_token := at_clear A (write_token (lock \<sigma>))\<rparr>\<rparr>))"
    using pc by (intro cores_ok_release [OF ok(2) c(1), where k = "(core_at \<sigma> c)\<lparr>pc := Receive\<rparr>" and r = None])
      (auto simp: goto_def T)
qed

lemma worker_step_ok:
  assumes ok: "atomics_ok A is_set" "cores_ok is_set lcores \<sigma>" and c: "c \<in> set lcores" "distinct lcores"
  shows "\<exists>\<sigma>'. worker_step A lcores block c ev \<sigma> = Some \<sigma>' \<and> cores_ok is_set lcores \<sigma>'"
proof (cases "pc (core_at \<sigma> c)")
  case Boot
  then show ?thesis using cores_okD(2) [OF ok(2) c(1)] by simp
next
  case Receive
  then show ?thesis
    by (auto simp: worker_step_def goto_def intro!: cores_ok_stay [OF ok(2) c(1)])
next
  case BlockWrites
  then show ?thesis
    using step_take_token [OF ok c(1) c(1), of ReadSection BlockWrites] cores_okD(4) [OF ok(2) c(1)]
    by (auto simp: worker_step_def)
next
  case ReadSection
  then show ?thesis using step_sections(1) [OF ok(2) c] by (simp add: worker_step_def)
next
  case ClearOwn
  then show ?thesis using step_clear_token [OF ok c(1) c(1), of TakeWrite] cores_okD(4) [OF ok(2) c(1)] by (auto simp: worker_step_def)
next
  case TakeWrite
  then show ?thesis using step_write_token(1) [OF ok c TakeWrite] by (simp add: worker_step_def case_prod_unfold Let_def)
next
  case (TakeTokens ts)
  note ts = cores_okD(2,4) [OF ok(2) c(1), unfolded TakeTokens]
  show ?thesis
  proof (cases ts)
    case Nil
    then show ?thesis
      using TakeTokens ts by (auto simp: worker_step_def goto_def intro!: cores_ok_stay [OF ok(2) c(1)])
  next
    case (Cons t ts')
    then have "holds lcores c (TakeTokens ts') = insert (Some t) (holds lcores c (pc (core_at \<sigma> c)))"
      using TakeTokens ts by auto
    then show ?thesis
      using step_take_token [OF ok c(1), of t "TakeTokens ts'" "TakeTokens ts"] TakeTokens ts Cons
      by (fastforce simp: worker_step_def split: if_splits)
  qed
next
  case WriteSection
  then show ?thesis using step_sections(2) [OF ok(2) c] by (simp add: worker_step_def)
next
  case (ReleaseTokens ts)
  note ts = cores_okD(2) [OF ok(2) c(1), unfolded ReleaseTokens]
  show ?thesis
  proof (cases ts)
    case Nil
    then show ?thesis
      using ReleaseTokens by (auto simp: worker_step_def goto_def intro!: cores_ok_stay [OF ok(2) c(1)])
  next
    case (Cons t ts')
    then show ?thesis
      using step_clear_token [OF ok c(1), of t "ReleaseTokens ts'"] ReleaseTokens ts
      by (fastforce simp: worker_step_def)
  qed
next
  case ReleaseWrite
  then show ?thesis using step_write_token(2) [OF ok c ReleaseWrite] by (simp add: worker_step_def)
next
  case AllowWrites
  then show ?thesis using step_clear_token [OF ok c(1) c(1), of Receive] by (auto simp: worker_step_def)
qed

section \<open>Runs\<close>

text \<open>All cores have set up their worker and take packets.\<close>

definition started :: "'a rte_atomic32 \<Rightarrow> nat list \<Rightarrow> 'a list option \<Rightarrow> ('a, 's, 'u) cores \<Rightarrow> bool" where
  "started A lcores block \<sigma> \<longleftrightarrow>
     (\<exists>l. nf_lock_init A lcores block l = Some (lock \<sigma>)) \<and> (\<forall>c\<in>set lcores. pc (core_at \<sigma> c) = Receive)"

lemma nf_lock_init_loop_clears:
  assumes "nf_lock_init_loop A lcores ts = Some ts'" "atomics_ok A is_set"
  shows "length ts' = length ts \<and> (\<forall>c\<in>set lcores. c < length ts) \<and>
    (\<forall>c. c \<in> set lcores \<or> c < length ts \<and> \<not> is_set (ts ! c) \<longrightarrow> \<not> is_set (ts' ! c))"
  using assms
proof (induction lcores arbitrary: ts)
  case (Cons c lcores)
  from Cons.prems(1) obtain t ts1 where t: "arr_get ts (int c) = Some t" "arr_set ts (int c) (at_init A t) = Some ts1"
    "nf_lock_init_loop A lcores ts1 = Some ts'"
    by (auto simp: bind_Some_conv)
  have c: "c < length ts" "ts1 = ts[c := at_init A t]" using t(1,2) by (auto simp: arr_get_Some_iff arr_set_Some_iff)
  moreover have "\<not> is_set (at_init A t)" using Cons.prems(2) by (simp add: atomics_ok_def)
  ultimately show ?case using Cons.IH [OF t(3) Cons.prems(2)] by (auto simp: nth_list_update)
qed simp

lemma started_ok:
  assumes "atomics_ok A is_set" "started A lcores block \<sigma>"
  shows "cores_ok is_set lcores \<sigma>"
proof -
  from assms(2) obtain l ts where l: "nf_lock_init_loop A lcores ts = Some (tokens (lock \<sigma>))"
    "write_token (lock \<sigma>) = at_init A (write_token l)"
    by (auto simp: started_def nf_lock_init_def bind_Some_conv) (metis nf_lock.select_convs(1,2) nf_lock.surjective nf_lock.update_convs(1,2))
  have "\<not> taken is_set (lock \<sigma>) r" if "r \<in> resources lcores" for r
    using that nf_lock_init_loop_clears [OF l(1) assms(1)] l(2) assms(1)
    by (cases r) (auto simp: resources_def atomics_ok_def)
  then show ?thesis
    using assms(2) nf_lock_init_loop_clears [OF l(1) assms(1)]
    by (auto simp: cores_ok_def started_def intro!: owners_okI)
qed

lemma reaches_ok:
  assumes "reaches A lcores block \<sigma> \<sigma>'" "atomics_ok A is_set" "cores_ok is_set lcores \<sigma>" "distinct lcores"
  shows "cores_ok is_set lcores \<sigma>'"
  using assms
proof (induction rule: reaches.induct)
  case (reaches_step \<sigma>' c ev \<sigma>'')
  then show ?case using worker_step_ok [of A is_set lcores \<sigma>' c block ev] by simp
qed

lemma run_schedule_reaches:
  assumes "run_schedule A lcores block es \<sigma>' = Some \<sigma>''" "reaches A lcores block \<sigma> \<sigma>'" "fst ` set es \<subseteq> set lcores"
  shows "reaches A lcores block \<sigma> \<sigma>''"
  using assms
proof (induction es arbitrary: \<sigma>')
  case (Cons e es)
  obtain c ev where e: "e = (c, ev)" by (cases e)
  then obtain \<tau> where "worker_step A lcores block c ev \<sigma>' = Some \<tau>" "run_schedule A lcores block es \<tau> = Some \<sigma>''"
    using Cons.prems(1) by (auto simp: bind_Some_conv)
  moreover have "c \<in> set lcores" using Cons.prems(3) e by simp
  ultimately show ?case using Cons.IH Cons.prems(2,3) by (auto intro: reaches_step)
qed simp

section \<open>Exclusion\<close>

lemma worker_step_shared:
  assumes "worker_step A lcores block c ev \<sigma> = Some \<sigma>'" "mode_ok (pc (core_at \<sigma> c)) (write_state (core_at \<sigma> c))"
  shows "shared \<sigma>' = shared \<sigma> \<or> pc (core_at \<sigma> c) = WriteSection"
    "entries \<sigma>' = entries \<sigma> \<or> pc (core_at \<sigma> c) = ReadSection \<or> pc (core_at \<sigma> c) = WriteSection"
  using assms
  by (cases ev; auto simp: worker_step_def goto_def guarded_update_def unguarded_store_def bind_Some_conv Let_def
      split: lock_pc.splits list.splits prod.splits)+

lemma sections_exclusive:
  assumes ok: "cores_ok is_set lcores \<sigma>" and c: "c \<in> set lcores" "w \<in> set lcores" "c \<noteq> w"
    and pc: "pc (core_at \<sigma> w) = WriteSection"
  shows "pc (core_at \<sigma> c) \<noteq> ReadSection \<and> pc (core_at \<sigma> c) \<noteq> WriteSection"
proof -
  have "Some c \<notin> holds lcores c (pc (core_at \<sigma> c))" "None \<notin> holds lcores c (pc (core_at \<sigma> c))"
    using owners_okD(2) [OF cores_okD(1) [OF ok] c(1,2)] c pc by auto
  then show ?thesis using c(1) by auto
qed

section \<open>Progress\<close>

fun rank :: "nat \<Rightarrow> lock_pc \<Rightarrow> nat" where
  "rank n Boot = 0"
| "rank n Receive = 0"
| "rank n BlockWrites = 8 + 2 * n"
| "rank n ReadSection = 7 + 2 * n"
| "rank n ClearOwn = 6 + 2 * n"
| "rank n TakeWrite = 5 + 2 * n"
| "rank n (TakeTokens ts) = 4 + n + length ts"
| "rank n WriteSection = 3 + n"
| "rank n (ReleaseTokens ts) = 2 + length ts"
| "rank n ReleaseWrite = 1"
| "rank n AllowWrites = 1"

text \<open>A core that waits for a counter.\<close>

fun waits_for :: "nat \<Rightarrow> lock_pc \<Rightarrow> nat option option" where
  "waits_for c BlockWrites = Some (Some c)"
| "waits_for c TakeWrite = Some None"
| "waits_for c (TakeTokens (t # ts)) = Some (Some t)"
| "waits_for c _ = None"

lemma holder_of:
  assumes "r \<in> holds lcores c p" "waits_for c p = Some r'"
  shows "\<exists>t ts. p = TakeTokens (t # ts)"
  using assms by (cases p; cases "\<exists>t ts. p = TakeTokens (t # ts)") (auto elim: waits_for.elims)

text \<open>While a core is on its way, some core on its way does not wait for a counter that is set.\<close>

lemma some_core_runs:
  assumes ok: "cores_ok is_set lcores \<sigma>" and c: "c \<in> set lcores" "pc (core_at \<sigma> c) \<noteq> Receive"
  shows "\<exists>c\<in>set lcores. pc (core_at \<sigma> c) \<noteq> Receive \<and>
    (\<forall>r. waits_for c (pc (core_at \<sigma> c)) = Some r \<longrightarrow> \<not> taken is_set (lock \<sigma>) r)"
proof (rule ccontr)
  assume "\<not> ?thesis"
  then have stuck: "\<exists>r. waits_for c (pc (core_at \<sigma> c)) = Some r \<and> taken is_set (lock \<sigma>) r"
    if "c \<in> set lcores" "pc (core_at \<sigma> c) \<noteq> Receive" for c using that by blast
  have holder: "\<exists>w\<in>set lcores. \<exists>t ts. r \<in> holds lcores w (pc (core_at \<sigma> w)) \<and> pc (core_at \<sigma> w) = TakeTokens (t # ts)"
    if r: "r \<in> resources lcores" "taken is_set (lock \<sigma>) r" for r
  proof -
    obtain w where w: "w \<in> set lcores" "r \<in> holds lcores w (pc (core_at \<sigma> w))"
      using owners_okD(1) [OF cores_okD(1) [OF ok] r(1)] r(2) by blast
    then have "pc (core_at \<sigma> w) \<noteq> Receive" by auto
    then show ?thesis using w holder_of [OF w(2)] stuck [OF w(1)] by blast
  qed
  have waits: "r \<in> resources lcores" if "c \<in> set lcores" "waits_for c (pc (core_at \<sigma> c)) = Some r" for c r
    using that cores_okD(2) [OF ok that(1)] by (cases "pc (core_at \<sigma> c)") (auto simp: resources_def elim: waits_for.elims)
  obtain r where r: "r \<in> resources lcores" "taken is_set (lock \<sigma>) r" using stuck [OF c] waits [OF c(1)] by blast
  obtain w t ts where w: "w \<in> set lcores" "pc (core_at \<sigma> w) = TakeTokens (t # ts)" using holder [OF r] by blast
  then have t: "Some t \<in> resources lcores" "taken is_set (lock \<sigma>) (Some t)" using stuck [OF w(1)] waits [OF w(1)] by auto
  obtain v t' ts' where v: "v \<in> set lcores" "Some t \<in> holds lcores v (pc (core_at \<sigma> v))" "pc (core_at \<sigma> v) = TakeTokens (t' # ts')"
    using holder [OF t] by blast
  have "v = w" using owners_okD(2) [OF cores_okD(1) [OF ok] v(1) w(1), of None] v(3) w(2) by simp
  then show False using v w by auto
qed

lemma worker_step_rank:
  assumes ok: "atomics_ok A is_set" "cores_ok is_set lcores \<sigma>" and c: "c \<in> set lcores" "pc (core_at \<sigma> c) \<noteq> Receive"
    and free: "\<And>r. waits_for c (pc (core_at \<sigma> c)) = Some r \<Longrightarrow> \<not> taken is_set (lock \<sigma>) r"
    and step: "worker_step A lcores block c (Return 0) \<sigma> = Some \<sigma>'"
  shows "rank (length lcores) (pc (core_at \<sigma>' c)) < rank (length lcores) (pc (core_at \<sigma> c)) \<and>
    (\<forall>c'. c' \<noteq> c \<longrightarrow> core_at \<sigma>' c' = core_at \<sigma> c')"
proof -
  have tas: "token_test_and_set A t (lock \<sigma>) = Some (b, l) \<Longrightarrow> b = (\<not> taken is_set (lock \<sigma>) (Some t))" if "t \<in> set lcores" for t b l
    using token_test_and_set_run [OF ok(1) cores_okD(3) [OF ok(2) that]] by auto
  have wt: "fst (at_test_and_set A (write_token (lock \<sigma>))) = (\<not> taken is_set (lock \<sigma>) None)"
    using ok(1) by (simp add: atomics_ok_def)
  show ?thesis
  proof (cases "pc (core_at \<sigma> c)")
    case Boot
    then show ?thesis using cores_okD(2) [OF ok(2) c(1)] by simp
  next
    case (TakeTokens ts)
    then show ?thesis
      using step free tas cores_okD(2) [OF ok(2) c(1)]
      by (cases ts) (auto simp: worker_step_def goto_def bind_Some_conv)
  next
    case (ReleaseTokens ts)
    then show ?thesis using step by (cases ts) (auto simp: worker_step_def goto_def bind_Some_conv)
  next
    case TakeWrite
    then show ?thesis using step free wt by (auto simp: worker_step_def goto_def case_prod_unfold Let_def)
  next
    case BlockWrites
    then show ?thesis using step free tas [OF c(1)] by (auto simp: worker_step_def goto_def bind_Some_conv)
  qed (use step c in \<open>auto simp: worker_step_def goto_def bind_Some_conv Let_def\<close>)
qed

definition work_left :: "nat list \<Rightarrow> ('a, 's, 'u) cores \<Rightarrow> nat" where
  "work_left lcores \<sigma> = (\<Sum>c\<in>set lcores. rank (length lcores) (pc (core_at \<sigma> c)))"

lemma drains:
  assumes "atomics_ok A is_set" "cores_ok is_set lcores \<sigma>" "distinct lcores"
  shows "\<exists>es \<sigma>'. fst ` set es \<subseteq> set lcores \<and> run_schedule A lcores block es \<sigma> = Some \<sigma>' \<and>
    (\<forall>c\<in>set lcores. pc (core_at \<sigma>' c) = Receive)"
  using assms(2)
proof (induction "work_left lcores \<sigma>" arbitrary: \<sigma> rule: less_induct)
  case less
  show ?case
  proof (cases "\<forall>c\<in>set lcores. pc (core_at \<sigma> c) = Receive")
    case True
    then show ?thesis by (intro exI [of _ "[]"] exI [of _ \<sigma>]) simp
  next
    case False
    then obtain c where c: "c \<in> set lcores" "pc (core_at \<sigma> c) \<noteq> Receive"
      "\<And>r. waits_for c (pc (core_at \<sigma> c)) = Some r \<Longrightarrow> \<not> taken is_set (lock \<sigma>) r"
      using some_core_runs [OF less.prems] by blast
    obtain \<sigma>1 where s1: "worker_step A lcores block c (Return 0) \<sigma> = Some \<sigma>1" "cores_ok is_set lcores \<sigma>1"
      using worker_step_ok [OF assms(1) less.prems c(1) assms(3)] by blast
    have "work_left lcores \<sigma>1 < work_left lcores \<sigma>"
      unfolding work_left_def using worker_step_rank [OF assms(1) less.prems c s1(1)] c(1)
      by (intro sum_strict_mono_ex1) (auto simp: less_imp_le, metis less_or_eq_imp_le order_refl)
    from less.hyps [OF this s1(2)] obtain es \<sigma>' where "fst ` set es \<subseteq> set lcores"
      "run_schedule A lcores block es \<sigma>1 = Some \<sigma>'" "\<forall>c\<in>set lcores. pc (core_at \<sigma>' c) = Receive" by blast
    then show ?thesis using s1(1) c(1) by (intro exI [of _ "(c, Return 0) # es"] exI [of _ \<sigma>']) simp
  qed
qed

section \<open>Two cores\<close>

definition ex_atomics :: "int rte_atomic32" where
  "ex_atomics = \<lparr>at_init = (\<lambda>_. 0), at_clear = (\<lambda>_. 0), at_test_and_set = (\<lambda>v. (v = 0, 1))\<rparr>"

definition ex_cores :: "lock_pc \<Rightarrow> (int, nat, nat) cores" where
  "ex_cores p = \<lparr>lock = \<lparr>tokens = [0, 0], write_token = 0\<rparr>,
     core_at = (\<lambda>c. \<lparr>pc = if c = 0 then Receive else p, write_attempt = False, write_state = False, dst_device = 7\<rparr>), shared = 0, entries = 0\<rparr>"

text \<open>Core 0 receives a packet, asks for the right to write, gets it and changes the tables.\<close>

definition ex_write :: "(nat \<times> (nat, nat) nf_event) list" where
  "ex_write = [(0, Lookup), (0, Lookup), (0, Update 5), (0, Return 1), (0, Lookup), (0, Lookup), (0, Lookup), (0, Lookup), (0, Lookup), (0, Update 5)]"

lemma ex_atomics_ok: "atomics_ok ex_atomics (\<lambda>v. v \<noteq> 0)"
  by (simp add: atomics_ok_def ex_atomics_def)

lemma ex_started: "started ex_atomics [0, 1] (Some [3, 4]) (ex_cores Receive)"
  unfolding started_def
  by (intro conjI exI [of _ "lock (ex_cores Receive)"])
    (simp_all add: ex_cores_def ex_atomics_def nf_lock_init_def run_simps arr_get_def arr_set_def)

lemmas ex_run = ex_write_def worker_step_def ex_cores_def ex_atomics_def goto_def guarded_update_def unguarded_store_def
  token_clear_def token_test_and_set_def nf_lock_init_def arr_get_def arr_set_def

lemma ex_write_run:
  "\<exists>\<sigma>'. run_schedule ex_atomics [0, 1] (Some [3, 4]) (ex_write @ [(1, Lookup)]) (ex_cores Receive) = Some \<sigma>' \<and>
     pc (core_at \<sigma>' 0) = WriteSection \<and> shared \<sigma>' = 5"
  by (simp add: ex_run)

section \<open>Properties\<close>

text \<open>
  C13. The lock excludes, from when all cores have run \<open>nf_lock_init\<close> and are in their loop. In every
  interleaving of their steps from there, no step faults; while a core is in the handler in write mode no other
  core is in the handler, and no step of another core changes the tables or the entries; and while a core is in the handler
  in read mode no step of another core changes the tables that the guarded operations write. The entries that are written
  without a guard are not protected in read mode (\<open>read_mode_store\<close>), and a core that is
  still to run \<open>nf_lock_init\<close> breaks the lock (\<open>nf_lock_init_race\<close>).
\<close>

theorem nf_lock_exclusion:
  assumes "atomics_ok A is_set" "distinct lcores" "started A lcores block \<sigma>" "reaches A lcores block \<sigma> \<sigma>'"
    and "w \<in> set lcores" "c \<in> set lcores" "c \<noteq> w"
    and "pc (core_at \<sigma>' w) = ReadSection \<or> pc (core_at \<sigma>' w) = WriteSection"
  shows "\<exists>\<sigma>''. worker_step A lcores block c ev \<sigma>' = Some \<sigma>'' \<and> shared \<sigma>'' = shared \<sigma>' \<and>
    (pc (core_at \<sigma>' w) = WriteSection \<longrightarrow>
       pc (core_at \<sigma>' c) \<noteq> ReadSection \<and> pc (core_at \<sigma>' c) \<noteq> WriteSection \<and> entries \<sigma>'' = entries \<sigma>')"
proof -
  have ok: "cores_ok is_set lcores \<sigma>'" by (rule reaches_ok [OF assms(4,1) started_ok [OF assms(1,3)] assms(2)])
  have "pc (core_at \<sigma>' c) \<noteq> WriteSection"
    using assms(8) sections_exclusive [OF ok assms(5,6)] sections_exclusive [OF ok assms(6,5,7)] assms(7) by auto
  then show ?thesis
    using worker_step_ok [OF assms(1) ok assms(6,2), of block ev] worker_step_shared [OF _ cores_okD(4) [OF ok assms(6)]]
      sections_exclusive [OF ok assms(6,5,7)] by blast
qed

theorem nf_lock_exclusion_witness:
  "\<exists>\<sigma>' \<sigma>''. run_schedule ex_atomics [0, 1] (Some [3, 4]) (ex_write @ [(1, Lookup)]) (ex_cores Receive) = Some \<sigma>' \<and>
     pc (core_at \<sigma>' 0) = WriteSection \<and> shared \<sigma>' = 5 \<and>
     worker_step ex_atomics [0, 1] (Some [3, 4]) 1 Lookup \<sigma>' = Some \<sigma>'' \<and> shared \<sigma>'' = 5"
proof -
  obtain \<sigma>' where r: "run_schedule ex_atomics [0, 1] (Some [3, 4]) (ex_write @ [(1, Lookup)]) (ex_cores Receive) = Some \<sigma>'"
    "pc (core_at \<sigma>' 0) = WriteSection" "shared \<sigma>' = 5"
    using ex_write_run by blast
  have "reaches ex_atomics [0, 1] (Some [3, 4]) (ex_cores Receive) \<sigma>'"
    by (rule run_schedule_reaches [OF r(1) reaches_refl]) (simp add: ex_write_def)
  from nf_lock_exclusion [OF ex_atomics_ok _ ex_started this, of 0 1 Lookup] r show ?thesis by auto
qed

text \<open>
  C14. The lock never locks up: from every state the cores reach once they have all run \<open>nf_lock_init\<close> there is a continuation, of the
  cores' own steps, after which every core has finished its packet and released the lock.
\<close>

theorem nf_lock_drains:
  assumes "atomics_ok A is_set" "distinct lcores" "started A lcores block \<sigma>" "reaches A lcores block \<sigma> \<sigma>'"
  shows "\<exists>es \<sigma>''. fst ` set es \<subseteq> set lcores \<and> run_schedule A lcores block es \<sigma>' = Some \<sigma>'' \<and>
    (\<forall>c\<in>set lcores. pc (core_at \<sigma>'' c) = Receive)"
  by (rule drains [OF assms(1) reaches_ok [OF assms(4,1) started_ok [OF assms(1,3)] assms(2)] assms(2)])

theorem nf_lock_drains_witness:
  "\<exists>\<sigma>' es \<sigma>''. run_schedule ex_atomics [0, 1] (Some [3, 4]) (ex_write @ [(1, Lookup)]) (ex_cores Receive) = Some \<sigma>' \<and>
     run_schedule ex_atomics [0, 1] (Some [3, 4]) es \<sigma>' = Some \<sigma>'' \<and> pc (core_at \<sigma>'' 0) = Receive \<and> pc (core_at \<sigma>'' 1) = Receive"
proof -
  obtain \<sigma>' where r: "run_schedule ex_atomics [0, 1] (Some [3, 4]) (ex_write @ [(1, Lookup)]) (ex_cores Receive) = Some \<sigma>'"
    using ex_write_run by blast
  have "reaches ex_atomics [0, 1] (Some [3, 4]) (ex_cores Receive) \<sigma>'"
    by (rule run_schedule_reaches [OF r reaches_refl]) (simp add: ex_write_def)
  from nf_lock_drains [OF ex_atomics_ok _ ex_started this] r show ?thesis by auto
qed

text \<open>Two cores in read mode, of which one writes an entry while the other is in the handler.\<close>

lemma read_mode_store:
  "\<exists>\<sigma> \<sigma>'. run_schedule ex_atomics [0, 1] (Some [3, 4]) [(0, Lookup), (0, Lookup), (1, Lookup), (1, Lookup)] (ex_cores Receive) = Some \<sigma> \<and>
     worker_step ex_atomics [0, 1] (Some [3, 4]) 1 (Store 9) \<sigma> = Some \<sigma>' \<and>
     pc (core_at \<sigma> 0) = ReadSection \<and> entries \<sigma> = 0 \<and> entries \<sigma>' = 9"
  by (simp add: ex_run)

text \<open>
  Every worker sets up the lock when it starts. When a second core starts after the first one has taken the
  lock, it forgets who holds it: here core 0 writes the tables while core 1 reads them.
\<close>

lemma nf_lock_init_race:
  "\<exists>\<sigma>. run_schedule ex_atomics [0, 1] (Some [3, 4]) (ex_write @ [(1, Lookup), (1, Lookup), (1, Lookup)]) (ex_cores Boot) = Some \<sigma> \<and>
     pc (core_at \<sigma> 0) = WriteSection \<and> pc (core_at \<sigma> 1) = ReadSection"
  by (simp add: ex_run)

text \<open>
  The decision of the handler in write mode is lost: it returns device 0 and the worker uses device 1, the
  answer of the attempt that was given up.
\<close>

lemma write_result_ignored:
  "\<exists>\<sigma>. run_schedule ex_atomics [0, 1] (Some [3, 4])
       (ex_write @ [(0, Return 0), (0, Lookup), (0, Lookup), (0, Lookup), (0, Lookup)]) (ex_cores Receive) = Some \<sigma> \<and>
     pc (core_at \<sigma> 0) = Receive \<and> shared \<sigma> = 5 \<and> dst_device (core_at \<sigma> 0) = 1"
  by (simp add: ex_run)

end
