(* ===== verification/Dchain_Cores.thy ===== *)
theory Dchain_Cores
  imports Dchain
begin

text \<open>
  The index allocator of the parallel programs: \<open>libvig/unverified/double-chain-locks.c\<close> and
  \<open>double-chain-locks-impl.c\<close>, and their copies \<open>double-chain-tm.c\<close> and \<open>double-chain-tm-impl.c\<close> for
  transactional memory. Every core has its own cells, its own list of the indexes it has used and its own
  time stamps; allocating and freeing change those of all cores. Each function is modelled as it runs on
  one core, \<open>c\<close>, inside its critical section or transaction; \<open>lcores\<close> are the cores in the order of
  \<open>RTE_LCORE_FOREACH\<close>. Where the two copies have the same statements they share a definition.
\<close>

section \<open>Cells\<close>

text \<open>
  The functions \<open>init\<close>, \<open>allocate_new_index\<close>, \<open>free_index\<close>, \<open>rejuvenate_index\<close> and \<open>is_index_allocated\<close> on
  the cells are those of \<open>double-chain-impl.c\<close>, statement by statement.
\<close>

function activity_init_loop :: "dchain_cell list \<Rightarrow> int \<Rightarrow> int \<Rightarrow> dchain_cell list option" where
  "activity_init_loop cells sz i =
     (if i < sz + INDEX_SHIFT then do {
        cells \<leftarrow> set_next cells i FREE_LIST_HEAD;
        n \<leftarrow> get_next cells i;
        cells \<leftarrow> set_prev cells i n;
        activity_init_loop cells sz (i + 1)
      } else Some cells)"
  by pat_completeness auto
termination
  by (relation "measure (\<lambda>(_, sz, i). nat (sz + INDEX_SHIFT - i))") auto

declare activity_init_loop.simps [simp del]

definition dchain_locks_impl_activity_init :: "dchain_cell list \<Rightarrow> int \<Rightarrow> dchain_cell list option" where
  "dchain_locks_impl_activity_init cells sz = do {
     cells \<leftarrow> set_prev cells ALLOC_LIST_HEAD ALLOC_LIST_HEAD;
     cells \<leftarrow> set_next cells ALLOC_LIST_HEAD ALLOC_LIST_HEAD;
     activity_init_loop cells sz INDEX_SHIFT
   }"

definition dchain_locks_impl_activate_index :: "dchain_cell list \<Rightarrow> int \<Rightarrow> (int \<times> dchain_cell list) option" where
  "dchain_locks_impl_activate_index cells index = do {
     lifted \<leftarrow> s32 (index + INDEX_SHIFT);
     lifted_next \<leftarrow> get_next cells lifted;
     lifted_prev \<leftarrow> get_prev cells lifted;
     if lifted_next \<noteq> FREE_LIST_HEAD \<and> lifted_next = ALLOC_LIST_HEAD then Some (0, cells)
     else do {
       cells \<leftarrow> (if lifted_next \<noteq> FREE_LIST_HEAD then do {
           cells \<leftarrow> set_next cells lifted_prev lifted_next;
           set_prev cells lifted_next lifted_prev
         } else Some cells);
       al_head_prev \<leftarrow> get_prev cells ALLOC_LIST_HEAD;
       cells \<leftarrow> set_next cells lifted ALLOC_LIST_HEAD;
       cells \<leftarrow> set_prev cells lifted al_head_prev;
       cells \<leftarrow> set_next cells al_head_prev lifted;
       cells \<leftarrow> set_prev cells ALLOC_LIST_HEAD lifted;
       Some (1, cells)
     }
   }"

definition dchain_locks_impl_deactivate_index :: "dchain_cell list \<Rightarrow> int \<Rightarrow> (int \<times> dchain_cell list) option" where
  "dchain_locks_impl_deactivate_index cells index = do {
     freed \<leftarrow> s32 (index + INDEX_SHIFT);
     freed_prev \<leftarrow> get_prev cells freed;
     freed_next \<leftarrow> get_next cells freed;
     if freed_next = FREE_LIST_HEAD then Some (0, cells)
     else do {
       cells \<leftarrow> set_next cells freed_prev freed_next;
       cells \<leftarrow> set_prev cells freed_next freed_prev;
       cells \<leftarrow> set_next cells freed FREE_LIST_HEAD;
       n \<leftarrow> get_next cells freed;
       cells \<leftarrow> set_prev cells freed n;
       Some (1, cells)
     }
   }"

definition dchain_locks_impl_is_index_active :: "dchain_cell list \<Rightarrow> int \<Rightarrow> bool option" where
  "dchain_locks_impl_is_index_active cells index = do {
     n \<leftarrow> get_next cells (index + INDEX_SHIFT);
     Some (n \<noteq> FREE_LIST_HEAD)
   }"

definition dchain_locks_impl_next :: "dchain_cell list \<Rightarrow> int \<Rightarrow> int \<Rightarrow> (int \<times> int) option" where
  "dchain_locks_impl_next cells index next = do {
     n \<leftarrow> get_next cells (index + INDEX_SHIFT);
     if n = ALLOC_LIST_HEAD then Some (0, next)
     else do {
       next \<leftarrow> s32 (n - INDEX_SHIFT);
       Some (1, next)
     }
   }"

definition dchain_locks_impl_get_oldest_index :: "dchain_cell list \<Rightarrow> int \<Rightarrow> (int \<times> int) option" where
  "dchain_locks_impl_get_oldest_index cells index = do {
     n \<leftarrow> get_next cells ALLOC_LIST_HEAD;
     p \<leftarrow> get_prev cells ALLOC_LIST_HEAD;
     if n = p \<and> n = ALLOC_LIST_HEAD then Some (0, index)
     else do {
       index \<leftarrow> s32 (n - INDEX_SHIFT);
       Some (1, index)
     }
   }"

definition dchain_locks_impl_reposition_index :: "dchain_cell list \<Rightarrow> int \<Rightarrow> int \<Rightarrow> (int \<times> dchain_cell list) option" where
  "dchain_locks_impl_reposition_index cells index new_prev_index = do {
     lifted \<leftarrow> s32 (index + INDEX_SHIFT);
     lifted_next \<leftarrow> get_next cells lifted;
     lifted_prev \<leftarrow> get_prev cells lifted;
     if lifted_next = lifted_prev \<and> lifted_next \<noteq> ALLOC_LIST_HEAD then Some (0, cells)
     else do {
       cells \<leftarrow> set_next cells lifted_prev lifted_next;
       cells \<leftarrow> set_prev cells lifted_next lifted_prev;
       new_prev \<leftarrow> s32 (new_prev_index + INDEX_SHIFT);
       new_prev_next \<leftarrow> get_next cells new_prev;
       cells \<leftarrow> set_prev cells lifted new_prev;
       cells \<leftarrow> set_next cells lifted new_prev_next;
       cells \<leftarrow> set_prev cells new_prev_next lifted;
       cells \<leftarrow> set_next cells new_prev lifted;
       Some (1, cells)
     }
   }"

definition dchain_tm_impl_reposition_index :: "dchain_cell list \<Rightarrow> int \<Rightarrow> int \<Rightarrow> (int \<times> dchain_cell list) option" where
  "dchain_tm_impl_reposition_index cells index new_prev_index = do {
     cassert (new_prev_index \<ge> 0);
     dchain_locks_impl_reposition_index cells index new_prev_index
   }"

section \<open>Chains\<close>

record lcore_chain =
  lc_cells :: "dchain_cell list"
  lc_active :: "dchain_cell list"
  lc_times :: "vigor_time list"

type_synonym DoubleChainLocks = "nat \<Rightarrow> lcore_chain"

text \<open>
  Allocation takes three blocks for every core; \<open>rte_malloc\<close> is the allocator of \<open>Heap_Alloc\<close>. The sizes
  of a cell and of a time stamp are 8 for the lock and 64, the size of a cache line, for transactions.
  When a block is missing the blocks of this core are released, but not those of the cores before it.
\<close>

fun cores_alloc_loop ::
  "int \<Rightarrow> int \<Rightarrow> (nat \<Rightarrow> nat \<Rightarrow> dchain_cell) \<Rightarrow> (nat \<Rightarrow> nat \<Rightarrow> dchain_cell) \<Rightarrow> nat \<Rightarrow> nat list \<Rightarrow> DoubleChainLocks \<Rightarrow> heap
   \<Rightarrow> (int \<times> DoubleChainLocks \<times> heap) option" where
  "cores_alloc_loop cell_size index_range raw_cells raw_active chain_alloc [] chain h = Some (1, chain, h)"
| "cores_alloc_loop cell_size index_range raw_cells raw_active chain_alloc (l # lcores) chain h = do {
     n \<leftarrow> s32 (index_range + INDEX_SHIFT);
     case malloc (size_t (cell_size * n)) h of
       (None, h) \<Rightarrow> do { h \<leftarrow> free chain_alloc h; Some (0, chain, h) }
     | (Some cells_alloc, h) \<Rightarrow>
         (case malloc (size_t (cell_size * n)) h of
            (None, h) \<Rightarrow> do { h \<leftarrow> free cells_alloc h; h \<leftarrow> free chain_alloc h; Some (0, chain, h) }
          | (Some active_cells_alloc, h) \<Rightarrow> do {
              active \<leftarrow> dchain_locks_impl_activity_init (map (raw_active l) [0..<size_t (cell_size * n) div nat cell_size]) index_range;
              case malloc (size_t (cell_size * index_range)) h of
                (None, h) \<Rightarrow> do {
                  h \<leftarrow> free cells_alloc h;
                  h \<leftarrow> free active_cells_alloc h;
                  h \<leftarrow> free chain_alloc h;
                  Some (0, chain, h)
                }
              | (Some timestamps_alloc, h) \<Rightarrow> do {
                  let times = replicate (nat index_range) (- 1);
                  cells \<leftarrow> dchain_impl_init (map (raw_cells l) [0..<size_t (cell_size * n) div nat cell_size]) index_range;
                  cores_alloc_loop cell_size index_range raw_cells raw_active chain_alloc lcores
                    (chain(l := \<lparr>lc_cells = cells, lc_active = active, lc_times = times\<rparr>)) h
                }
            })
   }"

definition cores_allocate ::
  "int \<Rightarrow> nat \<Rightarrow> nat list \<Rightarrow> int \<Rightarrow> (nat \<Rightarrow> nat \<Rightarrow> dchain_cell) \<Rightarrow> (nat \<Rightarrow> nat \<Rightarrow> dchain_cell) \<Rightarrow> DoubleChainLocks
   \<Rightarrow> DoubleChainLocks option \<Rightarrow> heap \<Rightarrow> (int \<times> DoubleChainLocks option \<times> heap) option" where
  "cores_allocate cell_size struct_size lcores index_range raw_cells raw_active raw chain_out h =
     (case malloc struct_size h of
        (None, h) \<Rightarrow> Some (0, chain_out, h)
      | (Some chain_alloc, h) \<Rightarrow> do {
          (ret, chain, h) \<leftarrow> cores_alloc_loop cell_size index_range raw_cells raw_active chain_alloc lcores raw h;
          Some (ret, if ret \<noteq> 0 then Some chain else chain_out, h)
        })"

definition dchain_locks_allocate ::
  "nat \<Rightarrow> nat list \<Rightarrow> int \<Rightarrow> (nat \<Rightarrow> nat \<Rightarrow> dchain_cell) \<Rightarrow> (nat \<Rightarrow> nat \<Rightarrow> dchain_cell) \<Rightarrow> DoubleChainLocks
   \<Rightarrow> DoubleChainLocks option \<Rightarrow> heap \<Rightarrow> (int \<times> DoubleChainLocks option \<times> heap) option" where
  "dchain_locks_allocate = cores_allocate 8"

definition dchain_tm_allocate ::
  "nat \<Rightarrow> nat list \<Rightarrow> int \<Rightarrow> (nat \<Rightarrow> nat \<Rightarrow> dchain_cell) \<Rightarrow> (nat \<Rightarrow> nat \<Rightarrow> dchain_cell) \<Rightarrow> DoubleChainLocks
   \<Rightarrow> DoubleChainLocks option \<Rightarrow> heap \<Rightarrow> (int \<times> DoubleChainLocks option \<times> heap) option" where
  "dchain_tm_allocate = cores_allocate 64"

fun cores_allocate_loop :: "nat list \<Rightarrow> DoubleChainLocks \<Rightarrow> int \<Rightarrow> vigor_time \<Rightarrow> int \<Rightarrow> (int \<times> int \<times> DoubleChainLocks) option" where
  "cores_allocate_loop [] chain index_out time ret = Some (ret, index_out, chain)"
| "cores_allocate_loop (l # lcores) chain index_out time ret = do {
     (new_ret, index_out, cells) \<leftarrow> dchain_impl_allocate_new_index (lc_cells (chain l)) index_out;
     let r = (chain l)\<lparr>lc_cells := cells\<rparr>;
     r \<leftarrow> (if new_ret \<noteq> 0 then do {
         ts \<leftarrow> arr_set (lc_times r) index_out time;
         Some (r\<lparr>lc_times := ts\<rparr>)
       } else Some r);
     cores_allocate_loop lcores (chain(l := r)) index_out time new_ret
   }"

definition dchain_tm_allocate_new_index ::
  "nat list \<Rightarrow> nat \<Rightarrow> DoubleChainLocks \<Rightarrow> int \<Rightarrow> vigor_time \<Rightarrow> (int \<times> int \<times> DoubleChainLocks) option" where
  "dchain_tm_allocate_new_index lcores c chain index_out time = do {
     (ret, index_out, chain) \<leftarrow> cores_allocate_loop lcores chain index_out time (- 1);
     if ret \<noteq> 0 then do {
       (_, act) \<leftarrow> dchain_locks_impl_activate_index (lc_active (chain c)) index_out;
       Some (ret, index_out, chain(c := (chain c)\<lparr>lc_active := act\<rparr>))
     } else Some (ret, index_out, chain)
   }"

definition dchain_tm_rejuvenate_index :: "nat \<Rightarrow> DoubleChainLocks \<Rightarrow> int \<Rightarrow> vigor_time \<Rightarrow> (int \<times> DoubleChainLocks) option" where
  "dchain_tm_rejuvenate_index c chain index time = do {
     (ret, cells) \<leftarrow> dchain_impl_rejuvenate_index (lc_cells (chain c)) index;
     let r = (chain c)\<lparr>lc_cells := cells\<rparr>;
     if ret \<noteq> 0 then do {
       ts \<leftarrow> arr_set (lc_times r) index time;
       (_, act) \<leftarrow> dchain_locks_impl_activate_index (lc_active r) index;
       Some (ret, chain(c := r\<lparr>lc_times := ts, lc_active := act\<rparr>))
     } else Some (ret, chain(c := r))
   }"

text \<open>The search for the place of a new time stamp follows the cells and may not end when they do not.\<close>

partial_function (option) update_timestamp_loop ::
  "dchain_cell list \<Rightarrow> vigor_time list \<Rightarrow> int \<Rightarrow> vigor_time \<Rightarrow> int \<Rightarrow> vigor_time \<Rightarrow> int \<Rightarrow> int option" where
  "update_timestamp_loop cells ts index time prev prev_time next = do {
     (more, next) \<leftarrow> dchain_locks_impl_next cells prev next;
     if more \<noteq> 0 then do {
       next_time \<leftarrow> arr_get ts next;
       if prev_time \<le> time \<and> time \<le> next_time \<and> index \<noteq> prev then Some prev
       else update_timestamp_loop cells ts index time next next_time next
     } else Some (- 1)
   }"

declare update_timestamp_loop.simps [code]

definition cores_update_timestamp ::
  "(dchain_cell list \<Rightarrow> int \<Rightarrow> int \<Rightarrow> (int \<times> dchain_cell list) option)
   \<Rightarrow> nat \<Rightarrow> DoubleChainLocks \<Rightarrow> int \<Rightarrow> vigor_time \<Rightarrow> (int \<times> DoubleChainLocks) option" where
  "cores_update_timestamp reposition c chain index time = do {
     prev_time \<leftarrow> arr_get (lc_times (chain c)) index;
     new_prev \<leftarrow> update_timestamp_loop (lc_cells (chain c)) (lc_times (chain c)) index time index prev_time 0;
     (ret, cells) \<leftarrow> (if new_prev = - 1 then dchain_impl_rejuvenate_index (lc_cells (chain c)) index
        else reposition (lc_cells (chain c)) index new_prev);
     Some (ret, chain(c := (chain c)\<lparr>lc_cells := cells\<rparr>))
   }"

definition dchain_locks_update_timestamp :: "nat \<Rightarrow> DoubleChainLocks \<Rightarrow> int \<Rightarrow> vigor_time \<Rightarrow> (int \<times> DoubleChainLocks) option" where
  "dchain_locks_update_timestamp = cores_update_timestamp dchain_locks_impl_reposition_index"

definition dchain_tm_update_timestamp :: "nat \<Rightarrow> DoubleChainLocks \<Rightarrow> int \<Rightarrow> vigor_time \<Rightarrow> (int \<times> DoubleChainLocks) option" where
  "dchain_tm_update_timestamp = cores_update_timestamp dchain_tm_impl_reposition_index"

definition dchain_tm_is_index_allocated :: "nat \<Rightarrow> DoubleChainLocks \<Rightarrow> int \<Rightarrow> int option" where
  "dchain_tm_is_index_allocated c chain index = dchain_impl_is_index_allocated (lc_cells (chain c)) index"

fun cores_free_loop :: "nat list \<Rightarrow> DoubleChainLocks \<Rightarrow> int \<Rightarrow> int \<Rightarrow> (int \<times> DoubleChainLocks) option" where
  "cores_free_loop [] chain index rez = Some (rez, chain)"
| "cores_free_loop (l # lcores) chain index rez = do {
     (new_rez, cells) \<leftarrow> dchain_impl_free_index (lc_cells (chain l)) index;
     (_, act) \<leftarrow> dchain_locks_impl_deactivate_index (lc_active (chain l)) index;
     ts \<leftarrow> arr_set (lc_times (chain l)) index (- 1);
     cores_free_loop lcores (chain(l := \<lparr>lc_cells = cells, lc_active = act, lc_times = ts\<rparr>)) index new_rez
   }"

definition dchain_tm_free_index :: "nat list \<Rightarrow> DoubleChainLocks \<Rightarrow> int \<Rightarrow> (int \<times> DoubleChainLocks) option" where
  "dchain_tm_free_index lcores chain index = cores_free_loop lcores chain index (- 1)"

fun most_recent_loop :: "nat list \<Rightarrow> DoubleChainLocks \<Rightarrow> int \<Rightarrow> vigor_time \<Rightarrow> vigor_time option" where
  "most_recent_loop [] chain index most_recent = Some most_recent"
| "most_recent_loop (l # lcores) chain index most_recent = do {
     t \<leftarrow> arr_get (lc_times (chain l)) index;
     most_recent_loop lcores chain index (if t > most_recent then t else most_recent)
   }"

definition cores_expire_one_index ::
  "(nat \<Rightarrow> DoubleChainLocks \<Rightarrow> int \<Rightarrow> vigor_time \<Rightarrow> (int \<times> DoubleChainLocks) option)
   \<Rightarrow> bool \<Rightarrow> nat list \<Rightarrow> nat \<Rightarrow> DoubleChainLocks \<Rightarrow> int \<Rightarrow> vigor_time \<Rightarrow> (bool \<times> int \<times> int \<times> DoubleChainLocks) option" where
  "cores_expire_one_index update_timestamp write_state lcores c chain index_out time = do {
     (has_ind, index_out) \<leftarrow> dchain_locks_impl_get_oldest_index (lc_active (chain c)) index_out;
     if has_ind \<noteq> 0 then do {
       t \<leftarrow> arr_get (lc_times (chain c)) index_out;
       if t > - 1 \<and> t < time then
         if \<not> write_state then Some (True, 1, index_out, chain)
         else do {
           most_recent \<leftarrow> most_recent_loop lcores chain index_out (- 1);
           (ret, chain) \<leftarrow> (if most_recent \<ge> time then update_timestamp c chain index_out most_recent
              else dchain_tm_free_index lcores chain index_out);
           Some (False, ret, index_out, chain)
         }
       else Some (False, 0, index_out, chain)
     } else Some (False, 0, index_out, chain)
   }"

definition dchain_tm_expire_one_index ::
  "nat list \<Rightarrow> nat \<Rightarrow> DoubleChainLocks \<Rightarrow> int \<Rightarrow> vigor_time \<Rightarrow> (int \<times> int \<times> DoubleChainLocks) option" where
  "dchain_tm_expire_one_index lcores c chain index_out time = do {
     (_, ret, index_out, chain) \<leftarrow> cores_expire_one_index dchain_tm_update_timestamp True lcores c chain index_out time;
     Some (ret, index_out, chain)
   }"

text \<open>
  The functions for the lock ask for the right to write. \<open>write_state\<close> says that the core has it; the
  flag returned first is what is stored in \<open>write_attempt\<close>.
\<close>

definition dchain_locks_allocate_new_index ::
  "bool \<Rightarrow> nat list \<Rightarrow> nat \<Rightarrow> DoubleChainLocks \<Rightarrow> int \<Rightarrow> vigor_time \<Rightarrow> (bool \<times> int \<times> int \<times> DoubleChainLocks) option" where
  "dchain_locks_allocate_new_index write_state lcores c chain index_out time =
     (if \<not> write_state then Some (True, 1, index_out, chain)
      else do {
        (ret, index_out, chain) \<leftarrow> dchain_tm_allocate_new_index lcores c chain index_out time;
        Some (False, ret, index_out, chain)
      })"

definition dchain_locks_rejuvenate_index :: "nat \<Rightarrow> DoubleChainLocks \<Rightarrow> int \<Rightarrow> vigor_time \<Rightarrow> (int \<times> DoubleChainLocks) option" where
  "dchain_locks_rejuvenate_index = dchain_tm_rejuvenate_index"

definition dchain_locks_expire_one_index ::
  "bool \<Rightarrow> nat list \<Rightarrow> nat \<Rightarrow> DoubleChainLocks \<Rightarrow> int \<Rightarrow> vigor_time \<Rightarrow> (bool \<times> int \<times> int \<times> DoubleChainLocks) option" where
  "dchain_locks_expire_one_index = cores_expire_one_index dchain_locks_update_timestamp"

definition dchain_locks_is_index_allocated :: "nat \<Rightarrow> DoubleChainLocks \<Rightarrow> int \<Rightarrow> int option" where
  "dchain_locks_is_index_allocated = dchain_tm_is_index_allocated"

definition dchain_locks_free_index ::
  "bool \<Rightarrow> nat list \<Rightarrow> DoubleChainLocks \<Rightarrow> int \<Rightarrow> (bool \<times> int \<times> DoubleChainLocks) option" where
  "dchain_locks_free_index write_state lcores chain index =
     (if \<not> write_state then Some (True, 1, chain)
      else do {
        (rez, chain) \<leftarrow> dchain_tm_free_index lcores chain index;
        Some (False, rez, chain)
      })"

section \<open>Rings\<close>

text \<open>The cells \<open>xs\<close>, in this order, linked in both directions with the head 0.\<close>

definition ring :: "(int \<Rightarrow> int) \<Rightarrow> (int \<Rightarrow> int) \<Rightarrow> int list \<Rightarrow> bool" where
  "ring f g xs \<longleftrightarrow> distinct xs \<and> 0 \<notin> set xs \<and> path f (0 # xs @ [0]) \<and> path g (0 # rev xs @ [0])"

lemma ring_read:
  assumes "ring f g (us @ x # ws)"
  shows "f x = hd (ws @ [0])" "g x = last (0 # us)"
proof -
  have "path f ((0 # us) @ x # ws @ [0])" "path g ((0 # rev ws) @ x # rev us @ [0])"
    using assms by (simp_all add: ring_def)
  then have "path f (x # ws @ [0])" "path g (x # rev us @ [0])" by (metis path_append)+
  then show "f x = hd (ws @ [0])" "g x = last (0 # us)"
    by (cases ws; cases us rule: rev_cases; simp)+
qed

lemma ring_heads:
  assumes "ring f g xs"
  shows "f 0 = hd (xs @ [0])" "g 0 = last (0 # xs)"
  using assms by (cases xs rule: rev_cases; simp add: ring_def path_Cons)+

lemma ring_ends:
  assumes "ring f g (us @ x # ws)"
  shows "last (0 # us) \<in> insert 0 (set us)" "hd (ws @ [0]) \<in> insert 0 (set ws)"
    "last (0 # us) \<noteq> x" "hd (ws @ [0]) \<noteq> x"
proof -
  show m: "last (0 # us) \<in> insert 0 (set us)" "hd (ws @ [0]) \<in> insert 0 (set ws)"
    by (cases us rule: rev_cases; cases ws; simp)+
  have "x \<notin> insert 0 (set us)" "x \<notin> insert 0 (set ws)" using assms by (auto simp: ring_def)
  with m show "last (0 # us) \<noteq> x" "hd (ws @ [0]) \<noteq> x" by metis+
qed

lemma ring_frame:
  assumes "ring f g xs" "y \<noteq> 0" "y \<notin> set xs"
  shows "ring (f(y := v)) (g(y := w)) xs"
  using assms by (simp add: ring_def butlast_append)

lemma ring_unlink:
  assumes "ring f g (us @ x # ws)"
  shows "ring (f(last (0 # us) := hd (ws @ [0]))) (g(hd (ws @ [0]) := last (0 # us))) (us @ ws)"
proof -
  have d: "distinct (us @ x # ws)" "0 \<notin> set (us @ x # ws)" "path f (0 # us @ x # ws @ [0])" "path g (0 # rev ws @ x # rev us @ [0])"
    using assms by (simp_all add: ring_def)
  have rev: "last (0 # rev ws) = hd (ws @ [0])" "hd (rev us @ [0]) = last (0 # us)"
    by (cases ws; cases us rule: rev_cases; simp)+
  show ?thesis
    unfolding ring_def using d(1,2) path_unlink [OF d(3)] path_unlink [OF d(4)]
    by (simp add: rev Int_commute Int_Un_distrib del: last.simps)
qed

lemma ring_append:
  assumes "ring f g xs" "x \<noteq> 0" "x \<notin> set xs"
  shows "ring (f(x := 0, last (0 # xs) := x)) (g(x := last (0 # xs), 0 := x)) (xs @ [x])"
proof -
  have d: "distinct xs" "0 \<notin> set xs" "path f (0 # xs @ [0])" "path g (0 # rev xs @ [0])"
    using assms(1) by (simp_all add: ring_def)
  have "path (f(x := 0, last (0 # xs) := x)) (0 # xs @ [x, 0])"
    using path_snoc_link [OF d(3)] d(1,2) assms(2,3) by simp
  moreover have "path (g(x := last (0 # xs), 0 := x)) (0 # x # rev xs @ [0])"
    using d assms(2,3) by (cases xs rule: rev_cases) (simp_all add: path_Cons butlast_append)
  ultimately show ?thesis using d(1,2) assms(2,3) by (simp add: ring_def)
qed

text \<open>A cell put behind the cell \<open>p\<close>.\<close>

lemma path_insert:
  assumes "path f (A @ p # q # B)" "p \<notin> set A \<union> set (butlast (q # B))" "x \<notin> insert p (set A \<union> set (butlast (q # B)))"
  shows "path (f(x := q, p := x)) (A @ p # x # q # B)"
proof -
  have "path f (A @ [p])" "path f (q # B)" using assms(1) path_append [of f A p "q # B"] by auto
  then have "path (f(x := q, p := x)) (A @ [p])" "path (f(x := q, p := x)) (q # B)"
    using assms(2,3) by (auto simp: butlast_append)
  then show ?thesis using assms(3) path_append [of "f(x := q, p := x)" A p "x # q # B"] by auto
qed

lemma ring_insert:
  assumes "ring f g (us @ p # ws)" "x \<noteq> 0" "x \<notin> set (us @ p # ws)"
  shows "ring (f(x := hd (ws @ [0]), p := x)) (g(x := p, hd (ws @ [0]) := x)) (us @ p # x # ws)"
proof -
  have d: "distinct (us @ p # ws)" "0 \<notin> set (us @ p # ws)" "path f ((0 # us) @ p # ws @ [0])" "path g (0 # rev ws @ p # rev us @ [0])"
    using assms(1) by (simp_all add: ring_def)
  show ?thesis
  proof (cases ws)
    case Nil
    then show ?thesis
      using d assms(2,3) path_insert [of f "0 # us" p 0 "[]" x] path_insert [of g "[]" 0 p "rev us @ [0]" x]
      by (simp add: ring_def butlast_append)
  next
    case (Cons w ws')
    then show ?thesis
      using d assms(2,3) path_insert [of f "0 # us" p w "ws' @ [0]" x] path_insert [of g "0 # rev ws'" w p "rev us @ [0]" x]
      by (auto simp: ring_def butlast_append)
  qed
qed

section \<open>The list of the active indexes\<close>

definition active_links :: "dchain_cell list \<Rightarrow> int list \<Rightarrow> int \<Rightarrow> bool" where
  "active_links cells act n \<longleftrightarrow>
     0 < n \<and> n + 2 < 2 ^ 31 \<and> int (length cells) = n + 2 \<and> set act \<subseteq> {2..n + 1} \<and>
     ring (nx cells) (pv cells) act \<and> (\<forall>x\<in>{2..n + 1} - set act. nx cells x = 1)"

lemma active_read:
  assumes "active_links cells (us @ x # ws) n"
  shows "2 \<le> x" "x < n + 2" "nx cells x = hd (ws @ [0])" "pv cells x = last (0 # us)" "nx cells x \<noteq> 1" "nx cells x \<noteq> x" "pv cells x \<noteq> x"
    "0 \<le> nx cells x" "nx cells x < n + 2" "0 \<le> pv cells x" "pv cells x < n + 2"
    "nx cells x = 0 \<longleftrightarrow> ws = []" "n + 2 < 2 ^ 31" "int (length cells) = n + 2"
proof -
  have r: "ring (nx cells) (pv cells) (us @ x # ws)" and m: "set (us @ x # ws) \<subseteq> {2..n + 1}" "0 < n"
    using assms by (simp_all add: active_links_def)
  note rd = ring_read [OF r] ring_ends [OF r]
  show "nx cells x = hd (ws @ [0])" "pv cells x = last (0 # us)" by (rule rd)+
  have nx: "nx cells x \<in> insert 0 {2..n + 1}" and pv: "pv cells x \<in> insert 0 {2..n + 1}"
    using rd m(1) by (auto simp del: last.simps)
  show "2 \<le> x" "x < n + 2" using m(1) by auto
  show "nx cells x \<noteq> 1" "0 \<le> nx cells x" "nx cells x < n + 2" "0 \<le> pv cells x" "pv cells x < n + 2" using nx pv m(2) by auto
  show "nx cells x \<noteq> x" "pv cells x \<noteq> x" using rd by metis+
  show "nx cells x = 0 \<longleftrightarrow> ws = []" using rd(1) m(1) by (cases ws) auto
  show "n + 2 < 2 ^ 31" "int (length cells) = n + 2" using assms by (simp_all add: active_links_def)
qed

lemma active_head:
  assumes "active_links cells act n"
  shows "nx cells 0 = hd (act @ [0])" "pv cells 0 = last (0 # act)" "0 \<le> pv cells 0" "pv cells 0 < n + 2"
proof -
  have r: "ring (nx cells) (pv cells) act" and m: "set act \<subseteq> {2..n + 1}" "0 < n"
    using assms by (simp_all add: active_links_def)
  show "nx cells 0 = hd (act @ [0])" "pv cells 0 = last (0 # act)" by (rule ring_heads [OF r])+
  moreover have "last (0 # act) \<in> insert 0 (set act)" by simp
  ultimately have "pv cells 0 \<in> insert 0 {2..n + 1}" using m(1) by auto
  then show "0 \<le> pv cells 0" "pv cells 0 < n + 2" using m(2) by auto
qed

lemma active_unlink:
  assumes act: "active_links cells (us @ x # ws) n" and u: "u = upd_prev (upd_next cells (pv cells x) (nx cells x)) (nx cells x) (pv cells x)"
  shows "ring (nx u) (pv u) (us @ ws)" "set (us @ ws) \<subseteq> {2..n + 1}" "x \<notin> set (us @ ws)"
    "\<And>y. y \<in> {2..n + 1} - set (us @ x # ws) \<Longrightarrow> nx u y = 1" "int (length u) = n + 2"
proof -
  have r: "ring (nx cells) (pv cells) (us @ x # ws)" and m: "set (us @ x # ws) \<subseteq> {2..n + 1}"
    and fr: "\<forall>y\<in>{2..n + 1} - set (us @ x # ws). nx cells y = 1" and len: "int (length cells) = n + 2"
    using act by (simp_all add: active_links_def)
  note rd = active_read(3,4) [OF act]
  have nxu: "nx u = (nx cells)(pv cells x := nx cells x)" and pvu: "pv u = (pv cells)(nx cells x := pv cells x)"
    using active_read(8-11) [OF act] len by (simp_all add: u)
  show "ring (nx u) (pv u) (us @ ws)" unfolding nxu pvu rd by (rule ring_unlink [OF r])
  show "set (us @ ws) \<subseteq> {2..n + 1}" "x \<notin> set (us @ ws)" using m r by (auto simp: ring_def)
  show "nx u y = 1" if "y \<in> {2..n + 1} - set (us @ x # ws)" for y
    using fr that ring_ends(1) [OF r] by (auto simp: nxu rd(2) simp del: last.simps)
  show "int (length u) = n + 2" using len by (simp add: u)
qed

lemma get_oldest_active:
  assumes "active_links cells act n"
  shows "dchain_locks_impl_get_oldest_index cells index = Some (if act = [] then (0, index) else (1, hd act - 2))"
proof -
  have b: "0 < n" "n + 2 < 2 ^ 31" "int (length cells) = n + 2" "set act \<subseteq> {2..n + 1}"
    using assms by (simp_all add: active_links_def)
  show ?thesis
    using b active_head [OF assms] by (cases act) (auto simp: dchain_locks_impl_get_oldest_index_def run_simps)
qed

lemma activate_run:
  assumes act: "active_links cells act n" and x: "2 \<le> x" "x < n + 2"
  shows "\<exists>ret cells'. dchain_locks_impl_activate_index cells (x - 2) = Some (ret, cells') \<and> active_links cells' (remove1 x act @ [x]) n"
proof (cases "x \<in> set act")
  case False
  note h = active_head [OF act]
  have b: "0 < n" "n + 2 < 2 ^ 31" "int (length cells) = n + 2" "nx cells x = 1" "ring (nx cells) (pv cells) act" "set act \<subseteq> {2..n + 1}"
    "\<forall>y\<in>{2..n + 1} - set act. nx cells y = 1"
    using act x False by (auto simp: active_links_def)
  let ?e = "pv cells 0"
  let ?c = "upd_prev (upd_next (upd_prev (upd_next cells x 0) x ?e) ?e x) 0 x"
  have "dchain_locks_impl_activate_index cells (x - 2) = Some (1, ?c)"
    using b x h by (simp add: dchain_locks_impl_activate_index_def run_simps)
  moreover have "?e \<in> insert 0 (set act)" using h(2) by simp
  then have "active_links ?c (remove1 x act @ [x]) n"
    using b x h(3,4) False ring_append [OF b(5), of x] by (auto simp: active_links_def remove1_idem h(2) simp del: last.simps)
  ultimately show ?thesis by blast
next
  case True
  then obtain us ws where ac: "act = us @ x # ws" "x \<notin> set us" by (meson split_list_first)
  note rd = active_read [OF act [unfolded ac]]
  have rm: "remove1 x act @ [x] = us @ ws @ [x]" using ac by (simp add: remove1_append)
  show ?thesis
  proof (cases "ws = []")
    case True
    then show ?thesis
      using rd act rm ac by (auto simp: dchain_locks_impl_activate_index_def run_simps)
  next
    case False
    define u where "u = upd_prev (upd_next cells (pv cells x) (nx cells x)) (nx cells x) (pv cells x)"
    note u = active_unlink [OF act [unfolded ac] u_def]
    define e where "e = pv u 0"
    have e: "e = last (0 # us @ ws)" using ring_heads(2) [OF u(1)] by (simp add: e_def)
    then have em: "e \<in> insert 0 (set (us @ ws))" using last_in_set [of "0 # us @ ws"] by (simp del: last.simps)
    then have eb: "0 \<le> e" "e < n + 2" using u(2) x by auto
    let ?c = "upd_prev (upd_next (upd_prev (upd_next u x 0) x e) e x) 0 x"
    have "dchain_locks_impl_activate_index cells (x - 2) = Some (1, ?c)"
      using rd(5,8-14) x eb False u(5)
      by (simp add: dchain_locks_impl_activate_index_def run_simps u_def [symmetric] e_def [symmetric] del: nx_upd)
    moreover have nxc: "nx ?c = (nx u)(x := 0, e := x)" "pv ?c = (pv u)(x := e, 0 := x)"
      using x eb u(5) by simp_all
    have "ring (nx ?c) (pv ?c) (us @ ws @ [x])" using ring_append [OF u(1), of x] x u(3) unfolding nxc e [symmetric] by simp
    then have "active_links ?c (us @ ws @ [x]) n"
      using u(2-5) em x rd(13) unfolding active_links_def nxc(1) by auto
    ultimately show ?thesis unfolding rm by blast
  qed
qed

lemma deactivate_run:
  assumes act: "active_links cells act n" and x: "2 \<le> x" "x < n + 2"
  shows "\<exists>ret cells'. dchain_locks_impl_deactivate_index cells (x - 2) = Some (ret, cells') \<and> active_links cells' (remove1 x act) n"
proof (cases "x \<in> set act")
  case False
  have "n + 2 < 2 ^ 31" "int (length cells) = n + 2" "nx cells x = 1" using act x False by (auto simp: active_links_def)
  then have "dchain_locks_impl_deactivate_index cells (x - 2) = Some (0, cells)"
    using x by (simp add: dchain_locks_impl_deactivate_index_def run_simps)
  then show ?thesis using act False by (simp add: remove1_idem)
next
  case True
  then obtain us ws where ac: "act = us @ x # ws" "x \<notin> set us" by (meson split_list_first)
  note rd = active_read [OF act [unfolded ac]]
  have rm: "remove1 x act = us @ ws" using ac by (simp add: remove1_append)
  define u where "u = upd_prev (upd_next cells (pv cells x) (nx cells x)) (nx cells x) (pv cells x)"
  note u = active_unlink [OF act [unfolded ac] u_def]
  let ?c = "upd_prev (upd_next u x 1) x 1"
  have "dchain_locks_impl_deactivate_index cells (x - 2) = Some (1, ?c)"
    using rd(5,8-11,13,14) x u(5) by (simp add: dchain_locks_impl_deactivate_index_def run_simps u_def [symmetric])
  moreover have nxc: "nx ?c = (nx u)(x := 1)" "pv ?c = (pv u)(x := 1)" using x u(5) by simp_all
  have "ring (nx ?c) (pv ?c) (us @ ws)" unfolding nxc using ring_frame [OF u(1), of x] x u(3) by simp
  then have "active_links ?c (us @ ws) n"
    using u(2-5) x rd(13) unfolding active_links_def nxc(1) by auto
  ultimately show ?thesis unfolding rm by blast
qed

section \<open>Moving an index in the cells\<close>

lemma dchain_links_ring:
  "dchain_links cells al fl n \<longleftrightarrow>
     0 < n \<and> n + 2 < 2 ^ 31 \<and> int (length cells) = n + 2 \<and> distinct (al @ fl) \<and> set (al @ fl) = {2..n + 1} \<and>
     ring (nx cells) (pv cells) al \<and> path (nx cells) (1 # fl @ [1]) \<and> path (pv cells) (1 # fl @ [1])"
proof -
  have "0 \<notin> set al" if "set al \<union> set fl = {2..n + 1}"
  proof -
    have "0 \<notin> set al \<union> set fl" unfolding that by simp
    then show ?thesis by simp
  qed
  then show ?thesis by (auto simp: dchain_links_def ring_def)
qed

lemma dchain_links_unlink:
  assumes links: "dchain_links cells (us @ x # ws) fl n" and u: "u = upd_prev (upd_next cells (pv cells x) (nx cells x)) (nx cells x) (pv cells x)"
  shows "ring (nx u) (pv u) (us @ ws)" "path (nx u) (1 # fl @ [1])" "path (pv u) (1 # fl @ [1])" "length u = length cells"
    "0 \<le> pv cells x" "pv cells x < n + 2" "0 \<le> nx cells x" "nx cells x < n + 2"
proof -
  have r: "ring (nx cells) (pv cells) (us @ x # ws)" "path (nx cells) (1 # fl @ [1])" "path (pv cells) (1 # fl @ [1])"
    "distinct ((us @ x # ws) @ fl)" "set ((us @ x # ws) @ fl) = {2..n + 1}" "int (length cells) = n + 2" "0 < n"
    using links by (simp_all add: dchain_links_ring)
  note rd = ring_read [OF r(1)] ring_ends [OF r(1)]
  have low: "0 \<notin> set ((us @ x # ws) @ fl)" "1 \<notin> set ((us @ x # ws) @ fl)" unfolding r(5) by simp_all
  have m: "pv cells x \<in> insert 0 (set us)" "nx cells x \<in> insert 0 (set ws)" using rd by metis+
  then have "pv cells x \<in> insert 0 (set ((us @ x # ws) @ fl))" "nx cells x \<in> insert 0 (set ((us @ x # ws) @ fl))" by auto
  then show b: "0 \<le> pv cells x" "pv cells x < n + 2" "0 \<le> nx cells x" "nx cells x < n + 2"
    using r(7) unfolding r(5) by auto
  have nxu: "nx u = (nx cells)(pv cells x := nx cells x)" and pvu: "pv u = (pv cells)(nx cells x := pv cells x)"
    using b r(6) by (simp_all add: u)
  show "ring (nx u) (pv u) (us @ ws)" using ring_unlink [OF r(1)] rd by (simp add: nxu pvu)
  have "pv cells x \<notin> insert 1 (set fl)" "nx cells x \<notin> insert 1 (set fl)" using m r(4) low by auto
  then show "path (nx u) (1 # fl @ [1])" "path (pv u) (1 # fl @ [1])"
    using r(2,3) by (simp_all add: nxu pvu butlast_append)
  show "length u = length cells" by (simp add: u)
qed

lemma reposition_run:
  assumes links: "dchain_links cells (us @ x # ws) fl n" and p: "us @ ws = us' @ p # ws'"
  shows "\<exists>cells'. dchain_locks_impl_reposition_index cells (x - 2) (p - 2) = Some (1, cells') \<and>
     dchain_links cells' (us' @ p # x # ws') fl n"
proof -
  note sz = dchain_links_size [OF links]
  define u where "u = upd_prev (upd_next cells (pv cells x) (nx cells x)) (nx cells x) (pv cells x)"
  note un = dchain_links_unlink [OF links u_def]
  have r: "distinct ((us @ x # ws) @ fl)" "set ((us @ x # ws) @ fl) = {2..n + 1}" using links by (simp_all add: dchain_links_ring)
  have low: "0 \<notin> set ((us @ x # ws) @ fl)" "1 \<notin> set ((us @ x # ws) @ fl)" unfolding r(2) by simp_all
  have ps: "set us \<union> set ws = insert p (set us' \<union> set ws')" using arg_cong [OF p, of set] by auto
  have ring: "ring (nx u) (pv u) (us' @ p # ws')" using un(1) p by simp
  define q where "q = nx u p"
  have q: "q = hd (ws' @ [0])" "q \<in> insert 0 (set ws')" using ring_read(1) [OF ring] ring_ends(2) [OF ring] by (simp_all add: q_def)
  have xm: "x \<in> {2..n + 1}" "p \<in> {2..n + 1}" "q \<in> insert 0 {2..n + 1}" unfolding r(2) [symmetric] using ps q(2) by auto
  then have qb: "0 \<le> q" "q < n + 2" using sz(2) by auto
  have xn: "x \<notin> set (us' @ p # ws')" "x \<noteq> 0" using r(1) low ps by auto
  have ne: "nx cells x \<noteq> pv cells x"
    using dchain_links_alloc_read [OF links] dchain_links_read [OF links] p by (metis append_is_Nil_conv list.distinct(1))
  let ?c = "upd_next (upd_prev (upd_next (upd_prev u x p) x q) q x) p x"
  have run: "dchain_locks_impl_reposition_index cells (x - 2) (p - 2) = Some (1, ?c)"
    using sz(3,4) xm(1,2) un(4-8) ne qb
    by (simp add: dchain_locks_impl_reposition_index_def run_simps u_def [symmetric] q_def [symmetric] del: nx_upd)
  have nxc: "nx ?c = (nx u)(x := q, p := x)" and pvc: "pv ?c = (pv u)(x := p, q := x)"
    using xm(1,2) qb un(4) sz(4) by simp_all
  have "p \<in> set us \<union> set ws" "q \<in> insert 0 (set us \<union> set ws)" unfolding ps using q(2) by auto
  then have "p \<notin> set fl" "p \<noteq> 1" "q \<notin> set fl" "q \<noteq> 1" "x \<notin> set fl" "x \<noteq> 1" using r(1) low by auto
  then have "path (nx ?c) (1 # fl @ [1])" "path (pv ?c) (1 # fl @ [1])"
    unfolding nxc pvc using un(2,3) by (simp_all add: butlast_append)
  moreover have "ring (nx ?c) (pv ?c) (us' @ p # x # ws')"
    unfolding nxc pvc using ring_insert [OF ring xn(2,1)] q(1) by simp
  moreover have "(insert p (set us' \<union> set ws')) \<inter> set fl = {}" "distinct fl" "x \<notin> set fl"
    unfolding ps [symmetric] using r(1) by auto
  then have "distinct ((us' @ p # x # ws') @ fl)" using ring xn(1) by (auto simp: ring_def)
  moreover have "set ((us' @ p # x # ws') @ fl) = insert x (set us \<union> set ws) \<union> set fl" unfolding ps by auto
  then have "set ((us' @ p # x # ws') @ fl) = {2..n + 1}" unfolding r(2) [symmetric] by (simp add: Un_assoc)
  ultimately have "dchain_links ?c (us' @ p # x # ws') fl n"
    using sz un(4) by (simp add: dchain_links_ring)
  with run show ?thesis by blast
qed

lemma update_timestamp_loop_run:
  assumes "dchain_links cells (us @ y # ws) fl n" "int (length ts) = n"
  shows "\<exists>np. update_timestamp_loop cells ts index time (y - 2) t next = Some np \<and>
    (np = - 1 \<or> np \<noteq> index \<and> (\<exists>p\<in>set (y # ws). np = p - 2))"
  using assms
proof (induction ws arbitrary: us y t "next")
  case Nil
  have "nx cells y = 0" "2 \<le> y" "y < n + 2" using dchain_links_read(1) [OF Nil.prems(1)] dchain_links_member [OF Nil.prems(1), of y] by simp_all
  then have "dchain_locks_impl_next cells (y - 2) next = Some (0, next)"
    using dchain_links_size [OF Nil.prems(1)] by (simp add: dchain_locks_impl_next_def run_simps)
  then show ?case by (subst update_timestamp_loop.simps) simp
next
  case (Cons z ws)
  have z: "nx cells y = z" "2 \<le> y" "y < n + 2" "2 \<le> z" "z < n + 2"
    using dchain_links_read(1) [OF Cons.prems(1)] dchain_links_member [OF Cons.prems(1), of y] dchain_links_member [OF Cons.prems(1), of z]
    by simp_all
  then have nxt: "dchain_locks_impl_next cells (y - 2) next = Some (1, z - 2)"
    using dchain_links_size [OF Cons.prems(1)] by (simp add: dchain_locks_impl_next_def run_simps)
  obtain tz where tz: "arr_get ts (z - 2) = Some tz" using z Cons.prems(2) by (simp add: arr_get_def)
  obtain np where "update_timestamp_loop cells ts index time (z - 2) tz (z - 2) = Some np"
    "np = - 1 \<or> np \<noteq> index \<and> (\<exists>p\<in>set (z # ws). np = p - 2)"
    using Cons.IH [of "us @ [y]" z tz "z - 2"] Cons.prems by auto
  then show ?case using nxt tz by (subst update_timestamp_loop.simps) auto
qed

text \<open>
  \<open>update_timestamp\<close> moves the index within the cells of the core and changes nothing else; in
  particular it does not store the new time.
\<close>

definition repositions :: "(dchain_cell list \<Rightarrow> int \<Rightarrow> int \<Rightarrow> (int \<times> dchain_cell list) option) \<Rightarrow> bool" where
  "repositions f \<longleftrightarrow> f = dchain_locks_impl_reposition_index \<or> f = dchain_tm_impl_reposition_index"

lemma update_timestamp_run:
  assumes links: "dchain_links (lc_cells (chain c)) al fl n" and x: "x \<in> set al" and ts: "int (length (lc_times (chain c))) = n"
    and f: "repositions f"
  shows "\<exists>cells al'. cores_update_timestamp f c chain (x - 2) time = Some (1, chain(c := (chain c)\<lparr>lc_cells := cells\<rparr>)) \<and>
    dchain_links cells al' fl n \<and> set al' = set al"
proof -
  obtain us ws where al: "al = us @ x # ws" using x by (metis split_list)
  have xb: "2 \<le> x" "x < n + 2" using dchain_links_member [OF links, of x] x by auto
  obtain t where t: "arr_get (lc_times (chain c)) (x - 2) = Some t" using xb ts by (simp add: arr_get_def)
  obtain np where np: "update_timestamp_loop (lc_cells (chain c)) (lc_times (chain c)) (x - 2) time (x - 2) t 0 = Some np"
    "np = - 1 \<or> np \<noteq> x - 2 \<and> (\<exists>p\<in>set (x # ws). np = p - 2)"
    using update_timestamp_loop_run [OF links [unfolded al] ts] by blast
  show ?thesis
  proof (cases "np = - 1")
    case True
    obtain cells where c: "dchain_impl_rejuvenate_index (lc_cells (chain c)) (x - 2) = Some (1, cells)" "dchain_links cells (us @ ws @ [x]) fl n"
      using rejuvenate_index_run [OF links [unfolded al]] by blast
    then show ?thesis
      using t np(1) al True
      by (intro exI [of _ cells] exI [of _ "us @ ws @ [x]"]) (auto simp: cores_update_timestamp_def)
  next
    case False
    then obtain p where p: "p \<in> set ws" "np = p - 2" using np(2) by auto
    then obtain us' ws' where s: "us @ ws = us' @ p # ws'" using split_list [of p "us @ ws"] by auto
    obtain cells where c: "dchain_locks_impl_reposition_index (lc_cells (chain c)) (x - 2) (p - 2) = Some (1, cells)"
      "dchain_links cells (us' @ p # x # ws') fl n"
      using reposition_run [OF links [unfolded al] s] by blast
    have "2 \<le> p" using dchain_links_member(1) [OF links, of p] p al by auto
    then have "f (lc_cells (chain c)) (x - 2) np = Some (1, cells)"
      using c(1) f p(2) by (auto simp: repositions_def dchain_tm_impl_reposition_index_def run_simps)
    moreover have "set (us' @ p # x # ws') = set al" using arg_cong [OF s, of set] al by auto
    ultimately show ?thesis
      using t np(1) False c(2)
      by (intro exI [of _ cells] exI [of _ "us' @ p # x # ws'"]) (simp add: cores_update_timestamp_def)
  qed
qed

section \<open>All cores\<close>

text \<open>
  The cells of all cores have the same free indexes, in the same order, and every core has only allocated
  indexes active.
\<close>

definition row_ok :: "int list \<Rightarrow> int list \<Rightarrow> int \<Rightarrow> lcore_chain \<Rightarrow> bool" where
  "row_ok fl act n r \<longleftrightarrow>
     (\<exists>al. dchain_links (lc_cells r) al fl n) \<and> active_links (lc_active r) act n \<and> set act \<inter> set fl = {} \<and>
     int (length (lc_times r)) = n"

abbreviation shifted :: "int list \<Rightarrow> int list" where
  "shifted \<equiv> map (\<lambda>i. i + 2)"

definition chain_ok :: "nat list \<Rightarrow> int list \<Rightarrow> (nat \<Rightarrow> int list) \<Rightarrow> int \<Rightarrow> DoubleChainLocks \<Rightarrow> bool" where
  "chain_ok lcores fl act n chain \<longleftrightarrow> (\<forall>c\<in>set lcores. row_ok (shifted fl) (shifted (act c)) n (chain c))"

lemma shifted_simps [simp]:
  "remove1 (i + 2) (shifted xs) = shifted (remove1 i xs)" "i + 2 \<in> set (shifted xs) \<longleftrightarrow> i \<in> set xs"
  "i + 2 \<in> (\<lambda>i. i + 2) ` A \<longleftrightarrow> i \<in> (A :: int set)"
  by (induction xs) auto

lemma row_index:
  assumes "row_ok fl act n r" "2 \<le> x" "x < n + 2"
  shows "arr_set (lc_times r) (x - 2) t = Some ((lc_times r)[nat (x - 2) := t])" "arr_get (lc_times r) (x - 2) = Some (lc_times r ! nat (x - 2))"
  using assms by (auto simp: row_ok_def arr_set_def arr_get_def)

lemma row_allocated:
  assumes "row_ok fl act n r" "2 \<le> x" "x < n + 2" "x \<notin> set fl"
  obtains us ws where "dchain_links (lc_cells r) (us @ x # ws) fl n"
proof -
  obtain al where al: "dchain_links (lc_cells r) al fl n" using assms(1) by (auto simp: row_ok_def)
  then have "x \<in> set (al @ fl)" using assms(2,3) by (simp add: dchain_links_def)
  then have "x \<in> set al" using assms(4) by simp
  then show ?thesis using that al by (metis split_list)
qed

lemma row_allocate:
  assumes "row_ok (a # fl) act n r"
  shows "2 \<le> a" "a < n + 2" "\<exists>cells. dchain_impl_allocate_new_index (lc_cells r) i = Some (1, a - 2, cells) \<and>
    row_ok fl act n (r\<lparr>lc_cells := cells, lc_times := (lc_times r)[nat (a - 2) := t]\<rparr>)"
proof -
  obtain al where al: "dchain_links (lc_cells r) al (a # fl) n" using assms by (auto simp: row_ok_def)
  show "2 \<le> a" "a < n + 2" using dchain_links_member [OF al, of a] by auto
  show "\<exists>cells. dchain_impl_allocate_new_index (lc_cells r) i = Some (1, a - 2, cells) \<and>
    row_ok fl act n (r\<lparr>lc_cells := cells, lc_times := (lc_times r)[nat (a - 2) := t]\<rparr>)"
    using allocate_new_index_run(2) [OF al refl, of i] assms by (auto simp: row_ok_def)
qed

lemma cores_allocate_full:
  assumes "\<forall>c\<in>set lcores. row_ok [] (act c) n (chain c)" "lcores \<noteq> [] \<or> ret = 0"
  shows "cores_allocate_loop lcores chain i t ret = Some (0, i, chain)"
  using assms
proof (induction lcores arbitrary: ret)
  case (Cons c lcores)
  obtain al where "dchain_links (lc_cells (chain c)) al [] n" using Cons.prems by (auto simp: row_ok_def)
  from allocate_new_index_run(1) [OF this refl, of i] show ?case using Cons by simp
qed simp

lemma cores_allocate_run:
  assumes "\<forall>c\<in>set lcores. row_ok (a # fl) (act c) n (chain c)" "distinct lcores" "lcores \<noteq> [] \<or> ret = 1 \<and> i = a - 2"
  shows "\<exists>chain'. cores_allocate_loop lcores chain i t ret = Some (1, a - 2, chain') \<and>
    (\<forall>c. c \<notin> set lcores \<longrightarrow> chain' c = chain c) \<and>
    (\<forall>c\<in>set lcores. row_ok fl (act c) n (chain' c) \<and> lc_times (chain' c) = (lc_times (chain c))[nat (a - 2) := t])"
  using assms
proof (induction lcores arbitrary: chain ret i)
  case (Cons c lcores)
  then have row: "row_ok (a # fl) (act c) n (chain c)" by simp
  note ab = row_allocate(1,2) [OF row]
  obtain cells where cells: "dchain_impl_allocate_new_index (lc_cells (chain c)) i = Some (1, a - 2, cells)"
    "row_ok fl (act c) n ((chain c)\<lparr>lc_cells := cells, lc_times := (lc_times (chain c))[nat (a - 2) := t]\<rparr>)"
    using row_allocate(3) [OF row] by blast
  let ?r = "(chain c)\<lparr>lc_cells := cells, lc_times := (lc_times (chain c))[nat (a - 2) := t]\<rparr>"
  have step: "cores_allocate_loop (c # lcores) chain i t ret = cores_allocate_loop lcores (chain(c := ?r)) (a - 2) t 1"
    using cells(1) row_index(1) [OF row ab] by simp
  have d: "distinct lcores" "c \<notin> set lcores" using Cons.prems(2) by simp_all
  have "\<forall>c'\<in>set lcores. row_ok (a # fl) (act c') n ((chain(c := ?r)) c')" using Cons.prems by auto
  from Cons.IH [OF this d(1), of 1 "a - 2"] obtain chain' where
    c': "cores_allocate_loop lcores (chain(c := ?r)) (a - 2) t 1 = Some (1, a - 2, chain')"
    "\<forall>c'. c' \<notin> set lcores \<longrightarrow> chain' c' = (chain(c := ?r)) c'"
    "\<forall>c'\<in>set lcores. row_ok fl (act c') n (chain' c') \<and> lc_times (chain' c') = (lc_times ((chain(c := ?r)) c'))[nat (a - 2) := t]"
    by blast
  have "chain' c = ?r" using c'(2) d(2) by simp
  then show ?case using step c' cells(2) d(2) by (intro exI [of _ chain']) auto
qed simp

lemma row_free:
  assumes row: "row_ok fl act n r" and x: "2 \<le> x" "x < n + 2" "x \<notin> set fl"
  shows "\<exists>cells ret act'. dchain_impl_free_index (lc_cells r) (x - 2) = Some (1, cells) \<and>
    dchain_locks_impl_deactivate_index (lc_active r) (x - 2) = Some (ret, act') \<and>
    row_ok (x # fl) (remove1 x act) n \<lparr>lc_cells = cells, lc_active = act', lc_times = (lc_times r)[nat (x - 2) := t]\<rparr>"
proof -
  obtain us ws where al: "dchain_links (lc_cells r) (us @ x # ws) fl n" by (rule row_allocated [OF assms])
  have a: "active_links (lc_active r) act n" using row by (simp add: row_ok_def)
  have "distinct act" using a by (simp add: active_links_def ring_def)
  then show ?thesis
    using free_index_run [OF al] deactivate_run [OF a x(1,2)] row by (fastforce simp: row_ok_def)
qed

lemma cores_free_run:
  assumes "\<forall>c\<in>set lcores. row_ok fl (act c) n (chain c)" "distinct lcores" "lcores \<noteq> [] \<or> ret = 1" "2 \<le> x" "x < n + 2" "x \<notin> set fl"
  shows "\<exists>chain'. cores_free_loop lcores chain (x - 2) ret = Some (1, chain') \<and>
    (\<forall>c. c \<notin> set lcores \<longrightarrow> chain' c = chain c) \<and>
    (\<forall>c\<in>set lcores. row_ok (x # fl) (remove1 x (act c)) n (chain' c) \<and> lc_times (chain' c) = (lc_times (chain c))[nat (x - 2) := - 1])"
  using assms
proof (induction lcores arbitrary: chain ret)
  case (Cons c lcores)
  then have row: "row_ok fl (act c) n (chain c)" by simp
  obtain cells ret' act' where f: "dchain_impl_free_index (lc_cells (chain c)) (x - 2) = Some (1, cells)"
    "dchain_locks_impl_deactivate_index (lc_active (chain c)) (x - 2) = Some (ret', act')"
    "row_ok (x # fl) (remove1 x (act c)) n \<lparr>lc_cells = cells, lc_active = act', lc_times = (lc_times (chain c))[nat (x - 2) := - 1]\<rparr>"
    using row_free [OF row Cons.prems(4,5,6)] by blast
  let ?r = "\<lparr>lc_cells = cells, lc_active = act', lc_times = (lc_times (chain c))[nat (x - 2) := - 1]\<rparr>"
  have step: "cores_free_loop (c # lcores) chain (x - 2) ret = cores_free_loop lcores (chain(c := ?r)) (x - 2) 1"
    using f(1,2) row_index(1) [OF row Cons.prems(4,5)] by simp
  have d: "distinct lcores" "c \<notin> set lcores" using Cons.prems(2) by simp_all
  have "\<forall>c'\<in>set lcores. row_ok fl (act c') n ((chain(c := ?r)) c')" using Cons.prems by auto
  from Cons.IH [OF this d(1) _ Cons.prems(4,5,6), of 1] obtain chain' where
    c': "cores_free_loop lcores (chain(c := ?r)) (x - 2) 1 = Some (1, chain')"
    "\<forall>c'. c' \<notin> set lcores \<longrightarrow> chain' c' = (chain(c := ?r)) c'"
    "\<forall>c'\<in>set lcores. row_ok (x # fl) (remove1 x (act c')) n (chain' c') \<and> lc_times (chain' c') = (lc_times ((chain(c := ?r)) c'))[nat (x - 2) := - 1]"
    by blast
  have "chain' c = ?r" using c'(2) d(2) by simp
  then show ?case using step c' f(3) d(2) by (intro exI [of _ chain']) auto
qed simp

lemma row_activate:
  assumes "row_ok fl act n r" "2 \<le> x" "x < n + 2" "x \<notin> set fl"
  shows "\<exists>ret act'. dchain_locks_impl_activate_index (lc_active r) (x - 2) = Some (ret, act') \<and>
    row_ok fl (remove1 x act @ [x]) n (r\<lparr>lc_active := act'\<rparr>)"
proof -
  have a: "active_links (lc_active r) act n" "set act \<inter> set fl = {}" using assms(1) by (simp_all add: row_ok_def)
  then have "set (remove1 x act @ [x]) \<inter> set fl = {}" using assms(4) set_remove1_subset [of x act] by auto
  then show ?thesis using activate_run [OF a(1) assms(2,3)] assms(1) by (fastforce simp: row_ok_def)
qed

lemma row_rejuvenate:
  assumes "row_ok fl act n r" "2 \<le> x" "x < n + 2" "x \<notin> set fl"
  shows "\<exists>cells. dchain_impl_rejuvenate_index (lc_cells r) (x - 2) = Some (1, cells) \<and>
    row_ok fl act n (r\<lparr>lc_cells := cells, lc_times := (lc_times r)[nat (x - 2) := t]\<rparr>)"
proof -
  obtain us ws where al: "dchain_links (lc_cells r) (us @ x # ws) fl n" by (rule row_allocated [OF assms])
  show ?thesis using rejuvenate_index_run [OF al] assms(1) by (auto simp: row_ok_def)
qed

lemma chain_okD: "chain_ok lcores fl act n chain \<Longrightarrow> c \<in> set lcores \<Longrightarrow> row_ok (shifted fl) (shifted (act c)) n (chain c)"
  by (simp add: chain_ok_def)

lemma chain_ok_upd:
  assumes "chain_ok lcores fl act n chain" "row_ok (shifted fl) (shifted a) n r"
  shows "chain_ok lcores fl (act(c := a)) n (chain(c := r))"
  using assms by (simp add: chain_ok_def)

lemma active_index:
  assumes "chain_ok lcores fl act n chain" "c \<in> set lcores" "i \<in> set (act c)"
  shows "0 \<le> i" "i < n" "i \<notin> set fl"
proof -
  have r: "set (shifted (act c)) \<subseteq> {2..n + 1}" "set (shifted (act c)) \<inter> set (shifted fl) = {}"
    using chain_okD [OF assms(1,2)] by (auto simp: row_ok_def active_links_def)
  have "i + 2 \<in> set (shifted (act c))" using assms(3) by simp
  then show "0 \<le> i" "i < n" "i \<notin> set fl" using r shifted_simps(2) by auto
qed

lemma tm_allocate_run:
  assumes ok: "chain_ok lcores fl act n chain" "distinct lcores" "c \<in> set lcores"
  shows "fl = [] \<Longrightarrow> dchain_tm_allocate_new_index lcores c chain i t = Some (0, i, chain)"
    "fl = a # fl' \<Longrightarrow> \<exists>chain'. dchain_tm_allocate_new_index lcores c chain i t = Some (1, a, chain') \<and>
       chain_ok lcores fl' (act(c := act c @ [a])) n chain' \<and>
       (\<forall>c'\<in>set lcores. lc_times (chain' c') = (lc_times (chain c'))[nat a := t])"
proof -
  assume "fl = []"
  moreover have "lcores \<noteq> []" using ok(3) by auto
  ultimately show "dchain_tm_allocate_new_index lcores c chain i t = Some (0, i, chain)"
    using cores_allocate_full [of lcores "\<lambda>c. shifted (act c)" n chain "- 1" i t] ok
    by (auto simp: dchain_tm_allocate_new_index_def chain_ok_def)
next
  assume fl: "fl = a # fl'"
  have "\<forall>c\<in>set lcores. row_ok ((a + 2) # shifted fl') (shifted (act c)) n (chain c)" using ok(1) fl by (simp add: chain_ok_def)
  moreover have "lcores \<noteq> []" using ok(3) by auto
  ultimately obtain chain1 where
    c1: "cores_allocate_loop lcores chain i t (- 1) = Some (1, a, chain1)"
    "\<forall>c\<in>set lcores. row_ok (shifted fl') (shifted (act c)) n (chain1 c) \<and> lc_times (chain1 c) = (lc_times (chain c))[nat a := t]"
    using cores_allocate_run [of lcores "a + 2" "shifted fl'" "\<lambda>c. shifted (act c)" n chain "- 1" i t] ok(2) by auto
  have row: "row_ok ((a + 2) # shifted fl') (shifted (act c)) n (chain c)" using chain_okD [OF ok(1,3)] fl by simp
  then obtain al where "dchain_links (lc_cells (chain c)) al ((a + 2) # shifted fl') n" by (auto simp: row_ok_def)
  then have a: "a \<notin> set fl'" by (auto simp: dchain_links_def)
  have "a \<notin> set (act c)" using active_index(3) [OF ok(1,3), of a] fl by auto
  then have rm: "remove1 (a + 2) (shifted (act c)) @ [a + 2] = shifted (act c @ [a])" by (simp add: remove1_idem)
  have r1: "row_ok (shifted fl') (shifted (act c)) n (chain1 c)" using c1(2) ok(3) by simp
  obtain ret act' where act': "dchain_locks_impl_activate_index (lc_active (chain1 c)) a = Some (ret, act')"
    "row_ok (shifted fl') (shifted (act c @ [a])) n ((chain1 c)\<lparr>lc_active := act'\<rparr>)"
    using row_activate [OF r1 row_allocate(1,2) [OF row], unfolded rm] a by auto
  have "chain_ok lcores fl' act n chain1" using c1(2) by (simp add: chain_ok_def)
  from chain_ok_upd [OF this act'(2)]
  show "\<exists>chain'. dchain_tm_allocate_new_index lcores c chain i t = Some (1, a, chain') \<and>
       chain_ok lcores fl' (act(c := act c @ [a])) n chain' \<and>
       (\<forall>c'\<in>set lcores. lc_times (chain' c') = (lc_times (chain c'))[nat a := t])"
    using c1 act'(1) by (intro exI [of _ "chain1(c := (chain1 c)\<lparr>lc_active := act'\<rparr>)"]) (auto simp: dchain_tm_allocate_new_index_def)
qed

lemma tm_rejuvenate_run:
  assumes ok: "chain_ok lcores fl act n chain" "c \<in> set lcores" and i: "0 \<le> i" "i < n"
  shows "i \<in> set fl \<Longrightarrow> dchain_tm_rejuvenate_index c chain i t = Some (0, chain)"
    "i \<notin> set fl \<Longrightarrow> \<exists>r. dchain_tm_rejuvenate_index c chain i t = Some (1, chain(c := r)) \<and>
       chain_ok lcores fl (act(c := remove1 i (act c) @ [i])) n (chain(c := r)) \<and> lc_times r = (lc_times (chain c))[nat i := t]"
proof -
  note row = chain_okD [OF ok]
  assume "i \<in> set fl"
  then have fr: "i + 2 \<in> set (shifted fl)" by simp
  obtain al where "dchain_links (lc_cells (chain c)) al (shifted fl) n" using row by (auto simp: row_ok_def)
  from free_index_free(2) [OF this fr] show "dchain_tm_rejuvenate_index c chain i t = Some (0, chain)"
    by (simp add: dchain_tm_rejuvenate_index_def)
next
  note row = chain_okD [OF ok]
  assume "i \<notin> set fl"
  then have x: "2 \<le> i + 2" "i + 2 < n + 2" "i + 2 \<notin> set (shifted fl)" using i by (simp_all del: set_map)
  obtain cells where cells: "dchain_impl_rejuvenate_index (lc_cells (chain c)) i = Some (1, cells)"
    "row_ok (shifted fl) (shifted (act c)) n ((chain c)\<lparr>lc_cells := cells, lc_times := (lc_times (chain c))[nat i := t]\<rparr>)"
    using row_rejuvenate [OF row x, of t] by auto
  obtain ret act' where act': "dchain_locks_impl_activate_index (lc_active (chain c)) i = Some (ret, act')"
    "row_ok (shifted fl) (shifted (remove1 i (act c) @ [i])) n ((chain c)\<lparr>lc_cells := cells, lc_times := (lc_times (chain c))[nat i := t], lc_active := act'\<rparr>)"
    using row_activate [OF cells(2) x] by auto
  let ?r = "(chain c)\<lparr>lc_cells := cells, lc_times := (lc_times (chain c))[nat i := t], lc_active := act'\<rparr>"
  from chain_ok_upd [OF ok(1) act'(2)]
  show "\<exists>r. dchain_tm_rejuvenate_index c chain i t = Some (1, chain(c := r)) \<and>
       chain_ok lcores fl (act(c := remove1 i (act c) @ [i])) n (chain(c := r)) \<and> lc_times r = (lc_times (chain c))[nat i := t]"
    using cells(1) act'(1) row_index(1) [OF row x(1,2), of t]
    by (intro exI [of _ ?r]) (simp add: dchain_tm_rejuvenate_index_def)
qed

lemma tm_free_run:
  assumes ok: "chain_ok lcores fl act n chain" "distinct lcores" "c \<in> set lcores" and i: "0 \<le> i" "i < n" "i \<notin> set fl"
  shows "\<exists>chain'. dchain_tm_free_index lcores chain i = Some (1, chain') \<and>
       chain_ok lcores (i # fl) (\<lambda>c. remove1 i (act c)) n chain' \<and>
       (\<forall>c\<in>set lcores. lc_times (chain' c) = (lc_times (chain c))[nat i := - 1])"
proof -
  have "i + 2 \<notin> set (shifted fl)" using i(3) shifted_simps(2) by blast
  moreover have "\<forall>c\<in>set lcores. row_ok (shifted fl) (shifted (act c)) n (chain c)" using ok(1) by (simp add: chain_ok_def)
  ultimately show ?thesis
    using cores_free_run [of lcores "shifted fl" "\<lambda>c. shifted (act c)" n chain "- 1" "i + 2"] ok(2,3) i
    by (force simp: dchain_tm_free_index_def chain_ok_def)
qed

lemma is_allocated_run:
  assumes ok: "chain_ok lcores fl act n chain" "c \<in> set lcores" and i: "0 \<le> i" "i < n"
  shows "dchain_tm_is_index_allocated c chain i = Some (if i \<in> set fl then 0 else 1)"
proof -
  obtain al where al: "dchain_links (lc_cells (chain c)) al (shifted fl) n" using chain_okD [OF ok] by (auto simp: row_ok_def)
  then have "set al \<union> set (shifted fl) = {2..n + 1}" by (simp add: dchain_links_def)
  moreover have "i + 2 \<in> {2..n + 1}" using i by simp
  ultimately have "i + 2 \<in> set al \<or> i + 2 \<in> set (shifted fl)" by blast
  then show ?thesis
    using free_index_free(3) [OF al, of "i + 2"] is_index_allocated_run [OF al, of "i + 2"] al shifted_simps(2) [of i fl]
    by (cases "i \<in> set fl") (auto simp: dchain_tm_is_index_allocated_def dchain_links_def simp del: set_map)
qed

lemma most_recent_run:
  assumes "chain_ok lcores' fl act n chain" "set lcores \<subseteq> set lcores'" "0 \<le> i" "i < n"
  shows "\<exists>t'. most_recent_loop lcores chain i t = Some t' \<and> (time \<le> t' \<longleftrightarrow> time \<le> t \<or> (\<exists>c\<in>set lcores. time \<le> lc_times (chain c) ! nat i))"
  using assms(2)
proof (induction lcores arbitrary: t)
  case (Cons c lcores)
  have "arr_get (lc_times (chain c)) i = Some (lc_times (chain c) ! nat i)"
    using row_index(2) [OF chain_okD [OF assms(1)], of c "i + 2"] Cons.prems assms(3,4) by simp
  then show ?case using Cons.IH [of "if lc_times (chain c) ! nat i > t then lc_times (chain c) ! nat i else t"] Cons.prems by auto
qed simp

lemma update_timestamp_ok:
  assumes ok: "chain_ok lcores fl act n chain" "c \<in> set lcores" and i: "0 \<le> i" "i < n" "i \<notin> set fl" and f: "repositions f"
  shows "\<exists>cells. cores_update_timestamp f c chain i t = Some (1, chain(c := (chain c)\<lparr>lc_cells := cells\<rparr>)) \<and>
    chain_ok lcores fl act n (chain(c := (chain c)\<lparr>lc_cells := cells\<rparr>))"
proof -
  note row = chain_okD [OF ok]
  obtain us ws where al: "dchain_links (lc_cells (chain c)) (us @ (i + 2) # ws) (shifted fl) n"
    using row_allocated [OF row, of "i + 2"] i by auto
  have len: "int (length (lc_times (chain c))) = n" using row by (simp add: row_ok_def)
  obtain cells al' where c: "cores_update_timestamp f c chain i t = Some (1, chain(c := (chain c)\<lparr>lc_cells := cells\<rparr>))"
    "dchain_links cells al' (shifted fl) n"
    using update_timestamp_run [of chain c "us @ (i + 2) # ws" "shifted fl" n "i + 2" f t] al len f by auto
  have "row_ok (shifted fl) (shifted (act c)) n ((chain c)\<lparr>lc_cells := cells\<rparr>)" using row c(2) by (auto simp: row_ok_def)
  from chain_ok_upd [OF ok(1) this, of c] c(1) show ?thesis by auto
qed

lemma expire_run:
  assumes ok: "chain_ok lcores fl act n chain" "distinct lcores" "c \<in> set lcores" and f: "repositions f"
  shows "act c = [] \<Longrightarrow> cores_expire_one_index (cores_update_timestamp f) ws lcores c chain i t = Some (False, 0, i, chain)"
    "act c = j # js \<Longrightarrow> \<not> (- 1 < lc_times (chain c) ! nat j \<and> lc_times (chain c) ! nat j < t) \<Longrightarrow>
       cores_expire_one_index (cores_update_timestamp f) ws lcores c chain i t = Some (False, 0, j, chain)"
    "act c = j # js \<Longrightarrow> - 1 < lc_times (chain c) ! nat j \<Longrightarrow> lc_times (chain c) ! nat j < t \<Longrightarrow> \<not> ws \<Longrightarrow>
       cores_expire_one_index (cores_update_timestamp f) ws lcores c chain i t = Some (True, 1, j, chain)"
    "act c = j # js \<Longrightarrow> - 1 < lc_times (chain c) ! nat j \<Longrightarrow> lc_times (chain c) ! nat j < t \<Longrightarrow> ws \<Longrightarrow>
       c' \<in> set lcores \<Longrightarrow> t \<le> lc_times (chain c') ! nat j \<Longrightarrow>
       \<exists>cells. cores_expire_one_index (cores_update_timestamp f) ws lcores c chain i t = Some (False, 1, j, chain(c := (chain c)\<lparr>lc_cells := cells\<rparr>)) \<and>
         chain_ok lcores fl act n (chain(c := (chain c)\<lparr>lc_cells := cells\<rparr>))"
    "act c = j # js \<Longrightarrow> - 1 < lc_times (chain c) ! nat j \<Longrightarrow> ws \<Longrightarrow> (\<And>c'. c' \<in> set lcores \<Longrightarrow> lc_times (chain c') ! nat j < t) \<Longrightarrow>
       \<exists>chain'. cores_expire_one_index (cores_update_timestamp f) ws lcores c chain i t = Some (False, 1, j, chain') \<and>
         chain_ok lcores (j # fl) (\<lambda>c. remove1 j (act c)) n chain' \<and>
         (\<forall>c\<in>set lcores. lc_times (chain' c) = (lc_times (chain c))[nat j := - 1])"
proof -
  have act: "active_links (lc_active (chain c)) (shifted (act c)) n" using chain_okD [OF ok(1,3)] by (simp add: row_ok_def)
  show "act c = [] \<Longrightarrow> cores_expire_one_index (cores_update_timestamp f) ws lcores c chain i t = Some (False, 0, i, chain)"
    using get_oldest_active [OF act, of i] by (simp add: cores_expire_one_index_def)
  assume j: "act c = j # js"
  have old: "dchain_locks_impl_get_oldest_index (lc_active (chain c)) i = Some (1, j)" using get_oldest_active [OF act, of i] j by simp
  note b = active_index [OF ok(1,3), of j, unfolded j, OF list.set_intros(1)]
  have tj: "arr_get (lc_times (chain c)) j = Some (lc_times (chain c) ! nat j)"
    using row_index(2) [OF chain_okD [OF ok(1,3)], of "j + 2"] b by simp
  obtain m where m: "most_recent_loop lcores chain j (- 1) = Some m" "t \<le> m \<longleftrightarrow> t \<le> - 1 \<or> (\<exists>c\<in>set lcores. t \<le> lc_times (chain c) ! nat j)"
    using most_recent_run [OF ok(1) order_refl b(1,2), of "- 1" t] by blast
  note run = cores_expire_one_index_def old tj m(1)
  show "\<not> (- 1 < lc_times (chain c) ! nat j \<and> lc_times (chain c) ! nat j < t) \<Longrightarrow>
       cores_expire_one_index (cores_update_timestamp f) ws lcores c chain i t = Some (False, 0, j, chain)"
    by (auto simp: run)
  show "- 1 < lc_times (chain c) ! nat j \<Longrightarrow> lc_times (chain c) ! nat j < t \<Longrightarrow> \<not> ws \<Longrightarrow>
       cores_expire_one_index (cores_update_timestamp f) ws lcores c chain i t = Some (True, 1, j, chain)"
    by (simp add: run)
  assume t: "- 1 < lc_times (chain c) ! nat j"
  show "\<exists>cells. cores_expire_one_index (cores_update_timestamp f) ws lcores c chain i t = Some (False, 1, j, chain(c := (chain c)\<lparr>lc_cells := cells\<rparr>)) \<and>
         chain_ok lcores fl act n (chain(c := (chain c)\<lparr>lc_cells := cells\<rparr>))"
    if "lc_times (chain c) ! nat j < t" ws "c' \<in> set lcores" "t \<le> lc_times (chain c') ! nat j"
  proof -
    have "t \<le> m" using m(2) that(3,4) by blast
    then show ?thesis using update_timestamp_ok [OF ok(1,3) b f, of m] t that(1,2) by (auto simp: run)
  qed
  show "\<exists>chain'. cores_expire_one_index (cores_update_timestamp f) ws lcores c chain i t = Some (False, 1, j, chain') \<and>
         chain_ok lcores (j # fl) (\<lambda>c. remove1 j (act c)) n chain' \<and>
         (\<forall>c\<in>set lcores. lc_times (chain' c) = (lc_times (chain c))[nat j := - 1])"
    if ws "\<And>c'. c' \<in> set lcores \<Longrightarrow> lc_times (chain c') ! nat j < t"
  proof -
    have "\<not> t \<le> m" using m(2) that(2) that(2) [OF ok(3)] t by fastforce
    then show ?thesis using tm_free_run [OF ok(1,2,3) b] t that(1) that(2) [OF ok(3)] by (auto simp: run)
  qed
qed

section \<open>A new chain\<close>

lemma activity_init_loop_run:
  assumes "2 \<le> i" "i \<le> n + 2" "int (length cells) = n + 2"
  shows "\<exists>cells'. activity_init_loop cells n i = Some cells' \<and> length cells' = length cells \<and>
    nx cells' = (\<lambda>j. if i \<le> j \<and> j < n + 2 then 1 else nx cells j) \<and> pv cells' = (\<lambda>j. if i \<le> j \<and> j < n + 2 then 1 else pv cells j)"
  using assms
proof (induction "nat (n + 2 - i)" arbitrary: i cells)
  case 0
  then show ?case by (subst activity_init_loop.simps) (auto simp: run_simps)
next
  case (Suc k)
  then have i: "i < n + 2" by simp
  let ?c = "upd_prev (upd_next cells i 1) i 1"
  have "\<exists>cells'. activity_init_loop ?c n (i + 1) = Some cells' \<and> length cells' = length ?c \<and>
    nx cells' = (\<lambda>j. if i + 1 \<le> j \<and> j < n + 2 then 1 else nx ?c j) \<and> pv cells' = (\<lambda>j. if i + 1 \<le> j \<and> j < n + 2 then 1 else pv ?c j)"
    using Suc i by (intro Suc.hyps(1)) auto
  moreover have "activity_init_loop cells n i = activity_init_loop ?c n (i + 1)"
    using i Suc.prems by (subst activity_init_loop.simps) (simp add: run_simps)
  ultimately show ?case using i Suc.prems by (auto simp: fun_eq_iff)
qed

lemma activity_init_run:
  assumes "0 < n" "n + 2 < 2 ^ 31" "int (length cells) = n + 2"
  shows "\<exists>cells'. dchain_locks_impl_activity_init cells n = Some cells' \<and> active_links cells' [] n"
proof -
  let ?c = "upd_next (upd_prev cells 0 0) 0 0"
  obtain cells' where "activity_init_loop ?c n 2 = Some cells'" "length cells' = length ?c"
    "nx cells' = (\<lambda>j. if 2 \<le> j \<and> j < n + 2 then 1 else nx ?c j)" "pv cells' = (\<lambda>j. if 2 \<le> j \<and> j < n + 2 then 1 else pv ?c j)"
    using activity_init_loop_run [of 2 n ?c] assms by auto
  then show ?thesis
    using assms by (auto simp: dchain_locks_impl_activity_init_def run_simps active_links_def ring_def)
qed

text \<open>When the allocation reports success every index is free, and no core has one active.\<close>

lemma cores_alloc_loop_ok:
  assumes "cores_alloc_loop sz n raw_cells raw_active b lcores chain h = Some (1, chain', h')" "0 < sz" "0 < n" "n + 2 < 2 ^ 31"
    "sz * (n + 2) < 2 ^ 64" "distinct lcores"
  shows "(\<forall>c. c \<notin> set lcores \<longrightarrow> chain' c = chain c) \<and> (\<forall>c\<in>set lcores. row_ok [2..n + 1] [] n (chain' c) \<and> lc_times (chain' c) = replicate (nat n) (- 1))"
  using assms(1,6)
proof (induction lcores arbitrary: chain h)
  case (Cons l lcores)
  have sz: "size_t (sz * (n + 2)) div nat sz = nat (n + 2)"
    using assms(2-5) by (simp add: nat_mult_distrib)
  obtain active where a: "dchain_locks_impl_activity_init (map (raw_active l) [0..<nat (n + 2)]) n = Some active" "active_links active [] n"
    using activity_init_run [OF assms(3,4), of "map (raw_active l) [0..<nat (n + 2)]"] assms(3) by auto
  obtain cells where c: "dchain_impl_init (map (raw_cells l) [0..<nat (n + 2)]) n = Some cells" "dchain_links cells [] [2..n + 1] n"
    using dchain_impl_init_run [OF assms(3,4), of "map (raw_cells l) [0..<nat (n + 2)]"] assms(3) by auto
  let ?r = "\<lparr>lc_cells = cells, lc_active = active, lc_times = replicate (nat n) (- 1)\<rparr>"
  obtain h1 where "cores_alloc_loop sz n raw_cells raw_active b lcores (chain(l := ?r)) h1 = Some (1, chain', h')"
    using Cons.prems(1) assms(3,4) a(1) c(1)
    by (auto simp: bind_Some_conv sz s32_def INDEX_SHIFT_def split: prod.splits option.splits if_splits)
  from Cons.IH [OF this] Cons.prems(2) have
    ih: "\<forall>c. c \<notin> set lcores \<longrightarrow> chain' c = (chain(l := ?r)) c" "\<forall>c\<in>set lcores. row_ok [2..n + 1] [] n (chain' c) \<and> lc_times (chain' c) = replicate (nat n) (- 1)"
    by auto
  have "row_ok [2..n + 1] [] n ?r" using a(2) c(2) assms(3) by (auto simp: row_ok_def)
  moreover have "chain' l = ?r" using ih(1) Cons.prems(2) by simp
  ultimately show ?case using ih by auto
qed simp

lemma shifted_upto: "shifted [a..b] = [a + 2..b + 2]"
proof (induction "nat (b - a + 1)" arbitrary: a)
  case (Suc k)
  then have "shifted [a + 1..b] = [a + 1 + 2..b + 2]" by (intro Suc.hyps(1)) simp
  then show ?case using Suc.hyps(2) by (simp add: upto_rec1 add.commute)
qed simp

lemma cores_allocate_ok:
  assumes "cores_allocate sz struct_size lcores n raw_cells raw_active raw chain_out h = Some (1, out, h')" "0 < sz" "0 < n" "n + 2 < 2 ^ 31"
    "sz * (n + 2) < 2 ^ 64" "distinct lcores"
  shows "\<exists>chain. out = Some chain \<and> chain_ok lcores [0..n - 1] (\<lambda>_. []) n chain \<and> (\<forall>c\<in>set lcores. lc_times (chain c) = replicate (nat n) (- 1))"
proof -
  obtain b h1 chain where "cores_alloc_loop sz n raw_cells raw_active b lcores raw h1 = Some (1, chain, h')" "out = Some chain"
    using assms(1) by (auto simp: cores_allocate_def bind_Some_conv split: prod.splits option.splits)
  moreover have "shifted [0..n - 1] = [2..n + 1]" using shifted_upto [of 0 "n - 1"] by (simp add: add.commute)
  ultimately show ?thesis using cores_alloc_loop_ok [OF _ assms(2-6)] by (auto simp: chain_ok_def)
qed

section \<open>Sequences of calls\<close>

text \<open>
  The calls that the cores make one after the other. A call in read mode, \<open>write_state\<close> false, runs while
  other cores read too; the lock keeps writers apart.
\<close>

datatype chain_call = Allocate bool nat vigor_time | Rejuvenate nat int vigor_time | Expire bool nat vigor_time

fun call_core :: "chain_call \<Rightarrow> nat" where
  "call_core (Allocate ws c t) = c"
| "call_core (Rejuvenate c i t) = c"
| "call_core (Expire ws c t) = c"

fun call_index :: "chain_call \<Rightarrow> int set" where
  "call_index (Rejuvenate c i t) = {i}"
| "call_index _ = {}"

fun run_call :: "nat list \<Rightarrow> chain_call \<Rightarrow> DoubleChainLocks \<Rightarrow> DoubleChainLocks option" where
  "run_call lcores (Allocate ws c t) chain = do {
     (_, _, _, chain) \<leftarrow> dchain_locks_allocate_new_index ws lcores c chain (- 1) t;
     Some chain
   }"
| "run_call lcores (Rejuvenate c i t) chain = do {
     (_, chain) \<leftarrow> dchain_locks_rejuvenate_index c chain i t;
     Some chain
   }"
| "run_call lcores (Expire ws c t) chain = do {
     (_, _, _, chain) \<leftarrow> dchain_locks_expire_one_index ws lcores c chain (- 1) t;
     Some chain
   }"

fun chain_calls :: "nat list \<Rightarrow> chain_call list \<Rightarrow> DoubleChainLocks \<Rightarrow> DoubleChainLocks option" where
  "chain_calls lcores [] chain = Some chain"
| "chain_calls lcores (x # xs) chain = do {
     chain \<leftarrow> run_call lcores x chain;
     chain_calls lcores xs chain
   }"

lemma locks_expire_cases:
  assumes ok: "chain_ok lcores fl act n chain" "distinct lcores" "c \<in> set lcores"
  shows "\<exists>w ret j chain' fl' act'. dchain_locks_expire_one_index ws lcores c chain i t = Some (w, ret, j, chain') \<and>
    chain_ok lcores fl' act' n chain' \<and>
    (fl' = fl \<or> fl' = j # fl \<and> 0 \<le> j \<and> j < n \<and> j \<notin> set fl \<and> ws \<and> (\<forall>c'\<in>set lcores. lc_times (chain c') ! nat j < t)) \<and>
    (\<not> ws \<longrightarrow> chain' = chain)"
proof -
  have f: "repositions dchain_locks_impl_reposition_index" by (simp add: repositions_def)
  note run = expire_run [OF ok f, where i = i and t = t and ws = ws, folded dchain_locks_update_timestamp_def dchain_locks_expire_one_index_def]
  show ?thesis
  proof (cases "act c")
    case Nil
    then show ?thesis using run(1) ok(1) by (metis (no_types))
  next
    case (Cons j js)
    note b = active_index [OF ok(1,3), of j, unfolded Cons, OF list.set_intros(1)]
    consider "\<not> (- 1 < lc_times (chain c) ! nat j \<and> lc_times (chain c) ! nat j < t)"
      | "- 1 < lc_times (chain c) ! nat j" "lc_times (chain c) ! nat j < t" "\<not> ws"
      | c' where "- 1 < lc_times (chain c) ! nat j" "lc_times (chain c) ! nat j < t" ws "c' \<in> set lcores" "t \<le> lc_times (chain c') ! nat j"
      | "- 1 < lc_times (chain c) ! nat j" ws "\<And>c'. c' \<in> set lcores \<Longrightarrow> lc_times (chain c') ! nat j < t"
      by (meson not_le)
    then show ?thesis
    proof cases
      case 1
      then show ?thesis using run(2) [OF Cons] ok(1) by blast
    next
      case 2
      then show ?thesis using run(3) [OF Cons] ok(1) by blast
    next
      case 3
      then show ?thesis using run(4) [OF Cons] by blast
    next
      case 4
      then show ?thesis using run(5) [OF Cons 4(1,2), OF 4(3)] b by blast
    qed
  qed
qed

lemma chain_call_ok:
  assumes ok: "chain_ok lcores fl act n chain" "distinct lcores" and x: "call_core x \<in> set lcores" "call_index x \<subseteq> {0..<n}"
  shows "\<exists>chain' fl' act'. run_call lcores x chain = Some chain' \<and> chain_ok lcores fl' act' n chain'"
proof (cases x)
  case (Allocate ws c t)
  then have "c \<in> set lcores" using x by simp
  then show ?thesis
    using tm_allocate_run [OF ok, where c = c and i = "- 1" and t = t] ok(1) Allocate
    by (cases fl; cases ws) (fastforce simp: dchain_locks_allocate_new_index_def)+
next
  case (Rejuvenate c i t)
  then have c: "c \<in> set lcores" "0 \<le> i" "i < n" using x by simp_all
  obtain ret chain' act' where "dchain_tm_rejuvenate_index c chain i t = Some (ret, chain')" "chain_ok lcores fl act' n chain'"
    using tm_rejuvenate_run [OF ok(1) c, of t] ok(1) by (cases "i \<in> set fl") metis+
  then show ?thesis
    using Rejuvenate by (intro exI [of _ chain'] exI [of _ fl] exI [of _ act']) (simp add: dchain_locks_rejuvenate_index_def)
next
  case (Expire ws c t)
  then have "c \<in> set lcores" using x by simp
  then obtain w ret j chain' fl' act' where e: "dchain_locks_expire_one_index ws lcores c chain (- 1) t = Some (w, ret, j, chain')"
    "chain_ok lcores fl' act' n chain'"
    using locks_expire_cases [OF ok, of c ws "- 1" t] by metis
  then show ?thesis using Expire by (intro exI [of _ chain'] exI [of _ fl'] exI [of _ act']) simp
qed

lemma chain_calls_ok:
  assumes "chain_ok lcores fl act n chain" "distinct lcores" "\<forall>x\<in>set xs. call_core x \<in> set lcores \<and> call_index x \<subseteq> {0..<n}"
  shows "\<exists>chain' fl' act'. chain_calls lcores xs chain = Some chain' \<and> chain_ok lcores fl' act' n chain'"
  using assms
proof (induction xs arbitrary: chain fl act)
  case (Cons x xs)
  then have x: "call_core x \<in> set lcores" "call_index x \<subseteq> {0..<n}" "\<forall>x\<in>set xs. call_core x \<in> set lcores \<and> call_index x \<subseteq> {0..<n}" by simp_all
  obtain chain1 fl1 act1 where "run_call lcores x chain = Some chain1" "chain_ok lcores fl1 act1 n chain1"
    using chain_call_ok [OF Cons.prems(1,2) x(1,2)] by blast
  then show ?case using Cons.IH [OF _ Cons.prems(2) x(3)] by auto
qed auto

section \<open>Two cores\<close>

definition ex_raw :: "nat \<Rightarrow> nat \<Rightarrow> dchain_cell" where
  "ex_raw = (\<lambda>_ _. \<lparr>cell_prev = 7, cell_next = 7\<rparr>)"

definition ex_heap :: "bool list \<Rightarrow> heap" where
  "ex_heap bs = \<lparr>live = Map.empty, fresh = 0, answers = bs\<rparr>"

definition ex_calls :: "chain_call list" where
  "ex_calls = [Allocate True 0 10, Rejuvenate 1 0 100, Allocate True 1 20, Expire True 0 15]"

definition ex_alloc :: "(int \<times> DoubleChainLocks option \<times> heap) option" where
  "ex_alloc = dchain_locks_allocate 3080 [0, 1] 2 ex_raw ex_raw (\<lambda>_. \<lparr>lc_cells = [], lc_active = [], lc_times = []\<rparr>) None
     (ex_heap (replicate 7 True))"

lemma ex_alloc_ok: "\<exists>chain h'. ex_alloc = Some (1, Some chain, h')"
proof -
  have "(case ex_alloc of Some (ret, Some chain, h') \<Rightarrow> ret = 1 | _ \<Rightarrow> False)" by code_simp
  then show ?thesis by (auto split: option.splits prod.splits)
qed

text \<open>Core 0 allocates index 0 at time 10 and core 1 uses it at time 100.\<close>

definition ex_shared :: "chain_call list" where
  "ex_shared = [Allocate True 0 10, Rejuvenate 1 0 100]"

lemma ex_shared_run:
  "\<exists>chain h' chain'. ex_alloc = Some (1, Some chain, h') \<and> chain_calls [0, 1] ex_shared chain = Some chain' \<and>
     chain_ok [0, 1] [1] (\<lambda>c. if c < 2 then [0] else []) 2 chain' \<and> lc_times (chain' 0) = [10, - 1] \<and> lc_times (chain' 1) = [100, - 1]"
proof -
  obtain chain h' where c: "ex_alloc = Some (1, Some chain, h')" using ex_alloc_ok by blast
  then have ok: "chain_ok [0, 1] [0, 1] (\<lambda>_. []) 2 chain" "lc_times (chain 0) = [- 1, - 1]" "lc_times (chain 1) = [- 1, - 1]"
    using cores_allocate_ok [OF c [unfolded ex_alloc_def dchain_locks_allocate_def]] by (auto simp: upto.simps numeral_2_eq_2)
  have d: "distinct [0, 1 :: nat]" "0 \<in> set [0, 1 :: nat]" "1 \<in> set [0, 1 :: nat]" by simp_all
  obtain chain1 where a: "dchain_tm_allocate_new_index [0, 1] 0 chain (- 1) 10 = Some (1, 0, chain1)"
    "chain_ok [0, 1] [1] ((\<lambda>_. [])(0 := [0])) 2 chain1" "lc_times (chain1 0) = [10, - 1]" "lc_times (chain1 1) = [10, - 1]"
    using tm_allocate_run(2) [OF ok(1) d(1,2), where i = "- 1" and t = 10] ok(2,3) by auto
  obtain r where r: "dchain_tm_rejuvenate_index 1 chain1 0 100 = Some (1, chain1(1 := r))"
    "chain_ok [0, 1] [1] ((\<lambda>_. [])(0 := [0], 1 := [0])) 2 (chain1(1 := r))" "lc_times r = [100, - 1]"
    using tm_rejuvenate_run(2) [OF a(2) d(3), of 0 100] a(4) by auto
  have "((\<lambda>_. [])(0 := [0], 1 := [0])) = (\<lambda>c :: nat. if c < 2 then [0 :: int] else [])" by (auto simp: fun_eq_iff)
  with r(2) have "chain_ok [0, 1] [1] (\<lambda>c. if c < 2 then [0] else []) 2 (chain1(1 := r))" by simp
  moreover have "chain_calls [0, 1] ex_shared chain = Some (chain1(1 := r))"
    using a(1) r(1) by (simp add: ex_shared_def dchain_locks_allocate_new_index_def dchain_locks_rejuvenate_index_def)
  ultimately show ?thesis using c a(3) r(3) by (intro exI [of _ chain] exI [of _ h'] exI [of _ "chain1(1 := r)"]) simp
qed

section \<open>Properties\<close>

text \<open>
  C23. After a successful allocation, no sequence of calls by the cores faults, and all cores always agree on
  which indexes are allocated. The calls are allocation, expiry, both in read or in write mode, and rejuvenation of
  an index in range; an index is freed by expiry, as in the expirators.
\<close>

theorem dchain_locks_cores_agree:
  assumes "dchain_locks_allocate struct_size lcores n raw_cells raw_active raw None h = Some (1, Some chain, h')"
    and "0 < n" "n + 2 < 2 ^ 31" "distinct lcores"
    and "\<forall>x\<in>set calls. call_core x \<in> set lcores \<and> call_index x \<subseteq> {0..<n}"
  shows "\<exists>chain'. chain_calls lcores calls chain = Some chain' \<and>
    (\<forall>c\<in>set lcores. \<forall>c'\<in>set lcores. \<forall>i. 0 \<le> i \<and> i < n \<longrightarrow>
       dchain_locks_is_index_allocated c chain' i \<noteq> None \<and>
       dchain_locks_is_index_allocated c chain' i = dchain_locks_is_index_allocated c' chain' i)"
proof -
  have "8 * (n + 2) < 2 ^ 64" using assms(3) by simp
  then have "chain_ok lcores [0..n - 1] (\<lambda>_. []) n chain"
    using cores_allocate_ok [OF assms(1) [unfolded dchain_locks_allocate_def] _ assms(2,3) _ assms(4)] by simp
  from chain_calls_ok [OF this assms(4,5)] obtain chain' fl act where
    "chain_calls lcores calls chain = Some chain'" "chain_ok lcores fl act n chain'" by blast
  then show ?thesis
    using is_allocated_run [of lcores fl act n chain'] by (auto simp: dchain_locks_is_index_allocated_def)
qed

theorem dchain_locks_cores_agree_witness:
  "\<exists>chain h' chain'. ex_alloc = Some (1, Some chain, h') \<and> chain_calls [0, 1] ex_calls chain = Some chain' \<and>
     dchain_locks_is_index_allocated 0 chain' 1 = dchain_locks_is_index_allocated 1 chain' 1"
proof -
  obtain chain h' where c: "ex_alloc = Some (1, Some chain, h')" using ex_alloc_ok by blast
  have d: "(0 :: int) < 2" "(2 :: int) + 2 < 2 ^ 31" "distinct [0 :: nat, 1]" by simp_all
  have "\<forall>x\<in>set ex_calls. call_core x \<in> set [0, 1] \<and> call_index x \<subseteq> {0..<2}" by (simp add: ex_calls_def)
  from dchain_locks_cores_agree [OF c [unfolded ex_alloc_def] d this] obtain chain' where
    r: "chain_calls [0, 1] ex_calls chain = Some chain'"
    "\<forall>c\<in>set [0, 1]. \<forall>c'\<in>set [0, 1]. \<forall>i. 0 \<le> i \<and> i < 2 \<longrightarrow> dchain_locks_is_index_allocated c chain' i \<noteq> None \<and>
       dchain_locks_is_index_allocated c chain' i = dchain_locks_is_index_allocated c' chain' i"
    by blast
  have "dchain_locks_is_index_allocated 0 chain' 1 = dchain_locks_is_index_allocated 1 chain' 1"
    by (rule conjunct2 [OF r(2) [rule_format]]) simp_all
  then show ?thesis using c r(1) by blast
qed

text \<open>
  C24. Expiry frees an index only in write mode, and only when the time stamps of all cores for it are older
  than the given time; in read mode it changes nothing.
\<close>

theorem dchain_locks_expire_safe:
  assumes "chain_ok lcores fl act n chain" "distinct lcores" "c \<in> set lcores"
  shows "\<exists>w ret j chain' fl' act'. dchain_locks_expire_one_index ws lcores c chain i t = Some (w, ret, j, chain') \<and>
    chain_ok lcores fl' act' n chain' \<and>
    (fl' = fl \<or> fl' = j # fl \<and> 0 \<le> j \<and> j < n \<and> j \<notin> set fl \<and> ws \<and> (\<forall>c'\<in>set lcores. lc_times (chain c') ! nat j < t)) \<and>
    (\<not> ws \<longrightarrow> chain' = chain)"
  by (rule locks_expire_cases [OF assms])

theorem dchain_locks_expire_safe_witness:
  "\<exists>chain h' chain1 w ret j chain2. ex_alloc = Some (1, Some chain, h') \<and> chain_calls [0, 1] ex_shared chain = Some chain1 \<and>
     dchain_locks_expire_one_index True [0, 1] 0 chain1 (- 1) 50 = Some (w, ret, j, chain2) \<and>
     dchain_locks_is_index_allocated 0 chain2 0 = Some 1"
proof -
  obtain chain h' chain1 where c: "ex_alloc = Some (1, Some chain, h')" "chain_calls [0, 1] ex_shared chain = Some chain1"
    "chain_ok [0, 1] [1] (\<lambda>c. if c < 2 then [0] else []) 2 chain1" "lc_times (chain1 1) = [100, - 1]"
    using ex_shared_run by metis
  obtain w ret j chain2 fl act where e: "dchain_locks_expire_one_index True [0, 1] 0 chain1 (- 1) 50 = Some (w, ret, j, chain2)"
    "chain_ok [0, 1] fl act 2 chain2"
    "fl = [1] \<or> fl = [j, 1] \<and> 0 \<le> j \<and> j < 2 \<and> j \<noteq> 1 \<and> lc_times (chain1 1) ! nat j < 50"
    using dchain_locks_expire_safe [OF c(3), of 0 True "- 1" 50] by auto
  have "j = 0" if "0 \<le> j" "j < 2" "j \<noteq> 1" using that by arith
  then have "fl = [1]" using e(3) c(4) by auto
  then have "dchain_locks_is_index_allocated 0 chain2 0 = Some 1"
    using is_allocated_run [OF e(2), of 0 0] by (simp add: dchain_locks_is_index_allocated_def)
  then show ?thesis using c(1,2) e(1) by metis
qed

text \<open>
  An allocation that fails for the second core leaves the three blocks of the first one behind.
\<close>

lemma dchain_locks_allocate_leaks:
  "(case dchain_locks_allocate 3080 [0, 1] 2 ex_raw ex_raw (\<lambda>_. \<lparr>lc_cells = [], lc_active = [], lc_times = []\<rparr>) None
       (ex_heap [True, True, True, True, False]) of
      Some (ret, out, h) \<Rightarrow> ret = 0 \<and> map (live h) [0, 1, 2, 3] = [None, Some 32, Some 32, Some 16]
    | None \<Rightarrow> False)"
  by code_simp

end
