(* ===== verification/Expirator_Cores.thy ===== *)
theory Expirator_Cores
  imports Dchain_Cores Double_Map
begin

text \<open>
  The expirators of the parallel programs, \<open>libvig/unverified/expirator-locks.c\<close> and \<open>expirator-tm.c\<close>, over
  the allocators of \<open>Dchain_Cores\<close>, with the guarded map of \<open>map-locks.c\<close>. With one core they do what the
  sequential expirator does. With several cores they do not return once the oldest index a core knows has
  been used again by another core.
\<close>

declare of_nat_unat [simp del]

section \<open>The guarded map and vector\<close>

text \<open>
  \<open>map-locks.c\<close>, \<open>double-map-locks.c\<close> and \<open>vector-locks.c\<close> are \<open>map.c\<close>, \<open>double-map.c\<close> and \<open>vector.c\<close> with
  blocks from \<open>rte_malloc\<close>, and with a guard in the operations that update a map: without \<open>write_state\<close> they
  only set \<open>write_attempt\<close>, the first component of their result.
\<close>

definition map_locks_allocate ::
  "bool \<Rightarrow> ('k \<Rightarrow> 'k \<Rightarrow> bool) \<Rightarrow> ('k \<Rightarrow> u32) \<Rightarrow> u32 \<Rightarrow> 'p raw_arrays \<Rightarrow> ('p, 'k) vmap option \<Rightarrow> heap
   \<Rightarrow> (int \<times> ('p, 'k) vmap option \<times> heap) option" where
  "map_locks_allocate = map_allocate"

definition map_locks_get ::
  "bool \<Rightarrow> ('p \<Rightarrow> 'k) \<Rightarrow> ('p, 'k) vmap \<Rightarrow> 'p \<Rightarrow> int \<Rightarrow> (int \<times> int) option" where
  "map_locks_get = map_get"

definition map_locks_put ::
  "bool \<Rightarrow> bool \<Rightarrow> ('p \<Rightarrow> 'k) \<Rightarrow> ('p, 'k) vmap \<Rightarrow> 'p \<Rightarrow> int \<Rightarrow> (bool \<times> ('p, 'k) vmap) option" where
  "map_locks_put write_state pow2 kv m key value =
     (if \<not> write_state then Some (True, m)
      else do {
        m \<leftarrow> map_put pow2 kv m key value;
        Some (False, m)
      })"

definition map_locks_erase ::
  "bool \<Rightarrow> bool \<Rightarrow> ('p \<Rightarrow> 'k) \<Rightarrow> ('p, 'k) vmap \<Rightarrow> 'p \<Rightarrow> 'p \<Rightarrow> (bool \<times> 'p \<times> ('p, 'k) vmap) option" where
  "map_locks_erase write_state pow2 kv m key trash =
     (if \<not> write_state then Some (True, trash, m)
      else do {
        (trash, m) \<leftarrow> map_erase pow2 kv m key trash;
        Some (False, trash, m)
      })"

definition map_locks_size :: "('p, 'k) vmap \<Rightarrow> u32" where
  "map_locks_size = map_size"

definition dmap_locks_allocate ::
  "bool \<Rightarrow> ('k1 \<Rightarrow> 'k1 \<Rightarrow> bool) \<Rightarrow> ('k1 \<Rightarrow> u32) \<Rightarrow> ('k2 \<Rightarrow> 'k2 \<Rightarrow> bool) \<Rightarrow> ('k2 \<Rightarrow> u32) \<Rightarrow> int \<Rightarrow> ('v \<Rightarrow> 'v) \<Rightarrow> ('v \<Rightarrow> 'v)
   \<Rightarrow> ('v \<Rightarrow> 'k1) \<Rightarrow> ('v \<Rightarrow> 'k2) \<Rightarrow> u32 \<Rightarrow> u32 \<Rightarrow> (nat \<Rightarrow> 'v) \<Rightarrow> 'k1 kptr raw_arrays \<Rightarrow> 'k2 kptr raw_arrays
   \<Rightarrow> ('k1, 'k2, 'v) DoubleMap option \<Rightarrow> heap \<Rightarrow> (int \<times> ('k1, 'k2, 'v) DoubleMap option \<times> heap) option" where
  "dmap_locks_allocate = dmap_allocate"

definition dmap_locks_get_a :: "bool \<Rightarrow> ('k1, 'k2, 'v) DoubleMap \<Rightarrow> 'k1 kptr \<Rightarrow> int \<Rightarrow> (int \<times> int) option" where
  "dmap_locks_get_a = dmap_get_a"

definition dmap_locks_get_b :: "bool \<Rightarrow> ('k1, 'k2, 'v) DoubleMap \<Rightarrow> 'k2 kptr \<Rightarrow> int \<Rightarrow> (int \<times> int) option" where
  "dmap_locks_get_b = dmap_get_b"

definition dmap_locks_put ::
  "bool \<Rightarrow> bool \<Rightarrow> ('k1, 'k2, 'v) DoubleMap \<Rightarrow> 'v \<Rightarrow> int \<Rightarrow> (bool \<times> int \<times> ('k1, 'k2, 'v) DoubleMap) option" where
  "dmap_locks_put write_state pow2 m v index =
     (if \<not> write_state then Some (True, 1, m)
      else do {
        (ret, m) \<leftarrow> dmap_put pow2 m v index;
        Some (False, ret, m)
      })"

definition dmap_locks_get_value :: "('k1, 'k2, 'v) DoubleMap \<Rightarrow> int \<Rightarrow> 'v option" where
  "dmap_locks_get_value = dmap_get_value"

definition dmap_locks_erase ::
  "bool \<Rightarrow> bool \<Rightarrow> ('k1, 'k2, 'v) DoubleMap \<Rightarrow> int \<Rightarrow> (bool \<times> int \<times> ('k1, 'k2, 'v) DoubleMap) option" where
  "dmap_locks_erase write_state pow2 m index =
     (if \<not> write_state then Some (True, 1, m)
      else do {
        (ret, m) \<leftarrow> dmap_erase pow2 m index;
        Some (False, ret, m)
      })"

definition dmap_locks_size :: "('k1, 'k2, 'v) DoubleMap \<Rightarrow> u32" where
  "dmap_locks_size = dmap_size"

definition vector_locks_allocate ::
  "int \<Rightarrow> u32 \<Rightarrow> ('a \<Rightarrow> 'a) \<Rightarrow> (nat \<Rightarrow> 'a) \<Rightarrow> 'a Vector option \<Rightarrow> heap \<Rightarrow> (int \<times> 'a Vector option \<times> heap) option" where
  "vector_locks_allocate = vector_allocate"

definition vector_locks_borrow :: "'a Vector \<Rightarrow> int \<Rightarrow> nat option" where
  "vector_locks_borrow = vector_borrow"

section \<open>The loops\<close>

partial_function (option) expire_tm_loop ::
  "bool \<Rightarrow> nat list \<Rightarrow> nat \<Rightarrow> int \<Rightarrow> 'k Vector \<Rightarrow> vigor_time \<Rightarrow> DoubleChainLocks \<Rightarrow> ('k kptr, 'k) vmap \<Rightarrow> int \<Rightarrow> int
   \<Rightarrow> (int \<times> DoubleChainLocks \<times> ('k kptr, 'k) vmap) option" where
  "expire_tm_loop pow2 lcores c offset vector time chain m index count = do {
     (ret, index, chain) \<leftarrow> dchain_tm_expire_one_index lcores c chain index time;
     if ret \<noteq> 0 then do {
       at \<leftarrow> s32 (index + offset);
       key \<leftarrow> vector_borrow vector at;
       (_, m) \<leftarrow> map_erase pow2 (key_at vector) m (Slot key) (Slot key);
       count \<leftarrow> s32 (count + 1);
       expire_tm_loop pow2 lcores c offset vector time chain m index count
     } else Some (count, chain, m)
   }"

definition expire_items_single_map_tm ::
  "bool \<Rightarrow> nat list \<Rightarrow> nat \<Rightarrow> DoubleChainLocks \<Rightarrow> 'k Vector \<Rightarrow> ('k kptr, 'k) vmap \<Rightarrow> vigor_time
   \<Rightarrow> (int \<times> DoubleChainLocks \<times> ('k kptr, 'k) vmap) option" where
  "expire_items_single_map_tm pow2 lcores c chain vector m time = expire_tm_loop pow2 lcores c 0 vector time chain m (- 1) 0"

definition expire_items_single_map_offseted_tm ::
  "bool \<Rightarrow> nat list \<Rightarrow> nat \<Rightarrow> DoubleChainLocks \<Rightarrow> 'k Vector \<Rightarrow> ('k kptr, 'k) vmap \<Rightarrow> vigor_time \<Rightarrow> int
   \<Rightarrow> (int \<times> DoubleChainLocks \<times> ('k kptr, 'k) vmap) option" where
  "expire_items_single_map_offseted_tm pow2 lcores c chain vector m time offset = do {
     cassert (offset \<ge> 0);
     expire_tm_loop pow2 lcores c offset vector time chain m (- 1) 0
   }"

partial_function (option) expire_items_tm_loop ::
  "bool \<Rightarrow> nat list \<Rightarrow> nat \<Rightarrow> vigor_time \<Rightarrow> DoubleChainLocks \<Rightarrow> ('k1, 'k2, 'v) DoubleMap \<Rightarrow> int \<Rightarrow> int
   \<Rightarrow> (int \<times> DoubleChainLocks \<times> ('k1, 'k2, 'v) DoubleMap) option" where
  "expire_items_tm_loop pow2 lcores c time chain m index count = do {
     (ret, index, chain) \<leftarrow> dchain_tm_expire_one_index lcores c chain index time;
     if ret \<noteq> 0 then do {
       (ret, m) \<leftarrow> dmap_erase pow2 m index;
       count \<leftarrow> s32 (count + 1);
       expire_items_tm_loop pow2 lcores c time chain m index count
     } else Some (count, chain, m)
   }"

definition expire_items_tm ::
  "bool \<Rightarrow> nat list \<Rightarrow> nat \<Rightarrow> DoubleChainLocks \<Rightarrow> ('k1, 'k2, 'v) DoubleMap \<Rightarrow> vigor_time
   \<Rightarrow> (int \<times> DoubleChainLocks \<times> ('k1, 'k2, 'v) DoubleMap) option" where
  "expire_items_tm pow2 lcores c chain m time = expire_items_tm_loop pow2 lcores c time chain m (- 1) 0"

text \<open>The loops for the lock stop at the first index they may not expire. The flag is \<open>write_attempt\<close>.\<close>

partial_function (option) expire_locks_loop ::
  "bool \<Rightarrow> bool \<Rightarrow> nat list \<Rightarrow> nat \<Rightarrow> 'k Vector \<Rightarrow> vigor_time \<Rightarrow> DoubleChainLocks \<Rightarrow> ('k kptr, 'k) vmap \<Rightarrow> int \<Rightarrow> int
   \<Rightarrow> (bool \<times> int \<times> DoubleChainLocks \<times> ('k kptr, 'k) vmap) option" where
  "expire_locks_loop write_state pow2 lcores c vector time chain m index count = do {
     (attempt, ret, index, chain) \<leftarrow> dchain_locks_expire_one_index write_state lcores c chain index time;
     if ret \<noteq> 0 then
       if \<not> write_state then Some (True, 1, chain, m)
       else do {
         key \<leftarrow> vector_locks_borrow vector index;
         (_, _, m) \<leftarrow> map_locks_erase write_state pow2 (key_at vector) m (Slot key) (Slot key);
         count \<leftarrow> s32 (count + 1);
         expire_locks_loop write_state pow2 lcores c vector time chain m index count
       }
     else Some (attempt, count, chain, m)
   }"

definition expire_items_single_map_locks ::
  "bool \<Rightarrow> bool \<Rightarrow> nat list \<Rightarrow> nat \<Rightarrow> DoubleChainLocks \<Rightarrow> 'k Vector \<Rightarrow> ('k kptr, 'k) vmap \<Rightarrow> vigor_time
   \<Rightarrow> (bool \<times> int \<times> DoubleChainLocks \<times> ('k kptr, 'k) vmap) option" where
  "expire_items_single_map_locks write_state pow2 lcores c chain vector m time =
     expire_locks_loop write_state pow2 lcores c vector time chain m (- 1) 0"

partial_function (option) expire_items_locks_loop ::
  "bool \<Rightarrow> bool \<Rightarrow> nat list \<Rightarrow> nat \<Rightarrow> vigor_time \<Rightarrow> DoubleChainLocks \<Rightarrow> ('k1, 'k2, 'v) DoubleMap \<Rightarrow> int \<Rightarrow> int
   \<Rightarrow> (bool \<times> int \<times> DoubleChainLocks \<times> ('k1, 'k2, 'v) DoubleMap) option" where
  "expire_items_locks_loop write_state pow2 lcores c time chain m index count = do {
     (attempt, ret, index, chain) \<leftarrow> dchain_locks_expire_one_index write_state lcores c chain index time;
     if ret \<noteq> 0 then
       if \<not> write_state then Some (True, 1, chain, m)
       else do {
         (_, _, m) \<leftarrow> dmap_locks_erase write_state pow2 m index;
         count \<leftarrow> s32 (count + 1);
         expire_items_locks_loop write_state pow2 lcores c time chain m index count
       }
     else Some (attempt, count, chain, m)
   }"

definition expire_items_locks ::
  "bool \<Rightarrow> bool \<Rightarrow> nat list \<Rightarrow> nat \<Rightarrow> DoubleChainLocks \<Rightarrow> ('k1, 'k2, 'v) DoubleMap \<Rightarrow> vigor_time
   \<Rightarrow> (bool \<times> int \<times> DoubleChainLocks \<times> ('k1, 'k2, 'v) DoubleMap) option" where
  "expire_items_locks write_state pow2 lcores c chain m time =
     expire_items_locks_loop write_state pow2 lcores c time chain m (- 1) 0"

text \<open>The loop with an offset has no guard of its own.\<close>

partial_function (option) expire_offseted_locks_loop ::
  "bool \<Rightarrow> bool \<Rightarrow> nat list \<Rightarrow> nat \<Rightarrow> int \<Rightarrow> 'k Vector \<Rightarrow> vigor_time \<Rightarrow> DoubleChainLocks \<Rightarrow> ('k kptr, 'k) vmap \<Rightarrow> bool \<Rightarrow> int \<Rightarrow> int
   \<Rightarrow> (bool \<times> int \<times> DoubleChainLocks \<times> ('k kptr, 'k) vmap) option" where
  "expire_offseted_locks_loop write_state pow2 lcores c offset vector time chain m attempted index count = do {
     (attempt, ret, index, chain) \<leftarrow> dchain_locks_expire_one_index write_state lcores c chain index time;
     if ret \<noteq> 0 then do {
       at \<leftarrow> s32 (index + offset);
       key \<leftarrow> vector_locks_borrow vector at;
       (attempt', _, m) \<leftarrow> map_locks_erase write_state pow2 (key_at vector) m (Slot key) (Slot key);
       count \<leftarrow> s32 (count + 1);
       expire_offseted_locks_loop write_state pow2 lcores c offset vector time chain m (attempted \<or> attempt \<or> attempt') index count
     } else Some (attempted \<or> attempt, count, chain, m)
   }"

definition expire_items_single_map_offseted_locks ::
  "bool \<Rightarrow> bool \<Rightarrow> nat list \<Rightarrow> nat \<Rightarrow> DoubleChainLocks \<Rightarrow> 'k Vector \<Rightarrow> ('k kptr, 'k) vmap \<Rightarrow> vigor_time \<Rightarrow> int
   \<Rightarrow> (bool \<times> int \<times> DoubleChainLocks \<times> ('k kptr, 'k) vmap) option" where
  "expire_items_single_map_offseted_locks write_state pow2 lcores c chain vector m time offset = do {
     cassert (offset \<ge> 0);
     expire_offseted_locks_loop write_state pow2 lcores c offset vector time chain m False (- 1) 0
   }"

text \<open>
  The last expirator erases the keys of a range of indexes. It reaches its end without a \<open>return\<close>: the value
  is only there when it stops early.
\<close>

function expire_iteratively_loop ::
  "bool \<Rightarrow> bool \<Rightarrow> 'k Vector \<Rightarrow> ('k kptr, 'k) vmap \<Rightarrow> int \<Rightarrow> int \<Rightarrow> ('k kptr, 'k) vmap option" where
  "expire_iteratively_loop write_state pow2 vector m i n_elems =
     (if i < n_elems then do {
        key \<leftarrow> vector_locks_borrow vector i;
        (_, _, m) \<leftarrow> map_locks_erase write_state pow2 (key_at vector) m (Slot key) (Slot key);
        expire_iteratively_loop write_state pow2 vector m (i + 1) n_elems
      } else Some m)"
  by pat_completeness auto
termination
  by (relation "measure (\<lambda>(_, _, _, _, i, n). nat (n - i))") auto

definition expire_items_single_map_iteratively_locks ::
  "bool \<Rightarrow> bool \<Rightarrow> 'k Vector \<Rightarrow> ('k kptr, 'k) vmap \<Rightarrow> int \<Rightarrow> int \<Rightarrow> (bool \<times> int option \<times> ('k kptr, 'k) vmap) option" where
  "expire_items_single_map_iteratively_locks write_state pow2 vector m start n_elems =
     (if n_elems \<noteq> 0 \<and> \<not> write_state then Some (True, Some 1, m)
      else do {
        cassert (start \<ge> 0);
        cassert (n_elems \<ge> 0);
        m \<leftarrow> expire_iteratively_loop write_state pow2 vector m start n_elems;
        Some (False, None, m)
      })"

section \<open>Expiry that does not return\<close>

text \<open>
  The oldest index that core \<open>c\<close> has active is too old by its own time stamp, and core \<open>c'\<close> has used it
  since.
\<close>

definition used_elsewhere :: "nat list \<Rightarrow> nat \<Rightarrow> int \<Rightarrow> vigor_time \<Rightarrow> nat \<Rightarrow> DoubleChainLocks \<Rightarrow> bool" where
  "used_elsewhere lcores c n time c' chain \<longleftrightarrow>
     (\<exists>fl act j js. chain_ok lcores fl act n chain \<and> act c = j # js \<and>
        - 1 < lc_times (chain c) ! nat j \<and> lc_times (chain c) ! nat j < time \<and> time \<le> lc_times (chain c') ! nat j)"

lemma expire_used_elsewhere:
  assumes "used_elsewhere lcores c n time c' chain" "distinct lcores" "c \<in> set lcores" "c' \<in> set lcores" "repositions f"
  shows "\<exists>j chain'. cores_expire_one_index (cores_update_timestamp f) True lcores c chain i time = Some (False, 1, j, chain') \<and>
    used_elsewhere lcores c n time c' chain'"
proof -
  obtain fl act j js where u: "chain_ok lcores fl act n chain" "act c = j # js"
    "- 1 < lc_times (chain c) ! nat j" "lc_times (chain c) ! nat j < time" "time \<le> lc_times (chain c') ! nat j"
    using assms(1) unfolding used_elsewhere_def by (elim exE conjE) (rule that)
  obtain cells where c: "cores_expire_one_index (cores_update_timestamp f) True lcores c chain i time = Some (False, 1, j, chain(c := (chain c)\<lparr>lc_cells := cells\<rparr>))"
    "chain_ok lcores fl act n (chain(c := (chain c)\<lparr>lc_cells := cells\<rparr>))"
    using expire_run(4) [where ws = True, OF u(1) assms(2,3,5) u(2-4) TrueI assms(4) u(5), of i] by (elim exE conjE) (rule that)
  then have "used_elsewhere lcores c n time c' (chain(c := (chain c)\<lparr>lc_cells := cells\<rparr>))"
    unfolding used_elsewhere_def using u by (intro exI [of _ fl] exI [of _ act] exI [of _ j] exI [of _ js]) auto
  with c(1) show ?thesis by blast
qed

lemma tm_used_elsewhere:
  assumes "used_elsewhere lcores c n time c' chain" "distinct lcores" "c \<in> set lcores" "c' \<in> set lcores"
  shows "\<exists>j chain'. dchain_tm_expire_one_index lcores c chain i time = Some (1, j, chain') \<and> used_elsewhere lcores c n time c' chain'"
  using expire_used_elsewhere [OF assms, of dchain_tm_impl_reposition_index i]
  by (auto simp: dchain_tm_expire_one_index_def dchain_tm_update_timestamp_def repositions_def)

lemma locks_used_elsewhere:
  assumes "used_elsewhere lcores c n time c' chain" "distinct lcores" "c \<in> set lcores" "c' \<in> set lcores"
  shows "\<exists>j chain'. dchain_locks_expire_one_index True lcores c chain i time = Some (False, 1, j, chain') \<and> used_elsewhere lcores c n time c' chain'"
  using expire_used_elsewhere [OF assms, of dchain_locks_impl_reposition_index i]
  by (auto simp: dchain_locks_expire_one_index_def dchain_locks_update_timestamp_def repositions_def)

definition two_cores :: "nat list \<Rightarrow> nat \<Rightarrow> nat \<Rightarrow> bool" where
  "two_cores lcores c c' \<longleftrightarrow> distinct lcores \<and> c \<in> set lcores \<and> c' \<in> set lcores"

lemma expire_tm_loop_diverges:
  assumes "expire_tm_loop pow2 lcores c offset vector time chain m index count = Some r"
  shows "two_cores lcores c c' \<Longrightarrow> \<not> used_elsewhere lcores c n time c' chain"
proof (rule expire_tm_loop.raw_induct [where P = "\<lambda>pow2 lcores c offset vector time chain m index count r.
      two_cores lcores c c' \<longrightarrow> \<not> used_elsewhere lcores c n time c' chain", OF _ assms, rule_format], intro notI)
  fix f pow2 lcores c offset vector time chain m index count r
  assume IH: "\<And>pow2 lcores c offset vector time chain m index count r.
      f pow2 lcores c offset vector time chain m index count = Some r \<Longrightarrow> two_cores lcores c c' \<Longrightarrow> \<not> used_elsewhere lcores c n time c' chain"
    and run: "do {
       (ret, index, chain) \<leftarrow> dchain_tm_expire_one_index lcores c chain index time;
       if ret \<noteq> 0 then do {
         at \<leftarrow> s32 (index + offset);
         key \<leftarrow> vector_borrow vector at;
         (_, m) \<leftarrow> map_erase pow2 (key_at vector) m (Slot key) (Slot key);
         count \<leftarrow> s32 (count + 1);
         f pow2 lcores c offset vector time chain m index count
       } else Some (count, chain, m)
     } = Some r"
    and u: "used_elsewhere lcores c n time c' chain" and two: "two_cores lcores c c'"
  obtain j chain' where e: "dchain_tm_expire_one_index lcores c chain index time = Some (1, j, chain')" "used_elsewhere lcores c n time c' chain'"
    using tm_used_elsewhere [OF u] two unfolding two_cores_def by metis
  then obtain m' k where "f pow2 lcores c offset vector time chain' m' j k = Some r" using run by (auto simp: bind_Some_conv)
  from IH [OF this two] e(2) show False by simp
qed

lemma expire_items_tm_loop_diverges:
  assumes "expire_items_tm_loop pow2 lcores c time chain m index count = Some r"
  shows "two_cores lcores c c' \<Longrightarrow> \<not> used_elsewhere lcores c n time c' chain"
proof (rule expire_items_tm_loop.raw_induct [where P = "\<lambda>pow2 lcores c time chain m index count r.
      two_cores lcores c c' \<longrightarrow> \<not> used_elsewhere lcores c n time c' chain", OF _ assms, rule_format], intro notI)
  fix f pow2 lcores c time chain m index count r
  assume IH: "\<And>pow2 lcores c time chain m index count r.
      f pow2 lcores c time chain m index count = Some r \<Longrightarrow> two_cores lcores c c' \<Longrightarrow> \<not> used_elsewhere lcores c n time c' chain"
    and run: "do {
       (ret, index, chain) \<leftarrow> dchain_tm_expire_one_index lcores c chain index time;
       if ret \<noteq> 0 then do {
         (ret, m) \<leftarrow> dmap_erase pow2 m index;
         count \<leftarrow> s32 (count + 1);
         f pow2 lcores c time chain m index count
       } else Some (count, chain, m)
     } = Some r"
    and u: "used_elsewhere lcores c n time c' chain" and two: "two_cores lcores c c'"
  obtain j chain' where e: "dchain_tm_expire_one_index lcores c chain index time = Some (1, j, chain')" "used_elsewhere lcores c n time c' chain'"
    using tm_used_elsewhere [OF u] two unfolding two_cores_def by metis
  then obtain m' k where "f pow2 lcores c time chain' m' j k = Some r" using run by (auto simp: bind_Some_conv)
  from IH [OF this two] e(2) show False by simp
qed

lemma expire_locks_loop_diverges:
  assumes "expire_locks_loop write_state pow2 lcores c vector time chain m index count = Some r"
  shows "write_state \<Longrightarrow> two_cores lcores c c' \<Longrightarrow> \<not> used_elsewhere lcores c n time c' chain"
proof (rule expire_locks_loop.raw_induct [where P = "\<lambda>write_state pow2 lcores c vector time chain m index count r.
      write_state \<longrightarrow> two_cores lcores c c' \<longrightarrow> \<not> used_elsewhere lcores c n time c' chain", OF _ assms, rule_format], intro notI)
  fix f write_state pow2 lcores c vector time chain m index count r
  assume IH: "\<And>write_state pow2 lcores c vector time chain m index count r.
      f write_state pow2 lcores c vector time chain m index count = Some r \<Longrightarrow> write_state \<Longrightarrow> two_cores lcores c c' \<Longrightarrow>
      \<not> used_elsewhere lcores c n time c' chain"
    and run: "do {
       (attempt, ret, index, chain) \<leftarrow> dchain_locks_expire_one_index write_state lcores c chain index time;
       if ret \<noteq> 0 then
         if \<not> write_state then Some (True, 1, chain, m)
         else do {
           key \<leftarrow> vector_locks_borrow vector index;
           (_, _, m) \<leftarrow> map_locks_erase write_state pow2 (key_at vector) m (Slot key) (Slot key);
           count \<leftarrow> s32 (count + 1);
           f write_state pow2 lcores c vector time chain m index count
         }
       else Some (attempt, count, chain, m)
     } = Some r"
    and u: "used_elsewhere lcores c n time c' chain" and two: "two_cores lcores c c'" and ws: "write_state"
  obtain j chain' where e: "dchain_locks_expire_one_index True lcores c chain index time = Some (False, 1, j, chain')" "used_elsewhere lcores c n time c' chain'"
    using locks_used_elsewhere [OF u] two unfolding two_cores_def by metis
  then obtain m' k where "f write_state pow2 lcores c vector time chain' m' j k = Some r" using run ws by (auto simp: bind_Some_conv)
  from IH [OF this ws two] e(2) show False by simp
qed

lemma expire_items_locks_loop_diverges:
  assumes "expire_items_locks_loop write_state pow2 lcores c time chain m index count = Some r"
  shows "write_state \<Longrightarrow> two_cores lcores c c' \<Longrightarrow> \<not> used_elsewhere lcores c n time c' chain"
proof (rule expire_items_locks_loop.raw_induct [where P = "\<lambda>write_state pow2 lcores c time chain m index count r.
      write_state \<longrightarrow> two_cores lcores c c' \<longrightarrow> \<not> used_elsewhere lcores c n time c' chain", OF _ assms, rule_format], intro notI)
  fix f write_state pow2 lcores c time chain m index count r
  assume IH: "\<And>write_state pow2 lcores c time chain m index count r.
      f write_state pow2 lcores c time chain m index count = Some r \<Longrightarrow> write_state \<Longrightarrow> two_cores lcores c c' \<Longrightarrow>
      \<not> used_elsewhere lcores c n time c' chain"
    and run: "do {
       (attempt, ret, index, chain) \<leftarrow> dchain_locks_expire_one_index write_state lcores c chain index time;
       if ret \<noteq> 0 then
         if \<not> write_state then Some (True, 1, chain, m)
         else do {
           (_, _, m) \<leftarrow> dmap_locks_erase write_state pow2 m index;
           count \<leftarrow> s32 (count + 1);
           f write_state pow2 lcores c time chain m index count
         }
       else Some (attempt, count, chain, m)
     } = Some r"
    and u: "used_elsewhere lcores c n time c' chain" and two: "two_cores lcores c c'" and ws: "write_state"
  obtain j chain' where e: "dchain_locks_expire_one_index True lcores c chain index time = Some (False, 1, j, chain')" "used_elsewhere lcores c n time c' chain'"
    using locks_used_elsewhere [OF u] two unfolding two_cores_def by metis
  then obtain m' k where "f write_state pow2 lcores c time chain' m' j k = Some r" using run ws by (auto simp: bind_Some_conv)
  from IH [OF this ws two] e(2) show False by simp
qed

lemma expire_offseted_locks_loop_diverges:
  assumes "expire_offseted_locks_loop write_state pow2 lcores c offset vector time chain m attempted index count = Some r"
  shows "write_state \<Longrightarrow> two_cores lcores c c' \<Longrightarrow> \<not> used_elsewhere lcores c n time c' chain"
proof (rule expire_offseted_locks_loop.raw_induct [where P = "\<lambda>write_state pow2 lcores c offset vector time chain m attempted index count r.
      write_state \<longrightarrow> two_cores lcores c c' \<longrightarrow> \<not> used_elsewhere lcores c n time c' chain", OF _ assms, rule_format], intro notI)
  fix f write_state pow2 lcores c offset vector time chain m attempted index count r
  assume IH: "\<And>write_state pow2 lcores c offset vector time chain m attempted index count r.
      f write_state pow2 lcores c offset vector time chain m attempted index count = Some r \<Longrightarrow> write_state \<Longrightarrow> two_cores lcores c c' \<Longrightarrow>
      \<not> used_elsewhere lcores c n time c' chain"
    and run: "do {
       (attempt, ret, index, chain) \<leftarrow> dchain_locks_expire_one_index write_state lcores c chain index time;
       if ret \<noteq> 0 then do {
         at \<leftarrow> s32 (index + offset);
         key \<leftarrow> vector_locks_borrow vector at;
         (attempt', _, m) \<leftarrow> map_locks_erase write_state pow2 (key_at vector) m (Slot key) (Slot key);
         count \<leftarrow> s32 (count + 1);
         f write_state pow2 lcores c offset vector time chain m (attempted \<or> attempt \<or> attempt') index count
       } else Some (attempted \<or> attempt, count, chain, m)
     } = Some r"
    and u: "used_elsewhere lcores c n time c' chain" and two: "two_cores lcores c c'" and ws: "write_state"
  obtain j chain' where e: "dchain_locks_expire_one_index True lcores c chain index time = Some (False, 1, j, chain')" "used_elsewhere lcores c n time c' chain'"
    using locks_used_elsewhere [OF u] two unfolding two_cores_def by metis
  then obtain m' a k where "f write_state pow2 lcores c offset vector time chain' m' a j k = Some r" using run ws by (auto simp: bind_Some_conv)
  from IH [OF this ws two] e(2) show False by simp
qed

section \<open>One core\<close>

text \<open>
  With one core the list of active indexes is the list of allocated ones, and the chain \<open>r\<close> of the core
  behaves like the sequential chain \<open>d\<close> with the same cells.
\<close>

definition same_chain :: "int list \<Rightarrow> int list \<Rightarrow> int \<Rightarrow> DoubleChain \<Rightarrow> lcore_chain \<Rightarrow> bool" where
  "same_chain al fl n d r \<longleftrightarrow>
     dchain_links (lc_cells r) al fl n \<and> active_links (lc_active r) al n \<and> ch_cells d = lc_cells r \<and>
     int (length (ch_times d)) = n \<and> int (length (lc_times r)) = n \<and>
     (\<forall>x\<in>set al. lc_times r ! nat (x - 2) = ch_times d ! nat (x - 2) \<and> 0 \<le> lc_times r ! nat (x - 2))"

lemma same_chain_range:
  assumes "same_chain al fl n d r" "x \<in> set al \<union> set fl"
  shows "2 \<le> x" "x < n + 2"
  using assms dchain_links_member [of "lc_cells r" al fl n x] by (auto simp: same_chain_def)

lemma same_chain_times:
  assumes "same_chain al fl n d r" "2 \<le> x" "x < n + 2"
  shows "arr_get (ch_times d) (x - 2) = Some (ch_times d ! nat (x - 2))" "arr_get (lc_times r) (x - 2) = Some (lc_times r ! nat (x - 2))"
    "arr_set (ch_times d) (x - 2) t = Some ((ch_times d)[nat (x - 2) := t])" "arr_set (lc_times r) (x - 2) t = Some ((lc_times r)[nat (x - 2) := t])"
  using assms by (auto simp: same_chain_def arr_get_def arr_set_def)

lemma nth_upd_index:
  assumes "2 \<le> x" "2 \<le> y" "nat (x - 2) < length ts"
  shows "ts[nat (x - 2) := t] ! nat (y - 2) = (if x = y then t else ts ! nat (y - 2))"
  using assms by (auto simp: nth_list_update)

lemma same_allocate:
  assumes s: "same_chain al fl n d (chain c)" and t: "0 \<le> t"
  shows "\<exists>ret j d' chain' al' fl'. dchain_allocate_new_index d i t = Some (ret, j, d') \<and>
    dchain_tm_allocate_new_index [c] c chain i t = Some (ret, j, chain') \<and> same_chain al' fl' n d' (chain' c)"
proof -
  have links: "dchain_links (lc_cells (chain c)) al fl n" "ch_cells d = lc_cells (chain c)" using s by (simp_all add: same_chain_def)
  show ?thesis
  proof (cases fl)
    case Nil
    have "same_chain al fl n (d\<lparr>ch_cells := lc_cells (chain c)\<rparr>) (chain c)" using s by (auto simp: same_chain_def)
    then show ?thesis
      using allocate_new_index_run(1) [OF links(1) Nil, of i] links(2) s
      by (auto simp: dchain_allocate_new_index_def dchain_tm_allocate_new_index_def)
  next
    case (Cons a fl')
    obtain cells where c: "dchain_impl_allocate_new_index (lc_cells (chain c)) i = Some (1, a - 2, cells)" "dchain_links cells (al @ [a]) fl' n"
      using allocate_new_index_run(2) [OF links(1) Cons, of i] by blast
    have a: "2 \<le> a" "a < n + 2" using same_chain_range [OF s, of a] Cons by auto
    have "a \<notin> set al" using links(1) Cons by (auto simp: dchain_links_def)
    then obtain r act where act: "dchain_locks_impl_activate_index (lc_active (chain c)) (a - 2) = Some (r, act)" "active_links act (al @ [a]) n"
      using activate_run [of "lc_active (chain c)" al n a] s a by (auto simp: same_chain_def remove1_idem)
    let ?d = "d\<lparr>ch_cells := cells, ch_times := (ch_times d)[nat (a - 2) := t]\<rparr>"
    let ?r = "(chain c)\<lparr>lc_cells := cells, lc_times := (lc_times (chain c))[nat (a - 2) := t], lc_active := act\<rparr>"
    have "\<forall>x\<in>set al. 2 \<le> x" using same_chain_range [OF s] by auto
    then have "same_chain (al @ [a]) fl' n ?d ?r"
      using s a t c(2) act(2) by (auto simp: same_chain_def nth_upd_index)
    moreover have "dchain_allocate_new_index d i t = Some (1, a - 2, ?d)"
      using c(1) links(2) same_chain_times(3) [OF s a] by (simp add: dchain_allocate_new_index_def)
    moreover have "dchain_tm_allocate_new_index [c] c chain i t = Some (1, a - 2, chain(c := ?r))"
      using c(1) act(1) same_chain_times(4) [OF s a] by (simp add: dchain_tm_allocate_new_index_def)
    ultimately show ?thesis by (metis fun_upd_same)
  qed
qed

lemma same_expire:
  assumes s: "same_chain al fl n d (chain c)"
  shows "\<exists>ret j d' chain' al' fl'. dchain_expire_one_index d i t = Some (ret, j, d') \<and>
    (\<forall>f. cores_expire_one_index f True [c] c chain i t = Some (False, ret, j, chain')) \<and> same_chain al' fl' n d' (chain' c) \<and>
    (ret \<noteq> 0 \<longrightarrow> s32 j = Some j)"
proof -
  have links: "dchain_links (lc_cells (chain c)) al fl n" "ch_cells d = lc_cells (chain c)" "active_links (lc_active (chain c)) al n"
    using s by (simp_all add: same_chain_def)
  note old = get_oldest_index_run [OF links(1), of i] get_oldest_active [OF links(3), of i]
  show ?thesis
  proof (cases al)
    case Nil
    then show ?thesis
      using old links(2) s by (auto simp: dchain_expire_one_index_def cores_expire_one_index_def)
  next
    case (Cons x xs)
    have x: "2 \<le> x" "x < n + 2" using same_chain_range [OF s, of x] Cons by auto
    have tx: "lc_times (chain c) ! nat (x - 2) = ch_times d ! nat (x - 2)" "0 \<le> ch_times d ! nat (x - 2)"
      using s Cons by (auto simp: same_chain_def)
    show ?thesis
    proof (cases "ch_times d ! nat (x - 2) < t")
      case False
      then show ?thesis
        using old links(2) s Cons tx same_chain_times(1,2) [OF s x]
        by (auto simp: dchain_expire_one_index_def cores_expire_one_index_def)
    next
      case True
      obtain cells where f: "dchain_impl_free_index (lc_cells (chain c)) (x - 2) = Some (1, cells)" "dchain_links cells xs (x # fl) n"
        using free_index_run [of "lc_cells (chain c)" "[]" x xs fl n] links(1) Cons by auto
      obtain r act where act: "dchain_locks_impl_deactivate_index (lc_active (chain c)) (x - 2) = Some (r, act)" "active_links act xs n"
        using deactivate_run [OF links(3) x] Cons by auto
      let ?d = "d\<lparr>ch_cells := cells\<rparr>"
      let ?r = "\<lparr>lc_cells = cells, lc_active = act, lc_times = (lc_times (chain c))[nat (x - 2) := - 1]\<rparr>"
      have "\<forall>y\<in>set xs. 2 \<le> y" "x \<notin> set xs" using same_chain_range [OF s] links(1) Cons by (auto simp: dchain_links_def)
      then have "same_chain xs (x # fl) n ?d ?r"
        using s x f(2) act(2) Cons by (auto simp: same_chain_def nth_upd_index)
      moreover have "dchain_expire_one_index d i t = Some (1, x - 2, ?d)"
        using old links(2) Cons True same_chain_times(1) [OF s x] f(1) by (simp add: dchain_expire_one_index_def)
      moreover have "\<forall>f. cores_expire_one_index f True [c] c chain i t = Some (False, 1, x - 2, chain(c := ?r))"
        using old Cons True tx same_chain_times(2,4) [OF s x] f(1) act(1)
        by (simp add: cores_expire_one_index_def dchain_tm_free_index_def)
      moreover have "s32 (x - 2) = Some (x - 2)" using x links(1) by (simp add: s32_def dchain_links_def)
      ultimately show ?thesis by (metis fun_upd_same)
    qed
  qed
qed

lemma same_expire_loop:
  assumes "expire_items_single_map_loop pow2 d vector m time index count = Some r"
  shows "same_chain al fl n d (chain c) \<Longrightarrow> \<exists>k d' m' chain' al' fl'. r = (k, d', m') \<and>
    expire_tm_loop pow2 [c] c 0 vector time chain m index count = Some (k, chain', m') \<and>
    expire_locks_loop True pow2 [c] c vector time chain m index count = Some (False, k, chain', m') \<and> same_chain al' fl' n d' (chain' c)"
proof (rule expire_items_single_map_loop.raw_induct [where P = "\<lambda>pow2 d vector m time index count r. \<forall>al fl chain.
      same_chain al fl n d (chain c) \<longrightarrow> (\<exists>k d' m' chain' al' fl'. r = (k, d', m') \<and>
      expire_tm_loop pow2 [c] c 0 vector time chain m index count = Some (k, chain', m') \<and>
      expire_locks_loop True pow2 [c] c vector time chain m index count = Some (False, k, chain', m') \<and> same_chain al' fl' n d' (chain' c))",
      OF _ assms, rule_format])
  fix f pow2 d vector m time index count r al fl chain
  assume IH: "\<And>pow2 d vector m time index count r al fl chain.
      f pow2 d vector m time index count = Some r \<Longrightarrow> same_chain al fl n d (chain c) \<Longrightarrow>
      \<exists>k d' m' chain' al' fl'. r = (k, d', m') \<and>
      expire_tm_loop pow2 [c] c 0 vector time chain m index count = Some (k, chain', m') \<and>
      expire_locks_loop True pow2 [c] c vector time chain m index count = Some (False, k, chain', m') \<and> same_chain al' fl' n d' (chain' c)"
    and run: "do {
       (ret, index, d) \<leftarrow> dchain_expire_one_index d index time;
       if ret \<noteq> 0 then do {
         key \<leftarrow> vector_borrow vector index;
         (_, m) \<leftarrow> map_erase pow2 (key_at vector) m (Slot key) (Slot key);
         count \<leftarrow> s32 (count + 1);
         f pow2 d vector m time index count
       } else Some (count, d, m)
     } = Some r"
    and s: "same_chain al fl n d (chain c)"
  obtain ret j d' chain' al' fl' where e: "dchain_expire_one_index d index time = Some (ret, j, d')"
    "\<forall>f. cores_expire_one_index f True [c] c chain index time = Some (False, ret, j, chain')" "same_chain al' fl' n d' (chain' c)"
    "ret \<noteq> 0 \<longrightarrow> s32 j = Some j"
    using same_expire [where chain = chain and i = index and t = time, OF s] by (elim exE conjE) (rule that)
  have e2: "dchain_tm_expire_one_index [c] c chain index time = Some (ret, j, chain')"
    "dchain_locks_expire_one_index True [c] c chain index time = Some (False, ret, j, chain')"
    using e(2) by (simp_all add: dchain_tm_expire_one_index_def dchain_locks_expire_one_index_def)
  show "\<exists>k d' m' chain' al' fl'. r = (k, d', m') \<and>
      expire_tm_loop pow2 [c] c 0 vector time chain m index count = Some (k, chain', m') \<and>
      expire_locks_loop True pow2 [c] c vector time chain m index count = Some (False, k, chain', m') \<and> same_chain al' fl' n d' (chain' c)"
  proof (cases "ret = 0")
    case True
    then have "r = (count, d', m)" "expire_tm_loop pow2 [c] c 0 vector time chain m index count = Some (count, chain', m)"
      "expire_locks_loop True pow2 [c] c vector time chain m index count = Some (False, count, chain', m)"
      using run e(1) e2 by (simp_all add: expire_tm_loop.simps expire_locks_loop.simps)
    then show ?thesis using e(3) by blast
  next
    case False
    then obtain key x m' count' where b: "vector_borrow vector j = Some key" "map_erase pow2 (key_at vector) m (Slot key) (Slot key) = Some (x, m')"
      "s32 (count + 1) = Some count'" "f pow2 d' vector m' time j count' = Some r"
      using run e(1) by (auto simp: bind_Some_conv)
    have "expire_tm_loop pow2 [c] c 0 vector time chain m index count = expire_tm_loop pow2 [c] c 0 vector time chain' m' j count'"
      using False e2(1) e(4) b by (subst expire_tm_loop.simps) simp
    moreover have "expire_locks_loop True pow2 [c] c vector time chain m index count = expire_locks_loop True pow2 [c] c vector time chain' m' j count'"
      using False e2(2) b by (subst expire_locks_loop.simps) (simp add: vector_locks_borrow_def map_locks_erase_def)
    ultimately show ?thesis using IH [where chain = chain', OF b(4) e(3)] by simp
  qed
qed

section \<open>Reading\<close>

lemma expire_locks_read:
  assumes "chain_ok lcores fl act n chain" "distinct lcores" "c \<in> set lcores"
  shows "\<exists>ret j. dchain_locks_expire_one_index False lcores c chain i time = Some (ret \<noteq> 0, ret, j, chain) \<and>
    (ret \<noteq> 0 \<longleftrightarrow> (\<exists>j js. act c = j # js \<and> - 1 < lc_times (chain c) ! nat j \<and> lc_times (chain c) ! nat j < time))"
proof -
  have f: "repositions dchain_locks_impl_reposition_index" by (simp add: repositions_def)
  note run = expire_run [OF assms f, where i = i and t = time and ws = False, folded dchain_locks_update_timestamp_def dchain_locks_expire_one_index_def]
  show ?thesis
  proof (cases "act c")
    case Nil
    then show ?thesis using run(1) by simp
  next
    case (Cons j js)
    then show ?thesis
      using run(2,3) [OF Cons]
      by (cases "- 1 < lc_times (chain c) ! nat j \<and> lc_times (chain c) ! nat j < time") simp_all
  qed
qed

lemma expire_offseted_read_diverges:
  assumes "expire_offseted_locks_loop write_state pow2 lcores c offset vector time chain m attempted index count = Some r"
  shows "chain_ok lcores fl act n chain \<Longrightarrow> distinct lcores \<Longrightarrow> c \<in> set lcores \<Longrightarrow> \<not> write_state \<Longrightarrow>
    \<not> (\<exists>j js. act c = j # js \<and> - 1 < lc_times (chain c) ! nat j \<and> lc_times (chain c) ! nat j < time)"
proof (rule expire_offseted_locks_loop.raw_induct [where P = "\<lambda>write_state pow2 lcores c offset vector time chain m attempted index count r.
      chain_ok lcores fl act n chain \<longrightarrow> distinct lcores \<longrightarrow> c \<in> set lcores \<longrightarrow> \<not> write_state \<longrightarrow>
      \<not> (\<exists>j js. act c = j # js \<and> - 1 < lc_times (chain c) ! nat j \<and> lc_times (chain c) ! nat j < time)", OF _ assms, rule_format], intro notI)
  fix f write_state pow2 lcores c offset vector time chain m attempted index count r
  assume IH: "\<And>write_state pow2 lcores c offset vector time chain m attempted index count r.
      f write_state pow2 lcores c offset vector time chain m attempted index count = Some r \<Longrightarrow> chain_ok lcores fl act n chain \<Longrightarrow>
      distinct lcores \<Longrightarrow> c \<in> set lcores \<Longrightarrow> \<not> write_state \<Longrightarrow>
      \<not> (\<exists>j js. act c = j # js \<and> - 1 < lc_times (chain c) ! nat j \<and> lc_times (chain c) ! nat j < time)"
    and run: "do {
       (attempt, ret, index, chain) \<leftarrow> dchain_locks_expire_one_index write_state lcores c chain index time;
       if ret \<noteq> 0 then do {
         at \<leftarrow> s32 (index + offset);
         key \<leftarrow> vector_locks_borrow vector at;
         (attempt', _, m) \<leftarrow> map_locks_erase write_state pow2 (key_at vector) m (Slot key) (Slot key);
         count \<leftarrow> s32 (count + 1);
         f write_state pow2 lcores c offset vector time chain m (attempted \<or> attempt \<or> attempt') index count
       } else Some (attempted \<or> attempt, count, chain, m)
     } = Some r"
    and ok: "chain_ok lcores fl act n chain" "distinct lcores" "c \<in> set lcores" "\<not> write_state"
    and old: "\<exists>j js. act c = j # js \<and> - 1 < lc_times (chain c) ! nat j \<and> lc_times (chain c) ! nat j < time"
  obtain ret j where e: "dchain_locks_expire_one_index False lcores c chain index time = Some (True, ret, j, chain)" "ret \<noteq> 0"
    using expire_locks_read [OF ok(1-3), of index time] old by auto
  then obtain m' a k where rest: "f write_state pow2 lcores c offset vector time chain m' a j k = Some r"
    using run ok(4) by (auto simp: bind_Some_conv)
  show False by (rule notE [OF IH [OF rest ok] old])
qed

text \<open>
  In read mode the loop with an offset does not return as soon as there is something to expire.
\<close>

lemma offseted_locks_read_stuck:
  assumes "chain_ok lcores fl act n chain" "distinct lcores" "c \<in> set lcores"
    and "act c = j # js" "- 1 < lc_times (chain c) ! nat j" "lc_times (chain c) ! nat j < time"
  shows "expire_items_single_map_offseted_locks False pow2 lcores c chain vector m time offset = None"
proof (cases "expire_offseted_locks_loop False pow2 lcores c offset vector time chain m False (- 1) 0")
  case (Some r)
  from expire_offseted_read_diverges [OF this assms(1-3)] assms(4-6) show ?thesis by blast
qed (simp add: expire_items_single_map_offseted_locks_def)

section \<open>Properties\<close>

text \<open>
  C25. With one core the two parallel expirators do what the sequential one does on a coherent table: they
  return, with the same count and the same map, and the chains stay the same.
\<close>

theorem one_core_expire_items:
  assumes "same_chain al fl n d (chain c)" "flow_table_ok pow2 ch d vector m"
  shows "\<exists>k d' m' chain' al' fl'. expire_items_single_map pow2 d vector m time = Some (k, d', m') \<and>
    expire_items_single_map_tm pow2 [c] c chain vector m time = Some (k, chain', m') \<and>
    expire_items_single_map_locks True pow2 [c] c chain vector m time = Some (False, k, chain', m') \<and>
    same_chain al' fl' n d' (chain' c)"
proof -
  obtain k d' m' where run: "expire_items_single_map pow2 d vector m time = Some (k, d', m')"
    using expire_items_single_map_spec [OF assms(2), of time] by blast
  from same_expire_loop [where chain = chain, OF this [unfolded expire_items_single_map_def] assms(1)] obtain chain' al' fl' where
    "expire_tm_loop pow2 [c] c 0 vector time chain m (- 1) 0 = Some (k, chain', m')"
    "expire_locks_loop True pow2 [c] c vector time chain m (- 1) 0 = Some (False, k, chain', m')" "same_chain al' fl' n d' (chain' c)"
    by auto
  then show ?thesis using run by (auto simp: expire_items_single_map_tm_def expire_items_single_map_locks_def)
qed

definition ex_core :: lcore_chain where
  "ex_core = \<lparr>lc_cells = ch_cells ex_chain,
     lc_active = [\<lparr>cell_prev = 3, cell_next = 2\<rparr>, \<lparr>cell_prev = 1, cell_next = 1\<rparr>,
                  \<lparr>cell_prev = 0, cell_next = 3\<rparr>, \<lparr>cell_prev = 2, cell_next = 0\<rparr>, \<lparr>cell_prev = 1, cell_next = 1\<rparr>],
     lc_times = [5, 7, - 1]\<rparr>"

lemma ex_core_same: "same_chain [2, 3] [4] 3 ex_chain ex_core"
proof -
  have "{2..4 :: int} = {2, 3, 4}" by auto
  then have "dchain_links (ch_cells ex_chain) [2, 3] [4] 3" "active_links (lc_active ex_core) [2, 3] 3"
    by (auto simp: dchain_links_def active_links_def ring_def ex_chain_def ex_core_def nx_def pv_def arr_get_def)
  then show ?thesis by (simp add: same_chain_def ex_core_def ex_chain_def)
qed

theorem one_core_expire_items_witness:
  "\<exists>k d' m' chain'. expire_items_single_map True ex_chain (ex_vector 10 (11 :: nat)) (ex_flows 10 11) 6 = Some (k, d', m') \<and>
    expire_items_single_map_tm True [7] 7 (\<lambda>_. ex_core) (ex_vector 10 11) (ex_flows 10 11) 6 = Some (k, chain', m') \<and>
    expire_items_single_map_locks True True [7] 7 (\<lambda>_. ex_core) (ex_vector 10 11) (ex_flows 10 11) 6 = Some (False, k, chain', m')"
  using one_core_expire_items [where chain = "\<lambda>_. ex_core" and c = 7 and time = 6, OF ex_core_same ex_flow_table_ok [of "10 :: nat" 11]]
  by auto

text \<open>
  C26. In read mode, without the right to write, \<open>expire_items_single_map_locks\<close> and \<open>expire_items_locks\<close>
  return at once and change neither the chains of any core nor the map. They ask for the right to write
  exactly when the oldest index the core has active is too old by the core's own time stamp. The variant with an offset
  does the same when there is no such index, and returns no result when there is: it has no early return, so it
  finds the index again in every round.
\<close>

theorem expire_items_read_only:
  assumes "chain_ok lcores fl act n chain" "distinct lcores" "c \<in> set lcores"
  shows "\<exists>attempt k. expire_items_single_map_locks False pow2 lcores c chain vector m time = Some (attempt, k, chain, m) \<and>
    expire_items_locks False pow2 lcores c chain dm time = Some (attempt, k, chain, dm) \<and>
    (attempt \<longleftrightarrow> (\<exists>j js. act c = j # js \<and> - 1 < lc_times (chain c) ! nat j \<and> lc_times (chain c) ! nat j < time)) \<and>
    (0 \<le> offset \<longrightarrow> expire_items_single_map_offseted_locks False pow2 lcores c chain vector m time offset =
       (if attempt then None else Some (False, 0, chain, m)))"
proof -
  obtain ret j where e: "dchain_locks_expire_one_index False lcores c chain (- 1) time = Some (ret \<noteq> 0, ret, j, chain)"
    "ret \<noteq> 0 \<longleftrightarrow> (\<exists>j js. act c = j # js \<and> - 1 < lc_times (chain c) ! nat j \<and> lc_times (chain c) ! nat j < time)"
    using expire_locks_read [OF assms, of "- 1" time] by blast
  have "expire_items_single_map_locks False pow2 lcores c chain vector m time = Some (ret \<noteq> 0, if ret \<noteq> 0 then 1 else 0, chain, m)"
    using e(1) by (simp add: expire_items_single_map_locks_def expire_locks_loop.simps)
  moreover have "expire_items_locks False pow2 lcores c chain dm time = Some (ret \<noteq> 0, if ret \<noteq> 0 then 1 else 0, chain, dm)"
    using e(1) by (simp add: expire_items_locks_def expire_items_locks_loop.simps)
  moreover have "expire_items_single_map_offseted_locks False pow2 lcores c chain vector m time offset = (if ret \<noteq> 0 then None else Some (False, 0, chain, m))"
    if "0 \<le> offset"
  proof (cases "ret = 0")
    case True
    then show ?thesis
      using e(1) that by (simp add: expire_items_single_map_offseted_locks_def expire_offseted_locks_loop.simps run_simps)
  next
    case False
    then show ?thesis using e(2) offseted_locks_read_stuck [OF assms, where vector = vector and m = m] by auto
  qed
  ultimately show ?thesis unfolding e(2) [symmetric] by blast
qed

theorem expire_items_read_only_witness:
  "\<exists>chain h' chain' k. ex_alloc = Some (1, Some chain, h') \<and> chain_calls [0, 1] ex_shared chain = Some chain' \<and>
     expire_items_single_map_locks False True [0, 1] 0 chain' (ex_vector 10 (11 :: nat)) (ex_flows 10 11) 50 = Some (True, k, chain', ex_flows 10 11)"
proof -
  obtain chain h' chain' where c: "ex_alloc = Some (1, Some chain, h')" "chain_calls [0, 1] ex_shared chain = Some chain'"
    "chain_ok [0, 1] [1] (\<lambda>c. if c < 2 then [0] else []) 2 chain'" "lc_times (chain' 0) = [10, - 1]"
    using ex_shared_run by metis
  obtain k where "expire_items_single_map_locks False True [0, 1] 0 chain' (ex_vector 10 (11 :: nat)) (ex_flows 10 11) 50 = Some (True, k, chain', ex_flows 10 11)"
    using expire_items_read_only [OF c(3), of 0 True "ex_vector 10 (11 :: nat)" "ex_flows 10 11" 50 "undefined :: (nat, nat, nat) DoubleMap" 0] c(4) by auto
  with c(1,2) show ?thesis by metis
qed

text \<open>
  C27. Let the oldest index that a core has active be too old by the core's own time stamp, while another core has
  used the index since the limit. Then none of the core's expirators returns a result, neither the three of \<open>expirator-tm.c\<close>
  nor, with the right to write, the three of \<open>expirator-locks.c\<close> that take a time: \<open>expire_one_index\<close> reports the index as
  expired without freeing it or storing the newer time stamp, so each round of the loop finds it again,
  until the loop faults, in the map or in its counter, or for ever.
\<close>

theorem expire_items_cores_stuck:
  assumes "chain_ok lcores fl act n chain" "distinct lcores" "c \<in> set lcores" "c' \<in> set lcores" "act c = j # js"
    and "- 1 < lc_times (chain c) ! nat j" "lc_times (chain c) ! nat j < time" "time \<le> lc_times (chain c') ! nat j"
  shows "expire_items_single_map_tm pow2 lcores c chain vector m time = None \<and>
    expire_items_single_map_offseted_tm pow2 lcores c chain vector m time offset = None \<and>
    expire_items_tm pow2 lcores c chain dm time = None \<and>
    expire_items_single_map_locks True pow2 lcores c chain vector m time = None \<and>
    expire_items_single_map_offseted_locks True pow2 lcores c chain vector m time offset = None \<and>
    expire_items_locks True pow2 lcores c chain dm time = None"
proof -
  have u: "used_elsewhere lcores c n time c' chain" "two_cores lcores c c'"
    using assms unfolding used_elsewhere_def two_cores_def by blast+
  have "expire_tm_loop pow2 lcores c o' vector time chain m (- 1) 0 = None" for o'
    using expire_tm_loop_diverges [OF _ u(2)] u(1) by (metis not_None_eq)
  moreover have "expire_items_tm_loop pow2 lcores c time chain dm (- 1) 0 = None"
    using expire_items_tm_loop_diverges [OF _ u(2)] u(1) by (metis not_None_eq)
  moreover have "expire_locks_loop True pow2 lcores c vector time chain m (- 1) 0 = None"
    using expire_locks_loop_diverges [OF _ TrueI u(2)] u(1) by (metis not_None_eq)
  moreover have "expire_offseted_locks_loop True pow2 lcores c offset vector time chain m False (- 1) 0 = None"
    using expire_offseted_locks_loop_diverges [OF _ TrueI u(2)] u(1) by (metis not_None_eq)
  moreover have "expire_items_locks_loop True pow2 lcores c time chain dm (- 1) 0 = None"
    using expire_items_locks_loop_diverges [OF _ TrueI u(2)] u(1) by (metis not_None_eq)
  ultimately show ?thesis
    by (simp add: expire_items_single_map_tm_def expire_items_single_map_offseted_tm_def expire_items_tm_def
        expire_items_single_map_locks_def expire_items_single_map_offseted_locks_def expire_items_locks_def)
qed

theorem expire_items_cores_stuck_witness:
  "\<exists>chain h' chain'. ex_alloc = Some (1, Some chain, h') \<and> chain_calls [0, 1] ex_shared chain = Some chain' \<and>
     expire_items_single_map_tm True [0, 1] 0 chain' (ex_vector 10 (11 :: nat)) (ex_flows 10 11) 50 = None \<and>
     expire_items_single_map_locks True True [0, 1] 0 chain' (ex_vector 10 (11 :: nat)) (ex_flows 10 11) 50 = None"
proof -
  obtain chain h' chain' where c: "ex_alloc = Some (1, Some chain, h')" "chain_calls [0, 1] ex_shared chain = Some chain'"
    "chain_ok [0, 1] [1] (\<lambda>c. if c < 2 then [0] else []) 2 chain'" "lc_times (chain' 0) = [10, - 1]" "lc_times (chain' 1) = [100, - 1]"
    using ex_shared_run by metis
  have "expire_items_single_map_tm True [0, 1] 0 chain' (ex_vector 10 (11 :: nat)) (ex_flows 10 11) 50 = None \<and>
     expire_items_single_map_locks True True [0, 1] 0 chain' (ex_vector 10 (11 :: nat)) (ex_flows 10 11) 50 = None"
    using expire_items_cores_stuck [OF c(3), of 0 1 0 "[]" 50 True "ex_vector 10 (11 :: nat)" "ex_flows 10 11" 0 "undefined :: (nat, nat, nat) DoubleMap"] c(4,5) by simp
  with c(1,2) show ?thesis by metis
qed

end
