(* ===== verification/Cht_Cores.thy ===== *)
theory Cht_Cores
  imports Cht Expirator_Cores
begin

text \<open>
  The consistent hash table of the parallel programs, \<open>libvig/unverified/cht-locks.c\<close> and \<open>cht-tm.c\<close>. The
  search looks the backends up in the chain of the core that runs it; it finds the same backend on every
  core.
\<close>

declare of_nat_unat [simp del]

section \<open>The code\<close>

definition cht_locks_fill_cht ::
  "u32 Vector \<Rightarrow> u32 \<Rightarrow> u32 \<Rightarrow> (nat \<Rightarrow> int) \<Rightarrow> (nat \<Rightarrow> int) \<Rightarrow> heap \<Rightarrow> (int \<times> u32 Vector \<times> heap) option" where
  "cht_locks_fill_cht = cht_fill_cht"

definition cht_tm_fill_cht ::
  "u32 Vector \<Rightarrow> u32 \<Rightarrow> u32 \<Rightarrow> (nat \<Rightarrow> int) \<Rightarrow> (nat \<Rightarrow> int) \<Rightarrow> heap \<Rightarrow> (int \<times> u32 Vector \<times> heap) option" where
  "cht_tm_fill_cht = cht_fill_cht"

text \<open>The two searches differ in the function \<open>is_allocated\<close> that they call.\<close>

function cht_cores_find_loop ::
  "(int \<Rightarrow> int option) \<Rightarrow> u64 \<Rightarrow> u32 Vector \<Rightarrow> u32 \<Rightarrow> int \<Rightarrow> u32 \<Rightarrow> (int \<times> int) option" where
  "cht_cores_find_loop is_allocated start cht backend_capacity chosen_backend i =
     (if i < backend_capacity then do {
        let candidate_idx = start * ucast backend_capacity + ucast i;
        candidate \<leftarrow> vector_locks_borrow cht (sint (ucast candidate_idx :: u32));
        let backend = sint (v_data cht ! candidate);
        allocated \<leftarrow> is_allocated backend;
        if allocated \<noteq> 0 then Some (1, backend)
        else cht_cores_find_loop is_allocated start cht backend_capacity chosen_backend (i + 1)
      } else Some (0, chosen_backend))"
  by pat_completeness auto
termination
  by (relation "measure (\<lambda>(_, _, _, n, _, i). unat n - unat i)")
    (auto simp: unat_Suc_less word_less_nat_alt intro!: diff_less_mono2)

declare cht_cores_find_loop.simps [simp del]

definition cht_locks_find_preferred_available_backend ::
  "u64 \<Rightarrow> u32 Vector \<Rightarrow> nat \<Rightarrow> DoubleChainLocks \<Rightarrow> u32 \<Rightarrow> u32 \<Rightarrow> int \<Rightarrow> (int \<times> int) option" where
  "cht_locks_find_preferred_available_backend hash cht c active_backends cht_height backend_capacity chosen_backend = do {
     start \<leftarrow> cht_loop hash (ucast cht_height);
     cht_cores_find_loop (dchain_locks_is_index_allocated c active_backends) start cht backend_capacity chosen_backend 0
   }"

definition cht_tm_find_preferred_available_backend ::
  "u64 \<Rightarrow> u32 Vector \<Rightarrow> nat \<Rightarrow> DoubleChainLocks \<Rightarrow> u32 \<Rightarrow> u32 \<Rightarrow> int \<Rightarrow> (int \<times> int) option" where
  "cht_tm_find_preferred_available_backend hash cht c active_backends cht_height backend_capacity chosen_backend = do {
     start \<leftarrow> cht_loop hash (ucast cht_height);
     cht_cores_find_loop (dchain_tm_is_index_allocated c active_backends) start cht backend_capacity chosen_backend 0
   }"

section \<open>The search on one core\<close>

text \<open>The chain of a core as a sequential chain: the search reads the cells only.\<close>

definition core_chain :: "lcore_chain \<Rightarrow> DoubleChain" where
  "core_chain r = \<lparr>ch_cells = lc_cells r, ch_times = replicate (length (lc_times r)) 0\<rparr>"

lemma cht_cores_find_loop_eq:
  "cht_cores_find_loop (dchain_tm_is_index_allocated c chain) start cht n chosen i = cht_find_loop start cht (core_chain (chain c)) n chosen i"
proof (induction start cht "core_chain (chain c)" n chosen i rule: cht_find_loop.induct)
  case (1 start cht n chosen i)
  have "dchain_is_index_allocated (core_chain (chain c)) = dchain_tm_is_index_allocated c chain"
    by (simp add: fun_eq_iff dchain_is_index_allocated_def dchain_tm_is_index_allocated_def core_chain_def)
  then show ?case
    using 1 by (subst cht_cores_find_loop.simps, subst cht_find_loop.simps)
      (auto simp: vector_locks_borrow_def Let_def split: Option.bind_splits)
qed

lemma cht_cores_find_eq:
  "cht_locks_find_preferred_available_backend hash cht c chain cht_height backend_capacity chosen =
     cht_find_preferred_available_backend hash cht (core_chain (chain c)) cht_height backend_capacity chosen"
  "cht_tm_find_preferred_available_backend hash cht c chain cht_height backend_capacity chosen =
     cht_find_preferred_available_backend hash cht (core_chain (chain c)) cht_height backend_capacity chosen"
  by (simp_all add: cht_locks_find_preferred_available_backend_def cht_tm_find_preferred_available_backend_def
      cht_find_preferred_available_backend_def cht_cores_find_loop_eq dchain_locks_is_index_allocated_def)

text \<open>The abstract chain in which all indexes but the free ones \<open>fl\<close> are allocated.\<close>

definition allocated_chain :: "int list \<Rightarrow> int \<Rightarrow> dchain" where
  "allocated_chain fl n = dchain (map (\<lambda>i. (i, 0)) (filter (\<lambda>i. i \<notin> set fl) [0..n - 1])) n 0 0"

lemma allocated_chain_simps [simp]:
  "dchain_index_range_fp (allocated_chain fl n) = n"
  "dchain_allocated_fp (allocated_chain fl n) x \<longleftrightarrow> 0 \<le> x \<and> x < n \<and> x \<notin> set fl"
  by (auto simp: allocated_chain_def)

lemma cht_choose_cong:
  assumes "dchain_index_range_fp ch = dchain_index_range_fp ch'" "\<And>x. dchain_allocated_fp ch x = dchain_allocated_fp ch' x"
  shows "cht_choose hash cht ch = cht_choose hash cht ch'"
proof -
  have "dchain_allocated_fp ch = dchain_allocated_fp ch'" using assms(2) by (simp add: fun_eq_iff)
  then show ?thesis using assms(1) by (simp add: cht_choose_def cht_row_def)
qed

lemma core_chain_ok:
  assumes "chain_ok lcores fl act n chain" "c \<in> set lcores"
  shows "\<exists>ch. double_chainp ch (core_chain (chain c)) \<and> dchain_index_range_fp ch = n \<and>
    (\<forall>x. dchain_allocated_fp ch x = dchain_allocated_fp (allocated_chain fl n) x)"
proof -
  obtain al where al: "dchain_links (lc_cells (chain c)) al (shifted fl) n" and n: "int (length (lc_times (chain c))) = n"
    using chain_okD [OF assms] by (auto simp: row_ok_def)
  let ?ch = "dchain (map (\<lambda>x. (x - 2, 0)) al) n 0 0"
  have mem: "x + 2 \<in> set al \<longleftrightarrow> 0 \<le> x \<and> x < n \<and> x \<notin> set fl" for x
  proof -
    have "x + 2 \<in> set al \<union> set (shifted fl) \<longleftrightarrow> x + 2 \<in> {2..n + 1}" "set al \<inter> set (shifted fl) = {}"
      using al by (auto simp: dchain_links_def)
    then show ?thesis by auto
  qed
  have "bnd_sorted_fp (map (\<lambda>_. 0) al) 0 0" by (induction al) auto
  moreover have "map ((\<lambda>i. i + 2) \<circ> (fst \<circ> (\<lambda>x. (x - 2, 0)))) al = al" by (induction al) auto
  moreover have "\<forall>x\<in>set al. 2 \<le> x \<and> x < n + 2" using dchain_links_member [OF al] by auto
  ultimately have "double_chainp ?ch (core_chain (chain c))"
    using al n by (auto simp: double_chainp_def dchainip_def core_chain_def comp_def)
  moreover have "dchain_allocated_fp ?ch x \<longleftrightarrow> x + 2 \<in> set al" for x by force
  ultimately show ?thesis using mem by (intro exI [of _ ?ch]) simp
qed

section \<open>Properties\<close>

text \<open>
  C28. On every core the two parallel searches return the same: 0 with the output left as it was when no
  backend is allocated, and otherwise 1 with the first allocated backend of the list of preferences of the
  hash, the backend that the sequential search chooses.
\<close>

theorem cht_cores_find_correct:
  assumes "valid_cht (cht_values cht) n (uint cht_height)" "vector_wf cht"
    and "chain_ok lcores fl act n chain" "c \<in> set lcores" "n = uint backend_capacity"
  shows "cht_locks_find_preferred_available_backend hash cht c chain cht_height backend_capacity chosen =
      Some (if {0..<n} \<subseteq> set fl then (0, chosen) else (1, cht_choose (uint hash) (cht_values cht) (allocated_chain fl n))) \<and>
    cht_tm_find_preferred_available_backend hash cht c chain cht_height backend_capacity chosen =
      cht_locks_find_preferred_available_backend hash cht c chain cht_height backend_capacity chosen"
proof -
  obtain ch where ch: "double_chainp ch (core_chain (chain c))" "dchain_index_range_fp ch = n"
    "\<forall>x. dchain_allocated_fp ch x = dchain_allocated_fp (allocated_chain fl n) x"
    using core_chain_ok [OF assms(3,4)] by blast
  have b: "n = int (unat backend_capacity)" "uint cht_height = int (unat cht_height)"
    using assms(5) by (simp_all add: uint_eq_int_unat)
  have "cht_choose (uint hash) (cht_values cht) ch = cht_choose (uint hash) (cht_values cht) (allocated_chain fl n)"
    using ch(2,3) by (intro cht_choose_cong) simp_all
  moreover have "(\<exists>x. dchain_allocated_fp ch x) \<longleftrightarrow> \<not> {0..<n} \<subseteq> set fl" using ch(3) by auto
  ultimately show ?thesis
    using cht_find_spec [of cht "unat backend_capacity" "unat cht_height" ch "core_chain (chain c)" hash chosen]
      cht_exists_iff [of "cht_values cht" "unat backend_capacity" "unat cht_height" ch "core_chain (chain c)" "uint hash"]
      assms(1,2) ch(1,2) b
    by (simp add: cht_cores_find_eq word_of_nat_unat)
qed

text \<open>The table for three backends and a chain of one core in which backends 0 and 1 are allocated.\<close>

theorem cht_cores_find_correct_witness:
  "cht_locks_find_preferred_available_backend 2 ex_cht 7 (\<lambda>_. ex_core) 5 3 (- 1) = Some (1, 0)"
proof -
  have ok: "chain_ok [7] [2] (\<lambda>_. [0, 1]) 3 (\<lambda>_. ex_core)"
    using ex_core_same by (auto simp: chain_ok_def row_ok_def same_chain_def)
  have cht: "valid_cht (cht_values ex_cht) 3 (uint (5 :: u32))" "vector_wf ex_cht" using ex_cht_ok by simp_all
  have c: "(7 :: nat) \<in> set [7]" "(3 :: int) = uint (3 :: u32)" by simp_all
  have "allocated_chain [2] 3 = dchain [(0, 0), (1, 0)] 3 0 0" by (simp add: allocated_chain_def upto.simps)
  moreover have "cht_choose (uint (2 :: u64)) (cht_values ex_cht) (dchain [(0, 0), (1, 0)] 3 0 0) = 0" by code_simp
  moreover have "\<not> {0..<3 :: int} \<subseteq> set [2]" by force
  ultimately show ?thesis using cht_cores_find_correct [OF cht ok c, of 2 "- 1"] by (simp only: if_False)
qed

end
