(* ===== verification/Spec2Isabelle.thy ===== *)
theory Spec2Isabelle
  imports Map_Impl_Pow2 Vignat Vigfw Vigpol Vigbridge Viglb Vigpolifw Vighhh Lpm Double_Map Sketch Main_Loop Nf_Lock Cht_Cores
begin

text \<open>
  A verification development for the Vigor network functions and the library they are built on.

  \<^bold>\<open>The program.\<close> A network function is a C program that takes packets from the devices of a
  machine, looks at their headers, keeps tables in memory and says for each packet on which
  device it leaves. The functions share a library of data structures (\<open>libvig/verified\<close>), a
  way to read a packet in chunks (\<open>packet-io.c\<close>, \<open>nf-util.h\<close>) and a main program (\<open>nf.c\<close>)
  that calls the handler \<open>nf_process\<close> of the function it is linked with. Every network
  function keeps its flows in the same way: a map from keys to indexes, a vector that owns the
  keys, and an allocator that hands out indexes and remembers when each was last used.

  \<^bold>\<open>How C is represented.\<close> A function that may fault returns an option, and \<open>None\<close> stands
  for every way C stops making sense: an access out of bounds, a failed \<open>assert\<close>, signed
  overflow, a division by zero, a use of a released block. \<open>Some\<close> in a theorem is therefore a
  claim that none of these happens. A \<^theory_text>\<open>partial_function\<close> is also \<open>None\<close> where its loop does not end. Unsigned integers are words of their width, signed ones
  are \<open>int\<close> with the range checked (\<open>s32\<close>, \<open>s64\<close>) or wrapped (\<open>s64_wrap\<close>) as the conversion
  in the code does. Objects reached through pointers are passed and returned. A pointer to a
  key is \<open>Ext k\<close>, a key of the caller, or \<open>Slot i\<close>, the cell \<open>i\<close> of the vector that owns
  the keys; the map keeps the pointer and not the key, so writing to the vector changes the
  keys of the map exactly as in the code. The argument \<open>pow2\<close> says which of the two builds of
  the hash table (\<open>map-impl.c\<close>, or \<open>map-impl-pow2.c\<close> under \<open>CAPACITY_POW2\<close>) is linked, and
  every theorem about a map holds for both.

  \<^bold>\<open>The theories and the sources they model.\<close>

  \<^item> \<open>Prelude\<close>: the fault monad, words, arrays and the lemmas on them that everything shares.
  \<^item> \<open>Heap_Alloc\<close>: \<open>malloc\<close> and \<open>free\<close> on a heap of named blocks, with every pattern of failing
    allocations as an argument, so that leaks and double releases are visible.
  \<^item> \<open>Map_Impl\<close>, \<open>Map_Impl_Pow2\<close>: the open addressing hash table, \<open>map-impl.c\<close> and
    \<open>map-impl-pow2.c\<close>, function by function. The locale \<open>probe_loop\<close> states what the
    search loops need of the order in which cells are probed; both builds interpret it.
  \<^item> \<open>Map_Api\<close>: \<open>map.c\<close>. The locale \<open>int_map\<close> is the contract of a map for its clients, and
    \<open>vm\<close> is its interpretation.
  \<^item> \<open>Dchain_Impl\<close>, \<open>Dchain\<close>: the index allocator, \<open>double-chain-impl.c\<close> and
    \<open>double-chain.c\<close>: two linked lists threaded through one array, refined to the abstract
    list of indexes with times that \<open>double-chain.h\<close> states.
  \<^item> \<open>Vector_Api\<close>: \<open>vector.c\<close>.
  \<^item> \<open>Flow_Table\<close>: the coherence of a map, a vector and an allocator, what \<open>proof/coherence.c\<close>
    is about, and \<open>expire_items_single_map\<close> of \<open>expirator.c\<close>. The locale \<open>expiration\<close> is the
    contract of an expiry loop; the single map and the double map both interpret it.
  \<^item> \<open>Double_Map\<close>: \<open>double-map.c\<close>, the map with two keys, with the abstract map of
    \<open>double-map.h\<close> and \<open>expire_items\<close>.
  \<^item> \<open>Emap\<close>: the expiring map of \<open>emap.h\<close>, the vocabulary of the specifications, and the
    refinement of it by a flow table.
  \<^item> \<open>Cht\<close>: \<open>cht.c\<close>, the consistent hash table, with the definitions of \<open>cht.h\<close> and of
    the \<open>.gh\<close> files it uses.
  \<^item> \<open>Lpm\<close>: \<open>lpm-dir-24-8.c\<close>, the two level routing table; its contract is the locale
    \<open>prefix_table\<close>.
  \<^item> \<open>Packet_Io\<close>, \<open>Ether\<close>: \<open>packet-io.c\<close>, the header parsers of \<open>nf-util.h\<close>, the checksum
    functions of \<open>nf-util.c\<close>, and \<open>ether.c\<close>.
  \<^item> \<open>Runs\<close>: sequences of packets given to a handler. The locale \<open>packet_run\<close> is what a statement about a
    sequence needs of the handler, an invariant that every packet keeps; the firewall, the bridge and the load
    balancer interpret it.
  \<^item> \<open>Vignat\<close>, \<open>Vigfw\<close>, \<open>Vigpol\<close>, \<open>Vigbridge\<close>, \<open>Viglb\<close>: the NAT, the firewall, the
    policer, the bridge and the load balancer, each with its \<open>spec.py\<close>.
  \<^item> \<open>Vigpolifw\<close>: the firewall with a policer on the incoming side (\<open>vigpolifw\<close>) or on the outgoing
    side (\<open>vigpoliupfw\<close>). The locale \<open>policing_stage\<close> is what the composed handler needs of its
    policer; the two directions interpret it.
  \<^item> \<open>Vighhh\<close>: the detector of heavy prefixes, one table of buckets per configured prefix length, with the
    allocation of its state.
  \<^item> \<open>Sketch\<close>: \<open>unverified/sketch.c\<close>.
  \<^item> \<open>Main_Loop\<close>: \<open>nf.c\<close> and \<open>vigor-time.c\<close>: device set up, the worker loop, flooding, and the
    batched loop. The locale \<open>network_function\<close> is what the loop needs of a handler; all five
    network functions interpret it.
  \<^item> \<open>Nf_Lock\<close>: the reader and writer lock of the parallel programs (\<open>synthesized/boilerplate/locks.c\<close>) and
    the part of their worker that uses it, as steps of cores that interleave in any order.
  \<^item> \<open>Dchain_Cores\<close>: the index allocator with one chain per core, \<open>unverified/double-chain-locks.c\<close>,
    \<open>double-chain-locks-impl.c\<close> and their copies for transactional memory.
  \<^item> \<open>Expirator_Cores\<close>: the guarded maps (\<open>map-locks.c\<close>, \<open>double-map-locks.c\<close>) and the expirators of the
    parallel programs (\<open>expirator-locks.c\<close>, \<open>expirator-tm.c\<close>).
  \<^item> \<open>Cht_Cores\<close>: the consistent hash table of the parallel programs (\<open>cht-locks.c\<close>, \<open>cht-tm.c\<close>).

  \<^bold>\<open>What is shown.\<close>

  \<^item> Each of the five handlers implements its \<open>spec.py\<close>: it does not fault, its decision and the headers it
    writes are those of the specification, and so is its table. For the firewall and the bridge this holds for every
    packet with an Ethernet header. For the NAT and the load balancer the device is a configured one
    and the buffer has room for the checksum behind the packet; for the NAT a packet from outside must also have a
    destination port of its range, as the code faults on others. For the policer the rate divides the burst
    size, and the first packet to an address is treated differently from the specification when it is larger than that.
  \<^item> What users of the functions rely on: the translation of the NAT is undone for replies and
    lets nothing else in, and a port stands for one flow; replies pass the firewall; the policer
    lets through no more than burst plus rate times time and serves an address that has been
    silent for long enough and has an entry or room for one; the bridge learns; the load balancer keeps flows on
    their backend, and removing a backend moves only the flows it had. A flow or an address is remembered as long
    as it does not expire, whatever packets come in between, if it got into the table, which
    may be full.
  \<^item> The worker loop with any of the functions does not fault in any number of rounds and keeps the invariant of
    the function, on packets that meet the conditions above. It calls \<open>abort\<close> only in the build without \<open>VIGOR_ALLOW_DROPS\<close>
    and when a device refuses a packet. Flooding sends to every device but the one of origin.
  \<^item> The parallel programs: from when all cores have set up the lock, it keeps a writer alone in the handler and
    the tables written under a guard unchanged while a core reads, and never locks up; a core that starts
    late breaks it, and what is written without a guard is not protected from readers. The cores always agree
    on which indexes are allocated and on the backend of a hash; an index is only freed when no core has used
    it; two of the expirators without the right to write change nothing, the third does not return when there is something to expire. With
    one core the expirators are the sequential one; with more they do not return a result once an index that is
    too old for one core is used by another, which is a defect of the code.
  \<^item> Each data structure of the sequential library refines the abstract structure of its header file; both hash tables
    agree; allocating a map, a vector, an allocator or a double map either succeeds or gives back all it took.
    This is not so for the allocator of the parallel programs (\<open>dchain_locks_allocate_leaks\<close>).
  \<^item> The loops of the sequential programs end: the loops with a counter are total functions by a measure, and what
    ends only because of the state it runs in (the expiry loops and the retry of the load
    balancer) is a \<^theory_text>\<open>partial_function\<close> shown to return in every well formed state.

  \<^bold>\<open>Bounds.\<close> Capacities are below the limits the code states (\<open>IRANG_LIMIT\<close> of the
  allocator, \<open>CAPACITY_UPPER_LIMIT\<close> of the map, \<open>MAX_CHT_HEIGHT\<close>); times are non-negative
  64 bit integers and expiration times fit the 32 bits of the configuration. No theorem uses
  fuel except through the number of rounds the worker is asked to run, which is arbitrary.

  \<^bold>\<open>Parameters.\<close> The structures \<open>State\<close> and the functions on keys that the build generates
  from \<open>dataspec.ml\<close>, the checksum and CRC instructions, the functions of DPDK and the clock of
  the system are arguments, with what is assumed of them as hypotheses of the theorems.

  \<^bold>\<open>Not modelled.\<close> Reading command line options and printing them (\<open>*_config.c\<close>,
  \<open>nf-parse.h\<close>, \<open>nf-log.h\<close>) and the kernel of the stand alone build (\<open>libvig/kernel\<close>) are
  input and output. The connection limiter (\<open>vigcl\<close>), the port scan detector (\<open>vigpsd\<close>), the forwarders
  without state (\<open>vignop\<close>, \<open>vigfwd\<close>, \<open>vigresize\<close>) and the variants \<open>vigbridge-static\<close>,
  \<open>vignat-parallelizable\<close>, \<open>vigpolinat\<close> and \<open>vigpoliupnat\<close> are not modelled, though the library they use is;
  neither are \<open>sketch-locks.c\<close> and \<open>sketch-tm.c\<close>. The models for symbolic execution (\<open>libvig/models\<close>), the ghost lemmas of
  \<open>libvig/proof\<close> and the annotations in the sources are the tools of another proof of the same
  code: the definitions the headers use are modelled, the proofs are replaced by the ones
  here. The parallel programs are modelled over a sequentially consistent memory; the weaker
  orders that the processor allows, the hardware transactions of \<open>boilerplate/tm.c\<close>, and
  the generators and measuring tools of \<open>synthesized\<close> are not described by the sources or are not part
  of the packet path. The OCaml and Python programs of \<open>validator\<close>, \<open>codegen\<close> and \<open>bench\<close>
  and the baselines of other systems (\<open>click-*\<close>, \<open>moonpol\<close>) are not part of a network function.
\<close>

end
